(* ===== verification/FAM_Prelude.thy ===== *)
theory FAM_Prelude
  imports Main "HOL-Library.Word" "HOL-Library.Multiset"
begin

text \<open>
  Shared vocabulary of the development: the machine integer types of the C++ sources, the
  collections of simplification facts the components extend, and the generic facts on words,
  lists and per-thread counters that more than one component uses.
\<close>

unbundle bit_operations_syntax

type_synonym u8 = "8 word"
type_synonym u32 = "32 word"
type_synonym u64 = "64 word"

text \<open>A worker is the index \<open>tbb::this_task_arena::current_thread_index()\<close> gives it.\<close>

type_synonym worker = nat

named_theorems word_arith \<open>exact arithmetic of words under a bound\<close>
named_theorems bitmap_simps \<open>the abstract effect of bitmap operations\<close>

subsection \<open>Words whose arithmetic does not wrap\<close>

lemma unat_u32_lt: "unat (x :: u32) < 2 ^ 32"
  using unsigned_less [of x] by simp

lemma unat_u64_lt: "unat (x :: u64) < 2 ^ 64"
  using unsigned_less [of x] by simp

lemma unat_inc [word_arith]:
  fixes x y :: "'a::len word"
  assumes "x < y"
  shows "unat (x + 1) = Suc (unat x)"
proof -
  have "unat x < unat y" using assms by (simp add: word_less_nat_alt)
  moreover have "unat y < 2 ^ LENGTH('a)" by (rule unsigned_less)
  ultimately have "unat x + 1 < 2 ^ LENGTH('a)" by linarith
  then show ?thesis by (simp add: unat_word_ariths)
qed

lemma inc_le_word: "x < y \<Longrightarrow> (x + 1 :: 'a::len word) \<le> y"
  by (simp add: word_le_nat_alt unat_inc [of x y] word_less_nat_alt Suc_leI)

lemma unat_add_u32 [word_arith]:
  "unat x + unat y < 2 ^ 32 \<Longrightarrow> unat (x + y :: u32) = unat x + unat y"
  by (simp add: unat_word_ariths)

lemma unat_add_u64 [word_arith]:
  "unat x + unat y < 2 ^ 64 \<Longrightarrow> unat (x + y :: u64) = unat x + unat y"
  by (simp add: unat_word_ariths)

lemma unat_mult_u32 [word_arith]:
  "unat x * unat y < 2 ^ 32 \<Longrightarrow> unat (x * y :: u32) = unat x * unat y"
  by (simp add: unat_word_ariths)

lemma unat_mult_u64 [word_arith]:
  "unat x * unat y < 2 ^ 64 \<Longrightarrow> unat (x * y :: u64) = unat x * unat y"
  by (simp add: unat_word_ariths)

lemma unat_sub_word [word_arith]:
  "y \<le> x \<Longrightarrow> unat (x - y :: 'a::len word) = unat x - unat y"
  by (simp add: unat_sub)

lemma unat_of_nat_u32 [word_arith]: "n < 2 ^ 32 \<Longrightarrow> unat (of_nat n :: u32) = n"
  by (simp add: unat_of_nat)

lemma unat_of_nat_u64 [word_arith]: "n < 2 ^ 64 \<Longrightarrow> unat (of_nat n :: u64) = n"
  by (simp add: unat_of_nat)

subsection \<open>Per-thread counters\<close>

text \<open>
  The contents of a \<open>tbb::combinable\<close> (or \<open>tbb::enumerable_thread_specific\<close>): one element per
  worker that has called \<open>local()\<close>, value-initialised to the first argument of
  \<open>tls_modify\<close>. \<open>tls_sum\<close> is \<open>combine\<close> with \<open>std::plus\<close>, \<open>[]\<close> is what \<open>clear()\<close> leaves.
\<close>

type_synonym 'a combinable = "(worker \<times> 'a) list"

fun tls_modify :: "'a \<Rightarrow> worker \<Rightarrow> ('a \<Rightarrow> 'a) \<Rightarrow> 'a combinable \<Rightarrow> 'a combinable" where
  "tls_modify z t f [] = [(t, f z)]"
| "tls_modify z t f ((u, x) # c) = (if u = t then (u, f x) # c else (u, x) # tls_modify z t f c)"

definition tls_sum :: "'a::monoid_add combinable \<Rightarrow> 'a" where
  "tls_sum c = sum_list (map snd c)"

lemma tls_sum_Nil [simp]: "tls_sum [] = 0"
  by (simp add: tls_sum_def)

lemma tls_sum_add [simp]:
  "tls_sum (tls_modify 0 t (\<lambda>x. x + d) c) = tls_sum c + (d :: 'a::comm_monoid_add)"
  by (induction c) (auto simp: tls_sum_def ac_simps)

lemma tls_sum_set_fresh [simp]: "tls_sum (tls_modify 0 t (\<lambda>_. d) []) = d"
  by (simp add: tls_sum_def)

subsection \<open>Writing a constant to a prefix of an array\<close>

lemma fold_list_update_const:
  assumes "n \<le> length xs"
  shows "fold (\<lambda>i d. d[i := c]) [0..<n] xs = replicate n c @ drop n xs"
  using assms
proof (induction n)
  case 0
  then show ?case by simp
next
  case (Suc n)
  then have "fold (\<lambda>i d. d[i := c]) [0..<n] xs = replicate n c @ drop n xs" by simp
  with Suc.prems show ?case
    by (simp add: list_update_append Cons_nth_drop_Suc [symmetric] replicate_append_same)
qed

text \<open>Arrays indexed by a word.\<close>

lemma nth_update_unat:
  "unat w < length xs \<Longrightarrow> xs[unat w := y] ! unat v = (if v = w then y else xs ! unat (v :: 'a::len word))"
  by (simp add: nth_list_update word_unat_eq_iff eq_commute)

subsection \<open>Loops over a 32-bit index\<close>

text \<open>
  The values the index of \<open>for (uint32_t i = a; i < b; ++i)\<close> takes: the increment never wraps
  because \<open>i < b\<close> holds before it.
\<close>

definition u32_range :: "u32 \<Rightarrow> u32 \<Rightarrow> u32 list" where
  "u32_range a b = map of_nat [unat a..<unat b]"

lemma of_nat_u32_inj: "i < 2 ^ 32 \<Longrightarrow> j < 2 ^ 32 \<Longrightarrow> (of_nat i :: u32) = of_nat j \<longleftrightarrow> i = j"
  by (metis unat_of_nat_u32)

lemma set_u32_range [simp]: "set (u32_range a b) = {i. a \<le> i \<and> i < b}"
proof
  show "set (u32_range a b) \<subseteq> {i. a \<le> i \<and> i < b}"
  proof
    fix x assume "x \<in> set (u32_range a b)"
    then obtain k where k: "unat a \<le> k" "k < unat b" "x = of_nat k" by (auto simp: u32_range_def)
    then have "unat x = k" using unat_u32_lt [of b] by (auto intro!: unat_of_nat_u32)
    with k show "x \<in> {i. a \<le> i \<and> i < b}" by (simp add: word_le_nat_alt word_less_nat_alt)
  qed
  show "{i. a \<le> i \<and> i < b} \<subseteq> set (u32_range a b)"
  proof
    fix x assume "x \<in> {i. a \<le> i \<and> i < b}"
    then have "unat x \<in> {unat a..<unat b}" by (simp add: word_le_nat_alt word_less_nat_alt)
    then have "(of_nat (unat x) :: u32) \<in> of_nat ` {unat a..<unat b}" by (rule imageI)
    then show "x \<in> set (u32_range a b)" by (simp add: u32_range_def)
  qed
qed

lemma distinct_u32_range [simp]: "distinct (u32_range a b)"
proof -
  have "inj_on (of_nat :: nat \<Rightarrow> u32) {unat a..<unat b}"
    using unat_u32_lt [of b] by (auto simp: inj_on_def of_nat_u32_inj)
  then show ?thesis by (simp add: u32_range_def distinct_map)
qed

lemma u32_range_empty [simp]: "b \<le> a \<Longrightarrow> u32_range a b = []"
  by (simp add: u32_range_def word_le_nat_alt)

lemma u32_range_Cons: "a < b \<Longrightarrow> u32_range a b = a # u32_range (a + 1) b"
  by (simp add: u32_range_def unat_inc [of a b] upt_conv_Cons word_less_nat_alt)

lemma u32_range_append: "a \<le> b \<Longrightarrow> b \<le> c \<Longrightarrow> u32_range a c = u32_range a b @ u32_range b c"
  using upt_add_eq_append [of "unat a" "unat b" "unat c - unat b"]
  by (simp add: u32_range_def word_le_nat_alt)

lemma u32_range_snoc: "a \<le> b \<Longrightarrow> b < c \<Longrightarrow> u32_range a (b + 1) = u32_range a b @ [b]"
  using u32_range_append [of a b "b + 1"] u32_range_Cons [of b "b + 1"]
  by (simp add: word_le_nat_alt word_less_nat_alt unat_inc [of b c])

lemma map_unat_u32_range: "map unat (u32_range a b) = [unat a..<unat b]"
proof -
  have "unat (of_nat k :: u32) = k" if "k \<in> set [unat a..<unat b]" for k
    using that unat_u32_lt [of b] by (intro unat_of_nat_u32) simp
  then have "map (\<lambda>k. unat (of_nat k :: u32)) [unat a..<unat b] = map id [unat a..<unat b]"
    by (intro map_cong) auto
  then show ?thesis by (simp add: u32_range_def comp_def)
qed

subsection \<open>Little-endian bytes of a word\<close>

text \<open>
  What \<open>read\<close> and \<open>write\<close> through a \<open>char\<close> pointer see of an unsigned integer on the
  little-endian machines the program runs on.
\<close>

definition le_bytes :: "nat \<Rightarrow> 'a::len word \<Rightarrow> u8 list" where
  "le_bytes n w = map (\<lambda>k. ucast (drop_bit (8 * k) w)) [0..<n]"

fun le_word :: "u8 list \<Rightarrow> 'a::len word" where
  "le_word [] = 0"
| "le_word (b # bs) = ucast b OR push_bit 8 (le_word bs)"

lemma length_le_bytes [simp]: "length (le_bytes n w) = n"
  by (simp add: le_bytes_def)

lemma bit_le_word:
  "bit (le_word bs :: 'a::len word) n \<longleftrightarrow>
     n < LENGTH('a) \<and> n div 8 < length bs \<and> bit (bs ! (n div 8)) (n mod 8)"
proof (induction bs arbitrary: n)
  case (Cons b bs)
  show ?case
  proof (cases "n < 8")
    case True
    then show ?thesis by (auto simp: bit_or_iff bit_push_bit_iff bit_ucast_iff)
  next
    case False
    then obtain m where m: "n = m + 8" by (metis add.commute le_add_diff_inverse not_less)
    have "\<not> bit b n" using False by (auto dest: bit_imp_le_length)
    moreover have "n div 8 = Suc (m div 8)" "n mod 8 = m mod 8" using m by simp_all
    ultimately show ?thesis
      using Cons.IH [of m] m by (auto simp: bit_or_iff bit_push_bit_iff bit_ucast_iff)
  qed
qed simp

lemma le_word_le_bytes:
  assumes "LENGTH('a) \<le> 8 * n"
  shows "le_word (le_bytes n w) = (w :: 'a::len word)"
proof (rule bit_word_eqI)
  fix k assume k: "k < LENGTH('a)"
  then have "k div 8 < n" using assms by linarith
  then show "bit (le_word (le_bytes n w) :: 'a word) k = bit w k"
    using k by (simp add: bit_le_word le_bytes_def bit_ucast_iff bit_drop_bit_eq)
qed

lemma length_concat_le_bytes [simp]: "length (concat (map (le_bytes n) ws)) = n * length ws"
  by (induction ws) auto

text \<open>The array of \<open>m\<close> words of \<open>n\<close> bytes each that starts at the first byte.\<close>

primrec le_words :: "nat \<Rightarrow> nat \<Rightarrow> u8 list \<Rightarrow> 'a::len word list" where
  "le_words n 0 bs = []"
| "le_words n (Suc m) bs = le_word (take n bs) # le_words n m (drop n bs)"

lemma le_words_written:
  assumes "LENGTH('a) \<le> 8 * n"
  shows "le_words n (length ws) (concat (map (le_bytes n) ws) @ rest) = (ws :: 'a::len word list)"
  by (induction ws) (simp_all add: le_word_le_bytes [OF assms])

lemma length_le_words [simp]: "length (le_words n m bs) = m"
  by (induction m arbitrary: bs) auto

end
