(* ===== verification/Vertex_Table.thy ===== *)
theory Vertex_Table
  imports FAM_Prelude
begin

text \<open>
  The vertex index of the client, \<open>src/src/vertex_table.hpp\<close> and \<open>vertex_table.cpp\<close>: entry \<open>v\<close> is
  the offset of the first out-edge of \<open>v\<close> in the edge array that the server holds. The theory has
  the reader of the \<open>.idx\<close> file with its error paths, the degree computations, and the abstract
  view of a well-formed index (\<open>csr_ok\<close>): offsets, degrees and adjacency lists over \<open>nat\<close>.
\<close>

subsection \<open>Data and files\<close>

record vertex =
  edge_offset :: u64

text \<open>The answers of \<open>boost::filesystem\<close> and of opening a stream, for one path.\<close>

record file_entry =
  regular :: bool
  opens :: bool
  contents :: "u8 list"

type_synonym file_system = "string \<Rightarrow> file_entry option"

datatype fam_error =
    Runtime_error string
  | Bad_numeric_cast

subsection \<open>Operations\<close>

definition get_num_verts :: "file_system \<Rightarrow> string \<Rightarrow> fam_error + u32" where
  "get_num_verts fs file =
     (case fs file of
        Some f \<Rightarrow>
          if regular f then
            let file_size = (of_nat (length (contents f)) :: u64);
                num_vertices = file_size div 8
            in if unat num_vertices < 2 ^ 32 then Inr (ucast num_vertices) else Inl Bad_numeric_cast
          else Inl (Runtime_error ''couldn't read num verts'')
      | None \<Rightarrow> Inl (Runtime_error ''couldn't read num verts''))"

definition get_num_edges :: "u32 \<Rightarrow> vertex list \<Rightarrow> u32 \<Rightarrow> u64 \<Rightarrow> u32" where
  "get_num_edges v table total_verts total_edges =
     (let start_range = edge_offset (table ! unat v);
          max_exclusive = (if v = total_verts - 1 then total_edges
                           else edge_offset (table ! unat (v + 1)))
      in ucast (max_exclusive - start_range))"

definition get_max_out_degree :: "vertex list \<Rightarrow> u32 \<Rightarrow> u64 \<Rightarrow> u32" where
  "get_max_out_degree vtable n_vert n_edges =
     fold (\<lambda>v my_max. max my_max (get_num_edges v vtable n_vert n_edges)) (u32_range 0 n_vert) 0"

text \<open>The read loop of \<open>get_vertex_table\<close>: eight bytes per entry, an error on a short read.\<close>

fun read_index :: "nat \<Rightarrow> u8 list \<Rightarrow> fam_error + vertex list" where
  "read_index 0 bs = Inr []"
| "read_index (Suc n) bs =
     (if length (take 8 bs) \<noteq> 8 then Inl (Runtime_error ''can't read index data'')
      else case read_index n (drop 8 bs) of
             Inl e \<Rightarrow> Inl e
           | Inr vs \<Rightarrow> Inr (\<lparr> edge_offset = le_word (take 8 bs) \<rparr> # vs))"

text \<open>\<open>vinit\<close> is the default-constructed \<open>V\<close> that \<open>mmap_unique\<close> places in every slot.\<close>

definition get_vertex_table ::
    "file_system \<Rightarrow> 'v \<Rightarrow> string \<Rightarrow> u64 \<Rightarrow> fam_error + (vertex list \<times> 'v list)" where
  "get_vertex_table fs vinit file num_vertices =
     (case fs file of
        Some f \<Rightarrow>
          if regular f then
            if opens f then
              case read_index (unat num_vertices) (contents f) of
                Inl e \<Rightarrow> Inl e
              | Inr vs \<Rightarrow> Inr (vs, replicate (unat num_vertices) vinit)
            else Inl (Runtime_error ''stream open error'')
          else Inl (Runtime_error ''file not found'')
      | None \<Rightarrow> Inl (Runtime_error ''file not found''))"

subsection \<open>Offsets, degrees and adjacency of a well-formed index\<close>

definition off :: "vertex list \<Rightarrow> u64 \<Rightarrow> nat \<Rightarrow> nat" where
  "off table m v = (if v < length table then unat (edge_offset (table ! v)) else unat m)"

definition deg :: "vertex list \<Rightarrow> u64 \<Rightarrow> nat \<Rightarrow> nat" where
  "deg table m v = off table m (Suc v) - off table m v"

definition adj :: "'e list \<Rightarrow> vertex list \<Rightarrow> u64 \<Rightarrow> nat \<Rightarrow> 'e list" where
  "adj remote table m v = take (deg table m v) (drop (off table m v) remote)"

definition csr_ok :: "vertex list \<Rightarrow> u32 \<Rightarrow> u64 \<Rightarrow> bool" where
  "csr_ok table n m \<longleftrightarrow> length table = unat n \<and>
     (\<forall>v < length table. off table m v \<le> off table m (Suc v) \<and> deg table m v < 2 ^ 32)"

lemma csr_ok_length: "csr_ok table n m \<Longrightarrow> length table = unat n"
  by (simp add: csr_ok_def)

lemma off_mono:
  assumes "csr_ok table n m" "v \<le> w" "w \<le> unat n"
  shows "off table m v \<le> off table m w"
  using assms(2,3)
proof (induction w rule: dec_induct)
  case (step w)
  then show ?case using assms(1) by (auto simp: csr_ok_def intro: le_trans)
qed simp

lemma off_end: "csr_ok table n m \<Longrightarrow> off table m (unat n) = unat m"
  by (simp add: off_def csr_ok_def)

lemma off_Suc: "csr_ok table n m \<Longrightarrow> v < unat n \<Longrightarrow> off table m (Suc v) = off table m v + deg table m v"
  by (simp add: csr_ok_def deg_def)

lemma off_le_end: "csr_ok table n m \<Longrightarrow> v \<le> unat n \<Longrightarrow> off table m v \<le> unat m"
  using off_mono [of table n m v "unat n"] by (simp add: off_end)

text \<open>The code's degree is the abstract one: no borrow, no truncation of the 64-bit difference.\<close>

lemma get_num_edges_deg:
  assumes "csr_ok table n m" "v < n"
  shows "unat (get_num_edges v table n m) = deg table m (unat v)"
proof -
  let ?e = "if v = n - 1 then m else edge_offset (table ! unat (v + 1))"
  have v: "unat v < unat n" using assms(2) by (simp add: word_less_nat_alt)
  have n1: "v = n - 1 \<longleftrightarrow> Suc (unat v) = unat n"
  proof -
    have "v = n - 1 \<longleftrightarrow> v + 1 = n" by (metis add_diff_cancel diff_add_cancel)
    also have "\<dots> \<longleftrightarrow> Suc (unat v) = unat n"
      using unat_inc [OF assms(2)] by (metis word_unat_eq_iff)
    finally show ?thesis .
  qed
  have e: "unat ?e = off table m (Suc (unat v))"
    using n1 v assms(1) unat_inc [OF assms(2)] by (auto simp: off_def csr_ok_def)
  have s: "unat (edge_offset (table ! unat v)) = off table m (unat v)"
    using v assms(1) by (simp add: off_def csr_ok_def)
  have ok: "off table m (unat v) \<le> off table m (Suc (unat v))" "deg table m (unat v) < 2 ^ 32"
    using v assms(1) by (auto simp: csr_ok_def)
  have "edge_offset (table ! unat v) \<le> ?e" using e s ok by (simp add: word_le_nat_alt)
  then have "unat (?e - edge_offset (table ! unat v)) = deg table m (unat v)"
    using e s by (simp add: unat_sub_word deg_def)
  then have "unat (ucast (?e - edge_offset (table ! unat v)) :: u32) = deg table m (unat v)"
    using ok by (simp add: unsigned_ucast_eq take_bit_nat_eq_self)
  then show ?thesis by (simp add: get_num_edges_def Let_def)
qed

lemma length_adj:
  assumes "csr_ok table n m" "v < unat n" "length remote = unat m"
  shows "length (adj remote table m v) = deg table m v"
  using off_Suc [OF assms(1,2)] off_le_end [OF assms(1), of "Suc v"] assms(2,3)
  by (simp add: adj_def)

text \<open>The adjacency lists of consecutive vertices are contiguous in the edge array.\<close>

lemma adj_contiguous:
  assumes "csr_ok table n m" "a \<le> b" "b \<le> unat n"
  shows "concat (map (adj remote table m) [a..<b]) =
           take (off table m b - off table m a) (drop (off table m a) remote)"
  using assms(2,3)
proof (induction b rule: dec_induct)
  case (step b)
  have o: "off table m (Suc b) = off table m b + deg table m b" "off table m a \<le> off table m b"
    using off_Suc [OF assms(1)] off_mono [OF assms(1)] step by auto
  then have d: "off table m (Suc b) - off table m a = (off table m b - off table m a) + deg table m b"
    by simp
  have "drop (off table m b) remote = drop (off table m b - off table m a) (drop (off table m a) remote)"
    using o(2) by (simp add: add.commute)
  then show ?case
    using step by (simp add: adj_def d take_add)
qed simp

lemma fold_max_props:
  fixes f :: "'a \<Rightarrow> 'b::linorder"
  shows "a \<le> fold (\<lambda>x m. max m (f x)) xs a"
    and "x \<in> set xs \<Longrightarrow> f x \<le> fold (\<lambda>x m. max m (f x)) xs a"
    and "fold (\<lambda>x m. max m (f x)) xs a = a \<or> (\<exists>x\<in>set xs. fold (\<lambda>x m. max m (f x)) xs a = f x)"
proof -
  show ge: "a \<le> fold (\<lambda>x m. max m (f x)) xs a" for xs :: "'a list" and a
  proof (induction xs arbitrary: a)
    case (Cons y xs)
    show ?case using Cons.IH [of "max a (f y)"] by (auto intro: order_trans [of a "max a (f y)"])
  qed simp
  show "x \<in> set xs \<Longrightarrow> f x \<le> fold (\<lambda>x m. max m (f x)) xs a"
  proof (induction xs arbitrary: a)
    case (Cons y xs)
    have "max a (f y) \<le> fold (\<lambda>x m. max m (f x)) xs (max a (f y))" by (rule ge)
    then show ?case using Cons by (auto intro: order_trans [of _ "max a (f y)"])
  qed simp
  show "fold (\<lambda>x m. max m (f x)) xs a = a \<or> (\<exists>x\<in>set xs. fold (\<lambda>x m. max m (f x)) xs a = f x)"
  proof (induction xs arbitrary: a)
    case (Cons y xs)
    show ?case using Cons.IH [of "max a (f y)"] by (auto simp: max_def split: if_splits)
  qed simp
qed

lemma read_index_written:
  "read_index (length ixs) (concat (map (le_bytes 8) ixs) @ rest) = Inr (map vertex.make ixs)"
  by (induction ixs) (auto simp: le_word_le_bytes vertex.make_def)

lemma get_num_verts_written:
  assumes "fs file = Some \<lparr> regular = True, opens = True, contents = concat (map (le_bytes 8) (ixs :: u64 list)) \<rparr>"
    and "length ixs < 2 ^ 32"
  shows "get_num_verts fs file = Inr (of_nat (length ixs))"
proof -
  have n: "unat (of_nat (8 * length ixs) :: u64) = 8 * length ixs"
    using assms(2) by (intro unat_of_nat_u64) simp
  have d: "unat ((of_nat (8 * length ixs) :: u64) div 8) = length ixs"
    using n by (simp add: unat_div_distrib)
  have u: "unat (of_nat (length ixs) :: u32) = length ixs" using assms(2) by (rule unat_of_nat_u32)
  have c: "ucast ((of_nat (8 * length ixs) :: u64) div 8) = (of_nat (length ixs) :: u32)"
    using d u assms(2) by (intro word_unat_eq_iff [THEN iffD2])
      (simp add: unsigned_ucast_eq take_bit_nat_eq_self)
  show ?thesis using assms d c by (simp only: get_num_verts_def length_concat_le_bytes Let_def) (simp add: length_concat_le_bytes)
qed

lemma get_vertex_table_written:
  assumes "fs file = Some \<lparr> regular = True, opens = True, contents = concat (map (le_bytes 8) ixs) \<rparr>"
    and "length ixs < 2 ^ 32"
  shows "get_vertex_table fs vinit file (ucast (of_nat (length ixs) :: u32)) =
           Inr (map vertex.make ixs, replicate (length ixs) vinit)"
proof -
  have "unat (of_nat (length ixs) :: u32) = length ixs" using assms(2) by (rule unat_of_nat_u32)
  then have "unat (ucast (of_nat (length ixs) :: u32) :: u64) = length ixs"
    using assms(2) by (simp add: unsigned_ucast_eq take_bit_nat_eq_self)
  then show ?thesis using assms read_index_written [of ixs "[]"] by (simp add: get_vertex_table_def)
qed

lemma read_index_short:
  "(\<exists>vs. read_index n bs = Inr vs) \<longleftrightarrow> 8 * n \<le> length bs"
proof (induction n bs rule: read_index.induct)
  case (2 n bs)
  show ?case
  proof (cases "8 \<le> length bs")
    case True
    then have "(\<exists>vs. read_index n (drop 8 bs) = Inr vs) \<longleftrightarrow> 8 * Suc n \<le> length bs"
      using "2.IH" by auto
    with True show ?thesis by (cases "read_index n (drop 8 bs)") auto
  qed simp
qed simp

subsection \<open>Properties\<close>

text \<open>
  The out-edges of the vertices partition the edge array. For a well-formed index that starts
  at offset zero, reading \<open>get_num_edges v\<close> entries at \<open>table[v].edge_offset\<close> for
  \<open>v = 0, 1, \<dots>\<close> yields the whole remote edge array, in order, each entry exactly once.
\<close>

lemma adjacency_partition:
  assumes "csr_ok table n m" "off table m 0 = 0" "length remote = unat m"
  shows "concat (map (\<lambda>v. take (unat (get_num_edges v table n m))
                           (drop (unat (edge_offset (table ! unat v))) remote)) (u32_range 0 n)) = remote"
proof -
  have "map (\<lambda>v. take (unat (get_num_edges v table n m)) (drop (unat (edge_offset (table ! unat v))) remote))
          (u32_range 0 n) = map (adj remote table m \<circ> unat) (u32_range 0 n)"
    using assms(1) by (intro map_cong)
      (auto simp: adj_def get_num_edges_deg off_def csr_ok_def word_less_nat_alt)
  also have "concat \<dots> = concat (map (adj remote table m) [0..<unat n])"
    using map_unat_u32_range [of 0 n] by (metis map_map unat_0)
  also have "\<dots> = remote"
    using adj_contiguous [OF assms(1), of 0 "unat n"] assms(2,3) off_end [OF assms(1)]
    by (simp add: adj_contiguous [OF assms(1), of 0 "unat n" remote])
  finally show ?thesis .
qed

lemma adjacency_partition_witness:
  "concat (map (\<lambda>v. take (unat (get_num_edges v (map vertex.make [0, 2, 2]) 3 5))
     (drop (unat (edge_offset (map vertex.make [0, 2, 2] ! unat v))) [1, 2, 0, 1, 2 :: u32])) (u32_range 0 3))
   = [1, 2, 0, 1, 2]"
proof -
  have "csr_ok (map vertex.make [0, 2, 2]) 3 5"
    by (auto simp: csr_ok_def off_def deg_def vertex.make_def less_Suc_eq)
  moreover have "off (map vertex.make [0, 2, 2]) 5 0 = 0" by (simp add: off_def vertex.make_def)
  ultimately show ?thesis by (rule adjacency_partition) simp
qed

text \<open>
  \<open>get_max_out_degree\<close> is the exact maximum of the out-degrees (zero for no vertex), so an edge
  buffer of that many entries holds any one adjacency list.
\<close>

lemma max_out_degree_exact:
  "get_max_out_degree table n m = Max (insert 0 ((\<lambda>v. get_num_edges v table n m) ` {v. v < n}))"
proof (rule Max_eqI [symmetric])
  let ?f = "\<lambda>v. get_num_edges v table n m"
  show "finite (insert 0 (?f ` {v. v < n}))" by simp
  show "y \<le> get_max_out_degree table n m" if "y \<in> insert 0 (?f ` {v. v < n})" for y
    using that fold_max_props(2) [of _ "u32_range 0 n" ?f 0] by (auto simp: get_max_out_degree_def)
  show "get_max_out_degree table n m \<in> insert 0 (?f ` {v. v < n})"
    using fold_max_props(3) [of ?f "u32_range 0 n" 0] by (auto simp: get_max_out_degree_def)
qed

text \<open>
  Round trip through the index file. A regular, readable file that holds the 64-bit offsets
  one after the other, fewer than \<open>2 ^ 32\<close> of them, is read back as exactly these offsets:
  \<open>get_num_verts\<close> gives their number and \<open>get_vertex_table\<close> the table, with one default value per
  vertex in the second array.
\<close>

lemma index_file_roundtrip:
  assumes "fs file = Some \<lparr> regular = True, opens = True, contents = concat (map (le_bytes 8) ixs) \<rparr>"
    and "length ixs < 2 ^ 32"
  shows "get_num_verts fs file = Inr (of_nat (length ixs)) \<and>
         get_vertex_table fs vinit file (ucast (of_nat (length ixs) :: u32)) =
           Inr (map vertex.make ixs, replicate (length ixs) vinit)"
  using assms by (intro conjI get_num_verts_written get_vertex_table_written)

lemma index_file_roundtrip_witness:
  "get_num_verts (\<lambda>_. Some \<lparr> regular = True, opens = True, contents = concat (map (le_bytes 8) [0, 258 :: u64]) \<rparr>) ''g.idx''
     = Inr 2 \<and>
   get_vertex_table (\<lambda>_. Some \<lparr> regular = True, opens = True, contents = concat (map (le_bytes 8) [0, 258 :: u64]) \<rparr>)
     () ''g.idx'' 2 = Inr ([\<lparr> edge_offset = 0 \<rparr>, \<lparr> edge_offset = 258 \<rparr>], [(), ()])"
  using index_file_roundtrip [of "\<lambda>_. Some \<lparr> regular = True, opens = True,
      contents = concat (map (le_bytes 8) [0, 258 :: u64]) \<rparr>" "''g.idx''" "[0, 258]" "()"]
  by (simp add: vertex.make_def)

text \<open>
  Error behaviour of the index reader: it returns a table exactly when the path is a regular
  file that opens and holds at least eight bytes per vertex; in every other case it reports an
  error, and the table it returns has one entry per vertex.
\<close>

lemma get_vertex_table_succeeds_iff:
  "(\<exists>t. get_vertex_table fs vinit file n = Inr t) \<longleftrightarrow>
     (\<exists>f. fs file = Some f \<and> regular f \<and> opens f \<and> 8 * unat n \<le> length (contents f))"
proof (cases "fs file")
  case (Some f)
  show ?thesis
    using Some read_index_short [of "unat n" "contents f"]
    by (cases "read_index (unat n) (contents f)") (auto simp: get_vertex_table_def)
qed (simp add: get_vertex_table_def)

end
