(* ===== verification/Bitmap.thy ===== *)
theory Bitmap
  imports FAM_Prelude
begin

text \<open>
  The frontier bitmap, \<open>famgraph::Bitmap\<close> of \<open>src/src/bitmap.hpp\<close>: an array of 64-bit words with
  a per-thread count of the bits a worker switched on, and the two collision counters. The
  abstraction is the set of vertices whose bit is on; \<open>frontier_set\<close> is the interface the
  kernels use, and \<open>bm\<close> interprets it on the code's operations.
\<close>

subsection \<open>State\<close>

record Bitmap =
  frontier_size :: "u32 combinable"
  bm_size :: u32
  my_range :: "u32 \<times> u32"
  data :: "u64 list"
  collide_count :: u32
  no_collide_count :: u32
  mmap_length :: u64

definition WORD_OFFSET :: "u32 \<Rightarrow> u32" where
  "WORD_OFFSET i = drop_bit 6 i"

definition BIT_OFFSET :: "u32 \<Rightarrow> u32" where
  "BIT_OFFSET i = i AND 0x3f"

definition HP_align :: u64 where
  "HP_align = push_bit 21 1"

text \<open>
  The constructor. \<open>align_up\<close> stands for \<open>boost::alignment::align_up\<close>; an anonymous mapping is
  zero-filled, so the words the object uses start as zeros.
\<close>

definition mk_Bitmap :: "(u64 \<Rightarrow> u64 \<Rightarrow> u64) \<Rightarrow> u32 \<Rightarrow> bool \<Rightarrow> Bitmap" where
  "mk_Bitmap align_up t_size use_HP =
     \<lparr> frontier_size = [], bm_size = t_size, my_range = (0, WORD_OFFSET t_size + 1),
       data = replicate (unat (WORD_OFFSET t_size + 1)) 0,
       collide_count = 0, no_collide_count = 0,
       mmap_length = (if use_HP then align_up (ucast t_size) HP_align else ucast t_size) \<rparr>"

subsection \<open>Operations\<close>

definition clear :: "Bitmap \<Rightarrow> Bitmap" where
  "clear b = b\<lparr> data := fold (\<lambda>i d. d[i := 0]) [unat (fst (my_range b))..<unat (snd (my_range b))] (data b),
                frontier_size := [], collide_count := 0, no_collide_count := 0 \<rparr>"

definition set_all :: "worker \<Rightarrow> Bitmap \<Rightarrow> Bitmap" where
  "set_all t b =
     b\<lparr> data := fold (\<lambda>i d. d[i := 0xffffffffffffffff])
                  [unat (fst (my_range b))..<unat (snd (my_range b))] (data b),
        frontier_size := tls_modify 0 t (\<lambda>_. bm_size b) (frontier_size b) \<rparr>"

definition get_bit :: "Bitmap \<Rightarrow> u32 \<Rightarrow> u64" where
  "get_bit b i = data b ! unat (WORD_OFFSET i) AND push_bit (unat (BIT_OFFSET i)) 1"

definition Bitmap_set_bit :: "worker \<Rightarrow> u32 \<Rightarrow> Bitmap \<Rightarrow> bool \<times> Bitmap" where
  "Bitmap_set_bit t i b =
     (let k = unat (WORD_OFFSET i); mask = push_bit (unat (BIT_OFFSET i)) 1;
          prev = data b ! k;
          b1 = b\<lparr> data := (data b)[k := prev OR mask] \<rparr>;
          was_unset = (prev AND mask = 0)
      in if was_unset
         then (was_unset, b1\<lparr> frontier_size := tls_modify 0 t (\<lambda>n. n + 1) (frontier_size b1),
                              no_collide_count := no_collide_count b1 + 1 \<rparr>)
         else (was_unset, b1\<lparr> collide_count := collide_count b1 + 1 \<rparr>))"

definition num_set :: "Bitmap \<Rightarrow> u32" where
  "num_set b = tls_sum (frontier_size b)"

definition is_empty :: "Bitmap \<Rightarrow> bool" where
  "is_empty b \<longleftrightarrow> num_set b = 0"

subsection \<open>Abstraction and invariant\<close>

definition bits_of :: "Bitmap \<Rightarrow> u32 set" where
  "bits_of b = {i. i < bm_size b \<and> get_bit b i \<noteq> 0}"

text \<open>The shape of the object, kept by every operation.\<close>

definition bitmap_shape :: "Bitmap \<Rightarrow> bool" where
  "bitmap_shape b \<longleftrightarrow> my_range b = (0, WORD_OFFSET (bm_size b) + 1) \<and>
     length (data b) = unat (WORD_OFFSET (bm_size b)) + 1"

text \<open>The count agrees with the bits.\<close>

definition bitmap_inv :: "Bitmap \<Rightarrow> bool" where
  "bitmap_inv b \<longleftrightarrow> bitmap_shape b \<and> unat (num_set b) = card (bits_of b)"

definition mark :: "worker \<Rightarrow> u32 \<Rightarrow> Bitmap \<Rightarrow> Bitmap" where
  "mark t i b = snd (Bitmap_set_bit t i b)"

text \<open>A sequence of \<open>set_bit\<close> calls by several workers, with the results they get.\<close>

fun set_bits :: "(worker \<times> u32) list \<Rightarrow> Bitmap \<Rightarrow> bool list \<times> Bitmap" where
  "set_bits [] b = ([], b)"
| "set_bits ((t, i) # xs) b =
     (let (r, b1) = Bitmap_set_bit t i b; (rs, b2) = set_bits xs b1 in (r # rs, b2))"

subsection \<open>Positions of bits\<close>

lemma unat_WORD_OFFSET [simp]: "unat (WORD_OFFSET i) = unat i div 64"
  by (simp add: WORD_OFFSET_def drop_bit_eq_div unat_div_distrib)

lemma unat_BIT_OFFSET [simp]: "unat (BIT_OFFSET i) = unat i mod 64"
proof -
  have "BIT_OFFSET i = take_bit 6 i"
    by (simp add: BIT_OFFSET_def take_bit_eq_mask mask_eq_decr_exp)
  then show ?thesis by (simp add: take_bit_eq_mod unat_mod_distrib)
qed

lemma unat_words [simp]: "unat (WORD_OFFSET s + 1) = unat s div 64 + 1"
proof -
  have "unat s div 64 + 1 < 2 ^ 32" using unat_u32_lt [of s] by simp
  then show ?thesis by (simp add: unat_add_u32)
qed

lemma get_bit_iff: "get_bit b i \<noteq> 0 \<longleftrightarrow> bit (data b ! (unat i div 64)) (unat i mod 64)"
  by (simp add: get_bit_def and_exp_eq_0_iff_not_bit)

lemma word_in_range: "i < s \<Longrightarrow> unat (i :: u32) div 64 < unat s div 64 + 1"
  by (simp add: word_less_nat_alt less_Suc_eq_le div_le_mono)

lemma same_bit_position:
  "unat (i :: u32) div 64 = unat j div 64 \<Longrightarrow> unat i mod 64 = unat j mod 64 \<Longrightarrow> i = j"
  by (metis div_mult_mod_eq word_unat_eq_iff)

subsection \<open>What each operation does to the set of bits\<close>

lemma finite_bits_of [simp]: "finite (bits_of b)"
  by (rule finite_subset [OF subset_UNIV]) simp

lemma set_bit_result: "fst (Bitmap_set_bit t i b) \<longleftrightarrow> get_bit b i = 0"
  by (simp add: Bitmap_set_bit_def get_bit_def Let_def)

lemma set_bit_size [simp]: "bm_size (mark t i b) = bm_size b"
  by (simp add: mark_def Bitmap_set_bit_def Let_def)

lemma set_bit_data:
  "data (mark t i b) = (data b)[unat i div 64 := data b ! (unat i div 64) OR push_bit (unat i mod 64) 1]"
  by (simp add: mark_def Bitmap_set_bit_def Let_def)

lemma set_bit_num: "num_set (mark t i b) = num_set b + of_bool (get_bit b i = 0)"
  by (simp add: mark_def Bitmap_set_bit_def Let_def num_set_def get_bit_def)

lemma mark_shape: "bitmap_shape b \<Longrightarrow> bitmap_shape (mark t i b)"
  by (simp add: bitmap_shape_def mark_def Bitmap_set_bit_def Let_def)

lemma get_bit_mark:
  assumes "bitmap_shape b" "i < bm_size b"
  shows "get_bit (mark t i b) j \<noteq> 0 \<longleftrightarrow> j = i \<or> get_bit b j \<noteq> 0"
proof -
  let ?k = "unat i div 64"
  have k: "?k < length (data b)"
    using assms word_in_range [of i "bm_size b"] by (simp add: bitmap_shape_def)
  show ?thesis
  proof (cases "unat j div 64 = ?k")
    case True
    have "unat j mod 64 = unat i mod 64 \<longleftrightarrow> j = i"
      using True same_bit_position [of i j] by metis
    then show ?thesis
      using True k by (auto simp: get_bit_iff set_bit_data bit_or_iff bit_exp_iff)
  next
    case False
    then show ?thesis by (auto simp: get_bit_iff set_bit_data)
  qed
qed

lemma bits_of_mark [bitmap_simps]:
  "bitmap_shape b \<Longrightarrow> i < bm_size b \<Longrightarrow> bits_of (mark t i b) = insert i (bits_of b)"
  by (auto simp: bits_of_def get_bit_mark)

lemma card_bits_le: "card (bits_of b) \<le> unat (bm_size b)"
proof -
  have "unat ` bits_of b \<subseteq> {..<unat (bm_size b)}"
    by (auto simp: bits_of_def word_less_nat_alt)
  then have "card (unat ` bits_of b) \<le> card {..<unat (bm_size b)}"
    by (rule card_mono [rotated]) simp
  moreover have "card (unat ` bits_of b) = card (bits_of b)"
    by (rule card_image) (auto simp: inj_on_def intro: word_unat_eq_iff [THEN iffD2])
  ultimately show ?thesis by simp
qed

lemma mark_inv:
  assumes "bitmap_inv b" "i < bm_size b"
  shows "bitmap_inv (mark t i b)"
proof (cases "get_bit b i = 0")
  case True
  have sh: "bitmap_shape b" using assms(1) by (simp add: bitmap_inv_def)
  have i: "i \<notin> bits_of b" using True by (simp add: bits_of_def)
  have c: "card (bits_of (mark t i b)) = card (bits_of b) + 1"
    using i by (simp add: bits_of_mark [OF sh assms(2)])
  have "unat (num_set b) + 1 = card (bits_of (mark t i b))"
    using assms(1) c by (simp add: bitmap_inv_def)
  moreover have "\<dots> < 2 ^ 32"
    using card_bits_le [of "mark t i b"] unat_u32_lt [of "bm_size b"] by simp
  ultimately have "unat (num_set b + 1) = card (bits_of (mark t i b))"
    by (simp add: unat_add_u32)
  then show ?thesis using True by (simp add: bitmap_inv_def set_bit_num mark_shape [OF sh])
next
  case False
  have sh: "bitmap_shape b" using assms(1) by (simp add: bitmap_inv_def)
  have "i \<in> bits_of b" using False assms(2) by (simp add: bits_of_def)
  then have "bits_of (mark t i b) = bits_of b"
    by (simp add: bits_of_mark [OF sh assms(2)] insert_absorb)
  then show ?thesis using False assms(1) by (simp add: bitmap_inv_def set_bit_num mark_shape [OF sh])
qed

lemma clear_data: "bitmap_shape b \<Longrightarrow> data (clear b) = replicate (length (data b)) 0"
  by (simp add: clear_def bitmap_shape_def fold_list_update_const del: upt_Suc)

lemma set_all_data: "bitmap_shape b \<Longrightarrow> data (set_all t b) = replicate (length (data b)) (- 1)"
  by (simp add: set_all_def bitmap_shape_def fold_list_update_const del: upt_Suc)

lemma clear_size [simp]: "bm_size (clear b) = bm_size b"
  by (simp add: clear_def)

lemma set_all_size [simp]: "bm_size (set_all t b) = bm_size b"
  by (simp add: set_all_def)

lemma clear_shape: "bitmap_shape b \<Longrightarrow> bitmap_shape (clear b)"
  using clear_data [of b] by (simp add: bitmap_shape_def) (simp add: clear_def)

lemma set_all_shape: "bitmap_shape b \<Longrightarrow> bitmap_shape (set_all t b)"
  using set_all_data [of b t] by (simp add: bitmap_shape_def) (simp add: set_all_def)

lemma get_bit_replicate:
  assumes "data b = replicate (unat n div 64 + 1) c" "i < n"
  shows "get_bit b i \<noteq> 0 \<longleftrightarrow> bit c (unat i mod 64)"
  using word_in_range [OF assms(2)] unfolding get_bit_iff assms(1) by (simp only: nth_replicate)

lemma bits_of_clear [bitmap_simps]: "bitmap_shape b \<Longrightarrow> bits_of (clear b) = {}"
  using get_bit_replicate [of "clear b" "bm_size b" 0]
  by (auto simp: bits_of_def clear_data bitmap_shape_def)

lemma bits_of_set_all [bitmap_simps]:
  assumes "bitmap_shape b"
  shows "bits_of (set_all t b) = {i. i < bm_size b}"
proof -
  have "data (set_all t b) = replicate (unat (bm_size b) div 64 + 1) (- 1)"
    using assms set_all_data [OF assms] by (simp add: bitmap_shape_def)
  then have "get_bit (set_all t b) i \<noteq> 0" if "i < bm_size b" for i
    using get_bit_replicate [where c = "- 1", OF _ that] by simp
  then show ?thesis by (auto simp: bits_of_def)
qed

lemma clear_inv: "bitmap_shape b \<Longrightarrow> bitmap_inv (clear b)"
  by (simp add: bitmap_inv_def clear_shape bits_of_clear) (simp add: clear_def num_set_def)

lemma mk_Bitmap_inv:
  "bitmap_inv (mk_Bitmap al n hp)" and bits_of_mk_Bitmap [bitmap_simps]: "bits_of (mk_Bitmap al n hp) = {}"
proof -
  have sh: "bitmap_shape (mk_Bitmap al n hp)"
    by (simp add: bitmap_shape_def mk_Bitmap_def)
  show e: "bits_of (mk_Bitmap al n hp) = {}"
    using get_bit_replicate [of "mk_Bitmap al n hp" n 0] by (auto simp: bits_of_def mk_Bitmap_def)
  show "bitmap_inv (mk_Bitmap al n hp)"
    using sh by (simp add: bitmap_inv_def e) (simp add: num_set_def mk_Bitmap_def)
qed

lemma card_words_below: "card {i :: u32. i < n} = unat n"
proof -
  have "unat ` {i :: u32. i < n} = {..<unat n}"
  proof
    show "unat ` {i :: u32. i < n} \<subseteq> {..<unat n}" by (auto simp: word_less_nat_alt)
    show "{..<unat n} \<subseteq> unat ` {i :: u32. i < n}"
    proof
      fix k assume "k \<in> {..<unat n}"
      then have k: "k < unat n" by simp
      then have "unat (of_nat k :: u32) = k"
        using unat_u32_lt [of n] by (intro unat_of_nat_u32) linarith
      with k show "k \<in> unat ` {i :: u32. i < n}"
        by (intro image_eqI [of _ _ "of_nat k"]) (simp_all add: word_less_nat_alt)
    qed
  qed
  moreover have "inj_on unat {i :: u32. i < n}" by (simp add: inj_on_def word_unat_eq_iff)
  ultimately show ?thesis using card_image [of unat "{i :: u32. i < n}"] by simp
qed

lemma set_all_inv:
  "bitmap_shape b \<Longrightarrow> frontier_size b = [] \<Longrightarrow> bitmap_inv (set_all t b)"
  by (simp add: bitmap_inv_def set_all_shape bits_of_set_all card_words_below)
     (simp add: num_set_def set_all_def tls_sum_def)

lemma is_empty_iff: "bitmap_inv b \<Longrightarrow> is_empty b \<longleftrightarrow> bits_of b = {}"
  by (metis bitmap_inv_def card_0_eq finite_bits_of is_empty_def unat_0 unat_eq_zero)

subsection \<open>The interface the kernels use\<close>

text \<open>
  A set of activated vertices below a capacity. Anything a kernel does with a frontier between
  two rounds is a sequence of activations, so the facts about sequences are proved once here.
\<close>

locale frontier_set =
  fixes invar :: "'b \<Rightarrow> bool"
    and alpha :: "'b \<Rightarrow> u32 set"
    and cap :: "'b \<Rightarrow> u32"
    and activate :: "worker \<Rightarrow> u32 \<Rightarrow> 'b \<Rightarrow> 'b"
    and active :: "'b \<Rightarrow> u32 \<Rightarrow> bool"
    and reset :: "'b \<Rightarrow> 'b"
    and size_of :: "'b \<Rightarrow> u32"
    and none_active :: "'b \<Rightarrow> bool"
  assumes invar_activate: "invar b \<Longrightarrow> i < cap b \<Longrightarrow> invar (activate t i b)"
    and alpha_activate: "invar b \<Longrightarrow> i < cap b \<Longrightarrow> alpha (activate t i b) = insert i (alpha b)"
    and cap_activate: "cap (activate t i b) = cap b"
    and active_iff: "invar b \<Longrightarrow> i < cap b \<Longrightarrow> active b i \<longleftrightarrow> i \<in> alpha b"
    and alpha_below: "i \<in> alpha b \<Longrightarrow> i < cap b"
    and invar_reset: "invar b \<Longrightarrow> invar (reset b)"
    and alpha_reset: "invar b \<Longrightarrow> alpha (reset b) = {}"
    and cap_reset: "cap (reset b) = cap b"
    and size_of_alpha: "invar b \<Longrightarrow> unat (size_of b) = card (alpha b)"
    and none_active_iff: "invar b \<Longrightarrow> none_active b \<longleftrightarrow> alpha b = {}"
begin

lemma cap_fold [simp]: "cap (fold (\<lambda>(t, i). activate t i) xs b) = cap b"
  by (induction xs arbitrary: b) (auto simp: cap_activate)

lemma activate_all:
  assumes "invar b" "snd ` set xs \<subseteq> {i. i < cap b}"
  shows "invar (fold (\<lambda>(t, i). activate t i) xs b)"
    and "alpha (fold (\<lambda>(t, i). activate t i) xs b) = alpha b \<union> snd ` set xs"
proof -
  have "invar (fold (\<lambda>(t, i). activate t i) xs b) \<and>
      alpha (fold (\<lambda>(t, i). activate t i) xs b) = alpha b \<union> snd ` set xs"
    using assms
  proof (induction xs arbitrary: b)
    case (Cons x xs)
    obtain t i where "x = (t, i)" by (cases x)
    then show ?case
      using Cons.IH [of "activate t i b"] Cons.prems
      by (simp add: invar_activate alpha_activate cap_activate)
  qed simp
  then show "invar (fold (\<lambda>(t, i). activate t i) xs b)"
    and "alpha (fold (\<lambda>(t, i). activate t i) xs b) = alpha b \<union> snd ` set xs" by auto
qed

lemma activate_all_from_reset:
  assumes "invar b" "snd ` set xs \<subseteq> {i. i < cap b}"
  defines "b' \<equiv> fold (\<lambda>(t, i). activate t i) xs (reset b)"
  shows "invar b'" and "alpha b' = snd ` set xs" and "unat (size_of b') = card (snd ` set xs)"
    and "none_active b' \<longleftrightarrow> xs = []"
proof -
  have r: "invar (reset b)" "alpha (reset b) = {}" "cap (reset b) = cap b"
    using assms(1) by (auto simp: invar_reset alpha_reset cap_reset)
  show i: "invar b'" unfolding b'_def by (rule activate_all(1)) (use r assms in auto)
  show a: "alpha b' = snd ` set xs"
    unfolding b'_def by (subst activate_all(2)) (use r assms in auto)
  show "unat (size_of b') = card (snd ` set xs)" using size_of_alpha [OF i] a by simp
  show "none_active b' \<longleftrightarrow> xs = []" using none_active_iff [OF i] a by simp
qed

end

interpretation bm: frontier_set bitmap_inv bits_of bm_size mark "\<lambda>b i. get_bit b i \<noteq> 0" clear num_set is_empty
proof
  fix b :: Bitmap and t :: worker and i :: u32
  show "bitmap_inv b \<Longrightarrow> i < bm_size b \<Longrightarrow> bitmap_inv (mark t i b)" by (rule mark_inv)
  show "bitmap_inv b \<Longrightarrow> i < bm_size b \<Longrightarrow> bits_of (mark t i b) = insert i (bits_of b)"
    by (simp add: bits_of_mark bitmap_inv_def)
  show "i \<in> bits_of b \<Longrightarrow> i < bm_size b" by (simp add: bits_of_def)
  show "bitmap_inv b \<Longrightarrow> bitmap_inv (clear b)" using clear_inv [of b] by (simp add: bitmap_inv_def)
  show "bitmap_inv b \<Longrightarrow> bits_of (clear b) = {}" by (simp add: bits_of_clear bitmap_inv_def)
  show "bitmap_inv b \<Longrightarrow> is_empty b = (bits_of b = {})" by (rule is_empty_iff)
qed (simp_all add: bits_of_def bitmap_inv_def clear_inv bits_of_clear is_empty_iff)

lemma snd_set_bits: "snd (set_bits xs b) = fold (\<lambda>(t, i). mark t i) xs b"
  by (induction xs b rule: set_bits.induct) (auto simp: mark_def split: prod.splits)

lemma fst_set_bits:
  assumes "bitmap_inv b" "snd ` set xs \<subseteq> {i. i < bm_size b}" "k < length xs"
  shows "fst (set_bits xs b) ! k \<longleftrightarrow> snd (xs ! k) \<notin> bits_of b \<union> snd ` set (take k xs)"
  using assms
proof (induction xs arbitrary: b k)
  case (Cons x xs)
  obtain t i where x: "x = (t, i)" by (cases x)
  have i: "i < bm_size b" using Cons.prems(2) x by auto
  have b: "bitmap_inv (mark t i b)" "bits_of (mark t i b) = insert i (bits_of b)"
    using Cons.prems(1) i by (auto simp: bm.invar_activate bm.alpha_activate)
  have e: "fst (set_bits (x # xs) b) = fst (Bitmap_set_bit t i b) # fst (set_bits xs (mark t i b))"
    by (simp add: x mark_def split_def Let_def)
  show ?case
  proof (cases k)
    case 0
    then show ?thesis using e i by (simp add: set_bit_result x bits_of_def)
  next
    case (Suc j)
    then have "fst (set_bits xs (mark t i b)) ! j \<longleftrightarrow>
        snd (xs ! j) \<notin> insert i (bits_of b) \<union> snd ` set (take j xs)"
      using Cons.IH [of "mark t i b" j] Cons.prems b by auto
    then show ?thesis unfolding e using Suc x by simp
  qed
qed simp

subsection \<open>Sequences of calls\<close>

datatype bitmap_op = Call_clear | Call_set_all worker | Call_get_bit u32 | Call_set_bit worker u32

fun bitmap_call :: "bitmap_op \<Rightarrow> Bitmap \<Rightarrow> Bitmap" where
  "bitmap_call Call_clear b = clear b"
| "bitmap_call (Call_set_all t) b = set_all t b"
| "bitmap_call (Call_get_bit i) b = b"
| "bitmap_call (Call_set_bit t i) b = snd (Bitmap_set_bit t i b)"

fun call_ok :: "u32 \<Rightarrow> bitmap_op \<Rightarrow> bool" where
  "call_ok n (Call_get_bit i) = (i < n)"
| "call_ok n (Call_set_bit t i) = (i < n)"
| "call_ok n _ = True"

text \<open>The indices of the words that a call touches.\<close>

fun call_words :: "bitmap_op \<Rightarrow> Bitmap \<Rightarrow> nat set" where
  "call_words (Call_get_bit i) b = {unat (WORD_OFFSET i)}"
| "call_words (Call_set_bit t i) b = {unat (WORD_OFFSET i)}"
| "call_words _ b = {unat (fst (my_range b))..<unat (snd (my_range b))}"

lemma bitmap_call_shape:
  assumes "bitmap_shape b"
  shows "bitmap_shape (bitmap_call c b) \<and> bm_size (bitmap_call c b) = bm_size b \<and> mmap_length (bitmap_call c b) = mmap_length b"
proof (cases c)
  case (Call_set_bit t i)
  then show ?thesis using mark_shape [OF assms, of t i] by (simp add: mark_def) (simp add: Bitmap_set_bit_def Let_def)
qed (use assms in \<open>simp_all add: clear_shape set_all_shape, simp_all add: clear_def set_all_def\<close>)

lemma bitmap_calls_shape:
  "bitmap_shape b \<Longrightarrow> bitmap_shape (fold bitmap_call cs b) \<and> bm_size (fold bitmap_call cs b) = bm_size b \<and>
     mmap_length (fold bitmap_call cs b) = mmap_length b"
  using bitmap_call_shape by (induction cs arbitrary: b) (simp, fastforce)

lemma call_words_exist: "bitmap_shape b \<Longrightarrow> call_ok (bm_size b) c \<Longrightarrow> call_words c b \<subseteq> {..<length (data b)}"
  using word_in_range by (cases c) (auto simp: bitmap_shape_def)

subsection \<open>Properties\<close>

text \<open>
  C32. Frontier accounting. Whatever sequence of \<open>set_bit\<close> calls, by whatever workers, follows a
  \<open>clear\<close>, the bits that are on are exactly the vertices passed, \<open>num_set\<close> is their exact number
  (no vertex counted twice, no 32-bit wrap-around) and \<open>is_empty\<close> holds only if there was no call.
\<close>

theorem frontier_accounting:
  assumes "bitmap_inv b" "snd ` set xs \<subseteq> {i. i < bm_size b}"
  defines "b' \<equiv> snd (set_bits xs (clear b))"
  shows "bits_of b' = snd ` set xs \<and> unat (num_set b') = card (snd ` set xs) \<and> (is_empty b' \<longleftrightarrow> xs = [])"
  using bm.activate_all_from_reset [OF assms(1,2)] by (simp add: b'_def snd_set_bits)

theorem frontier_accounting_witness:
  "bits_of (snd (set_bits [(0, 3), (1, 70), (2, 3)] (clear (mk_Bitmap (\<lambda>n _. n) 100 False)))) = {3, 70}"
proof -
  have "snd ` set [(0 :: nat, 3), (1, 70), (2, 3)] \<subseteq> {i. i < bm_size (mk_Bitmap (\<lambda>n _. n) 100 False)}"
    by (simp add: mk_Bitmap_def)
  from frontier_accounting [OF mk_Bitmap_inv this] show ?thesis by (auto simp del: set_bits.simps)
qed

text \<open>
  One winner per vertex. In a sequence of \<open>set_bit\<close> calls on a cleared bitmap, a call
  returns true exactly when no earlier call passed the same vertex.
\<close>

lemma set_bit_one_winner:
  assumes "bitmap_inv b" "snd ` set xs \<subseteq> {i. i < bm_size b}" "k < length xs"
  shows "fst (set_bits xs (clear b)) ! k \<longleftrightarrow> snd (xs ! k) \<notin> snd ` set (take k xs)"
  using fst_set_bits [of "clear b" xs k] assms
  by (simp add: bm.invar_reset bm.alpha_reset)

lemma set_bit_one_winner_witness:
  "\<not> fst (set_bits [(0, 3), (1, 70), (2, 3)] (clear (mk_Bitmap (\<lambda>n _. n) 100 False))) ! 2"
proof -
  have "snd ` set [(0 :: nat, 3), (1, 70), (2, 3)] \<subseteq> {i. i < bm_size (mk_Bitmap (\<lambda>n _. n) 100 False)}"
    by (simp add: mk_Bitmap_def)
  from set_bit_one_winner [OF mk_Bitmap_inv this, of 2] show ?thesis by (simp del: set_bits.simps)
qed

text \<open>
  C26. A bitmap is well formed at every moment of its life. Whatever calls of its operations follow the
  constructor, with vertices below the size, the object keeps its size, its range, its length for the
  destructor and its number of words, and every word that a call reads or writes exists.
\<close>

theorem bitmap_well_formed:
  assumes "list_all (call_ok n) cs" "k \<le> length cs"
  shows "let b = fold bitmap_call (take k cs) (mk_Bitmap al n hp)
    in bitmap_shape b \<and> bm_size b = n \<and> mmap_length b = mmap_length (mk_Bitmap al n hp) \<and>
       (k < length cs \<longrightarrow> call_words (cs ! k) b \<subseteq> {..<length (data b)})"
proof -
  define b where "b = fold bitmap_call (take k cs) (mk_Bitmap al n hp)"
  have b: "bitmap_shape b \<and> bm_size b = n \<and> mmap_length b = mmap_length (mk_Bitmap al n hp)"
    using bitmap_calls_shape [of "mk_Bitmap al n hp" "take k cs"] mk_Bitmap_inv [of al n hp]
    by (simp add: b_def bitmap_inv_def) (simp add: mk_Bitmap_def)
  moreover have "call_ok n (cs ! k)" if "k < length cs" using assms(1) that by (simp add: list_all_length)
  ultimately show ?thesis using call_words_exist [of b "cs ! k"] unfolding Let_def b_def [symmetric] by auto
qed

theorem bitmap_well_formed_witness:
  "bitmap_shape (fold bitmap_call [Call_set_all 0, Call_clear, Call_set_bit 1 70] (mk_Bitmap (\<lambda>n _. n) 100 False))"
  using bitmap_well_formed [of 100 "[Call_set_all 0, Call_clear, Call_set_bit 1 70]" 3 "\<lambda>n _. n" False] by (simp add: Let_def)

end
