(* ===== verification/Stats.thy ===== *)
theory Stats
  imports FAM_Prelude
begin

text \<open>
  The run-time statistics of the client, \<open>src/src/stats.hpp\<close>: per-thread accumulators, the totals
  they are folded into after every round, the two reports, and the difference of two clock readings.
\<close>

subsection \<open>State\<close>

record FG_stats =
  cache_hit :: "int combinable"
  atomic_time :: "int combinable"
  spin_time :: "int combinable"
  function_time :: "int combinable"
  cache_function_time :: "int combinable"
  pack_window_time :: "int combinable"
  cache_building_time :: "int combinable"
  foreach_time :: "int combinable"
  while_time :: "int combinable"
  wrs_verts_sends :: "(u32 \<times> u32 \<times> u32) combinable"
  total_cache_hit :: int
  total_atomic_time :: int
  total_spin_time :: int
  total_foreach_time :: int
  total_function_time :: int
  total_cache_function_time :: int
  total_pack_window_time :: int
  total_cache_building_time :: int
  total_while_time :: int
  stat_wrs :: u32
  stat_verts :: u32
  stat_sends :: u32

record timespec =
  tv_sec :: int
  tv_nsec :: int

subsection \<open>Operations\<close>

text \<open>\<open>for (auto &t : c) t = 0\<close> and \<open>for (auto &t : c) { total += t; t = 0; }\<close>.\<close>

definition zeroed :: "'a combinable \<Rightarrow> 'a \<Rightarrow> 'a combinable" where
  "zeroed c z = map (\<lambda>(w, _). (w, z)) c"

definition add_each :: "'a::plus combinable \<Rightarrow> 'a \<Rightarrow> 'a" where
  "add_each c tot = fold (\<lambda>(_, t) acc. acc + t) c tot"

definition clear_stats_round :: "FG_stats \<Rightarrow> FG_stats" where
  "clear_stats_round s = s
     \<lparr> total_spin_time := add_each (spin_time s) (total_spin_time s),
       spin_time := zeroed (spin_time s) 0,
       total_function_time := add_each (function_time s) (total_function_time s),
       function_time := zeroed (function_time s) 0,
       total_cache_function_time := add_each (cache_function_time s) (total_cache_function_time s),
       cache_function_time := zeroed (cache_function_time s) 0,
       total_pack_window_time := add_each (pack_window_time s) (total_pack_window_time s),
       pack_window_time := zeroed (pack_window_time s) 0,
       total_atomic_time := add_each (atomic_time s) (total_atomic_time s),
       atomic_time := zeroed (atomic_time s) 0,
       total_cache_building_time := add_each (cache_building_time s) (total_cache_building_time s),
       cache_building_time := zeroed (cache_building_time s) 0,
       total_cache_hit := add_each (cache_hit s) (total_cache_hit s),
       cache_hit := zeroed (cache_hit s) 0,
       total_foreach_time := add_each (foreach_time s) (total_foreach_time s),
       foreach_time := zeroed (foreach_time s) 0,
       total_while_time := add_each (while_time s) (total_while_time s),
       while_time := zeroed (while_time s) 0,
       stat_wrs := fold (\<lambda>(_, a, _, _) acc. acc + a) (wrs_verts_sends s) (stat_wrs s),
       stat_verts := fold (\<lambda>(_, _, b, _) acc. acc + b) (wrs_verts_sends s) (stat_verts s),
       stat_sends := fold (\<lambda>(_, _, _, c) acc. acc + c) (wrs_verts_sends s) (stat_sends s),
       wrs_verts_sends := zeroed (wrs_verts_sends s) (0, 0, 0) \<rparr>"

definition clear_all :: "FG_stats \<Rightarrow> FG_stats" where
  "clear_all s = s
     \<lparr> spin_time := zeroed (spin_time s) 0,
       function_time := zeroed (function_time s) 0,
       cache_function_time := zeroed (cache_function_time s) 0,
       pack_window_time := zeroed (pack_window_time s) 0,
       cache_building_time := zeroed (cache_building_time s) 0,
       atomic_time := zeroed (atomic_time s) 0,
       cache_hit := zeroed (cache_hit s) 0,
       foreach_time := zeroed (foreach_time s) 0,
       while_time := zeroed (while_time s) 0,
       total_spin_time := 0, total_function_time := 0, total_cache_function_time := 0,
       total_pack_window_time := 0, total_cache_building_time := 0, total_atomic_time := 0,
       total_cache_hit := 0, total_foreach_time := 0, total_while_time := 0,
       stat_wrs := 0, stat_verts := 0, stat_sends := 0 \<rparr>"

text \<open>
  The reports, as the items that are logged in order: text, a time in nanoseconds that is printed in
  seconds, a count, and the quotient of two counts.
\<close>

datatype log_item = Text string | Seconds int | Count int | Quotient u32 u32

definition newline :: log_item where
  "newline = Text [CHR 0x0A]"

definition thread_times :: "int combinable \<Rightarrow> log_item list" where
  "thread_times c = map (\<lambda>(_, t). Seconds t) c"

definition print_stats_round :: "FG_stats \<Rightarrow> log_item list" where
  "print_stats_round s =
     [Text ''Spin Time(s): ''] @ thread_times (spin_time s) @ [newline] @
     [Text ''Function Time(s): ''] @ thread_times (function_time s) @ [newline] @
     [Text ''Cache Function Time(s): ''] @ thread_times (cache_function_time s) @ [newline] @
     [Text ''Pack Window Time(s): ''] @ thread_times (pack_window_time s) @ [newline] @
     [Text ''Atomic Time(s): ''] @ thread_times (atomic_time s) @ [newline] @
     [Text ''WR / send: ''] @ map (\<lambda>(_, w, _, n). Quotient w n) (wrs_verts_sends s) @ [newline] @
     [Text ''verts / send: ''] @ map (\<lambda>(_, _, v, n). Quotient v n) (wrs_verts_sends s) @ [newline, newline]"

definition print_stats_summary :: "FG_stats \<Rightarrow> log_item list" where
  "print_stats_summary s =
     [newline, Text ''Total Spin Time (s): '', Seconds (total_spin_time s), newline,
      Text '' Total Function Time (s) '', Seconds (total_function_time s), newline,
      Text '' Total For Each Time (s) '', Seconds (total_foreach_time s), newline,
      Text '' Total For While Time (s) '', Seconds (total_while_time s), newline,
      Text '' Total Cache Function Time (s) '', Seconds (total_cache_function_time s), newline,
      Text '' Total Pack Window Time (s)'', Seconds (total_pack_window_time s), newline,
      Text '' Total Cache Building Time (s)'', Seconds (total_cache_building_time s), newline,
      Text '' Total Atomic Time (s)'', Seconds (total_atomic_time s), newline,
      Text '' Total Cache hit: '', Count (total_cache_hit s), newline,
      Text '' WR's: '', Count (uint (stat_wrs s)), Text '' sends: '', Count (uint (stat_sends s)), newline]"

definition timespec_diff :: "timespec \<Rightarrow> timespec \<Rightarrow> timespec" where
  "timespec_diff a b =
     (let r = \<lparr> tv_sec = tv_sec a - tv_sec b, tv_nsec = tv_nsec a - tv_nsec b \<rparr>
      in if tv_nsec r < 0
         then r\<lparr> tv_sec := tv_sec r - 1, tv_nsec := tv_nsec r + 1000000000 \<rparr>
         else r)"

text \<open>The increments of \<open>wrs_verts_sends.local()\<close> at the end of a packing pass.\<close>

definition count_send :: "worker \<Rightarrow> u32 \<Rightarrow> u32 \<Rightarrow> FG_stats \<Rightarrow> FG_stats" where
  "count_send t w vs s =
     s\<lparr> wrs_verts_sends := tls_modify (0, 0, 0) t (\<lambda>(a, b, c). (a + w, b + vs, c + 1)) (wrs_verts_sends s) \<rparr>"

definition count_hit :: "worker \<Rightarrow> FG_stats \<Rightarrow> FG_stats" where
  "count_hit t s = s\<lparr> cache_hit := tls_modify 0 t (\<lambda>n. n + 1) (cache_hit s) \<rparr>"

subsection \<open>Folding the round into the totals\<close>

text \<open>What is counted so far: the totals plus what the workers hold.\<close>

definition counted :: "FG_stats \<Rightarrow> int \<times> u32 \<times> u32 \<times> u32" where
  "counted s =
     (total_cache_hit s + tls_sum (cache_hit s),
      stat_wrs s + sum_list (map (fst \<circ> snd) (wrs_verts_sends s)),
      stat_verts s + sum_list (map (fst \<circ> snd \<circ> snd) (wrs_verts_sends s)),
      stat_sends s + sum_list (map (snd \<circ> snd \<circ> snd) (wrs_verts_sends s)))"

definition times :: "FG_stats \<Rightarrow> int list" where
  "times s =
     [total_spin_time s + tls_sum (spin_time s), total_function_time s + tls_sum (function_time s),
      total_cache_function_time s + tls_sum (cache_function_time s),
      total_pack_window_time s + tls_sum (pack_window_time s),
      total_atomic_time s + tls_sum (atomic_time s),
      total_cache_building_time s + tls_sum (cache_building_time s),
      total_foreach_time s + tls_sum (foreach_time s), total_while_time s + tls_sum (while_time s)]"

lemma fold_plus: "fold (\<lambda>x acc. acc + f x) xs a = a + sum_list (map f xs :: 'a::comm_monoid_add list)"
  by (induction xs arbitrary: a) (auto simp: ac_simps)

lemma add_each_sum: "add_each c a = a + tls_sum (c :: 'a::comm_monoid_add combinable)"
  using fold_plus [of snd c a] by (simp add: add_each_def tls_sum_def split_def)

lemma tls_sum_zeroed [simp]: "tls_sum (zeroed c 0) = (0 :: 'a::comm_monoid_add)"
  by (induction c) (auto simp: tls_sum_def zeroed_def)

lemma sum_zeroed [simp]: "sum_list (map f (zeroed c z)) = sum_list (map (\<lambda>x. f (fst x, z)) c)"
  by (simp add: zeroed_def split_def comp_def)

text \<open>
  The numbers of the summary that is printed after a round was closed: what was measured in total,
  by the order in which they are printed.
\<close>

definition summary_numbers :: "log_item list \<Rightarrow> int list" where
  "summary_numbers out = concat (map (\<lambda>x. case x of Seconds t \<Rightarrow> [t] | Count n \<Rightarrow> [n] | _ \<Rightarrow> []) out)"

lemma summary_after_round:
  "summary_numbers (print_stats_summary (clear_stats_round s)) =
     (let (hits, wrs, _, sends) = counted s
      in map ((!) (times s)) [0, 1, 6, 7, 2, 3, 5, 4] @ [hits, uint wrs, uint sends])"
proof -
  have f: "fold (\<lambda>(_, a, _, _) acc. acc + a) c x = x + sum_list (map (fst \<circ> snd) c)"
    "fold (\<lambda>(_, _, _, d) acc. acc + d) c x = x + sum_list (map (snd \<circ> snd \<circ> snd) c)"
    for c :: "(u32 \<times> u32 \<times> u32) combinable" and x
    using fold_plus [of "fst \<circ> snd" c x] fold_plus [of "snd \<circ> snd \<circ> snd" c x]
    by (simp_all add: split_def)
  show ?thesis
    by (simp add: summary_numbers_def print_stats_summary_def newline_def clear_stats_round_def counted_def times_def
      add_each_sum f nth_Cons')
qed

text \<open>A report of one round shows nothing from before: after \<open>clear_stats_round\<close> every time is zero.\<close>

lemma round_report_reset:
  "Seconds t \<in> set (print_stats_round (clear_stats_round s)) \<Longrightarrow> t = 0"
  by (auto simp: print_stats_round_def newline_def thread_times_def clear_stats_round_def zeroed_def)

subsection \<open>Properties\<close>

text \<open>
  Closing a round loses no measurement: after \<open>clear_stats_round\<close> every per-thread
  accumulator is zero and every total has grown by exactly what the workers held.
\<close>

lemma clear_stats_round_conserves:
  "counted (clear_stats_round s) = counted s \<and> times (clear_stats_round s) = times s \<and>
   stat_wrs (clear_stats_round s) = fst (snd (counted s)) \<and>
   total_cache_hit (clear_stats_round s) = fst (counted s) \<and>
   (\<forall>p \<in> set (wrs_verts_sends (clear_stats_round s)). snd p = (0, 0, 0))"
proof -
  have f: "fold (\<lambda>(_, a, _, _) acc. acc + a) c x = x + sum_list (map (fst \<circ> snd) c)"
    "fold (\<lambda>(_, _, b, _) acc. acc + b) c x = x + sum_list (map (fst \<circ> snd \<circ> snd) c)"
    "fold (\<lambda>(_, _, _, d) acc. acc + d) c x = x + sum_list (map (snd \<circ> snd \<circ> snd) c)"
    for c :: "(u32 \<times> u32 \<times> u32) combinable" and x
    using fold_plus [of "fst \<circ> snd" c x] fold_plus [of "fst \<circ> snd \<circ> snd" c x]
      fold_plus [of "snd \<circ> snd \<circ> snd" c x]
    by (simp_all add: split_def)
  show ?thesis
    by (simp add: counted_def times_def clear_stats_round_def add_each_sum f)
       (auto simp: zeroed_def)
qed

lemma clear_stats_round_conserves_witness:
  "\<forall>s. counted (clear_stats_round (count_send 0 3 5 (count_hit 1 s))) = counted (count_send 0 3 5 (count_hit 1 s))"
  using clear_stats_round_conserves [of "count_send 0 3 5 (count_hit 1 _)"] by blast

text \<open>
  \<open>timespec_diff\<close> is exact: for normalised readings the result is normalised and its value in
  nanoseconds is the difference of the two readings.
\<close>

lemma timespec_diff_exact:
  assumes "0 \<le> tv_nsec a" "tv_nsec a < 1000000000" "0 \<le> tv_nsec b" "tv_nsec b < 1000000000"
  defines "r \<equiv> timespec_diff a b"
  shows "0 \<le> tv_nsec r \<and> tv_nsec r < 1000000000 \<and>
    tv_sec r * 1000000000 + tv_nsec r =
      (tv_sec a * 1000000000 + tv_nsec a) - (tv_sec b * 1000000000 + tv_nsec b)"
  using assms by (simp add: timespec_diff_def Let_def algebra_simps)

lemma timespec_diff_exact_witness:
  "tv_nsec (timespec_diff \<lparr> tv_sec = 7, tv_nsec = 100 \<rparr> \<lparr> tv_sec = 5, tv_nsec = 300 \<rparr>) < 1000000000 \<and>
   timespec_diff \<lparr> tv_sec = 7, tv_nsec = 100 \<rparr> \<lparr> tv_sec = 5, tv_nsec = 300 \<rparr> = \<lparr> tv_sec = 1, tv_nsec = 999999800 \<rparr>"
  using timespec_diff_exact [of "\<lparr> tv_sec = 7, tv_nsec = 100 \<rparr>" "\<lparr> tv_sec = 5, tv_nsec = 300 \<rparr>"]
  by (simp add: timespec_diff_def)

end
