(* ===== verification/Pack_Window.thy ===== *)
theory Pack_Window
  imports Vertex_Table Bitmap Stats
begin

text \<open>
  Packing RDMA reads, \<open>prep_wr\<close>, \<open>pack_window\<close>, \<open>cache_pack_window\<close> and \<open>pack_window2\<close> of
  \<open>src/src/bitmap.hpp\<close>. A pass walks a vertex range, signs the slots of the worker's edge buffer
  that the reads will fill, and builds one work request per run of consecutive vertices. The
  invariant \<open>packed\<close> says what the three windows hold in terms of the groups of vertices packed
  so far; \<open>pack_loop_packed\<close> shows that every pass keeps it.
\<close>

subsection \<open>Data\<close>

text \<open>The constants of the generated header \<open>build_options.hpp\<close>.\<close>

record build_options =
  opt_wr_window :: u32
  vertex_coalescing :: bool

definition NULL_VERT :: u32 where
  "NULL_VERT = 0xFFFFFFFF"

datatype ibv_wr_opcode = IBV_WR_RDMA_READ | IBV_WR_SEND

record ibv_sge =
  sge_addr :: u64
  sge_length :: u32
  sge_lkey :: u32

text \<open>
  A work request. \<open>wr_next\<close> and \<open>sg_list\<close> are pointers into the windows, here indices;
  \<open>signaled\<close> is the flag \<open>IBV_SEND_SIGNALED\<close> of \<open>send_flags\<close>.
\<close>

record ibv_send_wr =
  wr_next :: "nat option"
  opcode :: ibv_wr_opcode
  signaled :: bool
  remote_addr :: u64
  rkey :: u32
  sg_list :: nat
  num_sge :: nat

text \<open>The fields of \<open>client_context\<close> that packing reads.\<close>

record client_context =
  peer_addr :: u64
  peer_rkey :: u32
  heap_lkey :: u32
  num_vertices :: u32
  num_edges :: u64

record vertex_range =
  v_s :: u32
  v_e :: u32

text \<open>The parameters of a pass; \<open>edge_buf\<close> is the index of the worker's buffer in the RDMA area.\<close>

record pack_args =
  opts :: build_options
  ctx :: client_context
  vtable :: "vertex list"
  edge_buf_size :: u32
  edge_buf :: nat
  area_addr :: u64

text \<open>
  The local variables of a pass, the arrays it writes, the statistics, and the state \<open>cb\<close> that
  the callback works on (only \<open>cache_pack_window\<close> calls it).
\<close>

record 's pack_state =
  wr_window :: "ibv_send_wr list"
  sge_window :: "ibv_sge list"
  vertex_batch :: "vertex_range list"
  area :: "u32 list"
  total_edges :: u32
  batch_size :: u32
  wrs :: u32
  cur_v :: u32
  stats :: FG_stats
  cb :: 's

type_synonym 's callback = "u32 \<Rightarrow> u32 list \<Rightarrow> u32 \<Rightarrow> 's \<Rightarrow> 's"

text \<open>The two vertex caches, whose classes are not part of the repository.\<close>

record cache_elem =
  getId :: u32
  elem_neighbors :: "u32 list"
  elem_out_degree :: u32

type_synonym cache_map = "u32 \<Rightarrow> cache_elem option"

record cache_manager =
  is_vertex_exist :: "u32 \<Rightarrow> bool"
  get_neighbors :: "u32 \<Rightarrow> u32 list"
  get_out_degree :: "u32 \<Rightarrow> u32"

subsection \<open>Operations\<close>

definition prep_wr ::
    "ibv_send_wr list \<Rightarrow> ibv_sge list \<Rightarrow> u32 \<Rightarrow> client_context \<Rightarrow> u64 \<Rightarrow> u32 \<Rightarrow> u64
       \<Rightarrow> ibv_send_wr list \<times> ibv_sge list" where
  "prep_wr W S idx c buffer len remote_offset =
     (let i = unat idx;
          wr = \<lparr> wr_next = None, opcode = IBV_WR_RDMA_READ, signaled = True,
                 remote_addr = peer_addr c + remote_offset, rkey = peer_rkey c,
                 sg_list = i, num_sge = 1 \<rparr>;
          S' = S[i := \<lparr> sge_addr = buffer, sge_length = len, sge_lkey = heap_lkey c \<rparr>]
      in if idx > 0
         then ((W[i := wr\<lparr> signaled := False \<rparr>])[unat (idx - 1) := (W ! unat (idx - 1))\<lparr> wr_next := Some i \<rparr>], S')
         else (W[i := wr], S'))"

definition out_degree :: "pack_args \<Rightarrow> u32 \<Rightarrow> u32" where
  "out_degree A v = get_num_edges v (vtable A) (num_vertices (ctx A)) (num_edges (ctx A))"

text \<open>The body shared by the three passes for one vertex; \<open>None\<close> is "can't fit this".\<close>

definition pack_vertex :: "pack_args \<Rightarrow> u32 \<Rightarrow> 's pack_state \<Rightarrow> 's pack_state option" where
  "pack_vertex A v st =
     (let n_out_edge = out_degree A v in
      if total_edges st + n_out_edge \<le> edge_buf_size A then
        if n_out_edge > 0 then
          let b = edge_buf A + unat (total_edges st);
              mem = (area st)[b := NULL_VERT, b + unat (n_out_edge - 1) := NULL_VERT];
              prev = unat (wrs st - 1);
              st1 =
                (if vertex_coalescing (opts A) \<and> batch_size st > 0
                    \<and> v = v_e (vertex_batch st ! prev) + 1
                 then st\<lparr> area := mem,
                          vertex_batch := (vertex_batch st)[prev := (vertex_batch st ! prev)\<lparr> v_e := v \<rparr>],
                          sge_window := (sge_window st)[prev := (sge_window st ! prev)
                             \<lparr> sge_length := sge_length (sge_window st ! prev) + n_out_edge * 4 \<rparr>] \<rparr>
                 else
                   let (W, S) = prep_wr (wr_window st) (sge_window st) (wrs st) (ctx A)
                                  (area_addr A + of_nat b * 4) (n_out_edge * 4)
                                  (edge_offset (vtable A ! unat v) * 4)
                   in st\<lparr> area := mem,
                          vertex_batch := (vertex_batch st)[unat (wrs st) := \<lparr> v_s = v, v_e = v \<rparr>],
                          wr_window := W, sge_window := S, wrs := wrs st + 1 \<rparr>)
          in Some (st1\<lparr> batch_size := batch_size st + 1, total_edges := total_edges st + n_out_edge \<rparr>)
        else Some st
      else None)"

text \<open>
  The loop of a pass. \<open>act v\<close> is the test on the frontier; \<open>hit v\<close> is the cached copy of \<open>v\<close>
  that is handed to the callback instead of being read remotely.
\<close>

function pack_loop ::
    "pack_args \<Rightarrow> worker \<Rightarrow> (u32 \<Rightarrow> bool) \<Rightarrow> (u32 \<Rightarrow> (u32 \<times> u32 list \<times> u32) option) \<Rightarrow> 's callback
       \<Rightarrow> u32 \<Rightarrow> 's pack_state \<Rightarrow> 's pack_state" where
  "pack_loop A t act hit F range_end st =
     (if total_edges st < edge_buf_size A \<and> wrs st < opt_wr_window (opts A) \<and> cur_v st < range_end then
        let v = cur_v st in
        if act v then
          case hit v of
            Some (i, ns, d) \<Rightarrow>
              pack_loop A t act hit F range_end
                (st\<lparr> cb := F i ns d (cb st), stats := count_hit t (stats st), cur_v := v + 1 \<rparr>)
          | None \<Rightarrow>
              (case pack_vertex A v st of
                 None \<Rightarrow> st
               | Some st' \<Rightarrow> pack_loop A t act hit F range_end (st'\<lparr> cur_v := v + 1 \<rparr>))
        else pack_loop A t act hit F range_end (st\<lparr> cur_v := v + 1 \<rparr>)
      else st)"
  by pat_completeness auto
termination
  by (relation "measure (\<lambda>(A, t, act, hit, F, e, st). unat e - unat (cur_v st))")
     (auto simp: unat_inc word_less_nat_alt)

declare pack_loop.simps [simp del]

definition pack_init :: "u32 \<Rightarrow> 's pack_state \<Rightarrow> 's pack_state" where
  "pack_init range_start st =
     st\<lparr> total_edges := 0, batch_size := 0, wrs := 0, cur_v := range_start \<rparr>"

definition pack_finish :: "worker \<Rightarrow> 's pack_state \<Rightarrow> 's pack_state" where
  "pack_finish t st = st\<lparr> stats := count_send t (wrs st) (batch_size st) (stats st) \<rparr>"

definition pack_window ::
    "pack_args \<Rightarrow> worker \<Rightarrow> Bitmap \<Rightarrow> 's callback \<Rightarrow> u32 \<Rightarrow> u32 \<Rightarrow> 's pack_state \<Rightarrow> 's pack_state" where
  "pack_window A t frontier F range_start range_end st =
     pack_finish t (pack_loop A t (\<lambda>v. get_bit frontier v \<noteq> 0) (\<lambda>_. None) F range_end
       (pack_init range_start st))"

text \<open>
  The cache lookup of \<open>cache_pack_window\<close>, with its two successive assignments of \<open>in_cache\<close>;
  \<open>None\<close> as an argument is a null pointer.
\<close>

definition cache_lookup ::
    "cache_map option \<Rightarrow> cache_manager option \<Rightarrow> u32 \<Rightarrow> (u32 \<times> u32 list \<times> u32) option" where
  "cache_lookup cache_map cacheManager v =
     (let cache_elem = (case cache_map of None \<Rightarrow> None | Some get \<Rightarrow> get v);
          in_cache = (case cache_map of None \<Rightarrow> False | Some _ \<Rightarrow> cache_elem \<noteq> None);
          in_cache = (case cacheManager of None \<Rightarrow> False | Some cm \<Rightarrow> is_vertex_exist cm v)
      in if in_cache then
           Some (case cacheManager of
                   Some cm \<Rightarrow> (v, get_neighbors cm v, get_out_degree cm v)
                 | None \<Rightarrow> (let e = the cache_elem in (getId e, elem_neighbors e, elem_out_degree e)))
         else None)"

definition cache_pack_window ::
    "pack_args \<Rightarrow> worker \<Rightarrow> cache_map option \<Rightarrow> cache_manager option \<Rightarrow> Bitmap \<Rightarrow> 's callback
       \<Rightarrow> u32 \<Rightarrow> u32 \<Rightarrow> 's pack_state \<Rightarrow> 's pack_state" where
  "cache_pack_window A t cache_map cacheManager frontier F range_start range_end st =
     pack_finish t (pack_loop A t (\<lambda>v. get_bit frontier v \<noteq> 0) (cache_lookup cache_map cacheManager) F
       range_end (pack_init range_start st))"

definition pack_window2 ::
    "pack_args \<Rightarrow> worker \<Rightarrow> 's callback \<Rightarrow> u32 \<Rightarrow> u32 \<Rightarrow> 's pack_state \<Rightarrow> 's pack_state" where
  "pack_window2 A t F range_start range_end st =
     pack_finish t (pack_loop A t (\<lambda>_. True) (\<lambda>_. None) F range_end (pack_init range_start st))"

subsection \<open>What a pass has packed\<close>

definition dg :: "pack_args \<Rightarrow> u32 \<Rightarrow> nat" where
  "dg A v = unat (out_degree A v)"

definition sumdeg :: "pack_args \<Rightarrow> u32 list \<Rightarrow> nat" where
  "sumdeg A vs = sum_list (map (dg A) vs)"

text \<open>
  The client's index is well formed, the buffer holds any one adjacency list, its byte length fits
  the 32-bit length of a work request, and the byte addresses of both arrays fit 64 bits.
\<close>

definition args_ok :: "pack_args \<Rightarrow> bool" where
  "args_ok A \<longleftrightarrow> csr_ok (vtable A) (num_vertices (ctx A)) (num_edges (ctx A)) \<and>
     4 * unat (edge_buf_size A) < 2 ^ 32 \<and> 4 * unat (num_edges (ctx A)) < 2 ^ 64 \<and>
     4 * (edge_buf A + unat (edge_buf_size A)) < 2 ^ 64 \<and>
     (\<forall>v. v < num_vertices (ctx A) \<longrightarrow> dg A v \<le> unat (edge_buf_size A))"

text \<open>A group is a non-empty run of consecutive vertices, each with an out-edge.\<close>

definition group_ok :: "pack_args \<Rightarrow> u32 list \<Rightarrow> bool" where
  "group_ok A g \<longleftrightarrow> g \<noteq> [] \<and> g = u32_range (hd g) (last g + 1) \<and>
     (\<forall>v \<in> set g. v < num_vertices (ctx A) \<and> 0 < dg A v)"

fun sges :: "pack_args \<Rightarrow> nat \<Rightarrow> u32 list list \<Rightarrow> ibv_sge list" where
  "sges A p [] = []"
| "sges A p (g # gs) =
     \<lparr> sge_addr = area_addr A + of_nat p * 4, sge_length = of_nat (sumdeg A g) * 4,
       sge_lkey = heap_lkey (ctx A) \<rparr> # sges A (p + sumdeg A g) gs"

fun wreqs :: "pack_args \<Rightarrow> nat \<Rightarrow> u32 list list \<Rightarrow> ibv_send_wr list" where
  "wreqs A k [] = []"
| "wreqs A k (g # gs) =
     \<lparr> wr_next = (if gs = [] then None else Some (Suc k)), opcode = IBV_WR_RDMA_READ,
       signaled = (k = 0), remote_addr = peer_addr (ctx A) + edge_offset (vtable A ! unat (hd g)) * 4,
       rkey = peer_rkey (ctx A), sg_list = k, num_sge = 1 \<rparr> # wreqs A (Suc k) gs"

text \<open>The first and the last slot of every packed vertex carry the sign.\<close>

fun signed :: "pack_args \<Rightarrow> u32 list \<Rightarrow> nat \<Rightarrow> u32 list \<Rightarrow> bool" where
  "signed A m p [] = True"
| "signed A m p (v # vs) =
     (m ! p = NULL_VERT \<and> m ! (p + dg A v - 1) = NULL_VERT \<and> signed A m (p + dg A v) vs)"

definition packed :: "pack_args \<Rightarrow> u32 list \<Rightarrow> u32 list list \<Rightarrow> 's pack_state \<Rightarrow> bool" where
  "packed A m0 gs st \<longleftrightarrow>
     length (wr_window st) = unat (opt_wr_window (opts A)) \<and>
     length (sge_window st) = unat (opt_wr_window (opts A)) \<and>
     length (vertex_batch st) = unat (opt_wr_window (opts A)) \<and>
     unat (wrs st) = length gs \<and> length gs \<le> unat (opt_wr_window (opts A)) \<and>
     take (length gs) (wr_window st) = wreqs A 0 gs \<and>
     take (length gs) (sge_window st) = sges A (edge_buf A) gs \<and>
     take (length gs) (vertex_batch st) = map (\<lambda>g. \<lparr> v_s = hd g, v_e = last g \<rparr>) gs \<and>
     unat (total_edges st) = sumdeg A (concat gs) \<and> sumdeg A (concat gs) \<le> unat (edge_buf_size A) \<and>
     unat (batch_size st) = length (concat gs) \<and>
     list_all (group_ok A) gs \<and>
     length (area st) = length m0 \<and> edge_buf A + unat (edge_buf_size A) \<le> length m0 \<and>
     (\<forall>i. i < edge_buf A \<or> edge_buf A + unat (edge_buf_size A) \<le> i \<longrightarrow> area st ! i = m0 ! i) \<and>
     signed A (area st) (edge_buf A) (concat gs)"

lemma dg_deg:
  "args_ok A \<Longrightarrow> v < num_vertices (ctx A) \<Longrightarrow> dg A v = deg (vtable A) (num_edges (ctx A)) (unat v)"
  by (simp add: dg_def out_degree_def get_num_edges_deg args_ok_def)

lemma sumdeg_simps [simp]:
  "sumdeg A [] = 0" "sumdeg A (v # vs) = dg A v + sumdeg A vs" "sumdeg A (us @ vs) = sumdeg A us + sumdeg A vs"
  by (simp_all add: sumdeg_def)

lemma length_sges [simp]: "length (sges A p gs) = length gs"
  by (induction gs arbitrary: p) auto

lemma length_wreqs [simp]: "length (wreqs A k gs) = length gs"
  by (induction gs arbitrary: k) auto

lemma sges_snoc: "sges A p (gs @ [g]) = sges A p gs @ sges A (p + sumdeg A (concat gs)) [g]"
  by (induction gs arbitrary: p) (auto simp: add.assoc)

lemma wreqs_extend: "g \<noteq> [] \<Longrightarrow> wreqs A k (gs @ [g @ [v]]) = wreqs A k (gs @ [g])"
  by (induction gs arbitrary: k) auto

lemma wreqs_split:
  "\<exists>xs. length xs = length hs \<and>
     (\<forall>gs. gs \<noteq> [] \<longrightarrow> wreqs A k (hs @ gs) = xs @ wreqs A (k + length hs) gs)"
proof (induction hs arbitrary: k)
  case (Cons h hs)
  obtain xs where xs: "length xs = length hs"
    "\<And>gs. gs \<noteq> [] \<Longrightarrow> wreqs A (Suc k) (hs @ gs) = xs @ wreqs A (Suc k + length hs) gs"
    using Cons.IH by blast
  then show ?case
    by (intro exI [of _ "hd (wreqs A k (h # [[]])) # xs"]) auto
qed simp

lemma wreqs_snoc:
  assumes "gs \<noteq> []"
  shows "wreqs A k (gs @ [g]) =
     (wreqs A k gs)[length gs - 1 := (wreqs A k gs ! (length gs - 1))\<lparr> wr_next := Some (k + length gs) \<rparr>]
       @ wreqs A (k + length gs) [g]"
proof -
  obtain hs h where gs: "gs = hs @ [h]" using assms by (metis rev_exhaust)
  obtain xs where "length xs = length hs"
    "\<And>gs. gs \<noteq> [] \<Longrightarrow> wreqs A k (hs @ gs) = xs @ wreqs A (k + length hs) gs"
    using wreqs_split by blast
  then show ?thesis by (simp add: gs nth_append list_update_append)
qed

lemma signed_snoc:
  "signed A m p (vs @ [v]) \<longleftrightarrow> signed A m p vs \<and>
     m ! (p + sumdeg A vs) = NULL_VERT \<and> m ! (p + sumdeg A vs + dg A v - 1) = NULL_VERT"
  by (induction vs arbitrary: p) (auto simp: add.assoc)

lemma signed_cong:
  "(\<And>i. p \<le> i \<Longrightarrow> i < p + sumdeg A vs \<Longrightarrow> m' ! i = m ! i) \<Longrightarrow> \<forall>v \<in> set vs. 0 < dg A v \<Longrightarrow>
     signed A m p vs \<Longrightarrow> signed A m' p vs"
proof (induction vs arbitrary: p)
  case (Cons v vs)
  have "signed A m' (p + dg A v) vs" using Cons by (intro Cons.IH) auto
  then show ?case using Cons.prems by auto
qed simp

lemma group_ok_snoc:
  assumes "group_ok A g" "v = last g + 1" "v < num_vertices (ctx A)" "0 < dg A v"
  shows "group_ok A (g @ [v])"
proof -
  have g: "g \<noteq> []" "g = u32_range (hd g) v" using assms(1,2) by (auto simp: group_ok_def)
  then have "hd g < v" using u32_range_empty [of v "hd g"] by (metis not_less)
  then have "u32_range (hd g) (v + 1) = g @ [v]"
    using u32_range_snoc [of "hd g" v] assms(3) g(2) by (metis order_less_imp_le)
  then show ?thesis using assms g(1) by (auto simp: group_ok_def)
qed

lemma group_ok_singleton:
  assumes "v < num_vertices (ctx A)" "0 < dg A v"
  shows "group_ok A [v]"
proof -
  have "u32_range v (v + 1) = [v]"
    using u32_range_snoc [of v v] assms(1) u32_range_empty [of v v] by simp
  then show ?thesis using assms by (simp add: group_ok_def)
qed

lemma packed_fits:
  assumes "args_ok A" "packed A m0 gs st" "v < num_vertices (ctx A)"
  shows "total_edges st + out_degree A v \<le> edge_buf_size A \<longleftrightarrow>
           sumdeg A (concat gs) + dg A v \<le> unat (edge_buf_size A)"
    and "unat (total_edges st + out_degree A v) = sumdeg A (concat gs) + dg A v"
proof -
  have "unat (total_edges st) + unat (out_degree A v) \<le> 2 * unat (edge_buf_size A)"
    using assms by (auto simp: packed_def args_ok_def dg_def)
  also have "\<dots> < 2 ^ 32" using assms(1) by (simp add: args_ok_def)
  finally have "unat (total_edges st + out_degree A v) = unat (total_edges st) + unat (out_degree A v)"
    by (rule unat_add_u32)
  moreover have "unat (total_edges st) = sumdeg A (concat gs)" using assms(2) by (simp add: packed_def)
  ultimately show "unat (total_edges st + out_degree A v) = sumdeg A (concat gs) + dg A v"
    by (simp add: dg_def)
  then show "total_edges st + out_degree A v \<le> edge_buf_size A \<longleftrightarrow>
           sumdeg A (concat gs) + dg A v \<le> unat (edge_buf_size A)"
    by (simp add: word_le_nat_alt)
qed

text \<open>Signing the slots of one more vertex.\<close>

lemma sign_slots:
  assumes "signed A m p vs" "\<forall>v \<in> set vs. 0 < dg A v" "0 < dg A v"
    and "b = p + sumdeg A vs" "b + dg A v \<le> length m"
  defines "m' \<equiv> m[b := NULL_VERT, b + (dg A v - 1) := NULL_VERT]"
  shows "signed A m' p (vs @ [v])"
    and "length m' = length m"
    and "i < b \<or> b + dg A v \<le> i \<Longrightarrow> m' ! i = m ! i"
proof -
  have out: "i < b \<or> b + dg A v \<le> i \<Longrightarrow> m' ! i = m ! i" for i
    using assms(3) by (auto simp: m'_def nth_list_update_neq)
  then show "i < b \<or> b + dg A v \<le> i \<Longrightarrow> m' ! i = m ! i" .
  have "signed A m' p vs"
    by (rule signed_cong [OF _ assms(2,1)]) (simp add: out assms(4))
  moreover have "m' ! b = NULL_VERT" "m' ! (b + dg A v - 1) = NULL_VERT"
    using assms(3,5) by (auto simp: m'_def nth_list_update)
  ultimately show "signed A m' p (vs @ [v])" by (simp add: signed_snoc assms(4))
qed (simp add: m'_def)

lemma packed_nonempty: "packed A m0 gs st \<Longrightarrow> 0 < batch_size st \<longleftrightarrow> gs \<noteq> []"
proof -
  assume p: "packed A m0 gs st"
  have "concat gs = [] \<longleftrightarrow> gs = []"
    using p by (cases gs) (auto simp: packed_def group_ok_def)
  moreover have "0 < batch_size st \<longleftrightarrow> unat (batch_size st) \<noteq> 0" by (simp add: unat_eq_zero word_neq_0_conv)
  ultimately show ?thesis using p by (simp add: packed_def)
qed

lemma packed_pos: "packed A m0 gs st \<Longrightarrow> \<forall>v \<in> set (concat gs). 0 < dg A v"
  by (auto simp: packed_def list_all_iff group_ok_def)

lemma take_update_last:
  assumes "n \<le> length xs" "0 < n"
  shows "take n (xs[n - 1 := x]) = (take n xs)[n - 1 := x]"
  using assms by (simp add: take_update_swap)

lemma take_Suc_update:
  "n < length xs \<Longrightarrow> take (Suc n) (xs[n := x]) = take n xs @ [x]"
  by (simp add: take_Suc_conv_app_nth)

lemma unat_dec: "0 < unat (x :: u32) \<Longrightarrow> unat (x - 1) = unat x - 1"
  by (simp add: unat_sub_word word_le_nat_alt)

lemma unat_u32_mult4: "4 * unat (x :: u32) < 2 ^ 32 \<Longrightarrow> unat (x * 4) = 4 * unat x"
  by (simp add: unat_mult_u32)

text \<open>The effect of packing a vertex on the fields that do not depend on coalescing.\<close>

lemma pack_vertex_counters:
  assumes "args_ok A" "packed A m0 gs st" "v < num_vertices (ctx A)" "0 < dg A v"
    and "sumdeg A (concat gs) + dg A v \<le> unat (edge_buf_size A)" "pack_vertex A v st = Some st'"
  shows "unat (total_edges st') = sumdeg A (concat gs) + dg A v"
    and "unat (batch_size st') = length (concat gs) + 1"
    and "area st' = (area st)[edge_buf A + sumdeg A (concat gs) := NULL_VERT,
                              edge_buf A + sumdeg A (concat gs) + (dg A v - 1) := NULL_VERT]"
    and "cur_v st' = cur_v st" "cb st' = cb st" "stats st' = stats st"
proof -
  have n: "out_degree A v > 0" using assms(4) by (simp add: dg_def word_less_nat_alt)
  have fits: "total_edges st + out_degree A v \<le> edge_buf_size A"
    using packed_fits(1) [OF assms(1,2,3)] assms(5) by simp
  have t: "unat (total_edges st) = sumdeg A (concat gs)" using assms(2) by (simp add: packed_def)
  have d: "unat (out_degree A v - 1) = dg A v - 1"
    using assms(4) by (simp add: unat_dec dg_def)
  have len: "length vs \<le> sumdeg A vs" if "\<forall>v \<in> set vs. 0 < dg A v" for vs
    using that by (induction vs) (auto simp: Suc_le_eq add_strict_increasing)
  have "length (concat gs) + 1 \<le> unat (edge_buf_size A)"
    using len [OF packed_pos [OF assms(2)]] assms(4,5) by simp
  then have bs: "unat (batch_size st + 1) = length (concat gs) + 1"
    using assms(2) unat_u32_lt [of "edge_buf_size A"]
    by (simp add: unat_add_u32 packed_def)
  show "unat (total_edges st') = sumdeg A (concat gs) + dg A v"
    using assms(6) n fits packed_fits(2) [OF assms(1,2,3)]
    by (auto simp: pack_vertex_def Let_def split: prod.splits if_splits)
  show "unat (batch_size st') = length (concat gs) + 1"
    using assms(6) n fits bs by (auto simp: pack_vertex_def Let_def split: prod.splits if_splits)
  show "area st' = (area st)[edge_buf A + sumdeg A (concat gs) := NULL_VERT,
                             edge_buf A + sumdeg A (concat gs) + (dg A v - 1) := NULL_VERT]"
    using assms(6) n fits t d by (auto simp: pack_vertex_def Let_def split: prod.splits if_splits)
  show "cur_v st' = cur_v st" "cb st' = cb st" "stats st' = stats st"
    using assms(6) n fits by (auto simp: pack_vertex_def Let_def split: prod.splits if_splits)
qed

lemma pack_vertex_windows:
  assumes "0 < out_degree A v" "total_edges st + out_degree A v \<le> edge_buf_size A"
    and "pack_vertex A v st = Some st'"
  defines "k \<equiv> unat (wrs st - 1)" and "b \<equiv> edge_buf A + unat (total_edges st)"
  shows "vertex_coalescing (opts A) \<and> batch_size st > 0 \<and> v = v_e (vertex_batch st ! k) + 1 \<Longrightarrow>
      wrs st' = wrs st \<and> wr_window st' = wr_window st \<and>
      vertex_batch st' = (vertex_batch st)[k := (vertex_batch st ! k)\<lparr> v_e := v \<rparr>] \<and>
      sge_window st' = (sge_window st)[k := (sge_window st ! k)
         \<lparr> sge_length := sge_length (sge_window st ! k) + out_degree A v * 4 \<rparr>]"
    and "\<not> (vertex_coalescing (opts A) \<and> batch_size st > 0 \<and> v = v_e (vertex_batch st ! k) + 1) \<Longrightarrow>
      wrs st' = wrs st + 1 \<and>
      vertex_batch st' = (vertex_batch st)[unat (wrs st) := \<lparr> v_s = v, v_e = v \<rparr>] \<and>
      (wr_window st', sge_window st') =
        prep_wr (wr_window st) (sge_window st) (wrs st) (ctx A) (area_addr A + of_nat b * 4)
          (out_degree A v * 4) (edge_offset (vtable A ! unat v) * 4)"
proof -
  show "vertex_coalescing (opts A) \<and> batch_size st > 0 \<and> v = v_e (vertex_batch st ! k) + 1 \<Longrightarrow>
      wrs st' = wrs st \<and> wr_window st' = wr_window st \<and>
      vertex_batch st' = (vertex_batch st)[k := (vertex_batch st ! k)\<lparr> v_e := v \<rparr>] \<and>
      sge_window st' = (sge_window st)[k := (sge_window st ! k)
         \<lparr> sge_length := sge_length (sge_window st ! k) + out_degree A v * 4 \<rparr>]"
    using assms(1-3) by (auto simp: pack_vertex_def Let_def k_def)
  show "\<not> (vertex_coalescing (opts A) \<and> batch_size st > 0 \<and> v = v_e (vertex_batch st ! k) + 1) \<Longrightarrow>
      wrs st' = wrs st + 1 \<and>
      vertex_batch st' = (vertex_batch st)[unat (wrs st) := \<lparr> v_s = v, v_e = v \<rparr>] \<and>
      (wr_window st', sge_window st') =
        prep_wr (wr_window st) (sge_window st) (wrs st) (ctx A) (area_addr A + of_nat b * 4)
          (out_degree A v * 4) (edge_offset (vtable A ! unat v) * 4)"
    using assms(1-3) by (auto simp: pack_vertex_def Let_def k_def b_def split: prod.splits if_splits)
qed

lemma packed_area_step:
  assumes "args_ok A" "packed A m0 gs st" "v < num_vertices (ctx A)" "0 < dg A v"
    and "sumdeg A (concat gs) + dg A v \<le> unat (edge_buf_size A)" "pack_vertex A v st = Some st'"
  shows "length (area st') = length m0"
    and "i < edge_buf A \<or> edge_buf A + unat (edge_buf_size A) \<le> i \<Longrightarrow> area st' ! i = m0 ! i"
    and "signed A (area st') (edge_buf A) (concat gs @ [v])"
proof -
  note a = pack_vertex_counters(3) [OF assms]
  have p: "length (area st) = length m0" "edge_buf A + unat (edge_buf_size A) \<le> length m0"
    "signed A (area st) (edge_buf A) (concat gs)"
    "\<And>i. i < edge_buf A \<or> edge_buf A + unat (edge_buf_size A) \<le> i \<Longrightarrow> area st ! i = m0 ! i"
    using assms(2) by (auto simp: packed_def)
  note s = sign_slots [OF p(3) packed_pos [OF assms(2)] assms(4) refl, folded a]
  have b: "edge_buf A + sumdeg A (concat gs) + dg A v \<le> length (area st)" using p assms(5) by simp
  show "length (area st') = length m0" using s(2) [OF b] p(1) by simp
  show "signed A (area st') (edge_buf A) (concat gs @ [v])" using s(1) [OF b] .
  show "i < edge_buf A \<or> edge_buf A + unat (edge_buf_size A) \<le> i \<Longrightarrow> area st' ! i = m0 ! i"
    using s(3) [OF b, of i] p(4) [of i] assms(5) by fastforce
qed

lemma pack_vertex_extends:
  assumes "args_ok A" "packed A m0 (gs @ [g]) st" "v < num_vertices (ctx A)" "0 < dg A v"
    and "sumdeg A (concat (gs @ [g])) + dg A v \<le> unat (edge_buf_size A)" "pack_vertex A v st = Some st'"
    and "vertex_coalescing (opts A)" "v = last g + 1"
  shows "packed A m0 (gs @ [g @ [v]]) st'"
proof -
  let ?k = "unat (wrs st - 1)"
  have p: "unat (wrs st) = Suc (length gs)" "Suc (length gs) \<le> unat (opt_wr_window (opts A))"
    "length (vertex_batch st) = unat (opt_wr_window (opts A))"
    "length (sge_window st) = unat (opt_wr_window (opts A))"
    "length (wr_window st) = unat (opt_wr_window (opts A))"
    "take (Suc (length gs)) (vertex_batch st) = map (\<lambda>g. \<lparr> v_s = hd g, v_e = last g \<rparr>) (gs @ [g])"
    "take (Suc (length gs)) (sge_window st) = sges A (edge_buf A) (gs @ [g])"
    "take (Suc (length gs)) (wr_window st) = wreqs A 0 (gs @ [g])"
    "list_all (group_ok A) (gs @ [g])"
    using assms(2) by (auto simp: packed_def)
  have k: "?k = length gs" using p(1) by (simp add: unat_dec)
  have vb: "vertex_batch st ! length gs = \<lparr> v_s = hd g, v_e = last g \<rparr>"
    using arg_cong [OF p(6), of "\<lambda>l. l ! length gs"] by (simp add: nth_append)
  have sg: "sge_window st ! length gs = sges A (edge_buf A + sumdeg A (concat gs)) [g] ! 0"
    using arg_cong [OF p(7), of "\<lambda>l. l ! length gs"] by (simp add: sges_snoc nth_append)
  have n: "0 < out_degree A v" using assms(4) by (simp add: dg_def word_less_nat_alt)
  have fits: "total_edges st + out_degree A v \<le> edge_buf_size A"
    using packed_fits(1) [OF assms(1,2,3)] assms(5) by simp
  have ge: "g \<noteq> []" using p(9) by (simp add: group_ok_def)
  have "0 < batch_size st" using packed_nonempty [OF assms(2)] by simp
  then have w: "wrs st' = wrs st" "wr_window st' = wr_window st"
      "vertex_batch st' = (vertex_batch st)[length gs := \<lparr> v_s = hd g, v_e = v \<rparr>]"
      "sge_window st' = (sge_window st)[length gs := (sge_window st ! length gs)
         \<lparr> sge_length := sge_length (sge_window st ! length gs) + out_degree A v * 4 \<rparr>]"
    using pack_vertex_windows(1) [OF n fits assms(6)] assms(7,8) vb k by auto
  have vb': "take (Suc (length gs)) (vertex_batch st') =
      map (\<lambda>g. \<lparr> v_s = hd g, v_e = last g \<rparr>) (gs @ [g @ [v]])"
    using p(2,3,6) ge by (simp add: w(3) take_Suc_update) (simp add: take_Suc_conv_app_nth)
  have od: "out_degree A v = of_nat (dg A v)" by (simp add: dg_def)
  have sg': "take (Suc (length gs)) (sge_window st') = sges A (edge_buf A) (gs @ [g @ [v]])"
    using p(2,4,7) by (simp add: w(4) take_Suc_update sges_snoc sg od algebra_simps)
       (simp add: take_Suc_conv_app_nth)
  have wr': "take (Suc (length gs)) (wr_window st') = wreqs A 0 (gs @ [g @ [v]])"
    using p(8) ge by (simp add: w(2) wreqs_extend)
  have gok: "group_ok A (g @ [v])" using p(9) assms by (simp add: group_ok_snoc)
  note c = pack_vertex_counters(1,2) [OF assms(1-6)]
  note ar = packed_area_step [OF assms(1-6)]
  have m: "edge_buf A + unat (edge_buf_size A) \<le> length m0" using assms(2) by (simp add: packed_def)
  show ?thesis
    unfolding packed_def using p w vb' sg' wr' gok c ar m assms(5)
    by (simp add: add.assoc)
qed

lemma prep_wr_windows:
  assumes "unat idx < length W" "length W = length S"
    and "take (unat idx) W = wreqs A 0 gs" "length gs = unat idx"
    and "prep_wr W S idx (ctx A) (area_addr A + of_nat p * 4) (of_nat (dg A v) * 4)
           (edge_offset (vtable A ! unat v) * 4) = (W', S')"
  shows "take (Suc (unat idx)) W' = wreqs A 0 (gs @ [[v]])" "length W' = length W"
    and "take (Suc (unat idx)) S' = take (unat idx) S @ sges A p [[v]]" "length S' = length S"
proof -
  let ?i = "unat idx"
  show "take (Suc ?i) S' = take ?i S @ sges A p [[v]]" "length S' = length S" "length W' = length W"
    using assms(1,2,5) by (auto simp: prep_wr_def Let_def take_Suc_update split: if_splits)
  show "take (Suc ?i) W' = wreqs A 0 (gs @ [[v]])"
  proof (cases "gs = []")
    case True
    then have "idx = 0" using assms(4) by (simp add: unat_eq_zero)
    then show ?thesis using True assms(1,5) by (auto simp: prep_wr_def Let_def take_Suc_conv_app_nth)
  next
    case False
    then have i: "0 < ?i" using assms(4) by (metis length_greater_0_conv)
    then have "0 < idx" by (simp add: word_less_nat_alt)
    have i1: "unat (idx - 1) = ?i - 1" using i by (simp add: unat_dec)
    have prev: "W ! (?i - 1) = wreqs A 0 gs ! (?i - 1)"
      using arg_cong [OF assms(3), of "\<lambda>l. l ! (?i - 1)"] i by simp
    have W': "W' = (W[?i := wreqs A ?i [[v]] ! 0])[?i - 1 := (W ! (?i - 1))\<lparr> wr_next := Some ?i \<rparr>]"
      using assms(5) \<open>0 < idx\<close> i i1 by (auto simp: prep_wr_def Let_def)
    have "take (Suc ?i) W' = (take (Suc ?i) (W[?i := wreqs A ?i [[v]] ! 0]))[?i - 1 := (W ! (?i - 1))\<lparr> wr_next := Some ?i \<rparr>]"
      using i by (simp add: W' take_update_swap)
    also have "\<dots> = (wreqs A 0 gs @ wreqs A ?i [[v]])[?i - 1 := (W ! (?i - 1))\<lparr> wr_next := Some ?i \<rparr>]"
      using assms(1,3) by (simp add: take_Suc_update)
    also have "\<dots> = wreqs A 0 (gs @ [[v]])"
      using wreqs_snoc [OF False, of A 0 "[v]"] i assms(4) prev by (simp add: list_update_append)
    finally show ?thesis .
  qed
qed

lemma pack_vertex_opens:
  assumes "args_ok A" "packed A m0 gs st" "v < num_vertices (ctx A)" "0 < dg A v"
    and "sumdeg A (concat gs) + dg A v \<le> unat (edge_buf_size A)" "pack_vertex A v st = Some st'"
    and "\<not> (vertex_coalescing (opts A) \<and> batch_size st > 0 \<and> v = v_e (vertex_batch st ! unat (wrs st - 1)) + 1)"
    and "wrs st < opt_wr_window (opts A)"
  shows "packed A m0 (gs @ [[v]]) st'"
proof -
  have p: "unat (wrs st) = length gs"
    "length (vertex_batch st) = unat (opt_wr_window (opts A))"
    "length (sge_window st) = unat (opt_wr_window (opts A))"
    "length (wr_window st) = unat (opt_wr_window (opts A))"
    "take (length gs) (vertex_batch st) = map (\<lambda>g. \<lparr> v_s = hd g, v_e = last g \<rparr>) gs"
    "take (length gs) (sge_window st) = sges A (edge_buf A) gs"
    "take (length gs) (wr_window st) = wreqs A 0 gs"
    "list_all (group_ok A) gs" "unat (total_edges st) = sumdeg A (concat gs)"
    using assms(2) by (auto simp: packed_def)
  have lt: "length gs < unat (opt_wr_window (opts A))"
    using assms(8) p(1) by (simp add: word_less_nat_alt)
  have n: "0 < out_degree A v" using assms(4) by (simp add: dg_def word_less_nat_alt)
  have fits: "total_edges st + out_degree A v \<le> edge_buf_size A"
    using packed_fits(1) [OF assms(1,2,3)] assms(5) by simp
  have od: "out_degree A v = of_nat (dg A v)" by (simp add: dg_def)
  have w: "wrs st' = wrs st + 1"
      "vertex_batch st' = (vertex_batch st)[length gs := \<lparr> v_s = v, v_e = v \<rparr>]"
      "prep_wr (wr_window st) (sge_window st) (wrs st) (ctx A)
         (area_addr A + of_nat (edge_buf A + sumdeg A (concat gs)) * 4) (of_nat (dg A v) * 4)
         (edge_offset (vtable A ! unat v) * 4) = (wr_window st', sge_window st')"
    using pack_vertex_windows(2) [OF n fits assms(6,7)] p by (simp_all add: od)
  have pre: "unat (wrs st) < length (wr_window st)" "length (wr_window st) = length (sge_window st)"
    "take (unat (wrs st)) (wr_window st) = wreqs A 0 gs" "length gs = unat (wrs st)"
    using lt p by simp_all
  note pw = prep_wr_windows [OF pre w(3), unfolded p(1)]
  have wr': "take (Suc (length gs)) (wr_window st') = wreqs A 0 (gs @ [[v]])"
    "length (wr_window st') = unat (opt_wr_window (opts A))"
    "take (Suc (length gs)) (sge_window st') = sges A (edge_buf A) (gs @ [[v]])"
    "length (sge_window st') = unat (opt_wr_window (opts A))"
    using pw p(3,4,6) by (simp_all add: sges_snoc del: sges.simps wreqs.simps)
  have vb': "take (Suc (length gs)) (vertex_batch st') =
      map (\<lambda>g. \<lparr> v_s = hd g, v_e = last g \<rparr>) (gs @ [[v]])"
    "length (vertex_batch st') = unat (opt_wr_window (opts A))"
    using lt p by (simp_all add: w(2) take_Suc_update)
  have ws: "unat (wrs st') = Suc (length gs)"
    using unat_inc [OF assms(8)] p(1) by (simp add: w(1))
  have gok: "group_ok A [v]" using assms(3,4) by (rule group_ok_singleton)
  note c = pack_vertex_counters(1,2) [OF assms(1-6)]
  note ar = packed_area_step [OF assms(1-6)]
  have m: "edge_buf A + unat (edge_buf_size A) \<le> length m0" using assms(2) by (simp add: packed_def)
  show ?thesis
    unfolding packed_def using p wr' vb' ws gok c ar m lt assms(5)
    by (simp add: Suc_le_eq)
qed

text \<open>One vertex: it is appended to the last group or opens a new one, unless it has no out-edge.\<close>

lemma pack_vertex_packed:
  assumes "args_ok A" "packed A m0 gs st" "v < num_vertices (ctx A)"
    and "wrs st < opt_wr_window (opts A)" "pack_vertex A v st = Some st'"
  obtains gs' where "packed A m0 gs' st'"
    "concat gs' = concat gs @ (if 0 < dg A v then [v] else [])"
    "cur_v st' = cur_v st" "cb st' = cb st" "stats st' = stats st"
proof (cases "0 < dg A v")
  case True
  have le: "sumdeg A (concat gs) + dg A v \<le> unat (edge_buf_size A)"
    using assms(5) packed_fits(1) [OF assms(1-3)] by (auto simp: pack_vertex_def Let_def split: if_splits)
  note c = pack_vertex_counters(4-6) [OF assms(1-3) True le assms(5)]
  show ?thesis
  proof (cases "vertex_coalescing (opts A) \<and> batch_size st > 0 \<and> v = v_e (vertex_batch st ! unat (wrs st - 1)) + 1")
    case co: True
    then have "gs \<noteq> []" using packed_nonempty [OF assms(2)] by simp
    then obtain hs g where gs: "gs = hs @ [g]" by (metis rev_exhaust)
    have w: "unat (wrs st) = Suc (length hs)"
      "take (Suc (length hs)) (vertex_batch st) = map (\<lambda>g. \<lparr> v_s = hd g, v_e = last g \<rparr>) (hs @ [g])"
      using assms(2) by (auto simp: packed_def gs)
    have "vertex_batch st ! length hs = \<lparr> v_s = hd g, v_e = last g \<rparr>"
      using arg_cong [OF w(2), of "\<lambda>l. l ! length hs"] by (simp add: nth_append)
    then have "v = last g + 1" using co w(1) by (simp add: unat_dec)
    then have "packed A m0 (hs @ [g @ [v]]) st'"
      using pack_vertex_extends [OF assms(1) assms(2) [unfolded gs] assms(3) True _ assms(5)] le co by (simp add: gs)
    then show ?thesis by (rule that) (use True c gs in auto)
  next
    case False
    then have "packed A m0 (gs @ [[v]]) st'"
      using pack_vertex_opens [OF assms(1-3) True le assms(5) False assms(4)] by simp
    then show ?thesis by (rule that) (use True c in auto)
  qed
next
  case False
  then have "out_degree A v = 0" by (simp add: dg_def unat_eq_zero)
  then have "st' = st" using assms(5) by (auto simp: pack_vertex_def Let_def split: if_splits)
  then show ?thesis using that assms(2) False by auto
qed

subsection \<open>A whole pass\<close>

definition to_read :: "pack_args \<Rightarrow> (u32 \<Rightarrow> bool) \<Rightarrow> (u32 \<Rightarrow> 'h option) \<Rightarrow> u32 \<Rightarrow> u32 \<Rightarrow> u32 list" where
  "to_read A act hit a b = filter (\<lambda>v. act v \<and> hit v = None \<and> 0 < dg A v) (u32_range a b)"

definition hits :: "(u32 \<Rightarrow> bool) \<Rightarrow> (u32 \<Rightarrow> 'h option) \<Rightarrow> u32 \<Rightarrow> u32 \<Rightarrow> u32 list" where
  "hits act hit a b = filter (\<lambda>v. act v \<and> hit v \<noteq> None) (u32_range a b)"

definition call_hit :: "(u32 \<Rightarrow> (u32 \<times> u32 list \<times> u32) option) \<Rightarrow> 's callback \<Rightarrow> u32 \<Rightarrow> 's \<Rightarrow> 's" where
  "call_hit hit F v s = (case hit v of Some (i, ns, d) \<Rightarrow> F i ns d s | None \<Rightarrow> s)"

lemma packed_frame [simp]:
  "packed A m0 gs (st\<lparr> cur_v := x \<rparr>) = packed A m0 gs st"
  "packed A m0 gs (st\<lparr> cb := c \<rparr>) = packed A m0 gs st"
  "packed A m0 gs (st\<lparr> stats := z \<rparr>) = packed A m0 gs st"
  by (simp_all add: packed_def)

lemma to_read_Cons:
  "a < b \<Longrightarrow> to_read A act hit a b =
     (if act a \<and> hit a = None \<and> 0 < dg A a then [a] else []) @ to_read A act hit (a + 1) b"
  by (simp add: to_read_def u32_range_Cons)

lemma hits_Cons:
  "a < b \<Longrightarrow> hits act hit a b = (if act a \<and> hit a \<noteq> None then [a] else []) @ hits act hit (a + 1) b"
  by (simp add: hits_def u32_range_Cons)

lemma empty_ranges [simp]: "to_read A act hit a a = []" "hits act hit a a = []"
  by (simp_all add: to_read_def hits_def)

text \<open>What a pass from state \<open>st\<close> to state \<open>st'\<close> has done.\<close>

definition passed ::
    "pack_args \<Rightarrow> (u32 \<Rightarrow> bool) \<Rightarrow> (u32 \<Rightarrow> (u32 \<times> u32 list \<times> u32) option) \<Rightarrow> 's callback \<Rightarrow> u32 list
       \<Rightarrow> u32 list list \<Rightarrow> 's pack_state \<Rightarrow> u32 list list \<Rightarrow> 's pack_state \<Rightarrow> bool" where
  "passed A act hit F m0 gs st gs' st' \<longleftrightarrow> packed A m0 gs' st' \<and> cur_v st \<le> cur_v st' \<and>
     concat gs' = concat gs @ to_read A act hit (cur_v st) (cur_v st') \<and>
     cb st' = fold (call_hit hit F) (hits act hit (cur_v st) (cur_v st')) (cb st)"

lemma passed_step:
  assumes "passed A act hit F m0 gs1 st1 gs' st'" "cur_v st < range_end" "cur_v st1 = cur_v st + 1"
    and "concat gs1 = concat gs @ (if act (cur_v st) \<and> hit (cur_v st) = None \<and> 0 < dg A (cur_v st)
           then [cur_v st] else [])"
    and "cb st1 = (if act (cur_v st) \<and> hit (cur_v st) \<noteq> None then call_hit hit F (cur_v st) (cb st) else cb st)"
  shows "passed A act hit F m0 gs st gs' st' \<and> cur_v st < cur_v st'"
proof -
  have "cur_v st + 1 \<le> cur_v st'" using assms(1,3) by (simp add: passed_def)
  then have lt: "cur_v st < cur_v st'"
    using unat_inc [OF assms(2)] by (simp add: word_le_nat_alt word_less_nat_alt)
  show ?thesis
    using assms lt to_read_Cons [OF lt, of A act hit] hits_Cons [OF lt, of act hit]
    by (auto simp: passed_def)
qed

lemma pack_vertex_None:
  "pack_vertex A v st = None \<longleftrightarrow> \<not> total_edges st + out_degree A v \<le> edge_buf_size A"
  by (simp add: pack_vertex_def Let_def)

lemma pack_loop_packed:
  assumes "args_ok A" "packed A m0 gs st" "cur_v st \<le> range_end" "range_end \<le> num_vertices (ctx A)"
  shows "\<exists>gs'. passed A act hit F m0 gs st gs' (pack_loop A t act hit F range_end st) \<and>
           cur_v (pack_loop A t act hit F range_end st) \<le> range_end"
  using assms
proof (induction A t act hit F range_end st arbitrary: gs rule: pack_loop.induct)
  case (1 A t act hit F range_end st)
  let ?v = "cur_v st" and ?L = "pack_loop A t act hit F range_end"
  have start: "passed A act hit F m0 gs st gs st" using "1.prems" by (simp add: passed_def)
  show ?case
  proof (cases "total_edges st < edge_buf_size A \<and> wrs st < opt_wr_window (opts A) \<and> ?v < range_end")
    case go: True
    then have le: "?v + 1 \<le> range_end" by (simp add: inc_le_word)
    have step: "\<exists>gs'. passed A act hit F m0 gs st gs' (?L st1) \<and> cur_v (?L st1) \<le> range_end"
      if "\<exists>gs'. passed A act hit F m0 gs1 st1 gs' (?L st1) \<and> cur_v (?L st1) \<le> range_end"
        "cur_v st1 = ?v + 1"
        "concat gs1 = concat gs @ (if act ?v \<and> hit ?v = None \<and> 0 < dg A ?v then [?v] else [])"
        "cb st1 = (if act ?v \<and> hit ?v \<noteq> None then call_hit hit F ?v (cb st) else cb st)" for gs1 st1
      using that passed_step [of A act hit F m0 gs1 st1 _ "?L st1" st range_end gs] go by blast
    show ?thesis
    proof (cases "act ?v")
      case act: True
      show ?thesis
      proof (cases "hit ?v")
        case None
        show ?thesis
        proof (cases "pack_vertex A ?v st")
          case None': None
          then have "?L st = st" using go act None by (simp add: pack_loop.simps [of A t act hit F range_end st])
          then show ?thesis using start "1.prems" by auto
        next
          case (Some st1)
          have lt: "?v < num_vertices (ctx A)" using go "1.prems"(4) by (metis order_less_le_trans)
          obtain gs1 where g: "packed A m0 gs1 st1"
            "concat gs1 = concat gs @ (if 0 < dg A ?v then [?v] else [])" "cb st1 = cb st"
            using pack_vertex_packed [OF "1.prems"(1,2) lt _ Some] go by metis
          have e: "?L st = ?L (st1\<lparr> cur_v := ?v + 1 \<rparr>)"
            using go act None Some by (simp add: pack_loop.simps [of A t act hit F range_end st] Let_def)
          have "\<exists>gs'. passed A act hit F m0 gs1 (st1\<lparr> cur_v := ?v + 1 \<rparr>) gs' (?L (st1\<lparr> cur_v := ?v + 1 \<rparr>)) \<and>
              cur_v (?L (st1\<lparr> cur_v := ?v + 1 \<rparr>)) \<le> range_end"
            by (rule "1.IH"(1) [OF go refl act None Some "1.prems"(1)]) (use g le "1.prems"(4) in auto)
          then show ?thesis unfolding e by (rule step) (use g act None in auto)
        qed
      next
        case (Some h)
        obtain i ns d where h: "h = (i, ns, d)" by (metis prod_cases3)
        let ?s = "st\<lparr> cb := F i ns d (cb st), stats := count_hit t (stats st), cur_v := ?v + 1 \<rparr>"
        have e: "?L st = ?L ?s"
          using go act Some h by (simp add: pack_loop.simps [of A t act hit F range_end st] Let_def)
        have "\<exists>gs'. passed A act hit F m0 gs ?s gs' (?L ?s) \<and> cur_v (?L ?s) \<le> range_end"
          using "1.IH"(2) [OF go refl act] Some h "1.prems" le by auto
        then show ?thesis unfolding e by (rule step) (use act Some h in \<open>auto simp: call_hit_def\<close>)
      qed
    next
      case False
      let ?s = "st\<lparr> cur_v := ?v + 1 \<rparr>"
      have e: "?L st = ?L ?s"
        using go False by (simp add: pack_loop.simps [of A t act hit F range_end st] Let_def)
      have "\<exists>gs'. passed A act hit F m0 gs ?s gs' (?L ?s) \<and> cur_v (?L ?s) \<le> range_end"
        using "1.IH"(3) [OF go refl False] "1.prems" le by auto
      then show ?thesis unfolding e by (rule step) (use False in auto)
    qed
  next
    case False
    then have "?L st = st" by (auto simp: pack_loop.simps [of A t act hit F range_end st])
    then show ?thesis using start "1.prems" by auto
  qed
qed

text \<open>A pass on an empty buffer gets past its first vertex.\<close>

lemma pack_loop_progress:
  assumes "args_ok A" "packed A m0 [] st" "cur_v st < range_end" "range_end \<le> num_vertices (ctx A)"
    and "0 < edge_buf_size A" "0 < opt_wr_window (opts A)"
  shows "cur_v st < cur_v (pack_loop A t act hit F range_end st)"
proof -
  let ?v = "cur_v st" and ?L = "pack_loop A t act hit F range_end"
  have z: "total_edges st = 0" "wrs st = 0" using assms(2) by (auto simp: packed_def unat_eq_zero)
  have lt: "?v < num_vertices (ctx A)" using assms(3,4) by (rule order_less_le_trans)
  have mono: "?v < cur_v (?L st1)" if "packed A m0 gs st1" "cur_v st1 = ?v + 1" for gs st1
  proof -
    have "?v + 1 \<le> cur_v (?L st1)"
      using pack_loop_packed [OF assms(1) that(1) _ assms(4), of act hit F t] that(2) inc_le_word [OF assms(3)]
      by (auto simp: passed_def)
    then show ?thesis using unat_inc [OF assms(3)] by (simp add: word_le_nat_alt word_less_nat_alt)
  qed
  have "pack_vertex A ?v st \<noteq> None"
    using packed_fits(1) [OF assms(1,2) lt] assms(1) lt by (simp add: pack_vertex_None args_ok_def)
  then obtain st1 where st1: "pack_vertex A ?v st = Some st1" by auto
  obtain gs1 where "packed A m0 gs1 st1"
    using pack_vertex_packed [OF assms(1,2) lt _ st1] z assms(6) by metis
  then show ?thesis
    using z assms(2,3,5,6) st1 mono
    by (auto simp: pack_loop.simps [of A t act hit F range_end st] Let_def split: option.splits)
qed

end
