(* ===== verification/Edge_Iterator.thy ===== *)
theory Edge_Iterator
  imports Pack_Window
begin

text \<open>
  The edge iterators of \<open>src/src/bitmap.hpp\<close>, namespace \<open>single_buffer\<close>:
  \<open>for_each_active_batch\<close>, \<open>ccy_for_each_active_batch\<close> and \<open>for_each_range\<close>. A worker packs a
  window, posts it, spins on the signed slots until the network card has overwritten them and
  hands each adjacency list to the callback. The card, the scheduler of \<open>tbb::parallel_for\<close> and
  the caches are parameters; \<open>nic_ok\<close>, \<open>splits\<close> and \<open>coherent\<close> say what is relied on.
  The main result (\<open>chunk_visits\<close>) is that a worker's loop returns and has called the callback on
  exactly the active vertices of its range, each with its adjacency list in the server's array.
\<close>

subsection \<open>The network card\<close>

text \<open>
  \<open>post_send k chain\<close> is the return code of the \<open>k\<close>-th attempt to post the chain, \<open>dma chain m t\<close>
  the RDMA area \<open>t\<close> polls after the chain was accepted with the area at \<open>m\<close>.
\<close>

record nic =
  post_send :: "nat \<Rightarrow> (ibv_send_wr \<times> ibv_sge) list \<Rightarrow> int"
  dma :: "(ibv_send_wr \<times> ibv_sge) list \<Rightarrow> u32 list \<Rightarrow> nat \<Rightarrow> u32 list"

definition ENOMEM :: int where
  "ENOMEM = 12"

text \<open>The requests the card sees: the list linked from the first one.\<close>

fun wr_chain :: "nat \<Rightarrow> ibv_send_wr list \<Rightarrow> ibv_sge list \<Rightarrow> nat \<Rightarrow> (ibv_send_wr \<times> ibv_sge) list" where
  "wr_chain 0 W S i = []"
| "wr_chain (Suc f) W S i =
     (W ! i, S ! sg_list (W ! i)) #
     (case wr_next (W ! i) of None \<Rightarrow> [] | Some j \<Rightarrow> wr_chain f W S j)"

definition posted :: "'s pack_state \<Rightarrow> (ibv_send_wr \<times> ibv_sge) list" where
  "posted st = wr_chain (length (wr_window st)) (wr_window st) (sge_window st) 0"

subsection \<open>The iterators\<close>

text \<open>\<open>while (e_buf[i] == NULL_VERT) {}\<close>, over the values the slot has at successive polls.\<close>

partial_function (option) spin :: "(nat \<Rightarrow> u32) \<Rightarrow> nat \<Rightarrow> nat option" where
  "spin slot t = (if slot t = NULL_VERT then spin slot (Suc t) else Some t)"

text \<open>The vertices of one \<open>vertex_range\<close>; the loop \<open>v <= v_e\<close> would not end at the largest index.\<close>

definition range_vertices :: "vertex_range \<Rightarrow> u32 list option" where
  "range_vertices r =
     (if v_s r \<le> v_e r \<and> v_e r = 0xFFFFFFFF then None else Some (u32_range (v_s r) (v_e r + 1)))"

definition batch_vertices :: "'s pack_state \<Rightarrow> u32 list option" where
  "batch_vertices st =
     map_option concat (those (map range_vertices (take (unat (wrs st)) (vertex_batch st))))"

text \<open>The callback on every vertex of the batch, \<open>e_buf\<close> and the time of the last poll threaded through.\<close>

fun consume ::
    "(nat \<Rightarrow> u32 list) \<Rightarrow> pack_args \<Rightarrow> 's callback \<Rightarrow> u32 list \<Rightarrow> nat \<Rightarrow> nat \<Rightarrow> 's \<Rightarrow> ('s \<times> nat) option" where
  "consume mem A F [] e_buf t s = Some (s, t)"
| "consume mem A F (v # vs) e_buf t s =
     (let n_edges = out_degree A v in
      case spin (\<lambda>t. mem t ! e_buf) t of
        None \<Rightarrow> None
      | Some t1 \<Rightarrow>
          (case spin (\<lambda>t. mem t ! (e_buf + unat (n_edges - 1))) t1 of
             None \<Rightarrow> None
           | Some t2 \<Rightarrow>
               consume mem A F vs (e_buf + unat n_edges) t2
                 (F v (take (unat n_edges) (drop e_buf (mem t2))) n_edges s)))"

datatype abort = Rc_die

text \<open>Posting once, and posting again as long as the send queue is full.\<close>

definition post_once :: "nic \<Rightarrow> (ibv_send_wr \<times> ibv_sge) list \<Rightarrow> int option" where
  "post_once n ch = Some (post_send n 0 ch)"

partial_function (option) post_retry :: "nic \<Rightarrow> (ibv_send_wr \<times> ibv_sge) list \<Rightarrow> nat \<Rightarrow> int option" where
  "post_retry n ch k = (if post_send n k ch = ENOMEM then post_retry n ch (Suc k) else Some (post_send n k ch))"

text \<open>
  The loop of one worker over its range. \<open>pack\<close> is the packing pass, \<open>post\<close> the posting code,
  \<open>any\<close> the test on the result of the pass.
\<close>

partial_function (option) batch_loop ::
    "(u32 \<Rightarrow> 's pack_state \<Rightarrow> 's pack_state) \<Rightarrow> ((ibv_send_wr \<times> ibv_sge) list \<Rightarrow> int option)
       \<Rightarrow> ('s pack_state \<Rightarrow> bool) \<Rightarrow> nic \<Rightarrow> pack_args \<Rightarrow> 's callback \<Rightarrow> u32 \<Rightarrow> u32 \<Rightarrow> 's pack_state
       \<Rightarrow> (abort + 's pack_state) option" where
  "batch_loop pack post any n A F range_end next_range_start st =
     (if next_range_start < range_end then
        let st1 = pack next_range_start st in
        if any st1 then
          Option.bind (post (posted st1)) (\<lambda>ret.
            if ret \<noteq> 0 then Some (Inl Rc_die)
            else
              Option.bind (batch_vertices st1) (\<lambda>vs.
                Option.bind (consume (dma n (posted st1) (area st1)) A F vs (edge_buf A) 0 (cb st1)) (\<lambda>(s, t).
                  batch_loop pack post any n A F range_end (cur_v st1)
                    (st1\<lparr> cb := s, area := dma n (posted st1) (area st1) t \<rparr>))))
        else batch_loop pack post any n A F range_end (cur_v st1) st1
      else Some (Inr st))"

text \<open>
  The subranges a \<open>tbb::parallel_for\<close> executes, with the worker of each, one after the other.
  \<open>F t\<close> is the callback as worker \<open>t\<close> runs it.
\<close>

type_synonym chunks = "(worker \<times> u32 \<times> u32) list"

definition worker_args :: "pack_args \<Rightarrow> worker \<Rightarrow> pack_args" where
  "worker_args A t = A\<lparr> edge_buf := t * unat (edge_buf_size A) \<rparr>"

fun run_chunks ::
    "(worker \<Rightarrow> u32 \<Rightarrow> u32 \<Rightarrow> 's pack_state \<Rightarrow> (abort + 's pack_state) option) \<Rightarrow> chunks
       \<Rightarrow> 's pack_state \<Rightarrow> (abort + 's pack_state) option" where
  "run_chunks body [] st = Some (Inr st)"
| "run_chunks body ((t, b, e) # cs) st =
     (case body t b e st of
        None \<Rightarrow> None
      | Some (Inl x) \<Rightarrow> Some (Inl x)
      | Some (Inr st') \<Rightarrow> run_chunks body cs st')"

definition end_round :: "'s pack_state \<Rightarrow> 's pack_state" where
  "end_round st = st\<lparr> stats := clear_stats_round (stats st) \<rparr>"

definition for_each_active_batch ::
    "nic \<Rightarrow> pack_args \<Rightarrow> Bitmap \<Rightarrow> chunks \<Rightarrow> (worker \<Rightarrow> 's callback) \<Rightarrow> 's pack_state \<Rightarrow> (abort + 's pack_state) option" where
  "for_each_active_batch n A frontier cs F st =
     map_option (map_sum id end_round)
       (run_chunks (\<lambda>t b e. batch_loop
            (\<lambda>r. pack_window (worker_args A t) t frontier (F t) r e)
            (post_once n) (\<lambda>st. wrs st > 0) n (worker_args A t) (F t) e b) cs st)"

definition ccy_for_each_active_batch ::
    "nic \<Rightarrow> pack_args \<Rightarrow> cache_map option \<Rightarrow> cache_manager option \<Rightarrow> Bitmap \<Rightarrow> chunks
       \<Rightarrow> (worker \<Rightarrow> 's callback) \<Rightarrow> 's pack_state \<Rightarrow> (abort + 's pack_state) option" where
  "ccy_for_each_active_batch n A cache_map cacheManager frontier cs F st =
     map_option (map_sum id end_round)
       (run_chunks (\<lambda>t b e. batch_loop
            (\<lambda>r. cache_pack_window (worker_args A t) t cache_map cacheManager frontier (F t) r e)
            (\<lambda>ch. post_retry n ch 0) (\<lambda>st. wrs st > 0) n (worker_args A t) (F t) e b) cs st)"

definition for_each_range ::
    "nic \<Rightarrow> pack_args \<Rightarrow> chunks \<Rightarrow> (worker \<Rightarrow> 's callback) \<Rightarrow> 's pack_state \<Rightarrow> (abort + 's pack_state) option" where
  "for_each_range n A cs F st =
     map_option (map_sum id end_round)
       (run_chunks (\<lambda>t b e. batch_loop
            (\<lambda>r. pack_window2 (worker_args A t) t (F t) r e)
            (post_once n) (\<lambda>st. batch_size st > 0) n (worker_args A t) (F t) e b) cs st)"

text \<open>The callback on a list of cached vertices; no iterator calls it.\<close>

definition handle_cache :: "'s callback \<Rightarrow> cache_elem list \<Rightarrow> 's \<Rightarrow> 's" where
  "handle_cache F cache_hit_list s =
     fold (\<lambda>elem. F (getId elem) (elem_neighbors elem) (elem_out_degree elem)) cache_hit_list s"

subsection \<open>What is relied on\<close>

text \<open>The words a read request moves into the area, in order.\<close>

definition read_words :: "pack_args \<Rightarrow> u32 list \<Rightarrow> ibv_send_wr \<times> ibv_sge \<Rightarrow> (nat \<times> u32) list" where
  "read_words A remote x =
     (let w = fst x; s = snd x;
          src = unat (remote_addr w - peer_addr (ctx A)) div 4;
          dst = unat (sge_addr s - area_addr A) div 4;
          n = unat (sge_length s) div 4
      in zip [dst..<dst + n] (take n (drop src remote)))"

definition apply_writes :: "(nat \<times> 'a) list \<Rightarrow> 'a list \<Rightarrow> 'a list" where
  "apply_writes ws m = fold (\<lambda>(i, x) m. m[i := x]) ws m"

text \<open>A read within the two registered regions, with their keys.\<close>

definition valid_read :: "pack_args \<Rightarrow> u32 list \<Rightarrow> nat \<Rightarrow> ibv_send_wr \<times> ibv_sge \<Rightarrow> bool" where
  "valid_read A remote len x =
     (let w = fst x; s = snd x;
          src = unat (remote_addr w - peer_addr (ctx A)) div 4;
          dst = unat (sge_addr s - area_addr A) div 4;
          n = unat (sge_length s) div 4
      in opcode w = IBV_WR_RDMA_READ \<and> num_sge w = 1 \<and> rkey w = peer_rkey (ctx A) \<and>
         sge_lkey s = heap_lkey (ctx A) \<and> src + n \<le> length remote \<and> dst + n \<le> len \<and> 0 < n)"

text \<open>
  The card accepts a chain of valid reads, at once or after refusing it for lack of resources, and
  places the words of its requests in order, all of them after some time.
\<close>

definition nic_ok :: "nic \<Rightarrow> pack_args \<Rightarrow> u32 list \<Rightarrow> bool" where
  "nic_ok n A remote \<longleftrightarrow>
     (\<forall>ch m. (\<forall>x \<in> set ch. valid_read A remote (length m) x) \<longrightarrow>
        (\<exists>k. post_send n k ch = 0 \<and> (\<forall>j < k. post_send n j ch = ENOMEM)) \<and>
        (\<exists>p :: nat \<Rightarrow> nat. mono p \<and> (\<exists>T. length (concat (map (read_words A remote) ch)) \<le> p T) \<and>
           (\<forall>t. dma n ch m t = apply_writes (take (p t) (concat (map (read_words A remote) ch))) m)))"

text \<open>The same card with room in its send queue.\<close>

definition nic_ready :: "nic \<Rightarrow> bool" where
  "nic_ready n \<longleftrightarrow> (\<forall>ch. post_send n 0 ch \<noteq> ENOMEM)"

text \<open>The adjacency list of a vertex in the server's edge array.\<close>

definition adjs :: "pack_args \<Rightarrow> u32 list \<Rightarrow> u32 \<Rightarrow> u32 list" where
  "adjs A remote v = adj remote (vtable A) (num_edges (ctx A)) (unat v)"

text \<open>A cached copy of a vertex agrees with the remote adjacency list.\<close>

definition coherent :: "pack_args \<Rightarrow> u32 list \<Rightarrow> (u32 \<Rightarrow> (u32 \<times> u32 list \<times> u32) option) \<Rightarrow> bool" where
  "coherent A remote hit \<longleftrightarrow>
     (\<forall>v i ns d. hit v = Some (i, ns, d) \<longrightarrow>
        i = v \<and> ns = adjs A remote v \<and> d = out_degree A v)"

text \<open>The subranges cover a range exactly once and belong to existing workers.\<close>

definition splits :: "nat \<Rightarrow> u32 \<Rightarrow> u32 \<Rightarrow> chunks \<Rightarrow> bool" where
  "splits workers lo hi cs \<longleftrightarrow>
     (\<forall>(t, b, e) \<in> set cs. t < workers \<and> e \<le> hi) \<and>
     mset (concat (map (\<lambda>(t, b, e). u32_range b e) cs)) = mset (u32_range lo hi)"

text \<open>One call of the callback with the adjacency list of \<open>v\<close>.\<close>

definition visit :: "pack_args \<Rightarrow> u32 list \<Rightarrow> 's callback \<Rightarrow> u32 \<Rightarrow> 's \<Rightarrow> 's" where
  "visit A remote F v = F v (adjs A remote v) (out_degree A v)"

subsection \<open>The reads of a packed window\<close>

lemma wr_chain_wreqs:
  assumes "gs \<noteq> []" "length gs \<le> f"
    and "\<forall>i < length gs. W ! (k + i) = wreqs A k gs ! i" "\<forall>i < length gs. S ! (k + i) = sges A p gs ! i"
  shows "wr_chain f W S k = zip (wreqs A k gs) (sges A p gs)"
  using assms
proof (induction gs arbitrary: k p f)
  case (Cons g gs)
  obtain f' where f: "f = Suc f'" using Cons.prems(2) by (cases f) auto
  have W: "W ! k = wreqs A k (g # gs) ! 0" and S: "S ! k = sges A p (g # gs) ! 0"
    using Cons.prems(3,4) by (metis add.right_neutral length_greater_0_conv list.distinct(1))+
  show ?case
  proof (cases "gs = []")
    case True
    then show ?thesis using W S by (simp add: f)
  next
    case False
    have "\<forall>i < length gs. W ! (Suc k + i) = wreqs A (Suc k) gs ! i"
      "\<forall>i < length gs. S ! (Suc k + i) = sges A (p + sumdeg A g) gs ! i"
      using Cons.prems(3,4) by (metis Suc_less_eq add_Suc_right add_Suc length_Cons nth_Cons_Suc wreqs.simps(2) sges.simps(2))+
    then have "wr_chain f' W S (Suc k) = zip (wreqs A (Suc k) gs) (sges A (p + sumdeg A g) gs)"
      using Cons.IH [OF False, of f' "Suc k"] Cons.prems(2) f by simp
    then show ?thesis using False W S by (simp add: f)
  qed
qed simp

lemma posted_packed:
  assumes "packed A m0 gs st" "gs \<noteq> []"
  shows "posted st = zip (wreqs A 0 gs) (sges A (edge_buf A) gs)"
proof -
  have "\<forall>i < length gs. wr_window st ! (0 + i) = wreqs A 0 gs ! i"
    "\<forall>i < length gs. sge_window st ! (0 + i) = sges A (edge_buf A) gs ! i"
    "length gs \<le> length (wr_window st)"
    using assms(1) by (auto simp: packed_def) (metis nth_take)+
  then show ?thesis unfolding posted_def by (intro wr_chain_wreqs) (use assms(2) in auto)
qed

text \<open>The words of one group are the adjacency lists of its vertices.\<close>

lemma group_span:
  assumes "args_ok A" "group_ok A g"
  shows "[unat (hd g)..<Suc (unat (last g))] = map unat g" "Suc (unat (last g)) \<le> unat (num_vertices (ctx A))"
    "hd g \<le> last g" "last g < num_vertices (ctx A)"
proof -
  have lt: "last g < num_vertices (ctx A)" using assms(2) by (auto simp: group_ok_def)
  have u: "unat (last g + 1) = Suc (unat (last g))" using lt by (rule unat_inc)
  show "[unat (hd g)..<Suc (unat (last g))] = map unat g"
    using assms(2) map_unat_u32_range [of "hd g" "last g + 1"] u by (simp add: group_ok_def)
  show "Suc (unat (last g)) \<le> unat (num_vertices (ctx A))" using lt by (simp add: word_less_nat_alt)
  have "hd g < last g + 1" using assms(2) by (metis group_ok_def not_le u32_range_empty)
  then show "hd g \<le> last g" using u by (simp add: word_less_nat_alt word_le_nat_alt)
  show "last g < num_vertices (ctx A)" by (rule lt)
qed

lemma sum_deg_span:
  assumes "csr_ok table n m" "a \<le> b" "b \<le> unat n"
  shows "sum_list (map (deg table m) [a..<b]) = off table m b - off table m a"
  using assms(2,3)
proof (induction b rule: dec_induct)
  case (step b)
  then show ?case using off_Suc [OF assms(1), of b] off_mono [OF assms(1), of a b] by simp
qed simp

lemma group_words:
  assumes "args_ok A" "group_ok A g"
  shows "sumdeg A g = off (vtable A) (num_edges (ctx A)) (Suc (unat (last g))) - off (vtable A) (num_edges (ctx A)) (unat (hd g))"
    and "concat (map (adjs A remote) g) =
      take (sumdeg A g) (drop (off (vtable A) (num_edges (ctx A)) (unat (hd g))) remote)"
proof -
  let ?t = "vtable A" and ?m = "num_edges (ctx A)" and ?n = "num_vertices (ctx A)"
  have csr: "csr_ok ?t ?n ?m" using assms(1) by (simp add: args_ok_def)
  note sp = group_span [OF assms]
  have le: "unat (hd g) \<le> Suc (unat (last g))" using sp(3) by (simp add: word_le_nat_alt)
  have "map (dg A) g = map (deg ?t ?m) (map unat g)"
    using assms(2) by (auto simp: group_ok_def dg_deg [OF assms(1)])
  then show s: "sumdeg A g = off ?t ?m (Suc (unat (last g))) - off ?t ?m (unat (hd g))"
    using sum_deg_span [OF csr le sp(2)] by (simp only: sumdeg_def sp(1))
  have "map (adjs A remote) g = map (adj remote ?t ?m) (map unat g)"
    by (simp add: adjs_def)
  then show "concat (map (adjs A remote) g) = take (sumdeg A g) (drop (off ?t ?m (unat (hd g))) remote)"
    using adj_contiguous [OF csr le sp(2), of remote] sp(1) by (simp only: s)
qed

lemma sumdeg_pos: "v \<in> set vs \<Longrightarrow> 0 < dg A v \<Longrightarrow> 0 < sumdeg A vs"
  by (induction vs) auto

lemma group_read:
  assumes "args_ok A" "group_ok A g" "edge_buf A \<le> p" "p + sumdeg A g \<le> edge_buf A + unat (edge_buf_size A)"
    and "length remote = unat (num_edges (ctx A))" "edge_buf A + unat (edge_buf_size A) \<le> len"
    and "x = (hd (wreqs A k (g # gs)), hd (sges A p (g # gs)))"
  shows "read_words A remote x = zip [p..<p + sumdeg A g] (concat (map (adjs A remote) g))"
    and "valid_read A remote len x"
proof -
  let ?t = "vtable A" and ?m = "num_edges (ctx A)" and ?n = "num_vertices (ctx A)"
  have csr: "csr_ok ?t ?n ?m" and b: "4 * unat (edge_buf_size A) < 2 ^ 32" "4 * unat ?m < 2 ^ 64"
    "4 * (edge_buf A + unat (edge_buf_size A)) < 2 ^ 64"
    using assms(1) by (simp_all add: args_ok_def)
  note sp = group_span [OF assms(1,2)]
  have hd: "unat (hd g) < unat ?n" "unat (hd g) \<le> unat (last g)" using sp(2,3) by (auto simp: word_le_nat_alt)
  have o: "off ?t ?m (unat (hd g)) = unat (edge_offset (?t ! unat (hd g)))"
    using hd(1) csr_ok_length [OF csr] by (simp add: off_def)
  have le: "off ?t ?m (Suc (unat (last g))) \<le> unat ?m" using off_le_end [OF csr sp(2)] .
  have mono: "off ?t ?m (unat (hd g)) \<le> off ?t ?m (Suc (unat (last g)))"
    using off_mono [OF csr _ sp(2)] hd(2) by simp
  have pos: "0 < sumdeg A g"
    using sumdeg_pos [of "hd g" g A] assms(2) by (metis group_ok_def hd_in_set)
  have src: "unat (remote_addr (fst x) - peer_addr (ctx A)) div 4 = off ?t ?m (unat (hd g))"
    using b(2) le mono by (simp add: assms(7) o unat_mult_u64)
  have "unat (of_nat p * 4 :: u64) = 4 * p"
    using b(3) assms(4) by (simp add: unat_mult_u64 unat_of_nat_u64)
  then have dst: "unat (sge_addr (snd x) - area_addr A) div 4 = p" by (simp add: assms(7))
  have "unat (of_nat (sumdeg A g) * 4 :: u32) = 4 * sumdeg A g"
    using b(1) assms(3,4) by (simp add: unat_mult_u32 unat_of_nat_u32)
  then have n: "unat (sge_length (snd x)) div 4 = sumdeg A g" by (simp add: assms(7))
  show "read_words A remote x = zip [p..<p + sumdeg A g] (concat (map (adjs A remote) g))"
    using group_words(2) [OF assms(1,2), of remote] by (simp add: read_words_def Let_def src dst n)
  have "off ?t ?m (unat (hd g)) + sumdeg A g \<le> length remote"
    using group_words(1) [OF assms(1,2)] le mono assms(5) by simp
  moreover have "p + sumdeg A g \<le> len" using assms(4,6) by simp
  ultimately show "valid_read A remote len x"
    using pos by (simp add: valid_read_def Let_def src dst n) (simp add: assms(7))
qed

lemma length_adjs:
  assumes "args_ok A" "length remote = unat (num_edges (ctx A))" "v < num_vertices (ctx A)"
  shows "length (adjs A remote v) = dg A v"
  using assms length_adj [of "vtable A" "num_vertices (ctx A)" "num_edges (ctx A)" "unat v" remote]
  by (simp add: adjs_def dg_deg args_ok_def word_less_nat_alt)

lemma length_concat_adjs:
  assumes "args_ok A" "length remote = unat (num_edges (ctx A))" "\<forall>v \<in> set vs. v < num_vertices (ctx A)"
  shows "length (concat (map (adjs A remote) vs)) = sumdeg A vs"
  using assms(3) by (induction vs) (auto simp: length_adjs [OF assms(1,2)])

lemma chain_reads:
  assumes "args_ok A" "list_all (group_ok A) gs" "edge_buf A \<le> p"
    and "p + sumdeg A (concat gs) \<le> edge_buf A + unat (edge_buf_size A)"
    and "length remote = unat (num_edges (ctx A))" "edge_buf A + unat (edge_buf_size A) \<le> len"
  shows "concat (map (read_words A remote) (zip (wreqs A k gs) (sges A p gs))) =
      zip [p..<p + sumdeg A (concat gs)] (concat (map (adjs A remote) (concat gs))) \<and>
    (\<forall>x \<in> set (zip (wreqs A k gs) (sges A p gs)). valid_read A remote len x)"
  using assms(2-4)
proof (induction gs arbitrary: k p)
  case (Cons g gs)
  let ?x = "(hd (wreqs A k (g # gs)), hd (sges A p (g # gs)))"
  have g: "group_ok A g" using Cons.prems by simp
  have r: "read_words A remote ?x = zip [p..<p + sumdeg A g] (concat (map (adjs A remote) g))"
    "valid_read A remote len ?x"
    using group_read [OF assms(1) g Cons.prems(2) _ assms(5,6) refl] Cons.prems(3) by simp_all
  have len: "length (concat (map (adjs A remote) g)) = sumdeg A g"
    using g by (intro length_concat_adjs [OF assms(1,5)]) (auto simp: group_ok_def)
  have IH: "concat (map (read_words A remote) (zip (wreqs A (Suc k) gs) (sges A (p + sumdeg A g) gs))) =
      zip [p + sumdeg A g..<p + sumdeg A g + sumdeg A (concat gs)] (concat (map (adjs A remote) (concat gs)))"
    "\<forall>x \<in> set (zip (wreqs A (Suc k) gs) (sges A (p + sumdeg A g) gs)). valid_read A remote len x"
    using Cons.IH [of "p + sumdeg A g" "Suc k"] Cons.prems by simp_all
  have up: "[p..<p + (sumdeg A g + sumdeg A (concat gs))] =
      [p..<p + sumdeg A g] @ [p + sumdeg A g..<p + sumdeg A g + sumdeg A (concat gs)]"
    using upt_add_eq_append [of p "p + sumdeg A g" "sumdeg A (concat gs)"] by (simp add: add.assoc)
  show ?case
    using IH r by (simp add: up zip_append len)
qed simp

text \<open>Writing a block of words, or a prefix of it.\<close>

lemma apply_writes_block:
  assumes "p + length xs \<le> length m"
  shows "apply_writes (take k (zip [p..<p + length xs] xs)) m =
    take p m @ take k xs @ drop (p + min k (length xs)) m"
  using assms
proof (induction xs arbitrary: p k m)
  case (Cons x xs)
  show ?case
  proof (cases k)
    case (Suc j)
    have "p < length m" using Cons.prems by simp
    then have m: "take (Suc p) (m[p := x]) = take p m @ [x]" "\<And>n. drop (Suc p + n) (m[p := x]) = drop (Suc p + n) m"
      by (simp_all add: take_Suc_conv_app_nth)
    have "apply_writes (take j (zip [Suc p..<Suc p + length xs] xs)) (m[p := x]) =
        take (Suc p) (m[p := x]) @ take j xs @ drop (Suc p + min j (length xs)) (m[p := x])"
      using Cons.prems by (intro Cons.IH) simp
    then show ?thesis
      using Suc m by (simp add: apply_writes_def upt_conv_Cons del: upt_Suc)
  qed (simp add: apply_writes_def)
qed (simp add: apply_writes_def)

subsection \<open>Waiting and consuming\<close>

lemma spin_returns:
  assumes "slot T \<noteq> NULL_VERT" "t \<le> T"
  shows "\<exists>t'. spin slot t = Some t' \<and> t \<le> t' \<and> slot t' \<noteq> NULL_VERT"
  using assms(2)
proof (induction t rule: inc_induct)
  case base
  then show ?case using assms(1) by (subst spin.simps) simp
next
  case (step n)
  then show ?case by (subst spin.simps) (auto dest: Suc_leD)
qed

text \<open>
  The area while a block \<open>ws\<close> arrives at \<open>eb\<close> over \<open>m\<close>: \<open>p t\<close> words are there at poll \<open>t\<close>.
\<close>

definition arriving :: "(nat \<Rightarrow> u32 list) \<Rightarrow> nat \<Rightarrow> u32 list \<Rightarrow> u32 list \<Rightarrow> (nat \<Rightarrow> nat) \<Rightarrow> bool" where
  "arriving mem eb m ws p \<longleftrightarrow> mono p \<and> (\<exists>T. length ws \<le> p T) \<and> eb + length ws \<le> length m \<and>
     NULL_VERT \<notin> set ws \<and>
     (\<forall>t. mem t = take eb m @ take (p t) ws @ drop (eb + min (p t) (length ws)) m)"

lemma arriving_nth:
  assumes "arriving mem eb m ws p" "i < length ws"
  shows "mem t ! (eb + i) = (if i < p t then ws ! i else m ! (eb + i))"
proof -
  have m: "mem t = take eb m @ take (p t) ws @ drop (eb + min (p t) (length ws)) m"
    and le: "eb + length ws \<le> length m"
    using assms(1) by (auto simp: arriving_def)
  show ?thesis
  proof (cases "i < p t")
    case False
    then have "min (p t) (length ws) = p t" using assms(2) by simp
    then show ?thesis using False le assms(2) by (simp add: m nth_append min_def)
  qed (use le assms(2) in \<open>simp add: m nth_append\<close>)
qed

lemma arriving_spin:
  assumes "arriving mem eb m ws p" "i < length ws" "m ! (eb + i) = NULL_VERT"
  obtains t' where "spin (\<lambda>t. mem t ! (eb + i)) t = Some t'" "t \<le> t'" "i < p t'"
proof -
  obtain T where T: "length ws \<le> p T" "mono p" using assms(1) by (auto simp: arriving_def)
  have "p T \<le> p (max t T)" using T(2) by (simp add: monoD)
  then have "i < p (max t T)" using T(1) assms(2) by simp
  moreover have "ws ! i \<noteq> NULL_VERT"
    using assms(1,2) unfolding arriving_def by (metis nth_mem)
  ultimately have "mem (max t T) ! (eb + i) \<noteq> NULL_VERT"
    by (simp add: arriving_nth [OF assms(1,2)])
  from spin_returns [of "\<lambda>t. mem t ! (eb + i)", OF this max.cobounded1]
  obtain t' where "spin (\<lambda>t. mem t ! (eb + i)) t = Some t'" "t \<le> t'" "mem t' ! (eb + i) \<noteq> NULL_VERT"
    by blast
  moreover from this(3) have "i < p t'"
    using arriving_nth [OF assms(1,2), of t'] assms(3) by (simp split: if_splits)
  ultimately show ?thesis using that by blast
qed

lemma arriving_block:
  assumes "arriving mem eb m (pre @ xs @ post) p" "length pre + length xs \<le> p t"
  shows "take (length xs) (drop (eb + length pre) (mem t)) = xs"
proof -
  let ?ws = "pre @ xs @ post"
  have m: "mem t = take eb m @ take (p t) ?ws @ drop (eb + min (p t) (length ?ws)) m"
    and le: "eb + length ?ws \<le> length m"
    using assms(1) unfolding arriving_def by blast+
  have "drop (eb + length pre) (mem t) =
      xs @ take (p t - length pre - length xs) post @ drop (eb + min (p t) (length ?ws)) m"
    using le assms(2) by (simp add: m min_absorb2)
  then show ?thesis by simp
qed

lemma consume_returns:
  assumes "args_ok A" "length remote = unat (num_edges (ctx A))"
    and "arriving mem eb m (pre @ concat (map (adjs A remote) vs)) p"
    and "\<forall>v \<in> set vs. v < num_vertices (ctx A) \<and> 0 < dg A v" "signed A m (eb + length pre) vs"
  shows "\<exists>t'. consume mem A F vs (eb + length pre) t s = Some (fold (visit A remote F) vs s, t') \<and> t \<le> t' \<and>
    (vs \<noteq> [] \<longrightarrow> length pre + sumdeg A vs \<le> p t')"
  using assms(3-5)
proof (induction vs arbitrary: pre t s)
  case (Cons v vs)
  let ?x = "adjs A remote v" and ?ws = "pre @ concat (map (adjs A remote) (v # vs))"
  have v: "0 < dg A v" "length ?x = dg A v"
    using Cons.prems length_adjs [OF assms(1,2)] by auto
  have sg: "m ! (eb + length pre) = NULL_VERT" "m ! (eb + (length pre + dg A v - 1)) = NULL_VERT"
    "signed A m (eb + length (pre @ ?x)) vs"
    using Cons.prems(3) v by (simp_all add: add.assoc)
  obtain t1 where t1: "spin (\<lambda>t. mem t ! (eb + length pre)) t = Some t1" "t \<le> t1" "length pre < p t1"
    using arriving_spin [OF Cons.prems(1) _ sg(1)] v by auto
  have "length pre + dg A v - 1 < length ?ws" using v by simp
  from arriving_spin [OF Cons.prems(1) this sg(2), of t1]
  obtain t2 where t2: "spin (\<lambda>t. mem t ! (eb + (length pre + dg A v - 1))) t1 = Some t2" "t1 \<le> t2"
    "length pre + dg A v - 1 < p t2" by blast
  have n: "unat (out_degree A v - 1) = dg A v - 1" "unat (out_degree A v) = dg A v"
    using v(1) by (simp_all add: dg_def unat_minus_one unat_gt_0)
  have slot: "eb + length pre + unat (out_degree A v - 1) = eb + (length pre + dg A v - 1)"
    using v(1) by (simp add: n)
  have arr: "arriving mem eb m ((pre @ ?x) @ concat (map (adjs A remote) vs)) p" using Cons.prems(1) by simp
  have blk: "take (dg A v) (drop (eb + length pre) (mem t2)) = ?x"
    using arriving_block [of mem eb m pre ?x "concat (map (adjs A remote) vs)" p t2] Cons.prems(1) t2(3) v
    by simp
  have c: "consume mem A F (v # vs) (eb + length pre) t s =
      consume mem A F vs (eb + length (pre @ ?x)) t2 (visit A remote F v s)"
    using t1(1) t2(1) slot blk v(2) n(2) by (simp add: Let_def visit_def add.assoc)
  obtain t' where "consume mem A F vs (eb + length (pre @ ?x)) t2 (visit A remote F v s) =
      Some (fold (visit A remote F) vs (visit A remote F v s), t')" "t2 \<le> t'"
      "vs \<noteq> [] \<longrightarrow> length (pre @ ?x) + sumdeg A vs \<le> p t'"
    using Cons.IH [OF arr _ sg(3)] Cons.prems(2) by (meson list.set_intros(2))
  moreover have "mono p" using Cons.prems(1) by (simp add: arriving_def)
  ultimately show ?case
    unfolding c using t1(2) t2(2,3) v monoD [of p t2 t'] by (cases "vs = []") auto
qed simp

lemma those_map_Some: "(\<And>x. x \<in> set xs \<Longrightarrow> f x = Some (g x)) \<Longrightarrow> those (map f xs) = Some (map g xs)"
  by (induction xs) auto

lemma batch_vertices_packed:
  assumes "args_ok A" "packed A m0 gs st"
  shows "batch_vertices st = Some (concat gs)"
proof -
  have b: "take (unat (wrs st)) (vertex_batch st) = map (\<lambda>g. \<lparr> v_s = hd g, v_e = last g \<rparr>) gs"
    and ok: "list_all (group_ok A) gs"
    using assms(2) by (auto simp: packed_def)
  have "range_vertices \<lparr> v_s = hd g, v_e = last g \<rparr> = Some g" if "g \<in> set gs" for g
  proof -
    have g: "group_ok A g" using ok that by (simp add: list_all_iff)
    have "last g \<noteq> 0xFFFFFFFF"
      using group_span(2) [OF assms(1) g] unat_u32_lt [of "num_vertices (ctx A)"] by auto
    then show ?thesis using g unfolding range_vertices_def group_ok_def by simp
  qed
  then have "those (map (range_vertices \<circ> (\<lambda>g. \<lparr> v_s = hd g, v_e = last g \<rparr>)) gs) = Some (map id gs)"
    by (intro those_map_Some) simp
  then show ?thesis by (simp add: batch_vertices_def b)
qed

subsection \<open>A worker's loop\<close>

text \<open>The windows have their configured size and the worker's slice lies in the area.\<close>

definition windows_ok :: "pack_args \<Rightarrow> 's pack_state \<Rightarrow> bool" where
  "windows_ok A st \<longleftrightarrow> length (wr_window st) = unat (opt_wr_window (opts A)) \<and>
     length (sge_window st) = unat (opt_wr_window (opts A)) \<and>
     length (vertex_batch st) = unat (opt_wr_window (opts A)) \<and>
     edge_buf A + unat (edge_buf_size A) \<le> length (area st)"

text \<open>Outside the worker's slice of the RDMA area nothing changes.\<close>

definition same_outside :: "pack_args \<Rightarrow> u32 list \<Rightarrow> u32 list \<Rightarrow> bool" where
  "same_outside A m m' \<longleftrightarrow> length m' = length m \<and>
     (\<forall>i. i < edge_buf A \<or> edge_buf A + unat (edge_buf_size A) \<le> i \<longrightarrow> m' ! i = m ! i)"

lemma same_outside_trans: "same_outside A m m' \<Longrightarrow> same_outside A m' m'' \<Longrightarrow> same_outside A m m''"
  by (simp add: same_outside_def)

lemma packed_same_outside: "packed A m0 gs st \<Longrightarrow> same_outside A m0 (area st)"
  by (simp add: packed_def same_outside_def)

lemma packed_windows_ok: "packed A m0 gs st \<Longrightarrow> windows_ok A st"
  by (simp add: packed_def windows_ok_def)

lemma packed_init: "windows_ok A st \<Longrightarrow> packed A (area st) [] (pack_init r st)"
  by (simp add: packed_def windows_ok_def pack_init_def)

text \<open>What a run needs of the server's array and of the parameters.\<close>

definition run_ok :: "nic \<Rightarrow> pack_args \<Rightarrow> u32 list \<Rightarrow> bool" where
  "run_ok n A remote \<longleftrightarrow> args_ok A \<and> length remote = unat (num_edges (ctx A)) \<and> NULL_VERT \<notin> set remote \<and>
     0 < edge_buf_size A \<and> 0 < opt_wr_window (opts A) \<and> nic_ok n A remote"

lemma window_consumed:
  assumes "run_ok n A remote" "packed A m0 gs st" "gs \<noteq> []"
  obtains t where
    "consume (dma n (posted st) (area st)) A F (concat gs) (edge_buf A) 0 (cb st) =
       Some (fold (visit A remote F) (concat gs) (cb st), t)"
    "same_outside A (area st) (dma n (posted st) (area st) t)"
    "\<forall>x \<in> set (posted st). valid_read A remote (length (area st)) x"
proof -
  let ?m = "area st" and ?eb = "edge_buf A" and ?ws = "concat (map (adjs A remote) (concat gs))"
  have ok: "args_ok A" "length remote = unat (num_edges (ctx A))" "NULL_VERT \<notin> set remote" "nic_ok n A remote"
    using assms(1) by (simp_all add: run_ok_def)
  have pk: "list_all (group_ok A) gs" "?eb + sumdeg A (concat gs) \<le> ?eb + unat (edge_buf_size A)"
    "?eb + unat (edge_buf_size A) \<le> length ?m" "signed A ?m ?eb (concat gs)"
    using assms(2) by (auto simp: packed_def)
  have vs: "\<forall>v \<in> set (concat gs). v < num_vertices (ctx A) \<and> 0 < dg A v"
    using pk(1) by (auto simp: list_all_iff group_ok_def)
  have len: "length ?ws = sumdeg A (concat gs)"
    using vs by (intro length_concat_adjs [OF ok(1,2)]) simp
  note ch = posted_packed [OF assms(2,3)]
  have rd: "concat (map (read_words A remote) (posted st)) = zip [?eb..<?eb + length ?ws] ?ws"
    and valid: "\<forall>x \<in> set (posted st). valid_read A remote (length ?m) x"
    using chain_reads [OF ok(1) pk(1) order_refl pk(2) ok(2) pk(3), of 0] by (simp_all add: ch len)
  obtain p T where p: "mono p" "length (concat (map (read_words A remote) (posted st))) \<le> p T"
    "\<And>t. dma n (posted st) ?m t = apply_writes (take (p t) (concat (map (read_words A remote) (posted st)))) ?m"
    using ok(4) valid unfolding nic_ok_def by meson
  have fits: "?eb + length ?ws \<le> length ?m" using pk(2,3) len by simp
  have mem: "dma n (posted st) ?m t = take ?eb ?m @ take (p t) ?ws @ drop (?eb + min (p t) (length ?ws)) ?m" for t
    unfolding p(3) rd by (rule apply_writes_block [OF fits])
  have "set ?ws \<subseteq> set remote"
    by (auto simp: adjs_def adj_def dest!: in_set_takeD in_set_dropD)
  then have "arriving (dma n (posted st) ?m) ?eb ?m ([] @ ?ws) p"
    using p(1,2) mem fits ok(3) rd by (auto simp: arriving_def)
  from consume_returns [OF ok(1,2) this vs, of F 0 "cb st"] pk(4)
  obtain t where "consume (dma n (posted st) ?m) A F (concat gs) ?eb 0 (cb st) =
      Some (fold (visit A remote F) (concat gs) (cb st), t)" by auto
  moreover have "same_outside A ?m (dma n (posted st) ?m t)"
    using fits pk(2,3) len assms(1)
    by (auto simp: same_outside_def mem nth_append min_def run_ok_def word_less_nat_alt)
  ultimately show ?thesis using valid by (rule that)
qed

definition to_visit :: "pack_args \<Rightarrow> (u32 \<Rightarrow> bool) \<Rightarrow> (u32 \<Rightarrow> 'h option) \<Rightarrow> u32 \<Rightarrow> u32 \<Rightarrow> u32 list" where
  "to_visit A act hit a b = filter (\<lambda>v. act v \<and> (hit v \<noteq> None \<or> 0 < dg A v)) (u32_range a b)"

lemma mset_to_visit:
  "mset (hits act hit a b @ to_read A act hit a b) = mset (to_visit A act hit a b)"
proof -
  have disj: "mset (filter P vs) + mset (filter Q vs) = mset (filter (\<lambda>v. P v \<or> Q v) vs)"
    if "\<forall>v. \<not> (P v \<and> Q v)" for P Q and vs :: "u32 list"
    by (induction vs) (use that in auto)
  have eq: "(\<lambda>v. act v \<and> (hit v \<noteq> None \<or> 0 < dg A v)) =
      (\<lambda>v. act v \<and> hit v \<noteq> None \<or> act v \<and> hit v = None \<and> 0 < dg A v)"
    by auto
  show ?thesis unfolding hits_def to_read_def to_visit_def mset_append eq by (rule disj) auto
qed

lemma to_visit_append:
  "a \<le> b \<Longrightarrow> b \<le> c \<Longrightarrow> to_visit A act hit a c = to_visit A act hit a b @ to_visit A act hit b c"
  using u32_range_append [of a b c] by (simp add: to_visit_def)

lemma call_hit_visit: "coherent A remote hit \<Longrightarrow> hit v \<noteq> None \<Longrightarrow> call_hit hit F v = visit A remote F v"
  unfolding coherent_def by (rule ext) (clarsimp simp: call_hit_def visit_def, blast)

lemma fold_call_hit: "coherent A remote hit \<Longrightarrow> fold (call_hit hit F) (hits act hit a b) s =
    fold (visit A remote F) (hits act hit a b) s"
  by (intro fold_cong) (auto simp: hits_def intro: call_hit_visit)

definition pack_pass ::
    "pack_args \<Rightarrow> worker \<Rightarrow> (u32 \<Rightarrow> bool) \<Rightarrow> (u32 \<Rightarrow> (u32 \<times> u32 list \<times> u32) option) \<Rightarrow> 's callback
       \<Rightarrow> u32 \<Rightarrow> u32 \<Rightarrow> 's pack_state \<Rightarrow> 's pack_state" where
  "pack_pass A t act hit F range_end range_start st =
     pack_finish t (pack_loop A t act hit F range_end (pack_init range_start st))"

lemma pack_pass_passes:
  assumes "run_ok n A remote" "windows_ok A st" "coherent A remote hit" "r < e" "e \<le> num_vertices (ctx A)"
  obtains gs where "packed A (area st) gs (pack_pass A t act hit F e r st)"
    "r < cur_v (pack_pass A t act hit F e r st)" "cur_v (pack_pass A t act hit F e r st) \<le> e"
    "concat gs = to_read A act hit r (cur_v (pack_pass A t act hit F e r st))"
    "cb (pack_pass A t act hit F e r st) =
       fold (visit A remote F) (hits act hit r (cur_v (pack_pass A t act hit F e r st))) (cb st)"
proof -
  let ?i = "pack_init r st" and ?s = "pack_pass A t act hit F e r st"
  let ?l = "pack_loop A t act hit F e (pack_init r st)"
  have ok: "args_ok A" "0 < edge_buf_size A" "0 < opt_wr_window (opts A)" using assms(1) by (simp_all add: run_ok_def)
  note p0 = packed_init [OF assms(2), of r]
  have v: "cur_v ?i = r" "cb ?i = cb st" by (simp_all add: pack_init_def)
  have s: "cur_v ?s = cur_v ?l" "cb ?s = cb ?l" "\<And>m gs. packed A m gs ?s = packed A m gs ?l"
    by (simp_all add: pack_pass_def pack_finish_def)
  obtain gs where gs: "passed A act hit F (area st) [] ?i gs ?l" "cur_v ?l \<le> e"
    using pack_loop_packed [OF ok(1) p0 _ assms(5), of act hit F t] v(1) less_imp_le [OF assms(4)] by auto
  have "r < cur_v ?l"
    using pack_loop_progress [OF ok(1) p0 _ assms(5) ok(2,3), of t act hit F] v assms(4) by simp
  then show ?thesis
    using gs v s by (intro that [of gs]) (auto simp: passed_def fold_call_hit [OF assms(3)])
qed

text \<open>The posting code accepts a chain of valid reads.\<close>

definition accepts :: "((ibv_send_wr \<times> ibv_sge) list \<Rightarrow> int option) \<Rightarrow> pack_args \<Rightarrow> u32 list \<Rightarrow> bool" where
  "accepts post A remote \<longleftrightarrow>
     (\<forall>ch len. (\<forall>x \<in> set ch. valid_read A remote len x) \<longrightarrow> post ch = Some 0)"

lemma nic_ok_accepted:
  assumes "nic_ok n A remote" "\<forall>x \<in> set ch. valid_read A remote len x"
  obtains k where "post_send n k ch = 0" "\<forall>j < k. post_send n j ch = ENOMEM"
proof -
  have "length (replicate len (0 :: u32)) = len" by simp
  then show ?thesis using assms that unfolding nic_ok_def by metis
qed

lemma post_retry_returns:
  assumes "post_send n k ch = 0" "\<forall>j < k. post_send n j ch = ENOMEM" "i \<le> k"
  shows "post_retry n ch i = Some 0"
  using assms(3)
proof (induction i rule: inc_induct)
  case base
  then show ?case using assms(1) by (subst post_retry.simps) (simp add: ENOMEM_def)
next
  case (step i)
  then show ?case using assms(2) by (subst post_retry.simps) simp
qed

lemma accepts_post_retry: "nic_ok n A remote \<Longrightarrow> accepts (\<lambda>ch. post_retry n ch 0) A remote"
  unfolding accepts_def by (metis nic_ok_accepted post_retry_returns le0)

lemma accepts_post_once: "nic_ok n A remote \<Longrightarrow> nic_ready n \<Longrightarrow> accepts (post_once n) A remote"
  unfolding accepts_def post_once_def nic_ready_def by (metis nic_ok_accepted gr0I)

text \<open>The test on the result of a pass tells whether anything was packed.\<close>

definition tests_packed :: "('s pack_state \<Rightarrow> bool) \<Rightarrow> bool" where
  "tests_packed any \<longleftrightarrow> (\<forall>A m0 gs st. packed A m0 gs st \<longrightarrow> any st = (gs \<noteq> []))"

lemma tests_packed_counts:
  "tests_packed (\<lambda>st. wrs st > 0)" "tests_packed (\<lambda>st. batch_size st > 0)"
proof -
  show "tests_packed (\<lambda>st. wrs st > 0)"
    by (auto simp: tests_packed_def packed_def word_less_nat_alt)
  show "tests_packed (\<lambda>st. batch_size st > 0)"
    using packed_nonempty by (auto simp: tests_packed_def)
qed

lemma batch_loop_visits:
  assumes "run_ok n A remote" "coherent A remote hit" "accepts post A remote" "tests_packed any"
    and "e \<le> num_vertices (ctx A)" "windows_ok A st"
  shows "\<exists>st' order. batch_loop (pack_pass A t act hit F e) post any n A F e b st = Some (Inr st') \<and>
    mset order = mset (to_visit A act hit b e) \<and> cb st' = fold (visit A remote F) order (cb st) \<and>
    windows_ok A st' \<and> same_outside A (area st) (area st')"
  using assms(6)
proof (induction "unat e - unat b" arbitrary: b st rule: less_induct)
  case less
  let ?L = "batch_loop (pack_pass A t act hit F e) post any n A F e"
  show ?case
  proof (cases "b < e")
    case False
    then have "u32_range b e = []" by simp
    then have "to_visit A act hit b e = []" by (simp add: to_visit_def)
    moreover have "?L b st = Some (Inr st)" using False by (subst batch_loop.simps) simp
    ultimately show ?thesis using less.prems by (auto simp: same_outside_def)
  next
    case True
    let ?s = "pack_pass A t act hit F e b st"
    obtain gs where gs: "packed A (area st) gs ?s" "b < cur_v ?s" "cur_v ?s \<le> e"
      "concat gs = to_read A act hit b (cur_v ?s)"
      "cb ?s = fold (visit A remote F) (hits act hit b (cur_v ?s)) (cb st)"
      using pack_pass_passes [OF assms(1) less.prems assms(2) True assms(5), of t act F] by blast
    have any: "any ?s = (gs \<noteq> [])" using assms(4) gs(1) by (auto simp: tests_packed_def)
    have dec: "unat e - unat (cur_v ?s) < unat e - unat b" using gs(2,3) True by (simp add: word_less_nat_alt word_le_nat_alt)
    have fin: "\<exists>st' order. ?L b st = Some (Inr st') \<and> mset order = mset (to_visit A act hit b e) \<and>
        cb st' = fold (visit A remote F) order (cb st) \<and> windows_ok A st' \<and> same_outside A (area st) (area st')"
      if "?L b st = ?L (cur_v ?s) st2" "cb st2 = fold (visit A remote F) (concat gs) (cb ?s)"
        "windows_ok A st2" "same_outside A (area st) (area st2)" for st2
    proof -
      note w2 = that(3)
      obtain st' order where o: "?L (cur_v ?s) st2 = Some (Inr st')"
        "mset order = mset (to_visit A act hit (cur_v ?s) e)"
        "cb st' = fold (visit A remote F) order (cb st2)" "windows_ok A st'" "same_outside A (area st2) (area st')"
        using less.hyps [OF dec w2] by blast
      let ?order = "hits act hit b (cur_v ?s) @ to_read A act hit b (cur_v ?s) @ order"
      have "mset ?order = mset (to_visit A act hit b e)"
        using mset_to_visit [of act hit b "cur_v ?s" A] o(2) gs(2,3)
        by (simp add: to_visit_append [of b "cur_v ?s" e] add.assoc [symmetric])
      moreover have "cb st' = fold (visit A remote F) ?order (cb st)" using o(3) that(2) gs(4,5) by simp
      moreover have "?L b st = Some (Inr st')" using that(1) o(1) by simp
      ultimately show ?thesis
        using o(4) same_outside_trans [OF that(4) o(5)] by blast
    qed
    show ?thesis
    proof (cases "gs = []")
      case none: True
      then have "?L b st = ?L (cur_v ?s) ?s" using True any by (subst batch_loop.simps) (simp add: Let_def)
      then show ?thesis
        by (rule fin) (use none gs(1) packed_windows_ok packed_same_outside in auto)
    next
      case some: False
      obtain tm where tm: "consume (dma n (posted ?s) (area ?s)) A F (concat gs) (edge_buf A) 0 (cb ?s) =
          Some (fold (visit A remote F) (concat gs) (cb ?s), tm)"
        "same_outside A (area ?s) (dma n (posted ?s) (area ?s) tm)"
        "\<forall>x \<in> set (posted ?s). valid_read A remote (length (area ?s)) x"
        using window_consumed [OF assms(1) gs(1) some] by blast
      let ?st2 = "?s\<lparr> cb := fold (visit A remote F) (concat gs) (cb ?s), area := dma n (posted ?s) (area ?s) tm \<rparr>"
      have bv: "batch_vertices ?s = Some (concat gs)"
        using assms(1) gs(1) by (intro batch_vertices_packed) (auto simp: run_ok_def)
      have po: "post (posted ?s) = Some 0" using assms(3) tm(3) unfolding accepts_def by blast
      have st: "?L b st = ?L (cur_v ?s) ?st2"
        using True any some by (subst batch_loop.simps) (simp add: Let_def po bv tm(1))
      have "windows_ok A ?st2" using packed_windows_ok [OF gs(1)] tm(2) by (simp add: windows_ok_def same_outside_def)
      moreover have "same_outside A (area st) (area ?st2)"
        using same_outside_trans [OF packed_same_outside [OF gs(1)] tm(2)] by simp
      ultimately show ?thesis using st by (intro fin [of ?st2]) simp_all
    qed
  qed
qed

subsection \<open>All workers\<close>

text \<open>
  The parameters are good for every worker: the slices of \<open>workers\<close> threads are addressable, and
  the area holds them.
\<close>

definition setup_ok :: "nic \<Rightarrow> pack_args \<Rightarrow> nat \<Rightarrow> u32 list \<Rightarrow> bool" where
  "setup_ok n A workers remote \<longleftrightarrow> run_ok n (worker_args A 0) remote \<and>
     4 * (workers * unat (edge_buf_size A)) < 2 ^ 64"

definition area_ok :: "pack_args \<Rightarrow> nat \<Rightarrow> 's pack_state \<Rightarrow> bool" where
  "area_ok A workers st \<longleftrightarrow> windows_ok (worker_args A 0) st \<and>
     workers * unat (edge_buf_size A) \<le> length (area st)"

lemma worker_args_simps [simp]:
  "opts (worker_args A t) = opts A" "ctx (worker_args A t) = ctx A" "vtable (worker_args A t) = vtable A"
  "edge_buf_size (worker_args A t) = edge_buf_size A" "area_addr (worker_args A t) = area_addr A"
  "edge_buf (worker_args A t) = t * unat (edge_buf_size A)"
  by (simp_all add: worker_args_def)

lemma worker_args_derived [simp]:
  "out_degree (worker_args A t) = out_degree A" "dg (worker_args A t) = dg A"
  "adjs (worker_args A t) remote = adjs A remote" "visit (worker_args A t) remote F = visit A remote F"
  "coherent (worker_args A t) remote hit = coherent A remote hit"
  "read_words (worker_args A t) remote = read_words A remote"
  "valid_read (worker_args A t) remote = valid_read A remote"
  "to_visit (worker_args A t) act hit = to_visit A act hit"
proof -
  show o: "out_degree (worker_args A t) = out_degree A" by (simp add: fun_eq_iff out_degree_def)
  show d: "dg (worker_args A t) = dg A" by (simp add: fun_eq_iff dg_def o)
  show a: "adjs (worker_args A t) remote = adjs A remote" by (simp add: fun_eq_iff adjs_def)
  show "visit (worker_args A t) remote F = visit A remote F" by (simp add: fun_eq_iff visit_def a o)
  show "coherent (worker_args A t) remote hit = coherent A remote hit" by (simp add: coherent_def a o)
  show "read_words (worker_args A t) remote = read_words A remote" by (simp add: fun_eq_iff read_words_def)
  show "valid_read (worker_args A t) remote = valid_read A remote" by (simp add: fun_eq_iff valid_read_def)
  show "to_visit (worker_args A t) act hit = to_visit A act hit" by (simp add: fun_eq_iff to_visit_def d)
qed

lemma nic_ok_worker [simp]: "nic_ok n (worker_args A t) remote = nic_ok n A remote"
  by (simp add: nic_ok_def)

lemma slice_le: "t < w \<Longrightarrow> t * s + s \<le> w * (s :: nat)"
  by (metis Suc_leI add.commute mult_Suc mult_le_mono1)

lemma setup_run_ok: "setup_ok n A workers remote \<Longrightarrow> t < workers \<Longrightarrow> run_ok n (worker_args A t) remote"
  using slice_le [of t workers "unat (edge_buf_size A)"]
  by (auto simp: setup_ok_def run_ok_def args_ok_def)

lemma area_windows_ok: "area_ok A workers st \<Longrightarrow> t < workers \<Longrightarrow> windows_ok (worker_args A t) st"
  using slice_le [of t workers "unat (edge_buf_size A)"] by (auto simp: area_ok_def windows_ok_def)

lemma windows_area_ok:
  "windows_ok (worker_args A t) st' \<Longrightarrow> area_ok A workers st \<Longrightarrow> length (area st') = length (area st)
     \<Longrightarrow> area_ok A workers st'"
  by (auto simp: area_ok_def windows_ok_def)

lemma run_chunks_visits:
  assumes "setup_ok n A workers remote" "coherent A remote hit" "tests_packed any"
    and "accepts post A remote" "\<forall>(t, b, e) \<in> set cs. t < workers \<and> e \<le> num_vertices (ctx A)"
    and "area_ok A workers st"
  shows "\<exists>st' order.
    run_chunks (\<lambda>t b e. batch_loop (pack_pass (worker_args A t) t act hit (F t) e) post any n (worker_args A t) (F t) e b) cs st
      = Some (Inr st') \<and>
    mset (map snd order) = mset (concat (map (\<lambda>(t, b, e). to_visit A act hit b e) cs)) \<and>
    cb st' = fold (\<lambda>(t, v). visit A remote (F t) v) order (cb st) \<and> area_ok A workers st'"
  using assms(5,6)
proof (induction cs arbitrary: st)
  case (Cons c cs)
  obtain t b e where c: "c = (t, b, e)" by (metis prod_cases3)
  let ?B = "\<lambda>t b e. batch_loop (pack_pass (worker_args A t) t act hit (F t) e) post any n (worker_args A t) (F t) e b"
  have t: "t < workers" "e \<le> num_vertices (ctx A)" using Cons.prems(1) c by auto
  note ro = setup_run_ok [OF assms(1) t(1)] and wo = area_windows_ok [OF Cons.prems(2) t(1)]
  have acc: "accepts post (worker_args A t) remote" using assms(4) by (simp add: accepts_def)
  obtain st1 o1 where s1: "?B t b e st = Some (Inr st1)" "mset o1 = mset (to_visit A act hit b e)"
    "cb st1 = fold (visit A remote (F t)) o1 (cb st)" "windows_ok (worker_args A t) st1"
    "same_outside (worker_args A t) (area st) (area st1)"
    using batch_loop_visits [OF ro _ acc assms(3) _ wo, of hit e t act "F t" b] assms(2) t(2) by auto
  have ok1: "area_ok A workers st1"
    using windows_area_ok [OF s1(4) Cons.prems(2)] s1(5) by (simp add: same_outside_def)
  obtain st' o2 where s2: "run_chunks ?B cs st1 = Some (Inr st')"
    "mset (map snd o2) = mset (concat (map (\<lambda>(t, b, e). to_visit A act hit b e) cs))"
    "cb st' = fold (\<lambda>(t, v). visit A remote (F t) v) o2 (cb st1)" "area_ok A workers st'"
    using Cons.IH [OF _ ok1] Cons.prems(1) by auto
  show ?case
    using s1 s2 by (intro exI [of _ st'] exI [of _ "map (Pair t) o1 @ o2"]) (simp add: c fold_map comp_def)
qed simp

lemma filter_mset_chunks:
  assumes "mset (concat (map (\<lambda>(t, b, e). u32_range b e) cs)) = mset (u32_range lo hi)"
  shows "mset (concat (map (\<lambda>(t, b, e). to_visit A act hit b e) cs)) = mset (to_visit A act hit lo hi)"
proof -
  have "concat (map (\<lambda>(t, b, e). to_visit A act hit b e) cs) =
      filter (\<lambda>v. act v \<and> (hit v \<noteq> None \<or> 0 < dg A v)) (concat (map (\<lambda>(t, b, e). u32_range b e) cs))"
    by (induction cs) (auto simp: to_visit_def)
  then show ?thesis using assms by (simp add: to_visit_def mset_filter)
qed

lemma iterator_visits:
  assumes "setup_ok n A workers remote" "coherent A remote hit" "tests_packed any"
    and "accepts post A remote" "splits workers lo hi cs" "hi \<le> num_vertices (ctx A)" "area_ok A workers st"
  shows "\<exists>st' order.
    map_option (map_sum id end_round) (run_chunks (\<lambda>t b e. batch_loop (pack_pass (worker_args A t) t act hit (F t) e)
      post any n (worker_args A t) (F t) e b) cs st) = Some (Inr st') \<and>
    mset (map snd order) = mset (to_visit A act hit lo hi) \<and>
    cb st' = fold (\<lambda>(t, v). visit A remote (F t) v) order (cb st) \<and> area_ok A workers st'"
proof -
  have cs: "\<forall>(t, b, e) \<in> set cs. t < workers \<and> e \<le> num_vertices (ctx A)"
    and m: "mset (concat (map (\<lambda>(t, b, e). u32_range b e) cs)) = mset (u32_range lo hi)"
    using assms(5,6) by (auto simp: splits_def)
  obtain st' order where r: "run_chunks (\<lambda>t b e. batch_loop (pack_pass (worker_args A t) t act hit (F t) e)
      post any n (worker_args A t) (F t) e b) cs st = Some (Inr st')"
    "mset (map snd order) = mset (concat (map (\<lambda>(t, b, e). to_visit A act hit b e) cs))"
    "cb st' = fold (\<lambda>(t, v). visit A remote (F t) v) order (cb st)" "area_ok A workers st'"
    using run_chunks_visits [OF assms(1-4) cs assms(7), of act F] by blast
  have "cb (end_round st') = cb st'" "area_ok A workers (end_round st')"
    using r(4) by (simp_all add: end_round_def area_ok_def windows_ok_def)
  then show ?thesis
    using r filter_mset_chunks [OF m, of A act hit] by (intro exI [of _ "end_round st'"] exI [of _ order]) simp
qed

lemma passes:
  "pack_window A t frontier F r e = pack_pass A t (\<lambda>v. get_bit frontier v \<noteq> 0) (\<lambda>_. None) F e r"
  "cache_pack_window A t cm mgr frontier F r e =
     pack_pass A t (\<lambda>v. get_bit frontier v \<noteq> 0) (cache_lookup cm mgr) F e r"
  "pack_window2 A t F r e = pack_pass A t (\<lambda>_. True) (\<lambda>_. None) F e r"
  by (simp_all add: fun_eq_iff pack_window_def cache_pack_window_def pack_window2_def pack_pass_def)

lemma coherent_no_cache [simp]: "coherent A remote (\<lambda>_. None)"
  by (simp add: coherent_def)

lemma ccy_for_each_visits:
  assumes "setup_ok n A workers remote" "coherent A remote (cache_lookup cm mgr)"
    and "splits workers lo hi cs" "hi \<le> num_vertices (ctx A)" "area_ok A workers st"
  shows "\<exists>st' order. ccy_for_each_active_batch n A cm mgr frontier cs F st = Some (Inr st') \<and>
    mset (map snd order) = mset (to_visit A (\<lambda>v. get_bit frontier v \<noteq> 0) (cache_lookup cm mgr) lo hi) \<and>
    cb st' = fold (\<lambda>(t, v). visit A remote (F t) v) order (cb st) \<and> area_ok A workers st'"
proof -
  have acc: "accepts (\<lambda>ch. post_retry n ch 0) A remote"
    using assms(1) by (intro accepts_post_retry) (simp add: setup_ok_def run_ok_def)
  show ?thesis
    using iterator_visits [OF assms(1,2) tests_packed_counts(1) acc assms(3-5)]
    by (simp add: ccy_for_each_active_batch_def passes)
qed

lemma for_each_visits:
  assumes "setup_ok n A workers remote" "nic_ready n"
    and "splits workers lo hi cs" "hi \<le> num_vertices (ctx A)" "area_ok A workers st"
  shows "\<exists>st' order. for_each_active_batch n A frontier cs F st = Some (Inr st') \<and>
      mset (map snd order) = mset (to_visit A (\<lambda>v. get_bit frontier v \<noteq> 0) (\<lambda>_. None :: unit option) lo hi) \<and>
      cb st' = fold (\<lambda>(t, v). visit A remote (F t) v) order (cb st) \<and> area_ok A workers st'"
    and "\<exists>st' order. for_each_range n A cs F st = Some (Inr st') \<and>
      mset (map snd order) = mset (to_visit A (\<lambda>_. True) (\<lambda>_. None :: unit option) lo hi) \<and>
      cb st' = fold (\<lambda>(t, v). visit A remote (F t) v) order (cb st) \<and> area_ok A workers st'"
proof -
  have acc: "accepts (post_once n) A remote"
    using assms(1,2) by (intro accepts_post_once) (simp_all add: setup_ok_def run_ok_def)
  have none: "to_visit A act (\<lambda>_. None :: unit option) lo hi = to_visit A act (\<lambda>_. None :: (u32 \<times> u32 list \<times> u32) option) lo hi"
    for act by (simp add: to_visit_def)
  note it = iterator_visits [OF assms(1) coherent_no_cache _ acc assms(3-5)]
  show "\<exists>st' order. for_each_active_batch n A frontier cs F st = Some (Inr st') \<and>
      mset (map snd order) = mset (to_visit A (\<lambda>v. get_bit frontier v \<noteq> 0) (\<lambda>_. None :: unit option) lo hi) \<and>
      cb st' = fold (\<lambda>(t, v). visit A remote (F t) v) order (cb st) \<and> area_ok A workers st'"
    using it [OF tests_packed_counts(1)] by (simp add: for_each_active_batch_def passes none)
  show "\<exists>st' order. for_each_range n A cs F st = Some (Inr st') \<and>
      mset (map snd order) = mset (to_visit A (\<lambda>_. True) (\<lambda>_. None :: unit option) lo hi) \<and>
      cb st' = fold (\<lambda>(t, v). visit A remote (F t) v) order (cb st) \<and> area_ok A workers st'"
    using it [OF tests_packed_counts(2)] by (simp add: for_each_range_def passes none)
qed

subsection \<open>A card and a graph for the witnesses\<close>

text \<open>
  A card that refuses each chain once for lack of resources and then delivers one word per poll;
  a symmetric graph of three vertices, \<open>0 - 1\<close> and \<open>0 - 2\<close>, read by two workers.
\<close>

definition slow_nic :: "pack_args \<Rightarrow> u32 list \<Rightarrow> nat \<Rightarrow> nic" where
  "slow_nic A remote r =
     \<lparr> post_send = (\<lambda>k ch. if k < r then ENOMEM else 0),
       dma = (\<lambda>ch m t. apply_writes (take t (concat (map (read_words A remote) ch))) m) \<rparr>"

lemma nic_ok_slow: "nic_ok (slow_nic A remote r) A remote"
  unfolding nic_ok_def
proof (intro allI impI conjI)
  fix ch and m :: "u32 list"
  let ?ws = "concat (map (read_words A remote) ch)"
  show "\<exists>k. post_send (slow_nic A remote r) k ch = 0 \<and> (\<forall>j < k. post_send (slow_nic A remote r) j ch = ENOMEM)"
    by (intro exI [of _ r]) (simp add: slow_nic_def)
  show "\<exists>p. mono p \<and> (\<exists>T. length ?ws \<le> p T) \<and> (\<forall>t. dma (slow_nic A remote r) ch m t = apply_writes (take (p t) ?ws) m)"
    by (intro exI [of _ id] conjI exI [of _ "length ?ws"]) (simp_all add: slow_nic_def mono_def)
qed

definition demo_edges :: "u32 list" where
  "demo_edges = [1, 2, 0, 0]"

definition demo_args :: pack_args where
  "demo_args =
     \<lparr> opts = \<lparr> opt_wr_window = 2, vertex_coalescing = True \<rparr>,
       ctx = \<lparr> peer_addr = 4096, peer_rkey = 7, heap_lkey = 9, num_vertices = 3, num_edges = 4 \<rparr>,
       vtable = map vertex.make [0, 2, 3], edge_buf_size = 2, edge_buf = 0, area_addr = 8192 \<rparr>"

definition demo_state :: "'s \<Rightarrow> 's pack_state" where
  "demo_state s =
     \<lparr> wr_window = replicate 2 \<lparr> wr_next = None, opcode = IBV_WR_SEND, signaled = False, remote_addr = 0,
                                rkey = 0, sg_list = 0, num_sge = 0 \<rparr>,
       sge_window = replicate 2 \<lparr> sge_addr = 0, sge_length = 0, sge_lkey = 0 \<rparr>,
       vertex_batch = replicate 2 \<lparr> v_s = 0, v_e = 0 \<rparr>, area = replicate 4 0, total_edges = 0,
       batch_size = 0, wrs = 0, cur_v = 0,
       stats = FG_stats.make [] [] [] [] [] [] [] [] [] [] 0 0 0 0 0 0 0 0 0 0 0 0, cb = s \<rparr>"

definition log_call :: "worker \<Rightarrow> (u32 \<times> u32 list) list callback" where
  "log_call t v ns d s = (v, ns) # s"

lemma demo_setup: "setup_ok (slow_nic demo_args demo_edges r) demo_args 2 demo_edges"
proof -
  have c: "csr_ok (vtable demo_args) 3 4"
    by (auto simp: demo_args_def csr_ok_def off_def deg_def vertex.make_def less_Suc_eq)
  have d: "dg demo_args v \<le> 2" if "v < 3" for v
  proof -
    have "unat v < 3" using that by (simp add: word_less_nat_alt)
    then have "deg (vtable demo_args) 4 (unat v) \<le> 2"
      by (auto simp: demo_args_def off_def deg_def vertex.make_def less_Suc_eq)
    moreover have "dg demo_args v = deg (vtable demo_args) 4 (unat v)"
      using get_num_edges_deg [OF c that] by (simp add: dg_def out_degree_def) (simp add: demo_args_def)
    ultimately show ?thesis by simp
  qed
  have "nic_ok (slow_nic demo_args demo_edges r) (worker_args demo_args 0) demo_edges"
    by (simp add: nic_ok_slow)
  then show ?thesis
    using c d by (simp add: setup_ok_def run_ok_def args_ok_def) (simp add: demo_args_def demo_edges_def NULL_VERT_def)
qed

lemma demo_area: "area_ok demo_args 2 (demo_state s)"
  by (simp add: area_ok_def windows_ok_def demo_state_def demo_args_def worker_args_def)

lemma demo_splits: "splits 2 0 3 [(0, 0, 2), (1, 2, 3)]"
  by (simp add: splits_def u32_range_def upt_rec)

subsection \<open>Properties\<close>

text \<open>
  C5. The cached edge iterator is complete and exact. With an accepting, in-order card, coherent
  caches and a scheduler that covers the range, \<open>ccy_for_each_active_batch\<close> returns (it neither
  spins forever nor stops in an error) and has called the callback exactly once for every vertex of
  the range whose frontier bit is on and that is cached or has an out-edge, each call with the
  vertex, its adjacency list in the server's edge array and its out-degree; for no other vertex.
\<close>

theorem ccy_iterator_complete:
  assumes "setup_ok n A workers remote" "coherent A remote (cache_lookup cm mgr)"
    and "splits workers lo hi cs" "hi \<le> num_vertices (ctx A)" "area_ok A workers st"
  shows "\<exists>st' order. ccy_for_each_active_batch n A cm mgr frontier cs F st = Some (Inr st') \<and>
    mset (map snd order) = mset (filter (\<lambda>v. get_bit frontier v \<noteq> 0 \<and>
      (cache_lookup cm mgr v \<noteq> None \<or> 0 < unat (out_degree A v))) (u32_range lo hi)) \<and>
    cb st' = fold (\<lambda>(t, v). F t v (adjs A remote v) (out_degree A v)) order (cb st)"
  using ccy_for_each_visits [OF assms, of frontier F] unfolding to_visit_def visit_def dg_def by blast

theorem ccy_iterator_complete_witness:
  "\<exists>st' order. ccy_for_each_active_batch (slow_nic demo_args demo_edges 1) demo_args None None
      (set_all 0 (mk_Bitmap (\<lambda>n _. n) 3 False)) [(0, 0, 2), (1, 2, 3)]
      log_call (demo_state []) = Some (Inr st') \<and>
    mset (map snd order) = mset (filter (\<lambda>v. get_bit (set_all 0 (mk_Bitmap (\<lambda>n _. n) 3 False)) v \<noteq> 0 \<and>
      (cache_lookup None None v \<noteq> None \<or> 0 < unat (out_degree demo_args v))) (u32_range 0 3)) \<and>
    cb st' = fold (\<lambda>(t, v). log_call t v (adjs demo_args demo_edges v) (out_degree demo_args v))
      order (cb (demo_state []))"
proof (rule ccy_iterator_complete [OF demo_setup _ demo_splits _ demo_area])
  show "coherent demo_args demo_edges (cache_lookup None None)"
    by (simp add: coherent_def cache_lookup_def)
  show "3 \<le> num_vertices (ctx demo_args)" by (simp add: demo_args_def)
qed

text \<open>
  C29. The iterators without a cache, \<open>for_each_active_batch\<close> and \<open>for_each_range\<close>, return and visit
  every active vertex (every vertex) of the range that has an out-edge exactly once with its
  adjacency list, provided the send queue has room: they do not post again after \<open>ENOMEM\<close>.
\<close>

theorem plain_iterators_complete:
  assumes "setup_ok n A workers remote" "nic_ready n"
    and "splits workers lo hi cs" "hi \<le> num_vertices (ctx A)" "area_ok A workers st"
  shows "(\<exists>st' order. for_each_active_batch n A frontier cs F st = Some (Inr st') \<and>
      mset (map snd order) =
        mset (filter (\<lambda>v. get_bit frontier v \<noteq> 0 \<and> 0 < unat (out_degree A v)) (u32_range lo hi)) \<and>
      cb st' = fold (\<lambda>(t, v). F t v (adjs A remote v) (out_degree A v)) order (cb st)) \<and>
    (\<exists>st' order. for_each_range n A cs F st = Some (Inr st') \<and>
      mset (map snd order) = mset (filter (\<lambda>v. 0 < unat (out_degree A v)) (u32_range lo hi)) \<and>
      cb st' = fold (\<lambda>(t, v). F t v (adjs A remote v) (out_degree A v)) order (cb st))"
  using for_each_visits(1) [OF assms, of frontier F] for_each_visits(2) [OF assms, of F]
  unfolding to_visit_def visit_def dg_def by (simp, blast)

theorem plain_iterators_complete_witness:
  "\<exists>st' order. for_each_range (slow_nic demo_args demo_edges 0) demo_args [(0, 0, 2), (1, 2, 3)]
      log_call (demo_state []) = Some (Inr st') \<and>
    mset (map snd order) = mset (filter (\<lambda>v. 0 < unat (out_degree demo_args v)) (u32_range 0 3)) \<and>
    cb st' = fold (\<lambda>(t, v). log_call t v (adjs demo_args demo_edges v) (out_degree demo_args v))
      order (cb (demo_state []))"
proof -
  have "nic_ready (slow_nic demo_args demo_edges 0)"
    by (simp add: nic_ready_def slow_nic_def ENOMEM_def)
  moreover have "3 \<le> num_vertices (ctx demo_args)" by (simp add: demo_args_def)
  ultimately show ?thesis
    using plain_iterators_complete [OF demo_setup _ demo_splits _ demo_area, of 0 _ log_call "[]"] by simp
qed

lemma pass_requests:
  assumes "run_ok n A remote" "packed A m0 gs st" "gs \<noteq> []"
  shows "\<forall>x \<in> set (posted st). valid_read A remote (length (area st)) x"
    and "\<exists>k \<le> unat (edge_buf_size A).
      map fst (concat (map (read_words A remote) (posted st))) = [edge_buf A..<edge_buf A + k]"
proof -
  have ok: "args_ok A" "length remote = unat (num_edges (ctx A))" using assms(1) by (simp_all add: run_ok_def)
  have pk: "list_all (group_ok A) gs" "edge_buf A + sumdeg A (concat gs) \<le> edge_buf A + unat (edge_buf_size A)"
    "edge_buf A + unat (edge_buf_size A) \<le> length (area st)"
    using assms(2) by (auto simp: packed_def)
  have "\<forall>v \<in> set (concat gs). v < num_vertices (ctx A)"
    using pk(1) by (auto simp: list_all_iff group_ok_def)
  then have len: "length (concat (map (adjs A remote) (concat gs))) = sumdeg A (concat gs)"
    by (rule length_concat_adjs [OF ok])
  note r = chain_reads [OF ok(1) pk(1) order_refl pk(2) ok(2) pk(3), of 0]
  show "\<forall>x \<in> set (posted st). valid_read A remote (length (area st)) x"
    using r by (simp add: posted_packed [OF assms(2,3)])
  show "\<exists>k \<le> unat (edge_buf_size A).
      map fst (concat (map (read_words A remote) (posted st))) = [edge_buf A..<edge_buf A + k]"
    using r pk(2) len unfolding posted_packed [OF assms(2,3)]
    by (intro exI [of _ "sumdeg A (concat gs)"]) simp
qed

text \<open>
  C20. Memory safety of the requests and isolation of the workers. After a packing pass of worker
  \<open>t\<close> that packed something, every request of the posted chain is a read inside the server's array
  and inside the registered area, with the right keys; the words the chain delivers fill
  consecutive slots from the start of the worker's own slice, none of them twice and none outside
  the slice; and the pass itself has changed no slot of another worker.
\<close>

theorem requests_safe:
  assumes "setup_ok n A workers remote" "area_ok A workers st" "t < workers"
    and "r \<le> e" "e \<le> num_vertices (ctx A)"
    and "wrs (cache_pack_window (worker_args A t) t cm mgr frontier F r e st) > 0"
  defines "st' \<equiv> cache_pack_window (worker_args A t) t cm mgr frontier F r e st"
  shows "(\<forall>x \<in> set (posted st'). valid_read A remote (length (area st)) x) \<and>
    (\<exists>k \<le> unat (edge_buf_size A). map fst (concat (map (read_words A remote) (posted st'))) =
       [t * unat (edge_buf_size A)..<t * unat (edge_buf_size A) + k]) \<and>
    length (area st') = length (area st) \<and>
    (\<forall>i. i < t * unat (edge_buf_size A) \<or> Suc t * unat (edge_buf_size A) \<le> i \<longrightarrow> area st' ! i = area st ! i)"
proof -
  let ?A = "worker_args A t"
  note ro = setup_run_ok [OF assms(1,3)]
  have "args_ok ?A" using ro by (simp add: run_ok_def)
  from pack_loop_packed [OF this packed_init [OF area_windows_ok [OF assms(2,3)], of r], of e
      "\<lambda>v. get_bit frontier v \<noteq> 0" "cache_lookup cm mgr" F t]
  obtain gs where gs: "packed ?A (area st) gs st'"
    using assms(4,5) by (auto simp: passed_def st'_def cache_pack_window_def pack_finish_def pack_init_def)
  have "gs \<noteq> []" using gs assms(6) by (auto simp: packed_def st'_def word_less_nat_alt)
  note req = pass_requests [OF ro gs this]
  show ?thesis
    using req packed_same_outside [OF gs] by (simp add: same_outside_def add.commute)
qed

theorem requests_safe_witness:
  "list_all (valid_read demo_args demo_edges 4) (posted (cache_pack_window (worker_args demo_args 1) 1 None None
      (set_all 0 (mk_Bitmap (\<lambda>n _. n) 3 False)) (log_call 1) 2 3 (demo_state [])))"
proof -
  let ?st = "cache_pack_window (worker_args demo_args 1) 1 None None
      (set_all 0 (mk_Bitmap (\<lambda>n _. n) 3 False)) (log_call 1) 2 3 (demo_state [])"
  have "wrs ?st > 0"
    by (simp add: cache_pack_window_def pack_loop.simps pack_finish_def pack_init_def demo_state_def
        demo_args_def worker_args_def pack_vertex_def out_degree_def get_num_edges_def vertex.make_def
        get_bit_def set_all_def mk_Bitmap_def WORD_OFFSET_def BIT_OFFSET_def cache_lookup_def
        prep_wr_def Let_def count_send_def upt_rec)
  moreover have "(3 :: u32) \<le> num_vertices (ctx demo_args)" by (simp add: demo_args_def)
  moreover have "length (area (demo_state [] :: (u32 \<times> u32 list) list pack_state)) = 4" by (simp add: demo_state_def)
  ultimately show ?thesis
    using requests_safe [OF demo_setup demo_area, of 1 2 3 None None _ "log_call 1" "[]"] by (simp add: list_all_iff)
qed

lemma batch_loop_stuck:
  assumes "batch_loop pack post any n A F e b st = Some y"
  shows "(\<forall>r s. cur_v (pack r s) = r \<and> \<not> any (pack r s)) \<longrightarrow> \<not> b < e"
proof (rule batch_loop.raw_induct [OF _ assms, of "\<lambda>pack post any n A F e b st y.
    (\<forall>r s. cur_v (pack r s) = r \<and> \<not> any (pack r s)) \<longrightarrow> \<not> b < e"], intro impI notI)
  fix loop pack post any n A F e b st y
  assume IH: "\<And>pack post any n A F e b st y. loop pack post any n A F e b st = Some y \<Longrightarrow>
      (\<forall>r s. cur_v (pack r s) = r \<and> \<not> any (pack r s)) \<longrightarrow> \<not> b < e"
    and stuck: "\<forall>r s. cur_v (pack r s) = r \<and> \<not> any (pack r s)" and lt: "b < e"
    and step: "(if b < e then let st1 = pack b st in if any st1
         then Option.bind (post (posted st1)) (\<lambda>ret. if ret \<noteq> 0 then Some (Inl Rc_die)
           else Option.bind (batch_vertices st1) (\<lambda>vs.
             Option.bind (consume (dma n (posted st1) (area st1)) A F vs (edge_buf A) 0 (cb st1)) (\<lambda>(s, t).
               loop pack post any n A F e (cur_v st1) (st1\<lparr> cb := s, area := dma n (posted st1) (area st1) t \<rparr>))))
         else loop pack post any n A F e (cur_v st1) st1
       else Some (Inr st)) = Some y"
  have "loop pack post any n A F e b (pack b st) = Some y" using step stuck lt by (simp add: Let_def)
  from IH [OF this] stuck lt show False by blast
qed

text \<open>
  C31. The loop needs a non-empty buffer. When \<open>edge_buf_size\<close> is zero, as it is for a graph
  without edges, a packing pass stops at its first vertex and the worker's loop never returns on a
  non-empty range, whatever the card does.
\<close>

theorem empty_buffer_hangs:
  assumes "edge_buf_size A = 0" "b < e"
  shows "batch_loop (\<lambda>r. cache_pack_window A t cm mgr frontier F r e) post (\<lambda>st. wrs st > 0) n A F e b st = None"
proof -
  have "cur_v (cache_pack_window A t cm mgr frontier F r e s) = r \<and>
      \<not> 0 < wrs (cache_pack_window A t cm mgr frontier F r e s)" for r s
    using assms(1) by (simp add: cache_pack_window_def pack_finish_def pack_init_def pack_loop.simps)
  with batch_loop_stuck assms(2) show ?thesis by (metis (mono_tags, lifting) not_None_eq)
qed

theorem empty_buffer_hangs_witness:
  "batch_loop (\<lambda>r. cache_pack_window (demo_args\<lparr> edge_buf_size := 0 \<rparr>) 0 None None
       (set_all 0 (mk_Bitmap (\<lambda>n _. n) 3 False)) (log_call 0) r 3)
     (\<lambda>ch. Some 0) (\<lambda>st. wrs st > 0) (slow_nic demo_args demo_edges 0) (demo_args\<lparr> edge_buf_size := 0 \<rparr>)
     (log_call 0) 3 0 (demo_state []) = None"
  by (rule empty_buffer_hangs) simp_all

end
