(* ===== verification/Graph_Kernel.thy ===== *)
theory Graph_Kernel
  imports Edge_Iterator
begin

text \<open>
  The frame of a graph kernel, \<open>src/src/graph_kernel.hpp\<close>: the context a kernel is constructed in
  (\<open>Generic_ctx\<close>) and the edge iterator as a kernel sees it. \<open>edge_iterator\<close> is the contract the
  kernels are verified against; \<open>ccy\<close> and \<open>rng\<close> interpret it on \<open>ccy_for_each_active_batch\<close> and
  \<open>for_each_range\<close>.
\<close>

subsection \<open>The context\<close>

text \<open>The options that the sources read from the \<open>variables_map\<close>; \<open>opt_hp\<close> and \<open>opt_HP\<close> are
  \<open>count("hp")\<close> and \<open>count("HP")\<close>.\<close>

record program_options =
  opt_threads :: u64
  opt_edgewindow :: u32
  opt_hp :: bool
  opt_HP :: bool
  opt_start_vertex :: u32
  opt_kcore_k :: u32
  opt_delta :: u32

datatype Buffering = SINGLE | DOUBLE

fun buffers :: "Buffering \<Rightarrow> u32" where
  "buffers SINGLE = 1"
| "buffers DOUBLE = 2"

record 'v Generic_ctx =
  g_num_vertices :: u32
  g_num_edges :: u64
  g_index :: "vertex list"
  g_vtable :: "'v list"
  num_workers :: u64
  max_out_degree :: u32
  g_edge_buf_size :: u32
  RDMA_window :: "u32 list"
  frontierA :: Bitmap
  frontierB :: Bitmap

text \<open>The constructor, with the errors of the two calls that read the index file.\<close>

definition mk_Generic_ctx ::
    "(u64 \<Rightarrow> u64 \<Rightarrow> u64) \<Rightarrow> file_system \<Rightarrow> program_options \<Rightarrow> string \<Rightarrow> u64 \<Rightarrow> 'v \<Rightarrow> Buffering
       \<Rightarrow> fam_error + 'v Generic_ctx" where
  "mk_Generic_ctx align_up fs vm index_file n_edges vinit b =
     (case get_num_verts fs index_file of
        Inl e \<Rightarrow> Inl e
      | Inr n \<Rightarrow>
          (case get_vertex_table fs vinit index_file (ucast n) of
             Inl e \<Rightarrow> Inl e
           | Inr p \<Rightarrow>
               let d = get_max_out_degree (fst p) n n_edges;
                   ebs = opt_edgewindow vm * d
               in Inr \<lparr> g_num_vertices = n, g_num_edges = n_edges, g_index = fst p, g_vtable = snd p,
                        num_workers = opt_threads vm, max_out_degree = d, g_edge_buf_size = ebs,
                        RDMA_window = replicate (unat (ucast ebs * opt_threads vm * ucast (buffers b))) 0,
                        frontierA = mk_Bitmap align_up n (opt_hp vm),
                        frontierB = mk_Bitmap align_up n (opt_hp vm) \<rparr>))"

text \<open>What the iterators take from the context \<open>c\<close> and from \<open>c.context\<close>.\<close>

definition iterator_args :: "build_options \<Rightarrow> u64 \<Rightarrow> u32 \<Rightarrow> u32 \<Rightarrow> u64 \<Rightarrow> 'v Generic_ctx \<Rightarrow> pack_args" where
  "iterator_args bo p_addr p_rkey lkey buf c =
     \<lparr> opts = bo,
       ctx = \<lparr> peer_addr = p_addr, peer_rkey = p_rkey, heap_lkey = lkey,
               num_vertices = g_num_vertices c, num_edges = g_num_edges c \<rparr>,
       vtable = g_index c, edge_buf_size = g_edge_buf_size c, edge_buf = 0, area_addr = buf \<rparr>"

text \<open>
  The state the callbacks of a kernel work on, both frontiers and the vertex table, and
  \<open>frontier->clear(); std::swap(frontier, next_frontier)\<close>.
\<close>

record 'v kstate =
  frontier :: Bitmap
  next_frontier :: Bitmap
  verts :: "'v list"

definition swap_frontiers :: "('v, 'x) kstate_scheme \<Rightarrow> ('v, 'x) kstate_scheme" where
  "swap_frontiers s = s\<lparr> frontier := next_frontier s, next_frontier := clear (frontier s) \<rparr>"

subsection \<open>The environment of a run\<close>

text \<open>
  What a kernel runs in: the context, the caches, and for the \<open>k\<close>-th call of an iterator the
  behaviour of the card and the split of the range among the workers.
\<close>

record run_env =
  env_args :: pack_args
  cacheMap :: "cache_map option"
  cacheManager :: "cache_manager option"
  env_nic :: "nat \<Rightarrow> nic"
  env_sched :: "nat \<Rightarrow> u32 \<Rightarrow> u32 \<Rightarrow> chunks"
  env_workers :: nat
  env_remote :: "u32 list"

definition total_verts :: "run_env \<Rightarrow> u32" where
  "total_verts E = num_vertices (ctx (env_args E))"

definition nb :: "run_env \<Rightarrow> u32 \<Rightarrow> u32 list" where
  "nb E v = adjs (env_args E) (env_remote E) v"

definition for_each_active ::
    "run_env \<Rightarrow> nat \<Rightarrow> Bitmap \<Rightarrow> u32 \<Rightarrow> u32 \<Rightarrow> (worker \<Rightarrow> 's callback) \<Rightarrow> 's pack_state
       \<Rightarrow> (abort + 's pack_state) option" where
  "for_each_active E k fr lo hi F st =
     ccy_for_each_active_batch (env_nic E k) (env_args E) (cacheMap E) (cacheManager E) fr
       (env_sched E k lo hi) F st"

definition for_each_in ::
    "run_env \<Rightarrow> nat \<Rightarrow> Bitmap \<Rightarrow> u32 \<Rightarrow> u32 \<Rightarrow> (worker \<Rightarrow> 's callback) \<Rightarrow> 's pack_state
       \<Rightarrow> (abort + 's pack_state) option" where
  "for_each_in E k fr lo hi F st = for_each_range (env_nic E k) (env_args E) (env_sched E k lo hi) F st"

definition env_ok :: "run_env \<Rightarrow> bool" where
  "env_ok E \<longleftrightarrow>
     (\<forall>k. setup_ok (env_nic E k) (env_args E) (env_workers E) (env_remote E)) \<and>
     coherent (env_args E) (env_remote E) (cache_lookup (cacheMap E) (cacheManager E)) \<and>
     (\<forall>k lo hi. splits (env_workers E) lo hi (env_sched E k lo hi)) \<and>
     (\<forall>w \<in> set (env_remote E). w < total_verts E)"

definition env_ready :: "run_env \<Rightarrow> bool" where
  "env_ready E \<longleftrightarrow> env_ok E \<and> (\<forall>k. nic_ready (env_nic E k))"

definition st_ok :: "run_env \<Rightarrow> 's pack_state \<Rightarrow> bool" where
  "st_ok E st \<longleftrightarrow> area_ok (env_args E) (env_workers E) st"

subsection \<open>The contract of an edge iterator\<close>

locale edge_iterator =
  fixes good :: "run_env \<Rightarrow> bool"
    and iter :: "run_env \<Rightarrow> nat \<Rightarrow> Bitmap \<Rightarrow> u32 \<Rightarrow> u32 \<Rightarrow> (worker \<Rightarrow> 's callback) \<Rightarrow> 's pack_state
       \<Rightarrow> (abort + 's pack_state) option"
    and act :: "run_env \<Rightarrow> Bitmap \<Rightarrow> u32 \<Rightarrow> bool"
  assumes returns: "good E \<Longrightarrow> st_ok E st \<Longrightarrow> hi \<le> total_verts E \<Longrightarrow>
     \<exists>st' order. iter E k fr lo hi F st = Some (Inr st') \<and> st_ok E st' \<and> distinct (map snd order) \<and>
       (\<forall>v. lo \<le> v \<longrightarrow> v < hi \<longrightarrow> act E fr v \<longrightarrow> nb E v \<noteq> [] \<longrightarrow> v \<in> snd ` set order) \<and>
       (\<forall>v \<in> snd ` set order. lo \<le> v \<and> v < hi \<and> act E fr v) \<and>
       cb st' = fold (\<lambda>(t, v). F t v (nb E v) (of_nat (length (nb E v)))) order (cb st)"
begin

text \<open>An invariant of the calls holds in the end, in whatever order the workers make them.\<close>

lemma iter_rule:
  assumes "good E" "st_ok E st" "hi \<le> total_verts E" "P {} (cb st)"
    and "\<And>D t v s. D \<subseteq> {v. lo \<le> v \<and> v < hi \<and> act E fr v} \<Longrightarrow> lo \<le> v \<Longrightarrow> v < hi \<Longrightarrow> act E fr v \<Longrightarrow>
           v \<notin> D \<Longrightarrow> P D s \<Longrightarrow> P (insert v D) (F t v (nb E v) (of_nat (length (nb E v))) s)"
  obtains st' D where "iter E k fr lo hi F st = Some (Inr st')" "st_ok E st'" "P D (cb st')"
    "D \<subseteq> {v. lo \<le> v \<and> v < hi \<and> act E fr v}"
    "{v. lo \<le> v \<and> v < hi \<and> act E fr v \<and> nb E v \<noteq> []} \<subseteq> D"
proof -
  let ?G = "\<lambda>(t, v). F t v (nb E v) (of_nat (length (nb E v)))" and ?A = "{v. lo \<le> v \<and> v < hi \<and> act E fr v}"
  obtain st' order where o: "iter E k fr lo hi F st = Some (Inr st')" "st_ok E st'" "distinct (map snd order)"
    "\<forall>v. lo \<le> v \<longrightarrow> v < hi \<longrightarrow> act E fr v \<longrightarrow> nb E v \<noteq> [] \<longrightarrow> v \<in> snd ` set order"
    "\<forall>v \<in> snd ` set order. lo \<le> v \<and> v < hi \<and> act E fr v" "cb st' = fold ?G order (cb st)"
    using returns [OF assms(1-3), of k fr lo F] by blast
  have "P (D \<union> snd ` set xs) (fold ?G xs s)"
    if "P D s" "D \<subseteq> ?A" "snd ` set xs \<subseteq> ?A" "distinct (map snd xs)" "D \<inter> snd ` set xs = {}" for D xs s
    using that
  proof (induction xs arbitrary: D s)
    case (Cons x xs)
    obtain t v where x: "x = (t, v)" by (cases x)
    have "P (insert v D) (?G x s)"
      unfolding x split using Cons.prems x by (intro assms(5)) auto
    from Cons.IH [OF this] Cons.prems x show ?case by simp
  qed simp
  from this [of "{}" "cb st" order] assms(4) o show ?thesis
    by (intro that [of st' "snd ` set order"]) auto
qed

end

lemma nb_degree:
  assumes "setup_ok n (env_args E) w (env_remote E)" "v < total_verts E"
  shows "of_nat (length (nb E v)) = out_degree (env_args E) v" "nb E v \<noteq> [] \<longleftrightarrow> 0 < dg (env_args E) v"
proof -
  have "length (nb E v) = dg (env_args E) v"
    using assms length_adjs [of "worker_args (env_args E) 0" "env_remote E" v]
    by (simp add: setup_ok_def run_ok_def nb_def total_verts_def)
  then show "of_nat (length (nb E v)) = out_degree (env_args E) v" "nb E v \<noteq> [] \<longleftrightarrow> 0 < dg (env_args E) v"
    by (simp add: dg_def) (metis \<open>length (nb E v) = dg (env_args E) v\<close> length_greater_0_conv)
qed

text \<open>From the multiset of visited vertices to the contract.\<close>

lemma visits_contract:
  assumes "setup_ok n (env_args E) w (env_remote E)" "hi \<le> total_verts E"
    and "mset (map snd order) = mset (to_visit (env_args E) act hit lo hi)"
    and "s = fold (\<lambda>(t, v). visit (env_args E) (env_remote E) (F t) v) order s0"
  shows "distinct (map snd order)"
    and "\<forall>v. lo \<le> v \<longrightarrow> v < hi \<longrightarrow> act v \<longrightarrow> nb E v \<noteq> [] \<longrightarrow> v \<in> snd ` set order"
    and "\<forall>v \<in> snd ` set order. lo \<le> v \<and> v < hi \<and> act v"
    and "s = fold (\<lambda>(t, v). F t v (nb E v) (of_nat (length (nb E v)))) order s0"
proof -
  have "distinct (to_visit (env_args E) act hit lo hi)" by (simp add: to_visit_def)
  then show "distinct (map snd order)" using assms(3) by (metis mset_eq_imp_distinct_iff)
  have set: "snd ` set order = set (to_visit (env_args E) act hit lo hi)"
    using mset_eq_setD [OF assms(3)] by simp
  have lt: "v < total_verts E" if "v < hi" for v using that assms(2) by (rule order_less_le_trans)
  show "\<forall>v. lo \<le> v \<longrightarrow> v < hi \<longrightarrow> act v \<longrightarrow> nb E v \<noteq> [] \<longrightarrow> v \<in> snd ` set order"
    unfolding set using nb_degree(2) [OF assms(1) lt] by (auto simp: to_visit_def)
  show r: "\<forall>v \<in> snd ` set order. lo \<le> v \<and> v < hi \<and> act v"
    unfolding set by (simp add: to_visit_def)
  show "s = fold (\<lambda>(t, v). F t v (nb E v) (of_nat (length (nb E v)))) order s0"
    unfolding assms(4)
  proof (rule fold_cong [OF refl refl])
    fix x assume x: "x \<in> set order"
    then have "snd x < hi" using r by auto
    from nb_degree(1) [OF assms(1) lt [OF this]]
    show "(case x of (t, v) \<Rightarrow> visit (env_args E) (env_remote E) (F t) v) =
        (case x of (t, v) \<Rightarrow> F t v (nb E v) (of_nat (length (nb E v))))"
      by (cases x) (simp add: visit_def nb_def fun_eq_iff)
  qed
qed

lemma for_each_active_returns:
  assumes "env_ok E" "st_ok E st" "hi \<le> total_verts E"
  shows "\<exists>st' order. for_each_active E k fr lo hi F st = Some (Inr st') \<and> st_ok E st' \<and> distinct (map snd order) \<and>
       (\<forall>v. lo \<le> v \<longrightarrow> v < hi \<longrightarrow> get_bit fr v \<noteq> 0 \<longrightarrow> nb E v \<noteq> [] \<longrightarrow> v \<in> snd ` set order) \<and>
       (\<forall>v \<in> snd ` set order. lo \<le> v \<and> v < hi \<and> get_bit fr v \<noteq> 0) \<and>
       cb st' = fold (\<lambda>(t, v). F t v (nb E v) (of_nat (length (nb E v)))) order (cb st)"
proof -
  have su: "setup_ok (env_nic E k) (env_args E) (env_workers E) (env_remote E)"
    "coherent (env_args E) (env_remote E) (cache_lookup (cacheMap E) (cacheManager E))"
    "splits (env_workers E) lo hi (env_sched E k lo hi)" "hi \<le> num_vertices (ctx (env_args E))"
    "area_ok (env_args E) (env_workers E) st"
    using assms by (simp_all add: env_ok_def st_ok_def total_verts_def)
  obtain st' order where v: "for_each_active E k fr lo hi F st = Some (Inr st')"
    "mset (map snd order) = mset (to_visit (env_args E) (\<lambda>v. get_bit fr v \<noteq> 0)
       (cache_lookup (cacheMap E) (cacheManager E)) lo hi)"
    "cb st' = fold (\<lambda>(t, v). visit (env_args E) (env_remote E) (F t) v) order (cb st)" "st_ok E st'"
    using ccy_for_each_visits [OF su, of fr F] by (auto simp: for_each_active_def st_ok_def)
  note c = visits_contract [OF su(1) assms(3) v(2,3)]
  show ?thesis by (rule exI [of _ st'], rule exI [of _ order], intro conjI) (fact v(1) v(4) c)+
qed

lemma for_each_in_returns:
  assumes "env_ready E" "st_ok E st" "hi \<le> total_verts E"
  shows "\<exists>st' order. for_each_in E k fr lo hi F st = Some (Inr st') \<and> st_ok E st' \<and> distinct (map snd order) \<and>
       (\<forall>v. lo \<le> v \<longrightarrow> v < hi \<longrightarrow> nb E v \<noteq> [] \<longrightarrow> nb E v \<noteq> [] \<longrightarrow> v \<in> snd ` set order) \<and>
       (\<forall>v \<in> snd ` set order. lo \<le> v \<and> v < hi \<and> nb E v \<noteq> []) \<and>
       cb st' = fold (\<lambda>(t, v). F t v (nb E v) (of_nat (length (nb E v)))) order (cb st)"
proof -
  have su: "setup_ok (env_nic E k) (env_args E) (env_workers E) (env_remote E)" "nic_ready (env_nic E k)"
    "splits (env_workers E) lo hi (env_sched E k lo hi)" "hi \<le> num_vertices (ctx (env_args E))"
    "area_ok (env_args E) (env_workers E) st"
    using assms by (simp_all add: env_ready_def env_ok_def st_ok_def total_verts_def)
  obtain st' order where v: "for_each_in E k fr lo hi F st = Some (Inr st')"
    "mset (map snd order) = mset (to_visit (env_args E) (\<lambda>_. True) (\<lambda>_. None :: unit option) lo hi)"
    "cb st' = fold (\<lambda>(t, v). visit (env_args E) (env_remote E) (F t) v) order (cb st)" "st_ok E st'"
    using for_each_visits(2) [OF su, of F] by (auto simp: for_each_in_def st_ok_def)
  note c = visits_contract [OF su(1) assms(3) v(2,3)]
  have "snd ` set order = set (to_visit (env_args E) (\<lambda>_. True) (\<lambda>_. None :: unit option) lo hi)"
    using mset_eq_setD [OF v(2)] by simp
  then have "nb E v \<noteq> []" if "v \<in> snd ` set order" for v
  proof -
    have "v < hi" using c(3) that by blast
    then have "v < total_verts E" using assms(3) by (rule order_less_le_trans)
    from nb_degree(2) [OF su(1) this] \<open>snd ` set order = _\<close> that show ?thesis by (simp add: to_visit_def)
  qed
  then have ne: "\<forall>v \<in> snd ` set order. lo \<le> v \<and> v < hi \<and> nb E v \<noteq> []" using c(3) by blast
  have all: "\<forall>v. lo \<le> v \<longrightarrow> v < hi \<longrightarrow> nb E v \<noteq> [] \<longrightarrow> nb E v \<noteq> [] \<longrightarrow> v \<in> snd ` set order"
    using c(2) by simp
  show ?thesis by (rule exI [of _ st'], rule exI [of _ order], intro conjI) (fact v(1) v(4) c(1) all ne c(4))+
qed

interpretation ccy: edge_iterator env_ok for_each_active "\<lambda>E b v. get_bit b v \<noteq> 0"
  by unfold_locales (rule for_each_active_returns)

interpretation rng: edge_iterator env_ready for_each_in "\<lambda>E b v. nb E v \<noteq> []"
  by unfold_locales (rule for_each_in_returns)

subsection \<open>Facts the kernels share\<close>

text \<open>The edges of the graph and the shape of a kernel's state.\<close>

definition edge_rel :: "run_env \<Rightarrow> (u32 \<times> u32) set" where
  "edge_rel E = {(u, w). u < total_verts E \<and> w \<in> set (nb E u)}"

definition kshape :: "run_env \<Rightarrow> ('v, 'x) kstate_scheme \<Rightarrow> bool" where
  "kshape E s \<longleftrightarrow> length (verts s) = unat (total_verts E) \<and>
     bitmap_inv (frontier s) \<and> bm_size (frontier s) = total_verts E \<and>
     bitmap_inv (next_frontier s) \<and> bm_size (next_frontier s) = total_verts E"

text \<open>The state a freshly constructed context gives: no bit is on, every vertex has its default.\<close>

definition fresh :: "run_env \<Rightarrow> 'v \<Rightarrow> ('v, 'x) kstate_scheme \<Rightarrow> bool" where
  "fresh E x s \<longleftrightarrow> kshape E s \<and> bits_of (frontier s) = {} \<and> frontier_size (frontier s) = [] \<and>
     bits_of (next_frontier s) = {} \<and> verts s = replicate (unat (total_verts E)) x"

lemma fresh_extend: "fresh E x s \<Longrightarrow> fresh E x (kstate.extend s y)"
  by (simp add: fresh_def kshape_def kstate.extend_def)

lemma nb_bound: "env_ok E \<Longrightarrow> w \<in> set (nb E v) \<Longrightarrow> w < total_verts E"
  by (auto simp: env_ok_def nb_def adjs_def adj_def dest!: in_set_takeD in_set_dropD)

lemma nb_length: "env_ok E \<Longrightarrow> v < total_verts E \<Longrightarrow> length (nb E v) = unat (out_degree (env_args E) v)"
  using length_adjs [of "worker_args (env_args E) 0" "env_remote E" v]
  by (simp add: env_ok_def setup_ok_def run_ok_def nb_def total_verts_def dg_def)

lemma take_nb:
  assumes "env_ok E" "v < total_verts E"
  shows "take (unat (of_nat (length (nb E v)) :: u32)) (nb E v) = nb E v"
proof -
  have "length (nb E v) < 2 ^ 32" using nb_length [OF assms] unat_u32_lt by simp
  then show ?thesis by (simp add: unat_of_nat_u32)
qed

lemma kshape_verts [simp]: "kshape E (s\<lparr> verts := vs \<rparr>) \<longleftrightarrow> kshape E s \<and> length vs = unat (total_verts E)"
  if "kshape E s"
  using that by (simp add: kshape_def)

lemma kshape_mark_next:
  "kshape E s \<Longrightarrow> w < total_verts E \<Longrightarrow> kshape E (s\<lparr> next_frontier := mark t w (next_frontier s) \<rparr>)"
  by (simp add: kshape_def mark_inv)

lemma kshape_swap: "kshape E s \<Longrightarrow> kshape E (swap_frontiers s)"
  by (simp add: kshape_def swap_frontiers_def bm.invar_reset)

lemma swap_frontiers_bits:
  "kshape E s \<Longrightarrow> bits_of (frontier (swap_frontiers s)) = bits_of (next_frontier s)"
  "kshape E s \<Longrightarrow> bits_of (next_frontier (swap_frontiers s)) = {}"
  by (simp_all add: kshape_def swap_frontiers_def bm.alpha_reset)

lemma swap_frontiers_verts [simp]: "verts (swap_frontiers s) = verts s"
  by (simp add: swap_frontiers_def)

lemma kshape_bits_iff:
  "kshape E s \<Longrightarrow> v < total_verts E \<Longrightarrow> get_bit (frontier s) v \<noteq> 0 \<longleftrightarrow> v \<in> bits_of (frontier s)"
  by (auto simp: kshape_def bits_of_def)

lemma kshape_bits_below: "kshape E s \<Longrightarrow> v \<in> bits_of (frontier s) \<Longrightarrow> v < total_verts E"
  by (simp add: kshape_def bits_of_def)

lemma kshape_is_empty: "kshape E s \<Longrightarrow> is_empty (frontier s) \<longleftrightarrow> bits_of (frontier s) = {}"
  by (simp add: kshape_def is_empty_iff)

lemma st_ok_cb [simp]: "st_ok E (st\<lparr> cb := s \<rparr>) = st_ok E st"
  by (simp add: st_ok_def area_ok_def windows_ok_def)

text \<open>One round over the frontier of the state, in the form the kernels use.\<close>

lemma round_rule:
  assumes "env_ok E" "st_ok E st" "kshape E (cb st)" "P {} (cb st)"
    and "\<And>D t v s. D \<subseteq> bits_of (frontier (cb st)) \<Longrightarrow> v \<in> bits_of (frontier (cb st)) \<Longrightarrow> v \<notin> D \<Longrightarrow> P D s \<Longrightarrow>
           P (insert v D) (F t v (nb E v) (of_nat (length (nb E v))) s)"
  obtains st' D where
    "for_each_active E k (frontier (cb st)) 0 (total_verts E) F st = Some (Inr st')" "st_ok E st'" "P D (cb st')"
    "D \<subseteq> bits_of (frontier (cb st))" "\<forall>v \<in> bits_of (frontier (cb st)) - D. nb E v = []"
proof -
  have bits: "0 \<le> v \<and> v < total_verts E \<and> get_bit (frontier (cb st)) v \<noteq> 0 \<longleftrightarrow> v \<in> bits_of (frontier (cb st))" for v
    using kshape_bits_iff [OF assms(3)] kshape_bits_below [OF assms(3)] by auto
  have step: "P (insert v D) (F t v (nb E v) (of_nat (length (nb E v))) s)"
    if "D \<subseteq> {v. 0 \<le> v \<and> v < total_verts E \<and> get_bit (frontier (cb st)) v \<noteq> 0}" "0 \<le> v" "v < total_verts E"
      "get_bit (frontier (cb st)) v \<noteq> 0" "v \<notin> D" "P D s" for D t v s
  proof -
    have "v \<in> bits_of (frontier (cb st))" using that(2-4) bits [of v] by blast
    then show ?thesis using that(1,5,6) unfolding bits by (intro assms(5)) simp_all
  qed
  obtain st' D where o:
    "for_each_active E k (frontier (cb st)) 0 (total_verts E) F st = Some (Inr st')" "st_ok E st'" "P D (cb st')"
    "D \<subseteq> {v. 0 \<le> v \<and> v < total_verts E \<and> get_bit (frontier (cb st)) v \<noteq> 0}"
    "{v. 0 \<le> v \<and> v < total_verts E \<and> get_bit (frontier (cb st)) v \<noteq> 0 \<and> nb E v \<noteq> []} \<subseteq> D"
    using ccy.iter_rule [where P = P and F = F, OF assms(1,2) order_refl assms(4) step] by blast
  show ?thesis
    by (rule that [OF o(1-3)]) (use o(4,5) bits in auto)
qed

text \<open>
  \<open>tbb::parallel_reduce\<close> over the subranges \<open>cs\<close>, and the two reductions of the kernels that count
  the vertices with a property.
\<close>

definition parallel_reduce ::
    "(u32 \<times> u32) list \<Rightarrow> (u32 list \<Rightarrow> 'a \<Rightarrow> 'a) \<Rightarrow> ('a \<Rightarrow> 'a \<Rightarrow> 'a) \<Rightarrow> 'a \<Rightarrow> 'a" where
  "parallel_reduce cs body join z = foldr join (map (\<lambda>(b, e). body (u32_range b e) z) cs) z"

definition count_if :: "(u32 \<Rightarrow> bool) \<Rightarrow> u32 list \<Rightarrow> u32 \<Rightarrow> u32" where
  "count_if P vs z = fold (\<lambda>i init. if P i then init + 1 else init) vs z"

definition covers :: "u32 \<Rightarrow> (u32 \<times> u32) list \<Rightarrow> bool" where
  "covers n cs \<longleftrightarrow> mset (concat (map (\<lambda>(b, e). u32_range b e) cs)) = mset (u32_range 0 n)"

lemma count_if_length: "count_if P vs z = z + of_nat (length (filter P vs))"
  by (induction vs arbitrary: z) (auto simp: count_if_def)

lemma parallel_reduce_count:
  assumes "covers n cs"
  shows "unat (parallel_reduce cs (count_if P) (+) 0) = card {v. v < n \<and> P v}"
proof -
  let ?vs = "concat (map (\<lambda>(b, e). u32_range b e) cs)"
  have "parallel_reduce cs (count_if P) (+) 0 = of_nat (length (filter P ?vs))"
    unfolding parallel_reduce_def by (induction cs) (auto simp: count_if_length)
  moreover have "length (filter P ?vs) = length (filter P (u32_range 0 n))"
    using assms unfolding covers_def by (metis mset_filter size_mset)
  moreover have "length (filter P (u32_range 0 n)) = card {v. v < n \<and> P v}"
    using distinct_card [of "filter P (u32_range 0 n)"] by (simp add: conj_commute)
  moreover have "card {v. v < n \<and> P v} < 2 ^ 32"
    using card_mono [of "{v. v < n}" "{v. v < n \<and> P v}"] unat_u32_lt [of n]
    by (simp add: card_words_below Collect_mono)
  ultimately show ?thesis by (simp add: unat_of_nat_u32)
qed

lemma sum_count_list:
  "finite X \<Longrightarrow> (\<Sum>v \<in> X. count_list xs v) = length (filter (\<lambda>v. v \<in> X) xs)"
proof (induction xs)
  case (Cons x xs)
  have "(\<Sum>v \<in> X. count_list (x # xs) v) = (\<Sum>v \<in> X. (if x = v then 1 else 0) + count_list xs v)"
    by (intro sum.cong) auto
  also have "\<dots> = (if x \<in> X then 1 else 0) + (\<Sum>v \<in> X. count_list xs v)"
    using Cons.prems by (simp add: sum.distrib)
  finally show ?case using Cons by simp
qed simp

subsection \<open>A run for the witnesses\<close>

text \<open>The three-vertex graph, the whole range in one subrange of the first worker, no cache.\<close>

definition demo_env :: "nat \<Rightarrow> run_env" where
  "demo_env r =
     \<lparr> env_args = demo_args, cacheMap = None, cacheManager = None,
       env_nic = (\<lambda>k. slow_nic demo_args demo_edges r), env_sched = (\<lambda>k lo hi. [(0, lo, hi)]),
       env_workers = 2, env_remote = demo_edges \<rparr>"

definition demo_kstate :: "'v \<Rightarrow> 'v kstate" where
  "demo_kstate x =
     \<lparr> frontier = mk_Bitmap (\<lambda>n _. n) 3 False, next_frontier = mk_Bitmap (\<lambda>n _. n) 3 False,
       verts = replicate 3 x \<rparr>"

lemma demo_env_ok: "env_ok (demo_env r)"
  using demo_setup [of r]
  by (simp add: env_ok_def demo_env_def coherent_def cache_lookup_def splits_def total_verts_def)
     (simp add: demo_edges_def demo_args_def)

lemma demo_env_ready: "env_ready (demo_env 0)"
  using demo_env_ok [of 0] by (simp add: env_ready_def nic_ready_def demo_env_def slow_nic_def ENOMEM_def)

lemma demo_total [simp]: "total_verts (demo_env r) = 3"
  by (simp add: total_verts_def demo_env_def demo_args_def)

lemma demo_st_ok: "st_ok (demo_env r) (demo_state s)"
  using demo_area [of s] by (simp add: st_ok_def demo_env_def)

lemma demo_fresh: "fresh (demo_env r) x (demo_kstate x)"
  by (simp add: fresh_def kshape_def demo_kstate_def mk_Bitmap_inv bits_of_mk_Bitmap) (simp add: mk_Bitmap_def)

lemma cb_demo_state [simp]: "cb (demo_state s) = s"
  by (simp add: demo_state_def)

lemma demo_nb: "nb (demo_env r) v = (if v = 0 then [1, 2] else if v = 1 \<or> v = 2 then [0] else [])"
proof (cases "v < 3")
  case True
  then have "unat v = 0 \<or> unat v = 1 \<or> unat v = 2" unfolding word_less_nat_alt by simp arith
  then consider "v = 0" | "v = 1" | "v = 2"
    using word_unat_eq_iff [of v 0] word_unat_eq_iff [of v 1] word_unat_eq_iff [of v 2] by auto
  then show ?thesis
    by cases (simp_all add: nb_def adjs_def adj_def deg_def off_def demo_env_def demo_args_def demo_edges_def vertex.make_def)
next
  case False
  then have "3 \<le> v" by simp
  then have "3 \<le> unat v" "v \<noteq> 0" "v \<noteq> 1" "v \<noteq> 2" unfolding word_le_nat_alt by auto
  then show ?thesis by (simp add: nb_def adjs_def adj_def deg_def off_def demo_env_def demo_args_def)
qed

end
