(* ===== verification/KCore.thy ===== *)
theory KCore
  imports Graph_Kernel
begin

text \<open>
  The k-core kernel, \<open>src/src/kcore.hpp\<close>: vertices of degree below \<open>k\<close> are peeled off, round by
  round. \<open>kcore_correct\<close> shows for symmetric graphs that the kernel ends and that the vertices left
  with degree at least \<open>k\<close> are the largest set in which every vertex has \<open>k\<close> neighbours.
\<close>

subsection \<open>The kernel\<close>

record kcore_vertex =
  degree :: u32

text \<open>\<open>fetch_sub\<close>: the old value and the decremented vertex.\<close>

definition subtract_degree :: "kcore_vertex \<Rightarrow> u32 \<times> kcore_vertex" where
  "subtract_degree x = (degree x, x\<lparr> degree := degree x - 1 \<rparr>)"

definition kcore_edge :: "u32 \<Rightarrow> worker \<Rightarrow> u32 \<Rightarrow> kcore_vertex kstate \<Rightarrow> kcore_vertex kstate" where
  "kcore_edge k t w s =
     (let (old, x) = subtract_degree (verts s ! unat w);
          s1 = s\<lparr> verts := (verts s)[unat w := x] \<rparr>
      in if old = k then s1\<lparr> next_frontier := mark t w (next_frontier s1) \<rparr> else s1)"

definition kcore_push :: "u32 \<Rightarrow> worker \<Rightarrow> kcore_vertex kstate callback" where
  "kcore_push k t v edges n s = fold (kcore_edge k t) (take (unat n) edges) s"

definition kcore_init_vertex :: "run_env \<Rightarrow> u32 \<Rightarrow> worker \<Rightarrow> u32 \<Rightarrow> kcore_vertex kstate \<Rightarrow> kcore_vertex kstate" where
  "kcore_init_vertex E k t v s =
     (let d = out_degree (env_args E) v;
          s1 = s\<lparr> verts := (verts s)[unat v := (verts s ! unat v)\<lparr> degree := d \<rparr>] \<rparr>
      in if d < k then s1\<lparr> frontier := mark t v (frontier s1) \<rparr> else s1)"

definition kcore_init :: "run_env \<Rightarrow> u32 \<Rightarrow> (u32 \<Rightarrow> worker) \<Rightarrow> kcore_vertex kstate \<Rightarrow> kcore_vertex kstate" where
  "kcore_init E k who s = fold (\<lambda>v. kcore_init_vertex E k (who v) v) (u32_range 0 (total_verts E)) s"

partial_function (option) kcore_loop ::
    "run_env \<Rightarrow> u32 \<Rightarrow> nat \<Rightarrow> kcore_vertex kstate pack_state \<Rightarrow> (abort + kcore_vertex kstate pack_state) option" where
  "kcore_loop E k c st =
     (if \<not> is_empty (frontier (cb st)) then
        Option.bind (for_each_active E c (frontier (cb st)) 0 (total_verts E) (kcore_push k) st)
          (\<lambda>r. case r of
             Inl a \<Rightarrow> Some (Inl a)
           | Inr st1 \<Rightarrow> kcore_loop E k (Suc c) (st1\<lparr> cb := swap_frontiers (cb st1) \<rparr>))
      else Some (Inr st))"

definition kcore_kernel ::
    "run_env \<Rightarrow> u32 \<Rightarrow> (u32 \<Rightarrow> worker) \<Rightarrow> kcore_vertex kstate pack_state \<Rightarrow> (abort + kcore_vertex kstate pack_state) option" where
  "kcore_kernel E k who st = kcore_loop E k 0 (st\<lparr> cb := kcore_init E k who (cb st) \<rparr>)"

definition kth_core_membership :: "(u32 \<times> u32) list \<Rightarrow> kcore_vertex list \<Rightarrow> u32 \<Rightarrow> u32" where
  "kth_core_membership cs vt t_k = parallel_reduce cs (count_if (\<lambda>i. degree (vt ! unat i) \<ge> t_k)) (+) 0"

subsection \<open>Cores and symmetric graphs\<close>

definition edges_into :: "run_env \<Rightarrow> u32 set \<Rightarrow> u32 \<Rightarrow> nat" where
  "edges_into E S w = length (filter (\<lambda>v. v \<in> S) (nb E w))"

definition is_core :: "run_env \<Rightarrow> nat \<Rightarrow> u32 set \<Rightarrow> bool" where
  "is_core E k S \<longleftrightarrow> S \<subseteq> {v. v < total_verts E} \<and> (\<forall>w \<in> S. k \<le> edges_into E S w)"

text \<open>Every edge is stored in both directions, with the same multiplicity.\<close>

definition symmetric :: "run_env \<Rightarrow> bool" where
  "symmetric E \<longleftrightarrow> (\<forall>u v. u < total_verts E \<longrightarrow> v < total_verts E \<longrightarrow> count_list (nb E u) v = count_list (nb E v) u)"

lemma edges_into_le: "edges_into E S w \<le> length (nb E w)"
  by (simp add: edges_into_def)

lemma edges_into_disjoint:
  "S \<inter> T = {} \<Longrightarrow> edges_into E (S \<union> T) w = edges_into E S w + edges_into E T w"
proof -
  assume "S \<inter> T = {}"
  then have "length (filter (\<lambda>v. v \<in> S \<union> T) xs) = length (filter (\<lambda>v. v \<in> S) xs) + length (filter (\<lambda>v. v \<in> T) xs)"
    for xs by (induction xs) auto
  then show ?thesis by (simp add: edges_into_def)
qed

lemma edges_into_mono: "S \<subseteq> T \<Longrightarrow> edges_into E S w \<le> edges_into E T w"
  using edges_into_disjoint [of S "T - S" E w] by (simp add: Un_absorb1)

text \<open>What a peeled set takes from a vertex is what the vertex has in the set.\<close>

lemma pushed_edges:
  assumes "symmetric E" "X \<subseteq> {v. v < total_verts E}" "w < total_verts E"
  shows "(\<Sum>v \<in> X. count_list (nb E v) w) = edges_into E X w"
proof -
  have fin: "finite X" by (rule finite_subset [OF subset_UNIV]) simp
  have "(\<Sum>v \<in> X. count_list (nb E v) w) = (\<Sum>v \<in> X. count_list (nb E w) v)"
    using assms by (intro sum.cong) (auto simp: symmetric_def)
  then show ?thesis using sum_count_list [OF fin, of "nb E w"] by (simp add: edges_into_def)
qed

subsection \<open>Invariants\<close>

text \<open>
  During a round: \<open>cnt w\<close> edges of \<open>w\<close> have been cut, \<open>S\<close> holds the vertices peeled before the round
  and those on its frontier.
\<close>

definition kcore_mid :: "run_env \<Rightarrow> u32 \<Rightarrow> Bitmap \<Rightarrow> u32 set \<Rightarrow> (u32 \<Rightarrow> nat) \<Rightarrow> kcore_vertex kstate \<Rightarrow> bool" where
  "kcore_mid E k fr S cnt s \<longleftrightarrow> kshape E s \<and> frontier s = fr \<and>
     (\<forall>v. v < total_verts E \<longrightarrow> cnt v \<le> length (nb E v) \<and> unat (degree (verts s ! unat v)) = length (nb E v) - cnt v) \<and>
     S \<subseteq> {v. v < total_verts E \<and> length (nb E v) - cnt v < unat k} \<and>
     bits_of (next_frontier s) = {v. v < total_verts E \<and> length (nb E v) - cnt v < unat k} - S"

lemma kcore_edge_mid:
  assumes "kcore_mid E k fr S cnt s" "w < total_verts E" "cnt w < length (nb E w)"
  shows "kcore_mid E k fr S (cnt(w := Suc (cnt w))) (kcore_edge k t w s)"
proof -
  let ?x = "verts s ! unat w" and ?c = "cnt(w := Suc (cnt w))"
  let ?L = "\<lambda>c. {v. v < total_verts E \<and> length (nb E v) - c v < unat k}"
  have sh: "kshape E s" and fr: "frontier s = fr" and S: "S \<subseteq> ?L cnt" and nx: "bits_of (next_frontier s) = ?L cnt - S"
    and vs: "\<And>v. v < total_verts E \<Longrightarrow> cnt v \<le> length (nb E v) \<and> unat (degree (verts s ! unat v)) = length (nb E v) - cnt v"
    using assms(1) by (auto simp: kcore_mid_def)
  have lw: "unat w < length (verts s)" using sh assms(2) by (simp add: kshape_def word_less_nat_alt)
  have dx: "unat (degree ?x) = length (nb E w) - cnt w" using vs [OF assms(2)] by simp
  have dec: "unat (degree ?x - 1) = length (nb E w) - Suc (cnt w)"
    using dx assms(3) by (subst unat_sub_word) (auto simp: word_le_nat_alt)
  let ?s1 = "s\<lparr> verts := (verts s)[unat w := ?x\<lparr> degree := degree ?x - 1 \<rparr>] \<rparr>"
  have e: "kcore_edge k t w s =
      (if degree ?x = k then ?s1\<lparr> next_frontier := mark t w (next_frontier s) \<rparr> else ?s1)"
    by (simp add: kcore_edge_def subtract_degree_def)
  have sh1: "kshape E ?s1" using sh lw by (simp add: kshape_def)
  have d1: "?c v \<le> length (nb E v) \<and> unat (degree (verts ?s1 ! unat v)) = length (nb E v) - ?c v"
    if "v < total_verts E" for v
    using that vs [OF that] dec lw assms(3) by (auto simp: nth_update_unat)
  have L: "?L ?c = (if degree ?x = k then insert w (?L cnt) else ?L cnt)"
  proof (cases "degree ?x = k")
    case True
    then have "unat k = length (nb E w) - cnt w" using dx by simp
    then show ?thesis using True assms(2,3) by auto
  next
    case False
    then have "unat k \<noteq> length (nb E w) - cnt w" using dx by (metis word_unat_eq_iff)
    then show ?thesis using False by auto
  qed
  have nS: "degree ?x = k \<Longrightarrow> w \<notin> S" using S dx by auto
  have "bits_of (mark t w (next_frontier s)) = insert w (?L cnt - S)"
    using sh assms(2) nx by (simp add: kshape_def bm.alpha_activate)
  moreover have "kshape E (?s1\<lparr> next_frontier := mark t w (next_frontier s) \<rparr>)"
    using kshape_mark_next [OF sh1 assms(2), of t] by simp
  ultimately show ?thesis
    unfolding kcore_mid_def L using e sh1 fr d1 S nx nS by auto
qed

lemma kcore_push_mid:
  assumes "env_ok E" "v < total_verts E" "kcore_mid E k fr S cnt s"
    and "\<And>w. w < total_verts E \<Longrightarrow> cnt w + count_list (nb E v) w \<le> length (nb E w)"
  shows "kcore_mid E k fr S (\<lambda>w. cnt w + count_list (nb E v) w) (kcore_push k t v (nb E v) (of_nat (length (nb E v))) s)"
proof -
  have "kcore_mid E k fr S (\<lambda>w. cnt w + count_list ws w) (fold (kcore_edge k t) ws s)"
    if "kcore_mid E k fr S cnt s" "\<forall>w \<in> set ws. w < total_verts E"
      "\<And>w. w < total_verts E \<Longrightarrow> cnt w + count_list ws w \<le> length (nb E w)" for ws cnt s
    using that
  proof (induction ws arbitrary: cnt s)
    case (Cons x ws)
    have x: "x < total_verts E" "cnt x < length (nb E x)" using Cons.prems(2) Cons.prems(3) [of x] by auto
    have "kcore_mid E k fr S (\<lambda>w. (cnt(x := Suc (cnt x))) w + count_list ws w) (fold (kcore_edge k t) ws (kcore_edge k t x s))"
    proof (rule Cons.IH [OF kcore_edge_mid [OF Cons.prems(1) x]])
      show "\<forall>w \<in> set ws. w < total_verts E" using Cons.prems(2) by simp
      show "(cnt(x := Suc (cnt x))) w + count_list ws w \<le> length (nb E w)" if "w < total_verts E" for w
        using Cons.prems(3) [OF that] by (auto split: if_splits)
    qed
    moreover have "(\<lambda>w. (cnt(x := Suc (cnt x))) w + count_list ws w) = (\<lambda>w. cnt w + count_list (x # ws) w)" by auto
    ultimately show ?case by simp
  qed simp
  from this [OF assms(3), of "nb E v"] assms(4) nb_bound [OF assms(1)]
  show ?thesis unfolding kcore_push_def take_nb [OF assms(1,2)] by blast
qed

text \<open>Between two rounds: \<open>R\<close> has been peeled and its edges are cut.\<close>

definition kcore_inv :: "run_env \<Rightarrow> u32 \<Rightarrow> u32 set \<Rightarrow> kcore_vertex kstate \<Rightarrow> bool" where
  "kcore_inv E k R s \<longleftrightarrow> R \<inter> bits_of (frontier s) = {} \<and>
     kcore_mid E k (frontier s) (R \<union> bits_of (frontier s)) (edges_into E R) s \<and> bits_of (next_frontier s) = {} \<and>
     (\<forall>S. is_core E (unat k) S \<longrightarrow> S \<inter> R = {})"

lemma kcore_mid_cong:
  "(\<And>w. w < total_verts E \<Longrightarrow> c w = c' w) \<Longrightarrow> kcore_mid E k fr S c s = kcore_mid E k fr S c' s"
  unfolding kcore_mid_def by (intro conj_cong refl) (auto intro!: arg_cong2 [where f = minus] Collect_cong)

lemma cut_insert:
  assumes "symmetric E" "X \<subseteq> {v. v < total_verts E}" "v < total_verts E" "v \<notin> X" "w < total_verts E"
  shows "edges_into E X w + count_list (nb E v) w = edges_into E (insert v X) w"
  using edges_into_disjoint [of X "{v}" E w] pushed_edges [OF assms(1), of "{v}" w] assms by simp

lemma cut_empty:
  assumes "symmetric E" "X \<subseteq> {v. v < total_verts E}" "w < total_verts E" "\<forall>v \<in> X. nb E v = []"
  shows "edges_into E X w = 0"
  using pushed_edges [OF assms(1-3)] assms(4) by simp

text \<open>When all edges of the frontier have been cut: no core loses a vertex.\<close>

lemma kcore_round_end:
  assumes "kcore_inv E k R r"
    and m': "kcore_mid E k fr (R \<union> bits_of (frontier r)) (edges_into E (R \<union> bits_of (frontier r))) s"
  shows "kcore_inv E k (R \<union> bits_of (frontier r)) (swap_frontiers s)"
proof -
  let ?F = "bits_of (frontier r)"
  let ?L = "\<lambda>X. {v. v < total_verts E \<and> length (nb E v) - edges_into E X v < unat k}"
  have mid: "kcore_mid E k (frontier r) (R \<union> ?F) (edges_into E R) r"
    and core: "\<And>S. is_core E (unat k) S \<Longrightarrow> S \<inter> R = {}"
    using assms(1) by (auto simp: kcore_inv_def)
  have RF: "R \<union> ?F \<subseteq> ?L R" using mid by (auto simp: kcore_mid_def)
  have sh': "kshape E s" and nx: "bits_of (next_frontier s) = ?L (R \<union> ?F) - (R \<union> ?F)"
    and sub: "R \<union> ?F \<subseteq> ?L (R \<union> ?F)"
    using m' by (auto simp: kcore_mid_def)
  have "S \<inter> (R \<union> ?F) = {}" if S: "is_core E (unat k) S" for S
  proof -
    have SR: "S \<inter> R = {}" by (rule core [OF S])
    have False if w: "w \<in> S" "w \<in> ?F" for w
    proof -
      have "unat k \<le> edges_into E S w" using S w by (simp add: is_core_def)
      moreover have "edges_into E S w + edges_into E R w \<le> length (nb E w)"
        using edges_into_disjoint [OF SR, of E w] edges_into_le [of E "S \<union> R" w] by simp
      moreover have "length (nb E w) - edges_into E R w < unat k" using RF w by auto
      ultimately show False by simp
    qed
    then show ?thesis using SR by auto
  qed
  then show ?thesis
    unfolding kcore_inv_def kcore_mid_def
    using kshape_swap [OF sh'] swap_frontiers_bits [OF sh'] nx sub m' by (auto simp: kcore_mid_def)
qed

lemma kcore_round:
  assumes "env_ok E" "symmetric E" "st_ok E st" "kcore_inv E k R (cb st)"
  obtains st' where
    "for_each_active E c (frontier (cb st)) 0 (total_verts E) (kcore_push k) st = Some (Inr st')"
    "st_ok E st'" "kcore_inv E k (R \<union> bits_of (frontier (cb st))) (swap_frontiers (cb st'))"
proof -
  let ?fr = "frontier (cb st)" let ?F = "bits_of ?fr" and ?V = "{v. v < total_verts E}"
  let ?L = "\<lambda>X. {v. v < total_verts E \<and> length (nb E v) - edges_into E X v < unat k}"
  have mid: "kcore_mid E k ?fr (R \<union> ?F) (edges_into E R) (cb st)" and dis: "R \<inter> ?F = {}"
    and core: "\<And>S. is_core E (unat k) S \<Longrightarrow> S \<inter> R = {}"
    using assms(4) by (auto simp: kcore_inv_def)
  have sh: "kshape E (cb st)" and RF: "R \<union> ?F \<subseteq> ?L R" using mid by (auto simp: kcore_mid_def)
  then have V: "R \<subseteq> ?V" "?F \<subseteq> ?V" by auto
  have step: "kcore_mid E k ?fr (R \<union> ?F) (edges_into E (R \<union> insert v D))
      (kcore_push k t v (nb E v) (of_nat (length (nb E v))) s)"
    if "D \<subseteq> ?F" "v \<in> ?F" "v \<notin> D" "kcore_mid E k ?fr (R \<union> ?F) (edges_into E (R \<union> D)) s" for D t v s
  proof -
    have "R \<union> D \<subseteq> ?V" "v < total_verts E" "v \<notin> R \<union> D" using V dis that by auto
    then have cut: "edges_into E (R \<union> D) w + count_list (nb E v) w = edges_into E (R \<union> insert v D) w"
      if "w < total_verts E" for w
      using cut_insert [OF assms(2), of "R \<union> D" v w] that by simp
    have "kcore_mid E k ?fr (R \<union> ?F) (\<lambda>w. edges_into E (R \<union> D) w + count_list (nb E v) w)
        (kcore_push k t v (nb E v) (of_nat (length (nb E v))) s)"
      using \<open>v < total_verts E\<close> that(4) by (intro kcore_push_mid assms(1)) (simp_all add: cut edges_into_le)
    then show ?thesis using cut by (subst (asm) kcore_mid_cong) auto
  qed
  have mid0: "kcore_mid E k ?fr (R \<union> ?F) (edges_into E (R \<union> {})) (cb st)" using mid by simp
  obtain st' D where o: "for_each_active E c ?fr 0 (total_verts E) (kcore_push k) st = Some (Inr st')"
    "st_ok E st'" "kcore_mid E k ?fr (R \<union> ?F) (edges_into E (R \<union> D)) (cb st')" "D \<subseteq> ?F" "\<forall>v \<in> ?F - D. nb E v = []"
    using round_rule [where P = "\<lambda>D. kcore_mid E k ?fr (R \<union> ?F) (edges_into E (R \<union> D))", OF assms(1,3) sh mid0, of "kcore_push k" c]
      step by metis
  have "edges_into E (R \<union> D) w = edges_into E (R \<union> ?F) w" if "w < total_verts E" for w
  proof -
    have "(R \<union> D) \<inter> (?F - D) = {}" "(R \<union> D) \<union> (?F - D) = R \<union> ?F" using dis o(4) by auto
    moreover have "edges_into E (?F - D) w = 0"
      using cut_empty [OF assms(2) _ that o(5)] V by blast
    ultimately show ?thesis using edges_into_disjoint [of "R \<union> D" "?F - D" E w] by simp
  qed
  then have m': "kcore_mid E k ?fr (R \<union> ?F) (edges_into E (R \<union> ?F)) (cb st')"
    using o(3) by (subst (asm) kcore_mid_cong) auto
  have "kcore_inv E k (R \<union> ?F) (swap_frontiers (cb st'))" by (rule kcore_round_end [OF assms(4) m'])
  with o(1,2) show ?thesis by (rule that)
qed

lemma kcore_loop_returns:
  assumes "env_ok E" "symmetric E" "st_ok E st" "kcore_inv E k R (cb st)"
  shows "\<exists>R' st'. kcore_loop E k c st = Some (Inr st') \<and> kcore_inv E k R' (cb st') \<and> bits_of (frontier (cb st')) = {}"
  using assms(3,4)
proof (induction "card {v. v < total_verts E} - card R" arbitrary: R c st rule: less_induct)
  case less
  let ?F = "bits_of (frontier (cb st))"
  have sh: "kshape E (cb st)" and V: "R \<union> ?F \<subseteq> {v. v < total_verts E}" "R \<inter> ?F = {}"
    using less.prems(2) by (auto simp: kcore_inv_def kcore_mid_def)
  show ?case
  proof (cases "?F = {}")
    case True
    then have "kcore_loop E k c st = Some (Inr st)"
      using kshape_is_empty [OF sh] by (subst kcore_loop.simps) simp
    then show ?thesis using True less.prems by blast
  next
    case False
    obtain st1 where st1: "for_each_active E c (frontier (cb st)) 0 (total_verts E) (kcore_push k) st = Some (Inr st1)"
      "st_ok E st1" "kcore_inv E k (R \<union> ?F) (swap_frontiers (cb st1))"
      using kcore_round [OF assms(1,2) less.prems] by blast
    have "R \<subset> R \<union> ?F" using V False by auto
    then have "card R < card (R \<union> ?F)" by (intro psubset_card_mono) (auto intro: finite_subset [OF subset_UNIV])
    moreover have "card (R \<union> ?F) \<le> card {v. v < total_verts E}" using V by (intro card_mono) auto
    ultimately have dec: "card {v. v < total_verts E} - card (R \<union> ?F) < card {v. v < total_verts E} - card R" by linarith
    have "kcore_loop E k c st = kcore_loop E k (Suc c) (st1\<lparr> cb := swap_frontiers (cb st1) \<rparr>)"
      using kshape_is_empty [OF sh] False st1(1) by (subst kcore_loop.simps) simp
    then show ?thesis using less.hyps [OF dec, of "st1\<lparr> cb := swap_frontiers (cb st1) \<rparr>" "Suc c"] st1(2,3) by simp
  qed
qed

lemma kcore_init_vertex_step:
  assumes "kshape E s" "v < total_verts E"
  shows "kshape E (kcore_init_vertex E k t v s)"
    and "next_frontier (kcore_init_vertex E k t v s) = next_frontier s"
    and "bits_of (frontier (kcore_init_vertex E k t v s)) =
      bits_of (frontier s) \<union> (if out_degree (env_args E) v < k then {v} else {})"
    and "degree (verts (kcore_init_vertex E k t v s) ! unat w) =
      (if w = v then out_degree (env_args E) v else degree (verts s ! unat w))"
proof -
  have l: "unat v < length (verts s)" using assms by (simp add: kshape_def word_less_nat_alt)
  show "kshape E (kcore_init_vertex E k t v s)"
    using assms by (simp add: kcore_init_vertex_def Let_def kshape_def mark_inv)
  show "next_frontier (kcore_init_vertex E k t v s) = next_frontier s"
    by (simp add: kcore_init_vertex_def Let_def)
  show "bits_of (frontier (kcore_init_vertex E k t v s)) =
      bits_of (frontier s) \<union> (if out_degree (env_args E) v < k then {v} else {})"
    using assms by (simp add: kcore_init_vertex_def Let_def kshape_def bm.alpha_activate)
  show "degree (verts (kcore_init_vertex E k t v s) ! unat w) =
      (if w = v then out_degree (env_args E) v else degree (verts s ! unat w))"
    using l by (simp add: kcore_init_vertex_def Let_def nth_update_unat)
qed

lemma kcore_init_fold:
  assumes "kshape E s" "\<forall>v \<in> set vs. v < total_verts E"
  shows "kshape E (fold (\<lambda>v. kcore_init_vertex E k (who v) v) vs s) \<and>
    next_frontier (fold (\<lambda>v. kcore_init_vertex E k (who v) v) vs s) = next_frontier s \<and>
    bits_of (frontier (fold (\<lambda>v. kcore_init_vertex E k (who v) v) vs s)) =
      bits_of (frontier s) \<union> {v \<in> set vs. out_degree (env_args E) v < k} \<and>
    (\<forall>w. degree (verts (fold (\<lambda>v. kcore_init_vertex E k (who v) v) vs s) ! unat w) =
      (if w \<in> set vs then out_degree (env_args E) w else degree (verts s ! unat w)))"
  using assms
proof (induction vs arbitrary: s)
  case (Cons v vs)
  note st = kcore_init_vertex_step [OF Cons.prems(1), of v k "who v"]
  have "v < total_verts E" using Cons.prems by simp
  then show ?case using Cons.IH [OF st(1)] Cons.prems(2) st(2-4) by auto
qed simp

lemma kcore_init_inv:
  assumes "env_ok E" "fresh E x s"
  shows "kcore_inv E k {} (kcore_init E k who s)"
proof -
  let ?s = "kcore_init E k who s"
  have "kshape E s" "bits_of (frontier s) = {}" "bits_of (next_frontier s) = {}" using assms(2) by (auto simp: fresh_def)
  with kcore_init_fold [of E s "u32_range 0 (total_verts E)" k who]
  have i: "kshape E ?s" "bits_of (next_frontier ?s) = {}"
    "bits_of (frontier ?s) = {v. v < total_verts E \<and> out_degree (env_args E) v < k}"
    "\<And>w. w < total_verts E \<Longrightarrow> degree (verts ?s ! unat w) = out_degree (env_args E) w"
    by (auto simp: kcore_init_def)
  have "bits_of (frontier ?s) = {v. v < total_verts E \<and> length (nb E v) < unat k}"
    using nb_length [OF assms(1)] by (auto simp: i(3) word_less_nat_alt)
  then show ?thesis
    using i nb_length [OF assms(1)] by (simp add: kcore_inv_def kcore_mid_def edges_into_def)
qed

text \<open>With an empty frontier, the vertices of degree at least \<open>k\<close> are the largest core.\<close>

lemma kcore_inv_core:
  assumes "env_ok E" "kcore_inv E k R s" "bits_of (frontier s) = {}"
  shows "is_core E (unat k) {v. v < total_verts E \<and> k \<le> degree (verts s ! unat v)}"
    and "\<And>S. is_core E (unat k) S \<Longrightarrow> S \<subseteq> {v. v < total_verts E \<and> k \<le> degree (verts s ! unat v)}"
    and "\<forall>v \<in> {v. v < total_verts E \<and> k \<le> degree (verts s ! unat v)}. unat (degree (verts s ! unat v)) =
      edges_into E {v. v < total_verts E \<and> k \<le> degree (verts s ! unat v)} v"
proof -
  let ?V = "{v. v < total_verts E}" and ?d = "\<lambda>v. degree (verts s ! unat v)"
  let ?K = "{v. v < total_verts E \<and> k \<le> ?d v}"
  have d: "unat (?d v) = length (nb E v) - edges_into E R v" if "v < total_verts E" for v
    using assms(2) that by (simp add: kcore_inv_def kcore_mid_def)
  have R: "R = {v. v < total_verts E \<and> length (nb E v) - edges_into E R v < unat k}"
    using assms(2,3) by (auto simp: kcore_inv_def kcore_mid_def)
  have RV: "R \<subseteq> ?V" by (subst R) auto
  have K: "?K = ?V - R" using d by (subst R) (auto simp: word_le_nat_alt)
  have into: "edges_into E ?K v = length (nb E v) - edges_into E R v" for v
  proof -
    have "?K \<inter> R = {}" "?K \<union> R = ?V" using K RV by auto
    moreover have "edges_into E ?V v = length (nb E v)"
      using nb_bound [OF assms(1)] by (simp add: edges_into_def filter_id_conv)
    ultimately show ?thesis using edges_into_disjoint [of ?K R E v] by simp
  qed
  show "is_core E (unat k) ?K" using d into by (auto simp: is_core_def word_le_nat_alt)
  show "\<forall>v \<in> ?K. unat (?d v) = edges_into E ?K v" using d into by auto
  show "S \<subseteq> ?K" if S: "is_core E (unat k) S" for S
  proof -
    have "S \<inter> R = {}" "S \<subseteq> ?V" using assms(2) S unfolding kcore_inv_def is_core_def by blast+
    then show ?thesis unfolding K by blast
  qed
qed

subsection \<open>Property\<close>

text \<open>
  C12. The k-core kernel is correct and terminates on every symmetric graph. The kernel returns;
  the vertices whose final degree is at least \<open>k\<close> form a set in which every vertex keeps at least
  \<open>k\<close> edges into the set, its final degree being exactly their number (no decrement ever wraps);
  every other set with that property is contained in it; and \<open>kth_core_membership\<close> prints its size.
\<close>

theorem kcore_correct:
  assumes "env_ok E" "symmetric E" "st_ok E st" "fresh E x (cb st)" "covers (total_verts E) cs"
  shows "\<exists>st' K. kcore_kernel E k who st = Some (Inr st') \<and>
    K = {v. v < total_verts E \<and> k \<le> degree (verts (cb st') ! unat v)} \<and>
    is_core E (unat k) K \<and> (\<forall>S. is_core E (unat k) S \<longrightarrow> S \<subseteq> K) \<and>
    (\<forall>v \<in> K. unat (degree (verts (cb st') ! unat v)) = edges_into E K v) \<and>
    unat (kth_core_membership cs (verts (cb st')) k) = card K"
proof -
  obtain R st' where r: "kcore_kernel E k who st = Some (Inr st')" "kcore_inv E k R (cb st')"
    "bits_of (frontier (cb st')) = {}"
    using kcore_loop_returns [OF assms(1,2), of "st\<lparr> cb := kcore_init E k who (cb st) \<rparr>" k "{}" 0]
      kcore_init_inv [OF assms(1,4)] assms(3) by (auto simp: kcore_kernel_def)
  let ?K = "{v. v < total_verts E \<and> k \<le> degree (verts (cb st') ! unat v)}"
  note c = kcore_inv_core [OF assms(1) r(2,3)]
  have "unat (kth_core_membership cs (verts (cb st')) k) = card ?K"
    unfolding kth_core_membership_def by (rule parallel_reduce_count [OF assms(5)])
  then show ?thesis using r(1) c by (intro exI [of _ st'] exI [of _ ?K]) simp
qed

theorem kcore_correct_witness:
  "\<exists>st' K. kcore_kernel (demo_env 1) 2 (\<lambda>v. 0) (demo_state (demo_kstate \<lparr> degree = 0 \<rparr>)) = Some (Inr st') \<and>
    K = {v. v < 3 \<and> 2 \<le> degree (verts (cb st') ! unat v)} \<and> is_core (demo_env 1) 2 K \<and>
    unat (kth_core_membership [(0, 3)] (verts (cb st')) 2) = card K"
proof -
  have "symmetric (demo_env 1)" by (auto simp: symmetric_def demo_nb)
  moreover have "covers 3 [(0, 3)]" by (simp add: covers_def)
  ultimately show ?thesis
    using kcore_correct [OF demo_env_ok _ demo_st_ok, of 1 "\<lparr> degree = 0 \<rparr>" "demo_kstate \<lparr> degree = 0 \<rparr>" "[(0, 3)]" 2 "\<lambda>v. 0"]
      demo_fresh [of 1 "\<lparr> degree = 0 \<rparr>"] by auto
qed

end
