(* ===== verification/Interleaving.thy ===== *)
theory Interleaving
  imports Graph_Kernel
begin

text \<open>
  The callbacks of a kernel run concurrently: every worker of \<open>tbb::parallel_for\<close> calls them for the
  vertices it was given, and their loads, stores and atomic operations interleave with those of the
  other workers. A kernel gives its callback as a program of micro-operations, each one access to the
  shared state; \<open>par_step\<close> lets any worker execute its next one, and \<open>pass_step\<close> is a sequence of
  parallel loops with sequential code between them, \<open>kernel_step\<close> the common case of one per round; \<open>exit_step\<close> adds
  that the process may end in between. An access takes effect in one step and in one order for all workers
  (the sources use relaxed atomics on single locations, apart from the plain one-byte flag of the independent-set
  kernel, which is a data race in C++ and here an indivisible access too; a \<open>parallel_for\<close> ends with a join).
  The locales \<open>interleaved\<close>, \<open>passes\<close> and \<open>parallel_kernel\<close> carry the reasoning: an invariant of the
  state and of what is still to be done, and a measure that every step lowers.
\<close>

subsection \<open>Interleaving of micro-operations\<close>

text \<open>
  What worker \<open>t\<close> can do by executing an operation: the possible states after it, with the
  operations it continues with before the rest of its queue.
\<close>

type_synonym ('s, 'op) micro = "worker \<Rightarrow> 'op \<Rightarrow> 's \<Rightarrow> ('s \<times> 'op list) list"

type_synonym ('s, 'op) par_config = "'op list list \<times> 's"

inductive par_step :: "('s, 'op) micro \<Rightarrow> ('s, 'op) par_config \<Rightarrow> ('s, 'op) par_config \<Rightarrow> bool" for exec where
  run_op: "t < length Q \<Longrightarrow> Q ! t = a # rest \<Longrightarrow> (s', nxt) \<in> set (exec t a s) \<Longrightarrow>
    par_step exec (Q, s) (Q[t := nxt @ rest], s')"

inductive_cases par_stepE: "par_step exec (Q, s) c"

definition idle :: "'op list list \<Rightarrow> bool" where
  "idle Q \<longleftrightarrow> (\<forall>ops \<in> set Q. ops = [])"

definition pending :: "'op list list \<Rightarrow> 'op multiset" where
  "pending Q = mset (concat Q)"

text \<open>A schedule names for every step the worker and which of its possible outcomes occurs.\<close>

fun run_schedule :: "('s, 'op) micro \<Rightarrow> (worker \<times> nat) list \<Rightarrow> ('s, 'op) par_config \<Rightarrow> ('s, 'op) par_config option" where
  "run_schedule exec [] c = Some c"
| "run_schedule exec ((t, i) # sched) (Q, s) =
     (if t < length Q then
        (case Q ! t of
           [] \<Rightarrow> None
         | a # rest \<Rightarrow>
             if i < length (exec t a s)
             then run_schedule exec sched (Q[t := snd (exec t a s ! i) @ rest], fst (exec t a s ! i))
             else None)
      else None)"

lemma run_schedule_steps: "run_schedule exec sched c = Some c' \<Longrightarrow> (par_step exec)\<^sup>*\<^sup>* c c'"
proof (induction exec sched c rule: run_schedule.induct)
  case (2 exec t i sched Q s)
  obtain a rest where q: "t < length Q" "Q ! t = a # rest" "i < length (exec t a s)"
    using "2.prems" by (auto split: if_splits list.splits)
  have "par_step exec (Q, s) (Q[t := snd (exec t a s ! i) @ rest], fst (exec t a s ! i))"
    using q by (intro run_op) auto
  with 2 q show ?case by (auto intro: converse_rtranclp_into_rtranclp)
qed simp

lemma steps_run_schedule:
  assumes "(par_step exec)\<^sup>*\<^sup>* c c'"
  shows "\<exists>sched. run_schedule exec sched c = Some c'"
  using assms
proof (induction rule: converse_rtranclp_induct)
  case base
  then show ?case by (intro exI [of _ "[]"]) simp
next
  case (step c d)
  then obtain sched where sched: "run_schedule exec sched d = Some c'" by blast
  from step(1) show ?case
  proof cases
    case (run_op t Q a rest s' nxt s)
    then obtain i where "i < length (exec t a s)" "exec t a s ! i = (s', nxt)" by (auto simp: in_set_conv_nth)
    then have "run_schedule exec ((t, i) # sched) c = Some c'" using run_op sched by simp
    then show ?thesis by blast
  qed
qed

lemma pending_update:
  assumes "t < length Q" "Q ! t = a # rest"
  shows "pending Q = add_mset a (pending (Q[t := rest]))" "pending (Q[t := nxt @ rest]) = pending (Q[t := rest]) + mset nxt"
proof -
  have Q: "Q = take t Q @ (a # rest) # drop (Suc t) Q" using assms by (metis id_take_nth_drop)
  have u: "Q[t := x] = take t Q @ x # drop (Suc t) Q" for x using assms(1) by (rule upd_conv_take_nth_drop)
  show "pending Q = add_mset a (pending (Q[t := rest]))"
    unfolding u by (subst Q) (simp add: pending_def)
  show "pending (Q[t := nxt @ rest]) = pending (Q[t := rest]) + mset nxt"
    unfolding u by (simp add: pending_def)
qed

lemma idle_pending: "idle Q \<longleftrightarrow> pending Q = {#}"
  by (auto simp: idle_def pending_def)

lemma not_idle: "\<not> idle Q \<Longrightarrow> \<exists>t a rest. t < length Q \<and> Q ! t = a # rest"
  by (auto simp: idle_def in_set_conv_nth) (metis neq_Nil_conv)

text \<open>
  Where every operation belongs to one vertex: each vertex has at most one operation still to be done.
\<close>

definition owned_once :: "('op \<Rightarrow> u32) \<Rightarrow> 'op multiset \<Rightarrow> bool" where
  "owned_once own P \<longleftrightarrow> (\<forall>v. count (image_mset own P) v \<le> 1)"

lemma owned_once_empty [simp]: "owned_once own {#}"
  by (simp add: owned_once_def)

lemma owned_once_add [simp]:
  "owned_once own (add_mset a P) \<longleftrightarrow> own a \<notin> own ` set_mset P \<and> owned_once own P"
proof
  assume o: "owned_once own (add_mset a P)"
  then have "count (image_mset own P) (own a) = 0" by (auto simp: owned_once_def dest: spec [of _ "own a"])
  then have "own a \<notin># image_mset own P" unfolding count_eq_zero_iff .
  moreover have "count (image_mset own P) v \<le> 1" for v
    using o [unfolded owned_once_def, rule_format, of v] by (auto split: if_splits)
  ultimately show "own a \<notin> own ` set_mset P \<and> owned_once own P" by (simp add: owned_once_def)
next
  assume o: "own a \<notin> own ` set_mset P \<and> owned_once own P"
  then have "count (image_mset own P) (own a) = 0" unfolding count_eq_zero_iff by simp
  then show "owned_once own (add_mset a P)" using o by (simp add: owned_once_def)
qed

lemma owned_once_visits:
  assumes "\<And>v. own (vis v) = v" "distinct vs"
  shows "owned_once own (image_mset vis (mset vs))"
proof -
  have "image_mset own (image_mset vis (mset vs)) = mset vs" by (simp add: assms(1) multiset.map_comp comp_def)
  then show ?thesis using assms(2) by (simp add: owned_once_def distinct_count_atmost_1)
qed

text \<open>
  An invariant of the state and of the multiset of operations still to be done, and a measure.
\<close>

locale interleaved =
  fixes exec :: "('s, 'op) micro"
    and pinv :: "'op multiset \<Rightarrow> 's \<Rightarrow> bool"
    and mu :: "'op multiset \<Rightarrow> 's \<Rightarrow> nat"
  assumes enabled: "exec t a s \<noteq> []"
    and keeps: "pinv (add_mset a P) s \<Longrightarrow> (s', nxt) \<in> set (exec t a s) \<Longrightarrow> pinv (P + mset nxt) s'"
    and lowers: "pinv (add_mset a P) s \<Longrightarrow> (s', nxt) \<in> set (exec t a s) \<Longrightarrow> mu (P + mset nxt) s' < mu (add_mset a P) s"
begin

lemma step_keeps:
  assumes "par_step exec (Q, s) (Q', s')" "pinv (pending Q) s"
  shows "pinv (pending Q') s' \<and> mu (pending Q') s' < mu (pending Q) s"
proof -
  obtain t a rest nxt where q: "Q' = Q[t := nxt @ rest]" "t < length Q" "Q ! t = a # rest" "(s', nxt) \<in> set (exec t a s)"
    using assms(1) by (elim par_stepE) auto
  note p = pending_update [OF q(2,3)]
  show ?thesis
    using keeps lowers assms(2) q(4) unfolding q(1) p by simp
qed

lemma not_stuck: "\<not> idle Q \<Longrightarrow> \<exists>Q' s'. par_step exec (Q, s) (Q', s')"
  using not_idle [of Q] run_op enabled by (metis list.set_sel(1) surj_pair)

lemma steps_keep:
  assumes "(par_step exec)\<^sup>*\<^sup>* (Q, s) (Q', s')" "pinv (pending Q) s"
  shows "pinv (pending Q') s'"
  using assms by (induction "(Q', s')" arbitrary: Q' s' rule: rtranclp_induct) (auto dest: step_keeps)

text \<open>Every worker finds its queue empty after boundedly many steps, whatever the schedule.\<close>

lemma bounded:
  assumes "(par_step exec ^^ n) (Q, s) (Q', s')" "pinv (pending Q) s"
  shows "n + mu (pending Q') s' \<le> mu (pending Q) s"
  using assms
proof (induction n arbitrary: Q' s')
  case (Suc n)
  then obtain Q1 s1 where 1: "(par_step exec ^^ n) (Q, s) (Q1, s1)" "par_step exec (Q1, s1) (Q', s')" by auto
  have "pinv (pending Q1) s1" using steps_keep [OF _ Suc.prems(2)] relpowp_imp_rtranclp [OF 1(1)] by blast
  with step_keeps [OF 1(2)] Suc.IH [OF 1(1) Suc.prems(2)] show ?case by simp
qed simp

lemma completes:
  assumes "pinv (pending Q) s"
  shows "\<exists>Q' s'. (par_step exec)\<^sup>*\<^sup>* (Q, s) (Q', s') \<and> idle Q' \<and> pinv {#} s'"
  using assms
proof (induction "mu (pending Q) s" arbitrary: Q s rule: less_induct)
  case less
  show ?case
  proof (cases "idle Q")
    case True
    then have "pinv {#} s" using less.prems by (simp add: idle_pending)
    with True show ?thesis by blast
  next
    case False
    then obtain Q1 s1 where st: "par_step exec (Q, s) (Q1, s1)" using not_stuck by blast
    from step_keeps [OF this less.prems] less.hyps [of Q1 s1] st show ?thesis
      by (blast intro: converse_rtranclp_into_rtranclp)
  qed
qed

end

subsection \<open>Sequences of parallel loops\<close>

text \<open>
  A kernel is between two parallel loops, or within one and its workers have operations to do. Its local
  variables \<open>l\<close> say which loop is next. \<open>starts\<close> says with which operations of the workers it can be
  opened, \<open>fin\<close> is the sequential code that follows it, such as clearing and swapping the frontiers.
\<close>

datatype 'op phase = Between | Within "'op list list"

type_synonym ('l, 's, 'op) pass_config = "'op phase \<times> 'l \<times> 's"

inductive pass_step :: "('l \<Rightarrow> 's \<Rightarrow> 'op list list \<Rightarrow> bool) \<Rightarrow> ('l \<Rightarrow> ('s, 'op) micro) \<Rightarrow> ('l \<Rightarrow> 's \<Rightarrow> 'l \<times> 's) \<Rightarrow>
    ('l, 's, 'op) pass_config \<Rightarrow> ('l, 's, 'op) pass_config \<Rightarrow> bool"
  for starts exec fin where
  open_pass: "starts l s Q \<Longrightarrow> pass_step starts exec fin (Between, l, s) (Within Q, l, s)"
| micro_step: "par_step (exec l) (Q, s) (Q', s') \<Longrightarrow> pass_step starts exec fin (Within Q, l, s) (Within Q', l, s')"
| close_pass: "idle Q \<Longrightarrow> pass_step starts exec fin (Within Q, l, s) (Between, fin l s)"

inductive_cases pass_stepE:
  "pass_step starts exec fin (Between, l, s) c"
  "pass_step starts exec fin (Within Q, l, s) c"

text \<open>A run that cannot go on forever.\<close>

definition ends :: "('c \<Rightarrow> 'c \<Rightarrow> bool) \<Rightarrow> 'c \<Rightarrow> bool" where
  "ends r c \<longleftrightarrow> \<not> (\<exists>f. f 0 = c \<and> (\<forall>i. r (f i) (f (Suc i))))"

lemma endsI: "(\<And>d. r c d \<Longrightarrow> ends r d) \<Longrightarrow> ends r c"
  unfolding ends_def
proof
  assume all: "\<And>d. r c d \<Longrightarrow> \<not> (\<exists>f. f 0 = d \<and> (\<forall>i. r (f i) (f (Suc i))))"
  assume "\<exists>f. f 0 = c \<and> (\<forall>i. r (f i) (f (Suc i)))"
  then obtain f where f: "f 0 = c" "\<forall>i. r (f i) (f (Suc i))" by blast
  then have "r c (f (Suc 0))" by metis
  from all [OF this] have "\<not> ((\<lambda>i. f (Suc i)) 0 = f (Suc 0) \<and> (\<forall>i. r (f (Suc i)) (f (Suc (Suc i)))))"
    by (intro notI) (erule notE, rule exI [of _ "\<lambda>i. f (Suc i)"], simp)
  then show False using f(2) by simp
qed

text \<open>
  Total correctness under every schedule. \<open>rinv\<close> holds between the loops, \<open>minv l s0 P\<close> within the loop
  that started in \<open>s0\<close> while \<open>P\<close> is still to be done, \<open>rank\<close> drops from loop to loop and \<open>mu\<close> from step
  to step; \<open>go\<close> is when another loop follows.
\<close>

locale passes =
  fixes starts :: "'l \<Rightarrow> 's \<Rightarrow> 'op list list \<Rightarrow> bool"
    and exec :: "'l \<Rightarrow> ('s, 'op) micro"
    and fin :: "'l \<Rightarrow> 's \<Rightarrow> 'l \<times> 's"
    and go :: "'l \<Rightarrow> 's \<Rightarrow> bool"
    and rinv :: "'l \<Rightarrow> 's \<Rightarrow> bool"
    and minv :: "'l \<Rightarrow> 's \<Rightarrow> 'op multiset \<Rightarrow> 's \<Rightarrow> bool"
    and mu :: "'op multiset \<Rightarrow> 's \<Rightarrow> nat"
    and rank :: "'l \<Rightarrow> 's \<Rightarrow> nat"
  assumes rounds: "interleaved (exec l) (minv l s0) mu"
    and opens: "rinv l s \<Longrightarrow> starts l s Q \<Longrightarrow> minv l s (pending Q) s"
    and closes: "rinv l s0 \<Longrightarrow> go l s0 \<Longrightarrow> minv l s0 {#} s \<Longrightarrow> fin l s = (l', s') \<Longrightarrow> rinv l' s' \<and> rank l' s' < rank l s0"
    and continues: "rinv l s \<Longrightarrow> go l s \<longleftrightarrow> (\<exists>Q. starts l s Q)"
begin

abbreviation "pstep \<equiv> pass_step starts exec fin"

definition config_inv :: "('l, 's, 'op) pass_config \<Rightarrow> bool" where
  "config_inv c \<longleftrightarrow> (case c of
     (Between, l, s) \<Rightarrow> rinv l s
   | (Within Q, l, s) \<Rightarrow> \<exists>s0. rinv l s0 \<and> go l s0 \<and> minv l s0 (pending Q) s)"

lemma pstep_inv: "pstep c d \<Longrightarrow> config_inv c \<Longrightarrow> config_inv d"
proof (induction rule: pass_step.induct)
  case (open_pass l s Q)
  then show ?case using opens [of l s Q] continues [of l s] by (auto simp: config_inv_def)
next
  case (micro_step l Q s Q' s')
  then show ?case using interleaved.step_keeps [OF rounds micro_step(1)] by (auto simp: config_inv_def)
next
  case (close_pass Q l s)
  then show ?case using closes by (cases "fin l s") (auto simp: config_inv_def idle_pending)
qed

lemma psteps_inv: "pstep\<^sup>*\<^sup>* c d \<Longrightarrow> config_inv c \<Longrightarrow> config_inv d"
  by (induction rule: rtranclp_induct) (auto intro: pstep_inv)

lemma within_ends:
  assumes "\<And>s. minv l s0 {#} s \<Longrightarrow> ends pstep (Between, fin l s)" "minv l s0 (pending Q) s"
  shows "ends pstep (Within Q, l, s)"
  using assms(2)
proof (induction "mu (pending Q) s" arbitrary: Q s rule: less_induct)
  case less
  show ?case
  proof (rule endsI)
    fix d assume "pstep (Within Q, l, s) d"
    then consider (micro) Q' s' where "d = (Within Q', l, s')" "par_step (exec l) (Q, s) (Q', s')"
      | (closed) "d = (Between, fin l s)" "idle Q"
      by (elim pass_stepE) auto
    then show "ends pstep d"
    proof cases
      case micro
      with interleaved.step_keeps [OF rounds micro(2) less.prems] less.hyps show ?thesis by simp
    next
      case closed
      then show ?thesis using assms(1) less.prems by (simp add: idle_pending)
    qed
  qed
qed

lemma between_ends: "rinv l s \<Longrightarrow> ends pstep (Between, l, s)"
proof (induction "rank l s" arbitrary: l s rule: less_induct)
  case less
  show ?case
  proof (rule endsI)
    fix d assume "pstep (Between, l, s) d"
    then obtain Q where d: "starts l s Q" "d = (Within Q, l, s)" by (elim pass_stepE) auto
    have g: "go l s" using continues [OF less.prems] d(1) by blast
    have "ends pstep (Between, fin l s')" if "minv l s {#} s'" for s'
      using closes [OF less.prems g that] less.hyps by (cases "fin l s'") simp
    from within_ends [OF this opens [OF less.prems d(1)]] show "ends pstep d" unfolding d(2) .
  qed
qed

lemma stuck_end:
  assumes "config_inv c" "\<And>d. \<not> pstep c d"
  shows "\<exists>l s. c = (Between, l, s) \<and> rinv l s \<and> \<not> go l s"
proof -
  obtain p l s where c: "c = (p, l, s)" by (cases c)
  show ?thesis
  proof (cases p)
    case Between
    then have r: "rinv l s" using assms(1) by (simp add: c config_inv_def)
    have "\<not> starts l s Q" for Q using open_pass [of starts l s Q exec fin] assms(2) [of "(Within Q, l, s)"] by (auto simp: c Between)
    then have "\<not> go l s" using continues [OF r] by simp
    then show ?thesis using r c Between by simp
  next
    case (Within Q)
    have "\<not> par_step (exec l) (Q, s) (Q', s')" for Q' s'
      using micro_step [of exec l Q s Q' s' starts fin] assms(2) [of "(Within Q', l, s')"] by (auto simp: c Within)
    then have "idle Q" using interleaved.not_stuck [OF rounds, of Q l s] by blast
    from close_pass [OF this, of starts exec fin l s] show ?thesis using assms(2) by (simp add: c Within)
  qed
qed

text \<open>Every run ends, and where it ends no loop follows and the invariant holds.\<close>

lemma passes_total:
  assumes "rinv l s"
  shows "ends pstep (Between, l, s)"
    and "pstep\<^sup>*\<^sup>* (Between, l, s) c \<Longrightarrow> (\<And>d. \<not> pstep c d) \<Longrightarrow> \<exists>l' s'. c = (Between, l', s') \<and> rinv l' s' \<and> \<not> go l' s'"
proof -
  show "ends pstep (Between, l, s)" by (rule between_ends [OF assms])
  assume "pstep\<^sup>*\<^sup>* (Between, l, s) c" "\<And>d. \<not> pstep c d"
  then show "\<exists>l' s'. c = (Between, l', s') \<and> rinv l' s' \<and> \<not> go l' s'"
    using psteps_inv assms stuck_end by (auto simp: config_inv_def)
qed

end

subsection \<open>Processes that end early\<close>

text \<open>A step relation, and the process exiting in any configuration where \<open>may_exit\<close> holds.\<close>

datatype 'c process = Running 'c | Exited

inductive exit_step :: "('c \<Rightarrow> 'c \<Rightarrow> bool) \<Rightarrow> ('c \<Rightarrow> bool) \<Rightarrow> 'c process \<Rightarrow> 'c process \<Rightarrow> bool"
  for step may_exit where
  runs: "step c d \<Longrightarrow> exit_step step may_exit (Running c) (Running d)"
| exits: "may_exit c \<Longrightarrow> exit_step step may_exit (Running c) Exited"

inductive_cases exit_stepE:
  "exit_step step may_exit (Running c) d"
  "exit_step step may_exit Exited d"

lemma exit_step_ends:
  assumes "ends step c"
  shows "ends (exit_step step may_exit) (Running c)"
  unfolding ends_def
proof
  assume "\<exists>f. f 0 = Running c \<and> (\<forall>i. exit_step step may_exit (f i) (f (Suc i)))"
  then obtain f where f: "f 0 = Running c" "\<And>i. exit_step step may_exit (f i) (f (Suc i))" by blast
  have "\<exists>d. f i = Running d" for i using f(2) [of i] by (cases rule: exit_step.cases) auto
  then obtain g where g: "\<And>i. f i = Running (g i)" by metis
  then have "step (g i) (g (Suc i))" for i using f(2) [of i] by (auto elim: exit_stepE)
  moreover have "g 0 = c" using f(1) g [of 0] by simp
  ultimately show False using assms unfolding ends_def by blast
qed

lemma exit_step_reach:
  "(exit_step step may_exit)\<^sup>*\<^sup>* (Running c) x \<Longrightarrow>
     (case x of Running d \<Rightarrow> step\<^sup>*\<^sup>* c d | Exited \<Rightarrow> \<exists>d. step\<^sup>*\<^sup>* c d \<and> may_exit d)"
proof (induction rule: rtranclp_induct)
  case (step y z)
  from step(2,3) show ?case by (cases rule: exit_step.cases) auto
qed simp

subsection \<open>The loop of a kernel\<close>

text \<open>
  The vertices of \<open>A\<close> that the iterator passes to callbacks, shared out among the workers: each at
  most once, all those that have edges, every worker in its own order.
\<close>

definition shares :: "run_env \<Rightarrow> u32 set \<Rightarrow> u32 list list \<Rightarrow> bool" where
  "shares E A vss \<longleftrightarrow> length vss = env_workers E \<and> distinct (concat vss) \<and> set (concat vss) \<subseteq> A \<and>
     (\<forall>v \<in> A. nb E v \<noteq> [] \<longrightarrow> v \<in> set (concat vss))"

lemma pending_visits: "pending (map (map vis) vss) = image_mset vis (mset (concat vss))"
  by (simp add: pending_def map_concat [symmetric])

lemma shares_edges: "shares E A vss \<Longrightarrow> (\<Union>u \<in> set (concat vss). set (nb E u)) = (\<Union>u \<in> A. set (nb E u))"
proof
  assume s: "shares E A vss"
  show "(\<Union>u \<in> set (concat vss). set (nb E u)) \<subseteq> (\<Union>u \<in> A. set (nb E u))"
    using s unfolding shares_def by (intro UN_mono) auto
  show "(\<Union>u \<in> A. set (nb E u)) \<subseteq> (\<Union>u \<in> set (concat vss). set (nb E u))"
  proof (rule UN_least)
    fix u assume "u \<in> A"
    then show "set (nb E u) \<subseteq> (\<Union>u \<in> set (concat vss). set (nb E u))"
      using s unfolding shares_def by (cases "nb E u = []") (simp, blast)
  qed
qed

lemma work_shared_out:
  assumes "env_ok E" "A \<subseteq> {v. v < total_verts E}"
  shows "\<exists>vss. length vss = env_workers E \<and> distinct (concat vss) \<and> set (concat vss) = A"
proof (cases "A = {}")
  case True
  then show ?thesis by (intro exI [of _ "replicate (env_workers E) []"]) simp
next
  case False
  then have "0 < total_verts E" using assms(2) by (metis all_not_in_conv le_less_trans mem_Collect_eq subsetD word_zero_le)
  then have "u32_range 0 (total_verts E) \<noteq> []" by (metis (mono_tags) empty_iff empty_set mem_Collect_eq set_u32_range word_zero_le)
  moreover have "splits (env_workers E) 0 (total_verts E) (env_sched E 0 0 (total_verts E))"
    using assms(1) by (simp add: env_ok_def)
  ultimately have w: "0 < env_workers E" by (cases "env_sched E 0 0 (total_verts E)") (auto simp: splits_def)
  have "finite A" by (rule finite_subset [OF subset_UNIV]) simp
  then obtain xs where xs: "set xs = A" "distinct xs" using finite_distinct_list by blast
  obtain m where m: "env_workers E = Suc m" using w gr0_implies_Suc by blast
  then show ?thesis using xs by (intro exI [of _ "xs # replicate m []"]) simp
qed

lemma shares_exist:
  assumes "env_ok E" "A \<subseteq> {v. v < total_verts E}"
  shows "\<exists>vss. shares E A vss"
  using work_shared_out [OF assms] by (auto simp: shares_def)

text \<open>
  A kernel with one parallel loop per round: \<open>go\<close> is the condition of the loop over the rounds, which are
  counted, \<open>vis\<close> the operation that starts the callback for a vertex of the frontier.
\<close>

type_synonym ('s, 'op) kernel_config = "(nat, 's, 'op) pass_config"

definition kernel_step :: "run_env \<Rightarrow> (nat \<Rightarrow> 'v kstate \<Rightarrow> bool) \<Rightarrow> (nat \<Rightarrow> ('v kstate, 'op) micro) \<Rightarrow> (u32 \<Rightarrow> 'op) \<Rightarrow>
    ('v kstate \<Rightarrow> 'v kstate) \<Rightarrow> ('v kstate, 'op) kernel_config \<Rightarrow> ('v kstate, 'op) kernel_config \<Rightarrow> bool" where
  "kernel_step E go exec vis fin =
     pass_step (\<lambda>k s Q. go k s \<and> (\<exists>vss. shares E (bits_of (frontier s)) vss \<and> Q = map (map vis) vss))
       (\<lambda>k. exec (Suc k)) (\<lambda>k s. (Suc k, fin s))"

locale parallel_kernel =
  fixes E :: run_env
    and go :: "nat \<Rightarrow> 'v kstate \<Rightarrow> bool"
    and exec :: "nat \<Rightarrow> ('v kstate, 'op) micro"
    and vis :: "u32 \<Rightarrow> 'op"
    and fin :: "'v kstate \<Rightarrow> 'v kstate"
    and rinv :: "nat \<Rightarrow> 'v kstate \<Rightarrow> bool"
    and minv :: "nat \<Rightarrow> 'v kstate \<Rightarrow> 'op multiset \<Rightarrow> 'v kstate \<Rightarrow> bool"
    and mu :: "'op multiset \<Rightarrow> 'v kstate \<Rightarrow> nat"
    and rank :: "nat \<Rightarrow> 'v kstate \<Rightarrow> nat"
  assumes rounds: "interleaved (exec (Suc k)) (minv k s0) mu"
    and opens: "rinv k s \<Longrightarrow> go k s \<Longrightarrow> shares E (bits_of (frontier s)) vss \<Longrightarrow>
      minv k s (image_mset vis (mset (concat vss))) s"
    and closes: "rinv k s0 \<Longrightarrow> go k s0 \<Longrightarrow> minv k s0 {#} s \<Longrightarrow> rinv (Suc k) (fin s) \<and> rank (Suc k) (fin s) < rank k s0"
    and regular: "rinv k s \<Longrightarrow> env_ok E \<and> kshape E s"

sublocale parallel_kernel \<subseteq> ps: passes "\<lambda>k s Q. go k s \<and> (\<exists>vss. shares E (bits_of (frontier s)) vss \<and> Q = map (map vis) vss)"
    "\<lambda>k. exec (Suc k)" "\<lambda>k s. (Suc k, fin s)" go rinv minv mu rank
proof (unfold_locales)
  note round_laws = interleaved.enabled [OF rounds] interleaved.keeps [OF rounds] interleaved.lowers [OF rounds]
  show "exec (Suc l) t a s \<noteq> []" for l t a s by (rule round_laws(1))
  show "minv l s0 (P + mset nxt) s'" if "minv l s0 (add_mset a P) s" "(s', nxt) \<in> set (exec (Suc l) t a s)" for l s0 a P s s' nxt t
    using that by (rule round_laws(2))
  show "mu (P + mset nxt) s' < mu (add_mset a P) s" if "minv l s0 (add_mset a P) s" "(s', nxt) \<in> set (exec (Suc l) t a s)" for l s0 a P s s' nxt t
    using that by (rule round_laws(3))
  show "minv l s (pending Q) s" if "rinv l s" "go l s \<and> (\<exists>vss. shares E (bits_of (frontier s)) vss \<and> Q = map (map vis) vss)" for l s Q
    using opens [OF that(1)] that(2) by (elim conjE exE) (simp only: pending_visits)
  show "rinv l' s' \<and> rank l' s' < rank l s0" if "rinv l s0" "go l s0" "minv l s0 {#} s" "(Suc l, fin s) = (l', s')" for l s0 s l' s'
    using closes [OF that(1-3)] that(4) by auto
  show "go l s \<longleftrightarrow> (\<exists>Q. go l s \<and> (\<exists>vss. shares E (bits_of (frontier s)) vss \<and> Q = map (map vis) vss))" if "rinv l s" for l s
  proof -
    have "bits_of (frontier s) \<subseteq> {v. v < total_verts E}" using regular [OF that] kshape_bits_below by blast
    then show ?thesis using shares_exist regular [OF that] by blast
  qed
qed

context parallel_kernel
begin

lemma kernel_total:
  assumes "rinv k s"
  shows "ends (kernel_step E go exec vis fin) (Between, k, s)"
    and "(kernel_step E go exec vis fin)\<^sup>*\<^sup>* (Between, k, s) c \<Longrightarrow> (\<And>d. \<not> kernel_step E go exec vis fin c d) \<Longrightarrow>
      \<exists>k' s'. c = (Between, k', s') \<and> rinv k' s' \<and> \<not> go k' s'"
  using ps.passes_total [OF assms] unfolding kernel_step_def by blast+

end

end
