(* ===== verification/KCore_Parallel.thy ===== *)
theory KCore_Parallel
  imports KCore Interleaving
begin

text \<open>
  The k-core kernel with its callbacks interleaved. Of all the workers that decrement the degree of
  a vertex, exactly the one whose \<open>fetch_sub\<close> returned \<open>k\<close> activates it; the decrements of a round
  commute, and none of them wraps.
\<close>

subsection \<open>The callback as micro-operations\<close>

datatype kcore_op = KVisit u32 | KSub u32 | KMark u32

fun kcore_exec :: "run_env \<Rightarrow> u32 \<Rightarrow> (kcore_vertex kstate, kcore_op) micro" where
  "kcore_exec E k t (KVisit v) s = [(s, map KSub (take (unat (of_nat (length (nb E v)) :: u32)) (nb E v)))]"
| "kcore_exec E k t (KSub w) s =
     (let (old, x) = subtract_degree (verts s ! unat w)
      in [(s\<lparr> verts := (verts s)[unat w := x] \<rparr>, if old = k then [KMark w] else [])])"
| "kcore_exec E k t (KMark w) s = [(s\<lparr> next_frontier := mark t w (next_frontier s) \<rparr>, [])]"

definition kcore_kernel_step ::
    "run_env \<Rightarrow> u32 \<Rightarrow> (kcore_vertex kstate, kcore_op) kernel_config \<Rightarrow> (kcore_vertex kstate, kcore_op) kernel_config \<Rightarrow> bool" where
  "kcore_kernel_step E k = kernel_step E (\<lambda>c s. \<not> is_empty (frontier s)) (\<lambda>c. kcore_exec E k) KVisit swap_frontiers"

subsection \<open>The invariant of a round\<close>

text \<open>How often the pending operations will still decrement the degree of \<open>w\<close>.\<close>

fun cuts :: "run_env \<Rightarrow> u32 \<Rightarrow> kcore_op \<Rightarrow> nat" where
  "cuts E w (KVisit v) = count_list (nb E v) w"
| "cuts E w (KSub u) = of_bool (u = w)"
| "cuts E w (KMark u) = 0"

definition todo_cuts :: "run_env \<Rightarrow> kcore_op multiset \<Rightarrow> u32 \<Rightarrow> nat" where
  "todo_cuts E P w = sum_mset (image_mset (cuts E w) P)"

definition low :: "run_env \<Rightarrow> u32 \<Rightarrow> kcore_vertex kstate \<Rightarrow> u32 set" where
  "low E k s = {v. v < total_verts E \<and> degree (verts s ! unat v) < k}"

text \<open>The vertices peeled before the round that starts in \<open>r\<close>.\<close>

definition peeled :: "run_env \<Rightarrow> u32 \<Rightarrow> kcore_vertex kstate \<Rightarrow> u32 set" where
  "peeled E k r = low E k r - bits_of (frontier r)"

definition kcore_pool :: "run_env \<Rightarrow> u32 \<Rightarrow> kcore_vertex kstate \<Rightarrow> kcore_op multiset \<Rightarrow> kcore_vertex kstate \<Rightarrow> bool" where
  "kcore_pool E k r P s \<longleftrightarrow> kshape E s \<and> frontier s = frontier r \<and> low E k r \<subseteq> low E k s \<and>
     bits_of (next_frontier s) \<union> {w. KMark w \<in># P} = low E k s - low E k r \<and>
     {v. KVisit v \<in># P} \<subseteq> {v. v < total_verts E} \<and> {w. KSub w \<in># P} \<subseteq> {v. v < total_verts E} \<and>
     (\<forall>v. v < total_verts E \<longrightarrow>
        unat (degree (verts s ! unat v)) + edges_into E (low E k r) v = length (nb E v) + todo_cuts E P v)"

definition kcore_par_inv :: "run_env \<Rightarrow> u32 \<Rightarrow> kcore_vertex kstate \<Rightarrow> kcore_op multiset \<Rightarrow> kcore_vertex kstate \<Rightarrow> bool" where
  "kcore_par_inv E k r P s \<longleftrightarrow> env_ok E \<and> kcore_pool E k r P s"

fun kcore_weight :: "run_env \<Rightarrow> kcore_op \<Rightarrow> nat" where
  "kcore_weight E (KVisit v) = 1 + 2 * length (nb E v)"
| "kcore_weight E (KSub w) = 2"
| "kcore_weight E (KMark w) = 1"

definition kcore_mu :: "run_env \<Rightarrow> kcore_op multiset \<Rightarrow> kcore_vertex kstate \<Rightarrow> nat" where
  "kcore_mu E P s = sum_mset (image_mset (kcore_weight E) P)"

lemma todo_cuts_simps [simp]:
  "todo_cuts E {#} w = 0" "todo_cuts E (add_mset a P) w = cuts E w a + todo_cuts E P w"
  "todo_cuts E (P + P') w = todo_cuts E P w + todo_cuts E P' w"
  by (simp_all add: todo_cuts_def)

lemma todo_cuts_subs [simp]: "todo_cuts E (image_mset KSub (mset ws)) w = count_list ws w"
  by (induction ws) auto

lemma todo_cuts_visits [simp]: "todo_cuts E (image_mset KVisit (mset vs)) w = (\<Sum>v\<leftarrow>vs. count_list (nb E v) w)"
  by (induction vs) auto

lemma kcore_visit_pool:
  assumes "env_ok E" "kcore_pool E k r (add_mset (KVisit v) P) s"
  shows "kcore_pool E k r (P + mset (map KSub (nb E v))) s"
  using assms nb_bound [OF assms(1)] by (auto simp: kcore_pool_def)

lemma kcore_sub_pool:
  assumes "kcore_pool E k r (add_mset (KSub w) P) s" "(s', nxt) \<in> set (kcore_exec E k t (KSub w) s)"
  shows "kcore_pool E k r (P + mset nxt) s'"
proof -
  let ?x = "verts s ! unat w"
  have sh: "kshape E s" and fr: "frontier s = frontier r" and sub: "low E k r \<subseteq> low E k s"
    and nx: "bits_of (next_frontier s) \<union> {u. KMark u \<in># P} = low E k s - low E k r"
    and bd: "{v. KVisit v \<in># P} \<subseteq> {v. v < total_verts E}" "{w. KSub w \<in># P} \<subseteq> {v. v < total_verts E}"
    and wn: "w < total_verts E"
    and d: "\<And>v. v < total_verts E \<Longrightarrow> unat (degree (verts s ! unat v)) + edges_into E (low E k r) v =
        length (nb E v) + (of_bool (w = v) + todo_cuts E P v)"
    using assms(1) by (auto simp: kcore_pool_def)
  have lw: "unat w < length (verts s)" using sh wn by (simp add: kshape_def word_less_nat_alt)
  have s': "s' = s\<lparr> verts := (verts s)[unat w := ?x\<lparr> degree := degree ?x - 1 \<rparr>] \<rparr>"
    "nxt = (if degree ?x = k then [KMark w] else [])"
    using assms(2) by (auto simp: subtract_degree_def)
  have y: "degree (verts s' ! unat v) = (if v = w then degree ?x - 1 else degree (verts s ! unat v))" for v
    using lw by (simp add: s' nth_update_unat)
  have pos: "0 < unat (degree ?x)" using d [OF wn] edges_into_le [of E "low E k r" w] by simp
  then have dec: "unat (degree ?x - 1) = unat (degree ?x) - 1" by (subst unat_sub_word) (auto simp: word_le_nat_alt)
  have lo: "low E k s' = (if degree ?x = k then insert w (low E k s) else low E k s)"
  proof -
    have "unat (degree ?x) - 1 < unat k \<longleftrightarrow> unat (degree ?x) < unat k \<or> unat (degree ?x) = unat k" using pos by arith
    then have "degree ?x - 1 < k \<longleftrightarrow> degree ?x < k \<or> degree ?x = k"
      unfolding word_less_nat_alt dec by (simp add: unat_arith_simps(3))
    then have lw: "w \<in> low E k s' \<longleftrightarrow> w \<in> low E k s \<or> degree ?x = k" unfolding low_def mem_Collect_eq y using wn by simp
    have "v \<in> low E k s' \<longleftrightarrow> v \<in> low E k s" if "v \<noteq> w" for v unfolding low_def mem_Collect_eq y using that by simp
    with lw show ?thesis by (intro set_eqI) (metis insert_iff)
  qed
  have wr: "degree ?x = k \<Longrightarrow> w \<notin> low E k r" using sub by (auto simp: low_def)
  have "bits_of (next_frontier s') \<union> {u. KMark u \<in># P + mset nxt} = low E k s' - low E k r"
  proof -
    have n: "bits_of (next_frontier s') = bits_of (next_frontier s)"
      "{u. KMark u \<in># P + mset nxt} = (if degree ?x = k then insert w {u. KMark u \<in># P} else {u. KMark u \<in># P})"
      by (auto simp: s')
    show ?thesis unfolding n lo using nx wr by (cases "degree ?x = k") (simp_all only: if_True if_False simp_thms, blast)
  qed
  moreover have "low E k r \<subseteq> low E k s'" using sub unfolding lo by auto
  moreover have "unat (degree (verts s' ! unat v)) + edges_into E (low E k r) v = length (nb E v) + todo_cuts E (P + mset nxt) v"
    if "v < total_verts E" for v
    using d [OF that] pos dec unfolding y s'(2) by (cases "v = w") auto
  moreover have "kshape E s'" "frontier s' = frontier r" using sh fr by (simp_all add: s' kshape_def)
  ultimately show ?thesis using bd by (auto simp: kcore_pool_def s'(2))
qed

lemma kcore_mark_pool:
  assumes "kcore_pool E k r (add_mset (KMark w) P) s"
  shows "kcore_pool E k r P (s\<lparr> next_frontier := mark t w (next_frontier s) \<rparr>)"
proof -
  have sh: "kshape E s" and w: "w \<in> low E k s" using assms by (auto simp: kcore_pool_def)
  then have wn: "w < total_verts E" by (simp add: low_def)
  have b: "bits_of (mark t w (next_frontier s)) = insert w (bits_of (next_frontier s))"
    using sh wn by (simp add: kshape_def bm.alpha_activate)
  have l: "low E k (s\<lparr> next_frontier := mark t w (next_frontier s) \<rparr>) = low E k s" by (simp add: low_def)
  show ?thesis
    using assms kshape_mark_next [OF sh wn, of t] by (auto simp: kcore_pool_def b l)
qed

lemma kcore_op_keeps:
  assumes "kcore_par_inv E k r (add_mset a P) s" "(s', nxt) \<in> set (kcore_exec E k t a s)"
  shows "kcore_par_inv E k r (P + mset nxt) s'"
proof -
  have c: "env_ok E" "kcore_pool E k r (add_mset a P) s" using assms(1) by (auto simp: kcore_par_inv_def)
  have "kcore_pool E k r (P + mset nxt) s'"
  proof (cases a)
    case (KVisit v)
    then have "v < total_verts E" using c(2) by (auto simp: kcore_pool_def)
    from take_nb [OF c(1) this] kcore_visit_pool [OF c(1) c(2) [unfolded KVisit]] assms(2) show ?thesis by (simp add: KVisit)
  next
    case (KSub w)
    then show ?thesis using kcore_sub_pool c(2) assms(2) by blast
  next
    case (KMark w)
    then show ?thesis using kcore_mark_pool [OF c(2) [unfolded KMark], of t] assms(2) by simp
  qed
  then show ?thesis using c(1) by (simp add: kcore_par_inv_def)
qed

lemma kcore_op_lowers:
  assumes "(s', nxt) \<in> set (kcore_exec E k t a s)"
  shows "kcore_mu E (P + mset nxt) s' < kcore_mu E (add_mset a P) s"
proof -
  have two: "sum_mset (image_mset (kcore_weight E) (mset (map KSub ws))) = 2 * length ws" for ws
    by (induction ws) auto
  show ?thesis
  proof (cases a)
    case (KVisit v)
    then show ?thesis using assms two [of "take (unat (of_nat (length (nb E v)) :: u32)) (nb E v)"] by (simp add: kcore_mu_def)
  qed (use assms in \<open>auto simp: kcore_mu_def split: if_splits prod.splits\<close>)
qed

subsection \<open>Rounds\<close>

definition kcore_between :: "run_env \<Rightarrow> u32 \<Rightarrow> nat \<Rightarrow> kcore_vertex kstate \<Rightarrow> bool" where
  "kcore_between E k c s \<longleftrightarrow> env_ok E \<and> symmetric E \<and> (\<exists>R. kcore_inv E k R s)"

lemma kcore_inv_low:
  assumes "kcore_inv E k R s"
  shows "low E k s = R \<union> bits_of (frontier s)" "peeled E k s = R"
proof -
  have d: "v < total_verts E \<Longrightarrow> unat (degree (verts s ! unat v)) = length (nb E v) - edges_into E R v" for v
    using assms by (simp add: kcore_inv_def kcore_mid_def)
  have "low E k s = {v. v < total_verts E \<and> length (nb E v) - edges_into E R v < unat k}"
    using d by (auto simp: low_def word_less_nat_alt)
  then show l: "low E k s = R \<union> bits_of (frontier s)" using assms by (auto simp: kcore_inv_def kcore_mid_def)
  show "peeled E k s = R" using assms unfolding peeled_def l by (auto simp: kcore_inv_def)
qed

lemma kcore_opens:
  assumes "kcore_between E k c s" "shares E (bits_of (frontier s)) vss"
  shows "kcore_par_inv E k s (image_mset KVisit (mset (concat vss))) s"
proof -
  let ?P = "image_mset KVisit (mset (concat vss))" and ?F = "bits_of (frontier s)"
  obtain R where e: "env_ok E" "symmetric E" and i: "kcore_inv E k R s" using assms(1) by (auto simp: kcore_between_def)
  note l = kcore_inv_low [OF i]
  have sh: "kshape E s" and dis: "R \<inter> ?F = {}" and nx: "bits_of (next_frontier s) = {}"
    and d: "\<And>v. v < total_verts E \<Longrightarrow> edges_into E R v \<le> length (nb E v) \<and> unat (degree (verts s ! unat v)) = length (nb E v) - edges_into E R v"
    using i by (auto simp: kcore_inv_def kcore_mid_def)
  have F: "?F \<subseteq> {v. v < total_verts E}" using kshape_bits_below [OF sh] by auto
  have sub: "set (concat vss) \<subseteq> ?F" "distinct (concat vss)" "\<forall>v \<in> ?F. nb E v \<noteq> [] \<longrightarrow> v \<in> set (concat vss)"
    using assms(2) by (auto simp: shares_def)
  have "todo_cuts E ?P w = (\<Sum>v \<in> set (concat vss). count_list (nb E v) w)" for w
    by (simp only: todo_cuts_visits sum_list_distinct_conv_sum_set [OF sub(2)])
  also have "(\<Sum>v \<in> set (concat vss). count_list (nb E v) w) = (\<Sum>v \<in> ?F. count_list (nb E v) w)" for w
    using sub(1,3) by (intro sum.mono_neutral_left) auto
  finally have td: "todo_cuts E ?P w = (\<Sum>v \<in> ?F. count_list (nb E v) w)" for w .
  have "unat (degree (verts s ! unat v)) + edges_into E (low E k s) v = length (nb E v) + todo_cuts E ?P v"
    if "v < total_verts E" for v
    using d [OF that] edges_into_disjoint [OF dis, of E v] pushed_edges [OF e(2) F that] td [of v] by (simp add: l)
  moreover have "{v. KVisit v \<in># ?P} \<subseteq> {v. v < total_verts E}" using sub(1) F by auto
  ultimately show ?thesis using e sh nx by (auto simp: kcore_par_inv_def kcore_pool_def)
qed

lemma kcore_closes:
  assumes "kcore_between E k c r" "\<not> is_empty (frontier r)" "kcore_par_inv E k r {#} s"
  shows "kcore_between E k (Suc c) (swap_frontiers s) \<and>
    unat (total_verts E) - card (peeled E k (swap_frontiers s)) < unat (total_verts E) - card (peeled E k r)"
proof -
  let ?F = "bits_of (frontier r)"
  obtain R where e: "env_ok E" "symmetric E" and i: "kcore_inv E k R r" using assms(1) by (auto simp: kcore_between_def)
  note l = kcore_inv_low [OF i]
  have sh: "kshape E s" "kshape E r" and fr: "frontier s = frontier r" and sub: "R \<union> ?F \<subseteq> low E k s"
    and nx: "bits_of (next_frontier s) = low E k s - (R \<union> ?F)"
    and d: "\<And>v. v < total_verts E \<Longrightarrow> unat (degree (verts s ! unat v)) + edges_into E (R \<union> ?F) v = length (nb E v)"
    using assms(3) i by (auto simp: kcore_par_inv_def kcore_pool_def l kcore_inv_def kcore_mid_def)
  have d': "unat (degree (verts s ! unat v)) = length (nb E v) - edges_into E (R \<union> ?F) v" if "v < total_verts E" for v
    using d [OF that] by simp
  have lo: "low E k s = {v. v < total_verts E \<and> length (nb E v) - edges_into E (R \<union> ?F) v < unat k}"
    using d' by (auto simp: low_def word_less_nat_alt)
  have "kcore_mid E k (frontier r) (R \<union> ?F) (edges_into E (R \<union> ?F)) s"
    unfolding kcore_mid_def using sh fr d' sub nx edges_into_le unfolding lo by auto
  from kcore_round_end [OF i this] have i': "kcore_inv E k (R \<union> ?F) (swap_frontiers s)" .
  have ne: "?F \<noteq> {}" "R \<inter> ?F = {}" using assms(2) kshape_is_empty [OF sh(2)] i by (auto simp: kcore_inv_def)
  have "R \<union> ?F \<subseteq> {v. v < total_verts E}" using sub by (auto simp: low_def)
  then have "card (R \<union> ?F) \<le> unat (total_verts E)" using card_mono [of "{v. v < total_verts E}"] by (simp add: card_words_below)
  moreover have "card R < card (R \<union> ?F)" using ne by (intro psubset_card_mono) (auto intro: finite_subset [OF subset_UNIV])
  ultimately show ?thesis using e i' by (auto simp: kcore_between_def l(2) kcore_inv_low(2) [OF i'])
qed

interpretation kcore_par: parallel_kernel E "\<lambda>c s. \<not> is_empty (frontier s)" "\<lambda>c. kcore_exec E k" KVisit swap_frontiers
    "kcore_between E k" "\<lambda>c. kcore_par_inv E k" "kcore_mu E" "\<lambda>c s. unat (total_verts E) - card (peeled E k s)" for E k
proof unfold_locales
  show "kcore_exec E k t a s \<noteq> []" for t a s
    by (cases a) (auto simp: split_beta)
  show "env_ok E \<and> kshape E s" if "kcore_between E k c s" for c s
    using that by (auto simp: kcore_between_def kcore_inv_def kcore_mid_def)
  show "kcore_mu E (P + mset nxt) s' < kcore_mu E (add_mset a P) s" if "(s', nxt) \<in> set (kcore_exec E k t a s)" for a P s s' nxt t
    using that by (rule kcore_op_lowers)
  show "kcore_par_inv E k s (image_mset KVisit (mset (concat vss))) s"
    if "kcore_between E k c s" "shares E (bits_of (frontier s)) vss" for c s vss
    using that by (rule kcore_opens)
qed (fact kcore_op_keeps kcore_closes)+

lemma kcore_kernel_parallel:
  assumes "env_ok E" "symmetric E" "fresh E x s"
  shows "ends (kcore_kernel_step E k) (Between, 0, kcore_init E k who s) \<and>
    (\<forall>c. (kcore_kernel_step E k)\<^sup>*\<^sup>* (Between, 0, kcore_init E k who s) c \<longrightarrow> (\<nexists>d. kcore_kernel_step E k c d) \<longrightarrow>
       (\<exists>n s' K. c = (Between, n, s') \<and> K = {v. v < total_verts E \<and> k \<le> degree (verts s' ! unat v)} \<and>
          is_core E (unat k) K \<and> (\<forall>S. is_core E (unat k) S \<longrightarrow> S \<subseteq> K) \<and>
          (\<forall>v \<in> K. unat (degree (verts s' ! unat v)) = edges_into E K v)))"
proof -
  have b: "kcore_between E k 0 (kcore_init E k who s)"
    using assms kcore_init_inv [OF assms(1,3)] by (auto simp: kcore_between_def)
  note total = kcore_par.kernel_total [OF b, folded kcore_kernel_step_def]
  have "\<exists>n s' K. c = (Between, n, s') \<and> K = {v. v < total_verts E \<and> k \<le> degree (verts s' ! unat v)} \<and>
          is_core E (unat k) K \<and> (\<forall>S. is_core E (unat k) S \<longrightarrow> S \<subseteq> K) \<and>
          (\<forall>v \<in> K. unat (degree (verts s' ! unat v)) = edges_into E K v)"
    if run: "(kcore_kernel_step E k)\<^sup>*\<^sup>* (Between, 0, kcore_init E k who s) c" and stuck: "\<nexists>d. kcore_kernel_step E k c d" for c
  proof -
    obtain n s' where c: "c = (Between, n, s')" "kcore_between E k n s'" "is_empty (frontier s')"
      using total(2) [OF run] stuck by blast
    then obtain R where i: "kcore_inv E k R s'" by (auto simp: kcore_between_def)
    then have "bits_of (frontier s') = {}" using c(3) kshape_is_empty [of E s'] by (simp add: kcore_inv_def kcore_mid_def)
    from kcore_inv_core [OF assms(1) i this] c(1) show ?thesis by blast
  qed
  then show ?thesis using total(1) by blast
qed

subsection \<open>Property\<close>

text \<open>
  C7. The k-core kernel is correct under every interleaving of its callbacks, on symmetric graphs.
  However the decrements and bit settings of the workers interleave, no run goes on forever, and a
  run that cannot go on has left the loop with a vertex table in which the vertices of degree at
  least \<open>k\<close> form the largest set where every vertex keeps \<open>k\<close> edges into the set, the final degree
  of each being exactly their number.
\<close>

theorem kcore_parallel_correct:
  assumes "env_ok E" "symmetric E" "fresh E x s"
  shows "ends (kcore_kernel_step E k) (Between, 0, kcore_init E k who s) \<and>
    (\<forall>c. (kcore_kernel_step E k)\<^sup>*\<^sup>* (Between, 0, kcore_init E k who s) c \<longrightarrow> (\<nexists>d. kcore_kernel_step E k c d) \<longrightarrow>
       (\<exists>n s' K. c = (Between, n, s') \<and> K = {v. v < total_verts E \<and> k \<le> degree (verts s' ! unat v)} \<and>
          is_core E (unat k) K \<and> (\<forall>S. is_core E (unat k) S \<longrightarrow> S \<subseteq> K) \<and>
          (\<forall>v \<in> K. unat (degree (verts s' ! unat v)) = edges_into E K v)))"
  using assms by (rule kcore_kernel_parallel)

theorem kcore_parallel_correct_witness:
  "ends (kcore_kernel_step (demo_env 1) 2) (Between, 0, kcore_init (demo_env 1) 2 (\<lambda>v. 0) (demo_kstate \<lparr> degree = 0 \<rparr>))"
proof -
  have "symmetric (demo_env 1)" by (auto simp: symmetric_def demo_nb)
  from kcore_parallel_correct [OF demo_env_ok this demo_fresh, of 2 "\<lambda>v. 0"] show ?thesis by simp
qed

end
