(* ===== verification/BFS.thy ===== *)
theory BFS
  imports Graph_Kernel
begin

text \<open>
  Breadth-first search, \<open>src/src/bfs.hpp\<close>. The field \<open>parent\<close> holds the round in which a vertex was
  reached; \<open>bfs_correct\<close> shows that the kernel ends and that this is the distance from the start.
\<close>

subsection \<open>The kernel\<close>

definition NULLVERT :: u32 where
  "NULLVERT = 0xFFFFFFFF"

record bfs_vertex =
  parent :: u32
  visited :: bool

text \<open>The compare-and-exchange on \<open>parent\<close>.\<close>

definition bfs_update_atomic :: "u32 \<Rightarrow> bfs_vertex \<Rightarrow> bool \<times> bfs_vertex" where
  "bfs_update_atomic t_parent x =
     (if parent x = NULLVERT then (True, x\<lparr> parent := t_parent \<rparr>) else (False, x))"

definition bfs_edge :: "u32 \<Rightarrow> worker \<Rightarrow> u32 \<Rightarrow> bfs_vertex kstate \<Rightarrow> bfs_vertex kstate" where
  "bfs_edge round t w s =
     (let x = verts s ! unat w in
      if \<not> visited x then
        let (won, x') = bfs_update_atomic round x in
        if won then s\<lparr> verts := (verts s)[unat w := x'\<lparr> visited := True \<rparr>],
                       next_frontier := mark t w (next_frontier s) \<rparr>
        else s\<lparr> verts := (verts s)[unat w := x'] \<rparr>
      else s)"

definition bfs_push :: "u32 \<Rightarrow> worker \<Rightarrow> bfs_vertex kstate callback" where
  "bfs_push round t v edges n s = fold (bfs_edge round t) (take (unat n) edges) s"

text \<open>The end of a round; \<open>DEBUG\<close> is defined as one, so the statistics are printed and cleared.\<close>

definition bfs_end_round :: "bfs_vertex kstate pack_state \<Rightarrow> bfs_vertex kstate pack_state" where
  "bfs_end_round st = st\<lparr> cb := swap_frontiers (cb st), stats := clear_all (stats st) \<rparr>"

partial_function (option) bfs_loop ::
    "run_env \<Rightarrow> u32 \<Rightarrow> bfs_vertex kstate pack_state \<Rightarrow> (abort + u32 \<times> bfs_vertex kstate pack_state) option" where
  "bfs_loop E round st =
     (if \<not> is_empty (frontier (cb st)) then
        Option.bind (for_each_active E (unat (round + 1)) (frontier (cb st)) 0 (total_verts E) (bfs_push (round + 1)) st)
          (\<lambda>r. case r of
             Inl a \<Rightarrow> Some (Inl a)
           | Inr st1 \<Rightarrow> bfs_loop E (round + 1) (bfs_end_round st1))
      else Some (Inr (round, st)))"

definition bfs_init :: "worker \<Rightarrow> u32 \<Rightarrow> u32 \<Rightarrow> bfs_vertex kstate \<Rightarrow> bfs_vertex kstate" where
  "bfs_init t start_v n s =
     (let vs = fold (\<lambda>i vs. vs[unat i := (vs ! unat i)\<lparr> visited := False \<rparr>]) (u32_range 0 n) (verts s);
          (_, x) = bfs_update_atomic 0 (vs ! unat start_v)
      in s\<lparr> frontier := mark t start_v (clear (frontier s)), verts := vs[unat start_v := x] \<rparr>)"

definition bfs_kernel ::
    "run_env \<Rightarrow> worker \<Rightarrow> u32 \<Rightarrow> bfs_vertex kstate pack_state \<Rightarrow> (abort + u32 \<times> bfs_vertex kstate pack_state) option" where
  "bfs_kernel E t start_v st = bfs_loop E 0 (st\<lparr> cb := bfs_init t start_v (total_verts E) (cb st) \<rparr>)"

subsection \<open>Balls and layers around the start\<close>

fun ball :: "(u32 \<Rightarrow> u32 list) \<Rightarrow> u32 \<Rightarrow> nat \<Rightarrow> u32 set" where
  "ball nbs s 0 = {s}"
| "ball nbs s (Suc k) = ball nbs s k \<union> (\<Union>u \<in> ball nbs s k. set (nbs u))"

fun layer :: "(u32 \<Rightarrow> u32 list) \<Rightarrow> u32 \<Rightarrow> nat \<Rightarrow> u32 set" where
  "layer nbs s 0 = {s}"
| "layer nbs s (Suc k) = ball nbs s (Suc k) - ball nbs s k"

text \<open>The round in which breadth-first search reaches a vertex.\<close>

definition level :: "(u32 \<Rightarrow> u32 list) \<Rightarrow> u32 \<Rightarrow> u32 \<Rightarrow> nat" where
  "level nbs s v = (LEAST k. v \<in> ball nbs s k)"

lemma ball_mono: "j \<le> k \<Longrightarrow> ball nbs s j \<subseteq> ball nbs s k"
  by (induction k rule: dec_induct) auto

lemma layer_ball: "layer nbs s k \<subseteq> ball nbs s k"
  by (cases k) auto

lemma ball_from_layer: "ball nbs s (Suc k) = ball nbs s k \<union> (\<Union>u \<in> layer nbs s k. set (nbs u))"
proof (cases k)
  case (Suc j)
  have "set (nbs u) \<subseteq> ball nbs s k" if "u \<in> ball nbs s j" for u using that Suc by auto
  then show ?thesis unfolding ball.simps(2) [of nbs s k] using Suc by auto
qed simp

lemma ball_closed: "layer nbs s k = {} \<Longrightarrow> ball nbs s (k + i) = ball nbs s k"
proof (induction i)
  case (Suc i)
  have "ball nbs s (Suc k) = ball nbs s k" using ball_from_layer [of nbs s k] Suc.prems by simp
  then show ?case using Suc by simp
qed simp

lemma ball_below: "s < n \<Longrightarrow> (\<And>u w. w \<in> set (nbs u) \<Longrightarrow> w < n) \<Longrightarrow> ball nbs s k \<subseteq> {v. v < n}"
  by (induction k) auto

lemma layer_grows:
  assumes "layer nbs s k \<noteq> {}" "finite (ball nbs s k)"
  shows "k < card (ball nbs s k)"
  using assms
proof (induction k)
  case (Suc k)
  have fin: "finite (ball nbs s k)" using Suc.prems(2) by simp
  have "layer nbs s k \<noteq> {}" using Suc.prems(1) ball_from_layer [of nbs s k] by (metis Diff_cancel SUP_empty Un_empty_right layer.simps(2))
  then have "k < card (ball nbs s k)" using Suc.IH fin by simp
  moreover have "card (ball nbs s k) < card (ball nbs s (Suc k))"
    using Suc.prems ball_mono [of k "Suc k" nbs s] by (intro psubset_card_mono) auto
  ultimately show ?case by linarith
qed simp

lemma level_le: "v \<in> ball nbs s k \<Longrightarrow> level nbs s v \<le> k"
  unfolding level_def by (rule Least_le)

lemma level_layer: "v \<in> layer nbs s (Suc k) \<Longrightarrow> level nbs s v = Suc k"
  unfolding level_def
  by (rule Least_equality) (use ball_mono [of _ k nbs s] in \<open>auto simp: not_less_eq_eq [symmetric]\<close>)

lemma level_start [simp]: "level nbs s s = 0"
  unfolding level_def by (rule Least_equality) auto

text \<open>The \<open>k\<close>-ball is what paths of at most \<open>k\<close> edges reach.\<close>

lemma ball_relpow: "v \<in> ball nbs s k \<longleftrightarrow> (\<exists>j \<le> k. (s, v) \<in> {(u, w). w \<in> set (nbs u)} ^^ j)"
proof (induction k arbitrary: v)
  case (Suc k)
  show ?case
  proof
    assume "v \<in> ball nbs s (Suc k)"
    then consider "v \<in> ball nbs s k" | u where "u \<in> ball nbs s k" "v \<in> set (nbs u)" by auto
    then show "\<exists>j \<le> Suc k. (s, v) \<in> {(u, w). w \<in> set (nbs u)} ^^ j"
    proof cases
      case 2
      then obtain j where "j \<le> k" "(s, u) \<in> {(u, w). w \<in> set (nbs u)} ^^ j" using Suc by auto
      then show ?thesis using 2(2) by (intro exI [of _ "Suc j"]) auto
    qed (use Suc le_SucI in blast)
  next
    assume "\<exists>j \<le> Suc k. (s, v) \<in> {(u, w). w \<in> set (nbs u)} ^^ j"
    then obtain j where j: "j \<le> Suc k" "(s, v) \<in> {(u, w). w \<in> set (nbs u)} ^^ j" by blast
    show "v \<in> ball nbs s (Suc k)"
    proof (cases j)
      case (Suc i)
      then obtain u where "(s, u) \<in> {(u, w). w \<in> set (nbs u)} ^^ i" "v \<in> set (nbs u)" using j(2) by auto
      then show ?thesis using Suc.IH j(1) Suc by auto
    qed (use j Suc in auto)
  qed
qed auto

subsection \<open>Invariants\<close>

text \<open>
  During round \<open>k + 1\<close>, after calls that reached the set \<open>N\<close> outside the \<open>k\<close>-ball.
\<close>

definition bfs_mid :: "run_env \<Rightarrow> u32 \<Rightarrow> nat \<Rightarrow> Bitmap \<Rightarrow> u32 set \<Rightarrow> bfs_vertex kstate \<Rightarrow> bool" where
  "bfs_mid E s0 k fr N s \<longleftrightarrow> kshape E s \<and> frontier s = fr \<and> bits_of (next_frontier s) = N \<and>
     (\<forall>v. v < total_verts E \<longrightarrow>
        parent (verts s ! unat v) =
          (if v \<in> ball (nb E) s0 k then of_nat (level (nb E) s0 v) else if v \<in> N then of_nat (Suc k) else NULLVERT) \<and>
        (visited (verts s ! unat v) \<longleftrightarrow> v \<in> ball (nb E) s0 k \<union> N \<and> v \<noteq> s0))"

definition bfs_inv :: "run_env \<Rightarrow> u32 \<Rightarrow> nat \<Rightarrow> bfs_vertex kstate \<Rightarrow> bool" where
  "bfs_inv E s0 k s \<longleftrightarrow> bfs_mid E s0 k (frontier s) {} s \<and> bits_of (frontier s) = layer (nb E) s0 k"

lemma ball_total: "env_ok E \<Longrightarrow> s0 < total_verts E \<Longrightarrow> ball (nb E) s0 k \<subseteq> {v. v < total_verts E}"
  by (rule ball_below) (auto intro: nb_bound)

lemma ball_card: "env_ok E \<Longrightarrow> s0 < total_verts E \<Longrightarrow> card (ball (nb E) s0 k) \<le> unat (total_verts E)"
  using card_mono [OF _ ball_total, of E s0 k] by (simp add: card_words_below)

text \<open>The number of a round fits 32 bits and is not the mark of an unreached vertex.\<close>

lemma round_bound:
  assumes "env_ok E" "s0 < total_verts E" "layer (nb E) s0 k \<noteq> {}"
  shows "k < unat (total_verts E)" "w < total_verts E \<Longrightarrow> w \<notin> ball (nb E) s0 k \<Longrightarrow> Suc k < unat (total_verts E)"
proof -
  have fin: "finite (ball (nb E) s0 k)" by (rule finite_subset [OF subset_UNIV]) simp
  have lt: "k < card (ball (nb E) s0 k)" using layer_grows [OF assms(3) fin] .
  then show "k < unat (total_verts E)" using ball_card [OF assms(1,2), of k] by simp
  assume "w < total_verts E" "w \<notin> ball (nb E) s0 k"
  then have "card (insert w (ball (nb E) s0 k)) \<le> card {v. v < total_verts E}"
    using ball_total [OF assms(1,2), of k] by (intro card_mono) auto
  then show "Suc k < unat (total_verts E)"
    using lt fin \<open>w \<notin> ball (nb E) s0 k\<close> by (simp add: card_words_below)
qed

lemma of_nat_not_NULLVERT: "j < unat (n :: u32) \<Longrightarrow> (of_nat j :: u32) \<noteq> NULLVERT"
proof
  assume "j < unat n" "(of_nat j :: u32) = NULLVERT"
  then have "unat (of_nat j :: u32) = 2 ^ 32 - 1" by (simp add: NULLVERT_def)
  moreover have "j < 2 ^ 32 - 1" using \<open>j < unat n\<close> unat_u32_lt [of n] by linarith
  ultimately show False by (simp add: unat_of_nat_u32)
qed

lemma bfs_edge_mid:
  assumes "env_ok E" "s0 < total_verts E" "layer (nb E) s0 k \<noteq> {}" "w < total_verts E" "bfs_mid E s0 k fr N s"
  shows "bfs_mid E s0 k fr (N \<union> ({w} - ball (nb E) s0 k)) (bfs_edge (of_nat (Suc k)) t w s)"
proof -
  let ?x = "verts s ! unat w"
  have sh: "kshape E s" "bits_of (next_frontier s) = N" "frontier s = fr"
    and pw: "parent ?x = (if w \<in> ball (nb E) s0 k then of_nat (level (nb E) s0 w) else if w \<in> N then of_nat (Suc k) else NULLVERT)"
      "visited ?x \<longleftrightarrow> w \<in> ball (nb E) s0 k \<union> N \<and> w \<noteq> s0"
    using assms(4,5) by (auto simp: bfs_mid_def)
  have lw: "unat w < length (verts s)" using sh(1) assms(4) by (simp add: kshape_def word_less_nat_alt)
  show ?thesis
  proof (cases "w \<in> ball (nb E) s0 k \<union> N")
    case True
    have "parent ?x \<noteq> NULLVERT"
    proof (cases "w \<in> ball (nb E) s0 k")
      case b: True
      have "level (nb E) s0 w < unat (total_verts E)"
        using level_le [OF b] round_bound(1) [OF assms(1-3)] by simp
      then show ?thesis using pw(1) b of_nat_not_NULLVERT by simp
    next
      case b: False
      then show ?thesis
        using True pw(1) of_nat_not_NULLVERT [OF round_bound(2) [OF assms(1-4) b]] by simp
    qed
    then have "bfs_edge (of_nat (Suc k)) t w s = s"
      using lw by (simp add: bfs_edge_def bfs_update_atomic_def Let_def)
    moreover have "N \<union> ({w} - ball (nb E) s0 k) = N" using True by auto
    ultimately show ?thesis using assms(5) by simp
  next
    case False
    have w0: "w \<noteq> s0" using False ball_mono [of 0 k "nb E" s0] by auto
    let ?s1 = "s\<lparr> verts := (verts s)[unat w := ?x\<lparr> parent := of_nat (Suc k), visited := True \<rparr>] \<rparr>"
    have e: "bfs_edge (of_nat (Suc k)) t w s = ?s1\<lparr> next_frontier := mark t w (next_frontier s) \<rparr>"
      using False pw by (simp add: bfs_edge_def bfs_update_atomic_def Let_def)
    have k1: "kshape E ?s1" using sh(1) lw by (simp add: kshape_def)
    have kn: "kshape E (?s1\<lparr> next_frontier := mark t w (next_frontier s) \<rparr>)"
      using kshape_mark_next [OF k1 assms(4), of t] by simp
    have bits: "bits_of (mark t w (next_frontier s)) = insert w N"
      using sh assms(4) by (simp add: kshape_def bm.alpha_activate)
    have oth: "(verts s)[unat w := y] ! unat v = verts s ! unat v" if "v \<noteq> w" for v y
      using that by (metis nth_list_update_neq word_unat_eq_iff)
    show ?thesis
      unfolding e bfs_mid_def
    proof (intro conjI allI impI)
      fix v assume v: "v < total_verts E"
      let ?y = "verts (?s1\<lparr> next_frontier := mark t w (next_frontier s) \<rparr>) ! unat v"
      have old: "parent (verts s ! unat v) =
          (if v \<in> ball (nb E) s0 k then of_nat (level (nb E) s0 v) else if v \<in> N then of_nat (Suc k) else NULLVERT)"
        "visited (verts s ! unat v) \<longleftrightarrow> v \<in> ball (nb E) s0 k \<union> N \<and> v \<noteq> s0"
        using assms(5) v by (auto simp: bfs_mid_def)
      show "parent ?y = (if v \<in> ball (nb E) s0 k then of_nat (level (nb E) s0 v)
          else if v \<in> N \<union> ({w} - ball (nb E) s0 k) then of_nat (Suc k) else NULLVERT)"
        using old False lw oth by (cases "v = w") auto
      show "visited ?y \<longleftrightarrow> v \<in> ball (nb E) s0 k \<union> (N \<union> ({w} - ball (nb E) s0 k)) \<and> v \<noteq> s0"
        using old False lw oth w0 by (cases "v = w") auto
    qed (use kn bits False sh(3) in auto)
  qed
qed

lemma bfs_push_mid:
  assumes "env_ok E" "s0 < total_verts E" "layer (nb E) s0 k \<noteq> {}" "v < total_verts E" "bfs_mid E s0 k fr N s"
  shows "bfs_mid E s0 k fr (N \<union> (set (nb E v) - ball (nb E) s0 k))
    (bfs_push (of_nat (Suc k)) t v (nb E v) (of_nat (length (nb E v))) s)"
proof -
  have "bfs_mid E s0 k fr (N \<union> (set ws - ball (nb E) s0 k)) (fold (bfs_edge (of_nat (Suc k)) t) ws s)"
    if "bfs_mid E s0 k fr N s" "\<forall>w \<in> set ws. w < total_verts E" for ws N s
    using that
  proof (induction ws arbitrary: N s)
    case (Cons w ws)
    have w: "w < total_verts E" "\<forall>w \<in> set ws. w < total_verts E" using Cons.prems(2) by auto
    from Cons.IH [OF bfs_edge_mid [OF assms(1-3) w(1) Cons.prems(1)] w(2), of t]
    show ?case by (simp add: Un_assoc insert_Diff_if Un_Diff [symmetric] del: of_nat_Suc split: if_splits)
  qed simp
  from this [OF assms(5), of "nb E v"] nb_bound [OF assms(1)]
  show ?thesis unfolding bfs_push_def take_nb [OF assms(1,4)] by blast
qed

lemma bfs_mid_swap:
  assumes m: "bfs_mid E s0 k fr (layer (nb E) s0 (Suc k)) s"
  shows "bfs_inv E s0 (Suc k) (swap_frontiers s)"
proof -
  have b: "v \<in> ball (nb E) s0 (Suc k) \<longleftrightarrow> v \<in> ball (nb E) s0 k \<or> v \<in> layer (nb E) s0 (Suc k)" for v by auto
  have sh: "kshape E s" using m by (simp add: bfs_mid_def)
  show ?thesis
    unfolding bfs_inv_def bfs_mid_def
  proof (intro conjI allI impI)
    fix v assume v: "v < total_verts E"
    show "parent (verts (swap_frontiers s) ! unat v) =
        (if v \<in> ball (nb E) s0 (Suc k) then of_nat (level (nb E) s0 v) else if v \<in> {} then of_nat (Suc (Suc k)) else NULLVERT)"
      using m v b [of v] level_layer [of v "nb E" s0 k]
      by (simp add: bfs_mid_def del: ball.simps layer.simps of_nat_Suc)
    show "visited (verts (swap_frontiers s) ! unat v) \<longleftrightarrow> v \<in> ball (nb E) s0 (Suc k) \<union> {} \<and> v \<noteq> s0"
      using m v b [of v] by (simp add: bfs_mid_def del: ball.simps layer.simps)
  qed (use kshape_swap [OF sh] swap_frontiers_bits [OF sh] m in \<open>auto simp: bfs_mid_def simp del: layer.simps\<close>)
qed

text \<open>One round leads from the \<open>k\<close>-ball to the \<open>k + 1\<close>-ball.\<close>

lemma bfs_round:
  assumes "env_ok E" "s0 < total_verts E" "layer (nb E) s0 k \<noteq> {}" "bfs_inv E s0 k (cb st)" "st_ok E st"
  obtains st' where
    "for_each_active E c (frontier (cb st)) 0 (total_verts E) (bfs_push (of_nat (Suc k))) st = Some (Inr st')"
    "st_ok E st'" "bfs_inv E s0 (Suc k) (swap_frontiers (cb st'))"
proof -
  let ?B = "ball (nb E) s0 k" and ?fr = "frontier (cb st)"
  let ?N = "\<lambda>D. (\<Union>u \<in> D. set (nb E u)) - ?B"
  have mid: "bfs_mid E s0 k ?fr {} (cb st)" and lay: "bits_of ?fr = layer (nb E) s0 k"
    using assms(4) by (auto simp: bfs_inv_def)
  have sh: "kshape E (cb st)" using mid by (simp add: bfs_mid_def)
  have step: "bfs_mid E s0 k ?fr (?N (insert v D)) (bfs_push (of_nat (Suc k)) t v (nb E v) (of_nat (length (nb E v))) s)"
    if "v \<in> bits_of ?fr" "bfs_mid E s0 k ?fr (?N D) s" for D t v s
    using bfs_push_mid [OF assms(1-3) kshape_bits_below [OF sh that(1)] that(2), of t]
    by (simp add: Un_Diff Un_commute del: of_nat_Suc)
  obtain st' D where o: "for_each_active E c ?fr 0 (total_verts E) (bfs_push (of_nat (Suc k))) st = Some (Inr st')"
    "st_ok E st'" "bfs_mid E s0 k ?fr (?N D) (cb st')" "D \<subseteq> bits_of ?fr" "\<forall>v \<in> bits_of ?fr - D. nb E v = []"
    using round_rule [where P = "\<lambda>D. bfs_mid E s0 k ?fr (?N D)", OF assms(1,5) sh, of "bfs_push (of_nat (Suc k))" c]
      mid step by (metis (no_types, lifting) Diff_empty SUP_empty empty_Diff)
  have "(\<Union>u \<in> D. set (nb E u)) = (\<Union>u \<in> layer (nb E) s0 k. set (nb E u))"
    using o(4,5) lay by (auto) (metis Diff_iff empty_iff empty_set)
  then have N: "?N D = layer (nb E) s0 (Suc k)" using ball_from_layer [of "nb E" s0 k] by auto
  have "bfs_inv E s0 (Suc k) (swap_frontiers (cb st'))" by (rule bfs_mid_swap [OF o(3) [unfolded N]])
  with o(1,2) show ?thesis by (rule that)
qed

lemma bfs_end_round_keeps:
  "st_ok E (bfs_end_round st) = st_ok E st" "cb (bfs_end_round st) = swap_frontiers (cb st)"
  "summary_numbers (print_stats_summary (stats (bfs_end_round st))) = replicate 11 0"
  by (simp_all add: bfs_end_round_def st_ok_def area_ok_def windows_ok_def summary_numbers_def print_stats_summary_def
    newline_def clear_all_def numeral_eq_Suc)

lemma bfs_loop_returns:
  assumes "env_ok E" "s0 < total_verts E" "bfs_inv E s0 k (cb st)" "st_ok E st" "k \<le> unat (total_verts E)"
  shows "\<exists>m st'. bfs_loop E (of_nat k) st = Some (Inr (of_nat m, st')) \<and> bfs_inv E s0 m (cb st') \<and>
    layer (nb E) s0 m = {} \<and> m \<le> unat (total_verts E) \<and>
    (if layer (nb E) s0 k = {} then st' = st else summary_numbers (print_stats_summary (stats st')) = replicate 11 0)"
  using assms(3-5)
proof (induction "unat (total_verts E) - k" arbitrary: k st rule: less_induct)
  case less
  have sh: "kshape E (cb st)" and lay: "bits_of (frontier (cb st)) = layer (nb E) s0 k"
    using less.prems(1) by (auto simp: bfs_inv_def bfs_mid_def)
  show ?case
  proof (cases "layer (nb E) s0 k = {}")
    case True
    then have "bfs_loop E (of_nat k) st = Some (Inr (of_nat k, st))"
      using kshape_is_empty [OF sh] lay by (subst bfs_loop.simps) simp
    then show ?thesis using True less.prems by auto
  next
    case False
    obtain st1 where st1: "for_each_active E (unat ((of_nat k :: u32) + 1)) (frontier (cb st)) 0 (total_verts E)
        (bfs_push (of_nat (Suc k))) st = Some (Inr st1)" "st_ok E st1" "bfs_inv E s0 (Suc k) (swap_frontiers (cb st1))"
      using bfs_round [OF assms(1,2) False less.prems(1,2)] by blast
    let ?st2 = "bfs_end_round st1"
    have lt: "k < unat (total_verts E)" using round_bound(1) [OF assms(1,2) False] .
    have s: "(of_nat k :: u32) + 1 = of_nat (Suc k)" by simp
    have "bfs_loop E (of_nat k) st = bfs_loop E (of_nat (Suc k)) ?st2"
      using kshape_is_empty [OF sh] lay False st1(1) unfolding s
      by (subst bfs_loop.simps) (simp del: of_nat_Suc add: s)
    moreover have "\<exists>m st'. bfs_loop E (of_nat (Suc k)) ?st2 = Some (Inr (of_nat m, st')) \<and>
        bfs_inv E s0 m (cb st') \<and> layer (nb E) s0 m = {} \<and> m \<le> unat (total_verts E) \<and>
        (if layer (nb E) s0 (Suc k) = {} then st' = ?st2 else summary_numbers (print_stats_summary (stats st')) = replicate 11 0)"
      by (rule less.hyps) (use lt st1(2,3) in \<open>simp_all add: bfs_end_round_keeps\<close>)
    ultimately show ?thesis using False bfs_end_round_keeps(3) [of st1] by metis
  qed
qed

definition bfs_default :: bfs_vertex where
  "bfs_default = \<lparr> parent = NULLVERT, visited = False \<rparr>"

lemma fold_identity: "(\<And>x. x \<in> set xs \<Longrightarrow> f x s = s) \<Longrightarrow> fold f xs s = s"
  by (induction xs) auto

lemma bfs_init_inv:
  assumes "fresh E bfs_default s" "s0 < total_verts E"
  shows "bfs_inv E s0 0 (bfs_init t s0 (total_verts E) s)"
proof -
  let ?n = "total_verts E" and ?r = "replicate (unat (total_verts E)) bfs_default"
  have sh: "kshape E s" "verts s = ?r" "bits_of (next_frontier s) = {}" using assms(1) by (auto simp: fresh_def)
  have "?r[unat i := (?r ! unat i)\<lparr> visited := False \<rparr>] = ?r" if "i < ?n" for i
    using that by (intro nth_equalityI) (auto simp: word_less_nat_alt bfs_default_def nth_list_update)
  then have f: "fold (\<lambda>i vs. vs[unat i := (vs ! unat i)\<lparr> visited := False \<rparr>]) (u32_range 0 ?n) ?r = ?r"
    by (intro fold_identity) simp
  have l: "unat s0 < unat ?n" using assms(2) by (simp add: word_less_nat_alt)
  have e: "bfs_init t s0 ?n s = s\<lparr> frontier := mark t s0 (clear (frontier s)),
      verts := ?r[unat s0 := bfs_default\<lparr> parent := 0 \<rparr>] \<rparr>"
    using l by (simp add: bfs_init_def sh(2) f bfs_update_atomic_def Let_def) (simp add: bfs_default_def)
  have k: "bitmap_inv (clear (frontier s))" "bm_size (clear (frontier s)) = ?n"
    using sh(1) by (simp_all add: kshape_def bm.invar_reset)
  have bits: "bits_of (mark t s0 (clear (frontier s))) = {s0}"
    using k assms(2) sh(1) by (simp add: bm.alpha_activate bm.alpha_reset kshape_def)
  have sh': "kshape E (bfs_init t s0 ?n s)"
    using sh(1) k assms(2) by (simp add: e kshape_def mark_inv)
  have p: "parent (?r[unat s0 := bfs_default\<lparr> parent := 0 \<rparr>] ! unat v) = (if v = s0 then 0 else NULLVERT)"
      "\<not> visited (?r[unat s0 := bfs_default\<lparr> parent := 0 \<rparr>] ! unat v)" if "v < ?n" for v
    using that l by (auto simp: nth_list_update bfs_default_def word_less_nat_alt word_unat_eq_iff)
  show ?thesis
    unfolding bfs_inv_def bfs_mid_def using sh' bits sh(3) p by (simp add: e)
qed

lemma edge_rel_nb: "env_ok E \<Longrightarrow> edge_rel E = {(u, w). w \<in> set (nb E u)}"
proof -
  assume "env_ok E"
  then have "csr_ok (vtable (env_args E)) (total_verts E) (num_edges (ctx (env_args E)))"
    by (simp add: env_ok_def setup_ok_def run_ok_def args_ok_def total_verts_def)
  then have "length (vtable (env_args E)) = unat (total_verts E)" by (rule csr_ok_length)
  then have "nb E u = []" if "\<not> u < total_verts E" for u
    using that by (simp add: nb_def adjs_def adj_def deg_def off_def word_less_nat_alt)
  then show ?thesis by (auto simp: edge_rel_def) (metis empty_iff empty_set)
qed

lemma reach_levels:
  assumes "env_ok E" "layer (nb E) s m = {}"
  shows "v \<in> ball (nb E) s m \<longleftrightarrow> (s, v) \<in> (edge_rel E)\<^sup>*"
    and "level (nb E) s v = (LEAST k. (s, v) \<in> edge_rel E ^^ k)"
proof -
  note R = edge_rel_nb [OF assms(1)]
  have "v \<in> ball (nb E) s m \<longleftrightarrow> (\<exists>k. v \<in> ball (nb E) s k)"
    using ball_closed [OF assms(2)] ball_mono [of _ m "nb E" s] by (metis nat_le_linear le_add_diff_inverse subsetD)
  also have "\<dots> \<longleftrightarrow> (s, v) \<in> (edge_rel E)\<^sup>*"
    unfolding ball_relpow R rtrancl_power by auto
  finally show "v \<in> ball (nb E) s m \<longleftrightarrow> (s, v) \<in> (edge_rel E)\<^sup>*" .
  show "level (nb E) s v = (LEAST k. (s, v) \<in> edge_rel E ^^ k)"
  proof (cases "\<exists>k. (s, v) \<in> edge_rel E ^^ k")
    case True
    let ?l = "LEAST k. (s, v) \<in> edge_rel E ^^ k"
    have l: "(s, v) \<in> edge_rel E ^^ ?l" "\<And>j. (s, v) \<in> edge_rel E ^^ j \<Longrightarrow> ?l \<le> j"
      using True by (auto intro: LeastI_ex Least_le)
    then show ?thesis unfolding level_def ball_relpow R [symmetric]
      by (intro Least_equality) (auto intro: order_trans)
  next
    case False
    then show ?thesis unfolding level_def ball_relpow R [symmetric] by simp
  qed
qed

subsection \<open>The whole kernel\<close>

text \<open>What the vertex table holds when the loop has been left.\<close>

definition bfs_distances :: "run_env \<Rightarrow> u32 \<Rightarrow> u32 \<Rightarrow> bfs_vertex kstate \<Rightarrow> bool" where
  "bfs_distances E s rounds s' \<longleftrightarrow> (\<forall>v. v < total_verts E \<longrightarrow>
       (let x = verts s' ! unat v in
        if (s, v) \<in> (edge_rel E)\<^sup>*
        then unat (parent x) = (LEAST k. (s, v) \<in> edge_rel E ^^ k) \<and> unat (parent x) < unat rounds \<and>
             (visited x \<longleftrightarrow> v \<noteq> s)
        else parent x = NULLVERT \<and> \<not> visited x))"

lemma bfs_inv_distances:
  assumes "env_ok E" "bfs_inv E s m s'" "layer (nb E) s m = {}" "m \<le> unat (total_verts E)"
  shows "bfs_distances E s (of_nat m) s'" "unat (of_nat m :: u32) = m"
proof -
  show um: "unat (of_nat m :: u32) = m"
    using assms(4) unat_u32_lt [of "total_verts E"] by (intro unat_of_nat_u32) linarith
  note re = reach_levels [OF assms(1,3)]
  have lv: "level (nb E) s v < m" if "v \<in> ball (nb E) s m" for v
  proof -
    obtain j where j: "m = Suc j" using assms(3) by (cases m) auto
    then have "v \<in> ball (nb E) s j" using assms(3) that by auto
    then show ?thesis using level_le j by (metis le_imp_less_Suc)
  qed
  show "bfs_distances E s (of_nat m) s'"
    unfolding bfs_distances_def
  proof (intro allI impI)
    fix v assume v: "v < total_verts E"
    show "let x = verts s' ! unat v in
        if (s, v) \<in> (edge_rel E)\<^sup>*
        then unat (parent x) = (LEAST k. (s, v) \<in> edge_rel E ^^ k) \<and> unat (parent x) < unat (of_nat m :: u32) \<and>
             (visited x \<longleftrightarrow> v \<noteq> s)
        else parent x = NULLVERT \<and> \<not> visited x"
    proof (cases "v \<in> ball (nb E) s m")
      case True
      have "unat (of_nat (level (nb E) s v) :: u32) = level (nb E) s v"
        using lv [OF True] um by (intro unat_of_nat_u32) (metis less_trans unat_u32_lt)
      then show ?thesis
        using assms(2) v True re lv [OF True] um by (simp add: bfs_inv_def bfs_mid_def Let_def)
    next
      case False
      then show ?thesis using assms(2) v re by (simp add: bfs_inv_def bfs_mid_def Let_def)
    qed
  qed
qed

lemma bfs_kernel_correct:
  assumes "env_ok E" "st_ok E st" "fresh E bfs_default (cb st)" "s < total_verts E"
  shows "\<exists>rounds st'. bfs_kernel E t s st = Some (Inr (rounds, st')) \<and> rounds \<le> total_verts E \<and>
    (\<forall>v. v < total_verts E \<longrightarrow>
       (let x = verts (cb st') ! unat v in
        if (s, v) \<in> (edge_rel E)\<^sup>*
        then unat (parent x) = (LEAST k. (s, v) \<in> edge_rel E ^^ k) \<and> unat (parent x) < unat rounds \<and>
             (visited x \<longleftrightarrow> v \<noteq> s)
        else parent x = NULLVERT \<and> \<not> visited x)) \<and>
    summary_numbers (print_stats_summary (stats st')) = replicate 11 0"
proof -
  obtain m st' where r: "bfs_kernel E t s st = Some (Inr (of_nat m, st'))" "bfs_inv E s m (cb st')"
    "layer (nb E) s m = {}" "m \<le> unat (total_verts E)" "summary_numbers (print_stats_summary (stats st')) = replicate 11 0"
    using bfs_loop_returns [OF assms(1,4), of 0 "st\<lparr> cb := bfs_init t s (total_verts E) (cb st) \<rparr>"]
      bfs_init_inv [OF assms(3,4), of t] assms(2) by (auto simp: bfs_kernel_def)
  note d = bfs_inv_distances [OF assms(1) r(2-4)]
  have "of_nat m \<le> total_verts E" using r(4) d(2) by (simp add: word_le_nat_alt)
  then show ?thesis using r(1,5) d(1) unfolding bfs_distances_def by blast
qed

subsection \<open>Property\<close>

text \<open>
  C11. Breadth-first search is correct and terminates. On any graph, for any behaviour of the
  card, the caches and the scheduler the iterator allows, the kernel returns; the \<open>parent\<close> field of
  every vertex reachable from the start is its distance (the length of a shortest path), that of
  every other vertex is still \<open>NULLVERT\<close>; \<open>visited\<close> holds exactly for the reachable vertices other
  than the start; and there are at most as many rounds as vertices, more than any distance.
\<close>

theorem bfs_correct:
  assumes "env_ok E" "st_ok E st" "fresh E bfs_default (cb st)" "s < total_verts E"
  shows "\<exists>rounds st'. bfs_kernel E t s st = Some (Inr (rounds, st')) \<and> rounds \<le> total_verts E \<and>
    (\<forall>v. v < total_verts E \<longrightarrow>
       (let x = verts (cb st') ! unat v in
        if (s, v) \<in> (edge_rel E)\<^sup>*
        then unat (parent x) = (LEAST k. (s, v) \<in> edge_rel E ^^ k) \<and> unat (parent x) < unat rounds \<and>
             (visited x \<longleftrightarrow> v \<noteq> s)
        else parent x = NULLVERT \<and> \<not> visited x))"
  using bfs_kernel_correct [OF assms, of t] by blast

theorem bfs_correct_witness:
  "\<exists>rounds st'. bfs_kernel (demo_env 1) 0 0 (demo_state (demo_kstate bfs_default)) = Some (Inr (rounds, st')) \<and>
    rounds \<le> 3"
  using bfs_correct [OF demo_env_ok demo_st_ok, of 1 "demo_kstate bfs_default" 0 0] demo_fresh [of 1 bfs_default]
  by auto

end
