(* ===== verification/BFS_Parallel.thy ===== *)
theory BFS_Parallel
  imports BFS Interleaving
begin

text \<open>
  Breadth-first search with its callbacks interleaved: the accesses of \<open>bfs_push\<close> to the shared
  vertex table and the next frontier, one at a time. Two workers may both find a vertex unvisited;
  the compare-and-exchange on \<open>parent\<close> decides which of them activates it.
\<close>

subsection \<open>The callback as micro-operations\<close>

datatype bfs_op = BVisit u32 | BCheck u32 | BCas u32 | BSet u32 | BMark u32

fun bfs_exec :: "run_env \<Rightarrow> u32 \<Rightarrow> (bfs_vertex kstate, bfs_op) micro" where
  "bfs_exec E round t (BVisit v) s = [(s, map BCheck (take (unat (of_nat (length (nb E v)) :: u32)) (nb E v)))]"
| "bfs_exec E round t (BCheck w) s = [(s, if \<not> visited (verts s ! unat w) then [BCas w] else [])]"
| "bfs_exec E round t (BCas w) s =
     (let (won, x) = bfs_update_atomic round (verts s ! unat w)
      in [(s\<lparr> verts := (verts s)[unat w := x] \<rparr>, if won then [BSet w, BMark w] else [])])"
| "bfs_exec E round t (BSet w) s =
     [(s\<lparr> verts := (verts s)[unat w := (verts s ! unat w)\<lparr> visited := True \<rparr>] \<rparr>, [])]"
| "bfs_exec E round t (BMark w) s = [(s\<lparr> next_frontier := mark t w (next_frontier s) \<rparr>, [])]"

definition bfs_kernel_step where
  "bfs_kernel_step E = kernel_step E (\<lambda>k s. \<not> is_empty (frontier s)) (\<lambda>k. bfs_exec E (of_nat k)) BVisit swap_frontiers"

subsection \<open>The invariant of a round\<close>

text \<open>
  Within round \<open>k + 1\<close>: \<open>C\<close> are the vertices claimed so far. A vertex is claimed, flagged and marked
  at different moments, and the pending operations make up the difference; every edge out of the
  frontier has been dealt with or is still pending.
\<close>

definition bfs_goal :: "run_env \<Rightarrow> u32 \<Rightarrow> nat \<Rightarrow> u32 set" where
  "bfs_goal E s0 k = (\<Union>u \<in> layer (nb E) s0 k. set (nb E u))"

definition bfs_table :: "run_env \<Rightarrow> u32 \<Rightarrow> nat \<Rightarrow> u32 set \<Rightarrow> bfs_op multiset \<Rightarrow> bfs_vertex kstate \<Rightarrow> bool" where
  "bfs_table E s0 k C P s \<longleftrightarrow> (\<forall>v. v < total_verts E \<longrightarrow>
     parent (verts s ! unat v) =
       (if v \<in> ball (nb E) s0 k then of_nat (level (nb E) s0 v) else if v \<in> C then of_nat (Suc k) else NULLVERT) \<and>
     (visited (verts s ! unat v) \<longrightarrow> v \<in> ball (nb E) s0 k \<union> C \<and> v \<noteq> s0) \<and>
     (v \<in> ball (nb E) s0 k \<union> C \<and> v \<noteq> s0 \<longrightarrow> visited (verts s ! unat v) \<or> BSet v \<in># P))"

definition bfs_marks :: "u32 set \<Rightarrow> bfs_op multiset \<Rightarrow> bfs_vertex kstate \<Rightarrow> bool" where
  "bfs_marks C P s \<longleftrightarrow> bits_of (next_frontier s) \<union> {w. BMark w \<in># P} = C \<and> {w. BSet w \<in># P} \<subseteq> C"

definition bfs_todo :: "run_env \<Rightarrow> u32 \<Rightarrow> nat \<Rightarrow> u32 set \<Rightarrow> bfs_op multiset \<Rightarrow> bool" where
  "bfs_todo E s0 k C P \<longleftrightarrow> C \<subseteq> bfs_goal E s0 k - ball (nb E) s0 k \<and> {v. BVisit v \<in># P} \<subseteq> layer (nb E) s0 k \<and>
     {w. BCheck w \<in># P \<or> BCas w \<in># P} \<subseteq> bfs_goal E s0 k \<and>
     bfs_goal E s0 k \<subseteq> ball (nb E) s0 k \<union> C \<union> {w. BCheck w \<in># P \<or> BCas w \<in># P} \<union>
       (\<Union>u \<in> {v. BVisit v \<in># P}. set (nb E u))"

definition bfs_pool :: "run_env \<Rightarrow> u32 \<Rightarrow> nat \<Rightarrow> bfs_vertex kstate \<Rightarrow> u32 set \<Rightarrow> bfs_op multiset \<Rightarrow> bfs_vertex kstate \<Rightarrow> bool" where
  "bfs_pool E s0 k r C P s \<longleftrightarrow> kshape E s \<and> frontier s = frontier r \<and>
     bfs_table E s0 k C P s \<and> bfs_marks C P s \<and> bfs_todo E s0 k C P"

definition bfs_par_inv :: "run_env \<Rightarrow> u32 \<Rightarrow> nat \<Rightarrow> bfs_vertex kstate \<Rightarrow> bfs_op multiset \<Rightarrow> bfs_vertex kstate \<Rightarrow> bool" where
  "bfs_par_inv E s0 k r P s \<longleftrightarrow> env_ok E \<and> s0 < total_verts E \<and> layer (nb E) s0 k \<noteq> {} \<and>
     (\<exists>C. bfs_pool E s0 k r C P s)"

fun bfs_weight :: "run_env \<Rightarrow> bfs_op \<Rightarrow> nat" where
  "bfs_weight E (BVisit v) = 1 + 5 * length (nb E v)"
| "bfs_weight E (BCheck w) = 4"
| "bfs_weight E (BCas w) = 3"
| "bfs_weight E (BSet w) = 1"
| "bfs_weight E (BMark w) = 1"

definition bfs_mu :: "run_env \<Rightarrow> bfs_op multiset \<Rightarrow> bfs_vertex kstate \<Rightarrow> nat" where
  "bfs_mu E P s = sum_mset (image_mset (bfs_weight E) P)"

lemma goal_below: "env_ok E \<Longrightarrow> bfs_goal E s0 k \<subseteq> {v. v < total_verts E}"
  by (auto simp: bfs_goal_def nb_bound)

lemma visit_pool:
  assumes "env_ok E" "s0 < total_verts E" "bfs_pool E s0 k r C (add_mset (BVisit v) P) s"
  shows "bfs_pool E s0 k r C (P + mset (map BCheck (nb E v))) s"
proof -
  have v: "v \<in> layer (nb E) s0 k" using assms(3) by (auto simp: bfs_pool_def bfs_todo_def)
  then have "set (nb E v) \<subseteq> bfs_goal E s0 k" by (auto simp: bfs_goal_def)
  then have "bfs_todo E s0 k C (P + mset (map BCheck (nb E v)))"
    using assms(3) by (auto simp: bfs_pool_def bfs_todo_def)
  then show ?thesis using assms(3) by (auto simp: bfs_pool_def bfs_table_def bfs_marks_def)
qed

lemma check_pool:
  assumes "env_ok E" "s0 < total_verts E" "bfs_pool E s0 k r C (add_mset (BCheck w) P) s"
  shows "bfs_pool E s0 k r C (P + mset (if \<not> visited (verts s ! unat w) then [BCas w] else [])) s"
proof -
  have w: "w \<in> bfs_goal E s0 k" using assms(3) by (auto simp: bfs_pool_def bfs_todo_def)
  then have "visited (verts s ! unat w) \<Longrightarrow> w \<in> ball (nb E) s0 k \<union> C"
    using assms(3) goal_below [OF assms(1)] by (auto simp: bfs_pool_def bfs_table_def)
  moreover have td: "bfs_todo E s0 k C (add_mset (BCheck w) P)" using assms(3) by (simp add: bfs_pool_def)
  ultimately have "bfs_todo E s0 k C (P + mset (if \<not> visited (verts s ! unat w) then [BCas w] else []))"
    using w by (cases "visited (verts s ! unat w)") (auto simp: bfs_todo_def)
  then show ?thesis using assms(3) by (auto simp: bfs_pool_def bfs_table_def bfs_marks_def)
qed

lemma table_claimed:
  assumes "env_ok E" "s0 < total_verts E" "layer (nb E) s0 k \<noteq> {}" "w < total_verts E" "bfs_table E s0 k C P s"
  shows "parent (verts s ! unat w) = NULLVERT \<longleftrightarrow> w \<notin> ball (nb E) s0 k \<union> C"
proof -
  have p: "parent (verts s ! unat w) =
      (if w \<in> ball (nb E) s0 k then of_nat (level (nb E) s0 w) else if w \<in> C then of_nat (Suc k) else NULLVERT)"
    using assms(4,5) by (simp add: bfs_table_def)
  show ?thesis
  proof (cases "w \<in> ball (nb E) s0 k")
    case True
    have "level (nb E) s0 w < unat (total_verts E)"
      using level_le [OF True] round_bound(1) [OF assms(1-3)] by simp
    then show ?thesis using p True of_nat_not_NULLVERT by simp
  next
    case False
    then show ?thesis using p of_nat_not_NULLVERT [OF round_bound(2) [OF assms(1-4) False]] by auto
  qed
qed

lemma cas_pool:
  assumes "env_ok E" "s0 < total_verts E" "layer (nb E) s0 k \<noteq> {}" "bfs_pool E s0 k r C (add_mset (BCas w) P) s"
    and "(s', nxt) \<in> set (bfs_exec E (of_nat (Suc k)) t (BCas w) s)"
  shows "\<exists>C'. bfs_pool E s0 k r C' (P + mset nxt) s'"
proof -
  let ?x = "verts s ! unat w"
  have sh: "kshape E s" and tab: "bfs_table E s0 k C (add_mset (BCas w) P) s" and mk: "bfs_marks C (add_mset (BCas w) P) s"
    and td: "bfs_todo E s0 k C (add_mset (BCas w) P)" and fr: "frontier s = frontier r"
    using assms(4) by (simp_all add: bfs_pool_def)
  have w: "w \<in> bfs_goal E s0 k" using td by (auto simp: bfs_todo_def)
  have wn: "w < total_verts E" using w goal_below [OF assms(1)] by auto
  have lw: "unat w < length (verts s)" using sh wn by (simp add: kshape_def word_less_nat_alt)
  note cl = table_claimed [OF assms(1-3) wn tab]
  show ?thesis
  proof (cases "w \<in> ball (nb E) s0 k \<union> C")
    case True
    then have "s' = s" "nxt = []" using assms(5) cl lw by (auto simp: bfs_update_atomic_def)
    moreover have "bfs_todo E s0 k C P" using td True by (auto simp: bfs_todo_def)
    ultimately have "bfs_pool E s0 k r C (P + mset nxt) s'"
      using assms(4) by (auto simp: bfs_pool_def bfs_table_def bfs_marks_def)
    then show ?thesis ..
  next
    case False
    have w0: "w \<noteq> s0" using False ball_mono [of 0 k "nb E" s0] by auto
    have s': "s' = s\<lparr> verts := (verts s)[unat w := ?x\<lparr> parent := of_nat (Suc k) \<rparr>] \<rparr>" "nxt = [BSet w, BMark w]"
      using assms(5) cl False by (auto simp: bfs_update_atomic_def)
    have "bfs_todo E s0 k (insert w C) (P + mset nxt)" using td False w by (auto simp: bfs_todo_def s'(2))
    moreover have "bfs_marks (insert w C) (P + mset nxt) s'" using mk by (auto simp: bfs_marks_def s')
    moreover have "bfs_table E s0 k (insert w C) (P + mset nxt) s'"
      unfolding bfs_table_def
    proof (intro allI impI)
      fix v assume v: "v < total_verts E"
      have y: "verts s' ! unat v = (if v = w then ?x\<lparr> parent := of_nat (Suc k) \<rparr> else verts s ! unat v)"
        using lw by (simp add: s' nth_update_unat)
      show "parent (verts s' ! unat v) =
         (if v \<in> ball (nb E) s0 k then of_nat (level (nb E) s0 v) else if v \<in> insert w C then of_nat (Suc k) else NULLVERT) \<and>
        (visited (verts s' ! unat v) \<longrightarrow> v \<in> ball (nb E) s0 k \<union> insert w C \<and> v \<noteq> s0) \<and>
        (v \<in> ball (nb E) s0 k \<union> insert w C \<and> v \<noteq> s0 \<longrightarrow> visited (verts s' ! unat v) \<or> BSet v \<in># P + mset nxt)"
        using tab v False w0 unfolding y by (cases "v = w") (auto simp: bfs_table_def s'(2))
    qed
    ultimately have "bfs_pool E s0 k r (insert w C) (P + mset nxt) s'"
      using sh fr lw by (simp add: bfs_pool_def s' kshape_def)
    then show ?thesis ..
  qed
qed

lemma set_pool:
  assumes "env_ok E" "s0 < total_verts E" "bfs_pool E s0 k r C (add_mset (BSet w) P) s"
  shows "bfs_pool E s0 k r C P (s\<lparr> verts := (verts s)[unat w := (verts s ! unat w)\<lparr> visited := True \<rparr>] \<rparr>)"
proof -
  let ?s = "s\<lparr> verts := (verts s)[unat w := (verts s ! unat w)\<lparr> visited := True \<rparr>] \<rparr>"
  have sh: "kshape E s" and wC: "w \<in> C" and C: "C \<subseteq> bfs_goal E s0 k - ball (nb E) s0 k"
    using assms(3) by (auto simp: bfs_pool_def bfs_marks_def bfs_todo_def)
  then have wn: "w < total_verts E" using goal_below [OF assms(1)] by auto
  have w0: "w \<noteq> s0" using wC C ball_mono [of 0 k "nb E" s0] by auto
  have lw: "unat w < length (verts s)" using sh wn by (simp add: kshape_def word_less_nat_alt)
  have y: "verts ?s ! unat v = (if v = w then (verts s ! unat w)\<lparr> visited := True \<rparr> else verts s ! unat v)" for v
    using lw by (simp add: nth_update_unat)
  have "bfs_table E s0 k C P ?s"
    unfolding bfs_table_def y using assms(3) wC w0 by (auto simp: bfs_pool_def bfs_table_def)
  then show ?thesis
    using assms(3) sh by (auto simp: bfs_pool_def bfs_marks_def bfs_todo_def kshape_def)
qed

lemma mark_pool:
  assumes "env_ok E" "s0 < total_verts E" "bfs_pool E s0 k r C (add_mset (BMark w) P) s"
  shows "bfs_pool E s0 k r C P (s\<lparr> next_frontier := mark t w (next_frontier s) \<rparr>)"
proof -
  have sh: "kshape E s" and "w \<in> C" and C: "C \<subseteq> bfs_goal E s0 k" and tab: "bfs_table E s0 k C (add_mset (BMark w) P) s"
    and mk: "bfs_marks C (add_mset (BMark w) P) s" and fr: "frontier s = frontier r" and td: "bfs_todo E s0 k C (add_mset (BMark w) P)"
    using assms(3) by (auto simp: bfs_pool_def bfs_marks_def bfs_todo_def)
  then have wn: "w < total_verts E" using goal_below [OF assms(1)] by auto
  have b: "bits_of (mark t w (next_frontier s)) = insert w (bits_of (next_frontier s))"
    using sh wn by (simp add: kshape_def bm.alpha_activate)
  have "bfs_marks C P (s\<lparr> next_frontier := mark t w (next_frontier s) \<rparr>)" using mk by (auto simp: bfs_marks_def b)
  moreover have "bfs_table E s0 k C P (s\<lparr> next_frontier := mark t w (next_frontier s) \<rparr>)" using tab by (auto simp: bfs_table_def)
  moreover have "bfs_todo E s0 k C P" using td by (auto simp: bfs_todo_def)
  ultimately show ?thesis using fr kshape_mark_next [OF sh wn, of t] by (simp add: bfs_pool_def)
qed

lemma bfs_op_keeps:
  assumes "bfs_par_inv E s0 k r (add_mset a P) s" "(s', nxt) \<in> set (bfs_exec E (of_nat (Suc k)) t a s)"
  shows "bfs_par_inv E s0 k r (P + mset nxt) s'"
proof -
  obtain C where c: "env_ok E" "s0 < total_verts E" "layer (nb E) s0 k \<noteq> {}" "bfs_pool E s0 k r C (add_mset a P) s"
    using assms(1) by (auto simp: bfs_par_inv_def)
  have "\<exists>C'. bfs_pool E s0 k r C' (P + mset nxt) s'"
  proof (cases a)
    case (BVisit v)
    then have "v \<in> layer (nb E) s0 k" using c(4) by (auto simp: bfs_pool_def bfs_todo_def)
    then have "v < total_verts E" using layer_ball ball_total [OF c(1,2)] by blast
    from take_nb [OF c(1) this] visit_pool [OF c(1,2) c(4) [unfolded BVisit]] assms(2) show ?thesis by (auto simp: BVisit)
  next
    case (BCheck w)
    have "s' = s" "nxt = (if \<not> visited (verts s ! unat w) then [BCas w] else [])" using assms(2) by (simp_all add: BCheck)
    then show ?thesis using check_pool [OF c(1,2) c(4) [unfolded BCheck]] by metis
  next
    case (BCas w)
    then show ?thesis using cas_pool [OF c(1-3)] c(4) assms(2) by blast
  next
    case (BSet w)
    then show ?thesis using set_pool [OF c(1,2) c(4) [unfolded BSet]] assms(2) by auto
  next
    case (BMark w)
    then show ?thesis using mark_pool [OF c(1,2) c(4) [unfolded BMark]] assms(2) by auto
  qed
  then show ?thesis using c(1-3) by (simp add: bfs_par_inv_def)
qed

lemma bfs_op_lowers:
  assumes "(s', nxt) \<in> set (bfs_exec E round t a s)"
  shows "bfs_mu E (P + mset nxt) s' < bfs_mu E (add_mset a P) s"
proof -
  have four: "sum_mset (image_mset (bfs_weight E) (mset (map BCheck ws))) = 4 * length ws" for ws
    by (induction ws) auto
  show ?thesis
  proof (cases a)
    case (BVisit v)
    then show ?thesis using assms four [of "take (unat (of_nat (length (nb E v)) :: u32)) (nb E v)"] by (simp add: bfs_mu_def)
  qed (use assms in \<open>auto simp: bfs_mu_def split: if_splits prod.splits\<close>)
qed

lemma bfs_pool_done:
  assumes "bfs_par_inv E s0 k r {#} s"
  shows "bfs_mid E s0 k (frontier r) (layer (nb E) s0 (Suc k)) s"
proof -
  obtain C where c: "env_ok E" "s0 < total_verts E" "bfs_pool E s0 k r C {#} s" using assms by (auto simp: bfs_par_inv_def)
  have "C = bfs_goal E s0 k - ball (nb E) s0 k" using c(3) by (auto simp: bfs_pool_def bfs_todo_def bfs_goal_def)
  also have "\<dots> = layer (nb E) s0 (Suc k)" using ball_from_layer [of "nb E" s0 k] by (auto simp: bfs_goal_def)
  finally have C: "C = layer (nb E) s0 (Suc k)" .
  have b: "bits_of (next_frontier s) = C" and p: "kshape E s" "frontier s = frontier r" "bfs_table E s0 k C {#} s"
    using c(3) by (simp_all add: bfs_pool_def bfs_marks_def)
  have tb: "v < total_verts E \<Longrightarrow> parent (verts s ! unat v) =
        (if v \<in> ball (nb E) s0 k then of_nat (level (nb E) s0 v) else if v \<in> C then of_nat (Suc k) else NULLVERT) \<and>
      (visited (verts s ! unat v) \<longleftrightarrow> v \<in> ball (nb E) s0 k \<union> C \<and> v \<noteq> s0)" for v
    using p(3) unfolding bfs_table_def by (metis empty_iff set_mset_empty)
  show ?thesis unfolding C [symmetric] bfs_mid_def using b p(1,2) tb by blast
qed

definition bfs_between :: "run_env \<Rightarrow> u32 \<Rightarrow> nat \<Rightarrow> bfs_vertex kstate \<Rightarrow> bool" where
  "bfs_between E s0 k s \<longleftrightarrow> env_ok E \<and> s0 < total_verts E \<and> bfs_inv E s0 k s \<and> k \<le> unat (total_verts E)"

lemma bfs_opens:
  assumes "bfs_between E s0 k s" "\<not> is_empty (frontier s)" "shares E (bits_of (frontier s)) vss"
  shows "bfs_par_inv E s0 k s (image_mset BVisit (mset (concat vss))) s"
proof -
  let ?P = "image_mset BVisit (mset (concat vss))"
  have e: "env_ok E" "s0 < total_verts E" and m: "bfs_mid E s0 k (frontier s) {} s" and l: "bits_of (frontier s) = layer (nb E) s0 k"
    using assms(1) by (auto simp: bfs_between_def bfs_inv_def)
  have ne: "layer (nb E) s0 k \<noteq> {}" using assms(2) l kshape_is_empty [of E s] m by (auto simp: bfs_mid_def)
  have "bfs_goal E s0 k \<subseteq> (\<Union>u \<in> set (concat vss). set (nb E u))"
    using shares_edges [OF assms(3)] by (simp add: l bfs_goal_def)
  moreover have "{v. BVisit v \<in># ?P} = set (concat vss)" "{w. BCheck w \<in># ?P \<or> BCas w \<in># ?P} = {}" by auto
  moreover have "set (concat vss) \<subseteq> layer (nb E) s0 k" using assms(3) l by (simp add: shares_def)
  ultimately have "bfs_todo E s0 k {} ?P" unfolding bfs_todo_def by auto
  then have "bfs_pool E s0 k s {} ?P s" using m by (auto simp: bfs_pool_def bfs_mid_def bfs_table_def bfs_marks_def)
  then show ?thesis using e ne by (auto simp: bfs_par_inv_def)
qed

lemma bfs_closes:
  assumes "bfs_between E s0 k r" "\<not> is_empty (frontier r)" "bfs_par_inv E s0 k r {#} s"
  shows "bfs_between E s0 (Suc k) (swap_frontiers s) \<and> unat (total_verts E) - Suc k < unat (total_verts E) - k"
proof -
  have e: "env_ok E" "s0 < total_verts E" "layer (nb E) s0 k \<noteq> {}" using assms(3) by (auto simp: bfs_par_inv_def)
  have "bfs_inv E s0 (Suc k) (swap_frontiers s)" using bfs_mid_swap [OF bfs_pool_done [OF assms(3)]] .
  then show ?thesis using e round_bound(1) [OF e] by (auto simp: bfs_between_def)
qed

interpretation bfs_par: parallel_kernel E "\<lambda>k s. \<not> is_empty (frontier s)" "\<lambda>k. bfs_exec E (of_nat k)" BVisit swap_frontiers
    "bfs_between E s0" "bfs_par_inv E s0" "bfs_mu E" "\<lambda>k s. unat (total_verts E) - k" for E s0
proof unfold_locales
  show "bfs_exec E (of_nat (Suc k)) t a s \<noteq> []" for k t a s
    by (cases a) (auto simp: split_beta)
  show "bfs_par_inv E s0 k r (P + mset nxt) s'"
    if "bfs_par_inv E s0 k r (add_mset a P) s" "(s', nxt) \<in> set (bfs_exec E (of_nat (Suc k)) t a s)" for k r a P s s' nxt t
    using that by (rule bfs_op_keeps)
  show "bfs_mu E (P + mset nxt) s' < bfs_mu E (add_mset a P) s"
    if "(s', nxt) \<in> set (bfs_exec E (of_nat (Suc k)) t a s)" for k a P s s' nxt t
    using that by (rule bfs_op_lowers)
  show "env_ok E \<and> kshape E s" if "bfs_between E s0 k s" for k s
    using that by (simp add: bfs_between_def bfs_inv_def bfs_mid_def)
qed (fact bfs_opens bfs_closes)+

text \<open>
  Executed without interference, the micro-operations of one call are \<open>bfs_push\<close>.
\<close>

lemma bfs_alone:
  assumes "Q ! t = map BCheck ws @ rest" "t < length Q" "\<forall>w \<in> set ws. unat w < length (verts s)"
  shows "(par_step (bfs_exec E round))\<^sup>*\<^sup>* (Q, s) (Q[t := rest], fold (bfs_edge round t) ws s)"
  using assms
proof (induction ws arbitrary: Q s)
  case Nil
  then have "Q[t := rest] = Q" by (metis append_Nil list.map(1) list_update_id)
  then show ?case by simp
next
  case (Cons w ws)
  let ?x = "verts s ! unat w" and ?R = "(par_step (bfs_exec E round))\<^sup>*\<^sup>*" and ?tl = "map BCheck ws @ rest"
  have step: "par_step (bfs_exec E round) (Q[t := a # b], s1) (Q[t := nxt @ b], s2)"
    if "bfs_exec E round t a s1 = [(s2, nxt)]" for a b s1 s2 nxt
    using run_op [of t "Q[t := a # b]" a b s2 nxt "bfs_exec E round" s1] that Cons.prems(2) by simp
  have Q: "Q = Q[t := BCheck w # ?tl]" using Cons.prems(1) by (metis list_update_id list.map(2) append_Cons)
  have "?R (Q, s) (Q[t := ?tl], bfs_edge round t w s)"
  proof (cases "visited ?x")
    case True
    then have "par_step (bfs_exec E round) (Q[t := BCheck w # ?tl], s) (Q[t := [] @ ?tl], s)" by (intro step) simp
    moreover have "bfs_edge round t w s = s" using True by (simp add: bfs_edge_def)
    ultimately show ?thesis using Q by auto
  next
    case False
    have 1: "par_step (bfs_exec E round) (Q[t := BCheck w # ?tl], s) (Q[t := [BCas w] @ ?tl], s)" using False by (intro step) simp
    show ?thesis
    proof (cases "parent ?x = NULLVERT")
      case True
      let ?s2 = "s\<lparr> verts := (verts s)[unat w := ?x\<lparr> parent := round \<rparr>] \<rparr>"
      let ?s3 = "s\<lparr> verts := (verts s)[unat w := ?x\<lparr> parent := round, visited := True \<rparr>] \<rparr>"
      let ?s4 = "?s3\<lparr> next_frontier := mark t w (next_frontier ?s3) \<rparr>"
      have "par_step (bfs_exec E round) (Q[t := BCas w # ?tl], s) (Q[t := [BSet w, BMark w] @ ?tl], ?s2)"
        using True by (intro step) (simp add: bfs_update_atomic_def)
      moreover have "par_step (bfs_exec E round) (Q[t := BSet w # BMark w # ?tl], ?s2) (Q[t := [] @ BMark w # ?tl], ?s3)"
        using Cons.prems(3) by (intro step) simp
      moreover have "par_step (bfs_exec E round) (Q[t := BMark w # ?tl], ?s3) (Q[t := [] @ ?tl], ?s4)" by (intro step) simp
      moreover have "bfs_edge round t w s = ?s4" using False True by (simp add: bfs_edge_def bfs_update_atomic_def Let_def)
      ultimately show ?thesis using 1 Q by (auto intro: converse_rtranclp_into_rtranclp)
    next
      case parent: False
      have "par_step (bfs_exec E round) (Q[t := BCas w # ?tl], s) (Q[t := [] @ ?tl], bfs_edge round t w s)"
        using parent False by (intro step) (simp add: bfs_edge_def bfs_update_atomic_def)
      then show ?thesis using 1 Q by (auto intro: converse_rtranclp_into_rtranclp)
    qed
  qed
  moreover have "?R (Q[t := ?tl], bfs_edge round t w s) (Q[t := ?tl, t := rest], fold (bfs_edge round t) ws (bfs_edge round t w s))"
    using Cons.prems by (intro Cons.IH) (auto simp: bfs_edge_def bfs_update_atomic_def Let_def)
  ultimately show ?case by (simp add: rtranclp_trans)
qed

subsection \<open>Property\<close>

text \<open>
  C6. Breadth-first search is correct under every interleaving of its callbacks. Whatever vertices
  the workers are given and however the single loads, stores, compare-and-exchanges and bit settings
  of their callbacks interleave, no run goes on forever; a run that cannot go on has left the loop,
  after at most as many rounds as there are vertices, and the vertex table holds the distances:
  the races on \<open>visited\<close> and \<open>parent\<close> lose no vertex and give none a wrong round.
\<close>

theorem bfs_parallel_correct:
  assumes "env_ok E" "fresh E bfs_default s" "v0 < total_verts E"
  shows "ends (bfs_kernel_step E) (Between, 0, bfs_init t v0 (total_verts E) s) \<and>
    (\<forall>c. (bfs_kernel_step E)\<^sup>*\<^sup>* (Between, 0, bfs_init t v0 (total_verts E) s) c \<longrightarrow> (\<nexists>d. bfs_kernel_step E c d) \<longrightarrow>
       (\<exists>k s'. c = (Between, k, s') \<and> k \<le> unat (total_verts E) \<and> is_empty (frontier s') \<and>
          (\<forall>v. v < total_verts E \<longrightarrow>
             (let x = verts s' ! unat v in
              if (v0, v) \<in> (edge_rel E)\<^sup>*
              then unat (parent x) = (LEAST k. (v0, v) \<in> edge_rel E ^^ k) \<and> (visited x \<longleftrightarrow> v \<noteq> v0)
              else parent x = NULLVERT \<and> \<not> visited x))))"
proof -
  have b: "bfs_between E v0 0 (bfs_init t v0 (total_verts E) s)"
    using assms bfs_init_inv [OF assms(2,3)] by (simp add: bfs_between_def)
  note total = bfs_par.kernel_total [OF b, folded bfs_kernel_step_def]
  have "\<exists>k s'. c = (Between, k, s') \<and> k \<le> unat (total_verts E) \<and> is_empty (frontier s') \<and> bfs_distances E v0 (of_nat k) s'"
    if run: "(bfs_kernel_step E)\<^sup>*\<^sup>* (Between, 0, bfs_init t v0 (total_verts E) s) c" and stuck: "\<nexists>d. bfs_kernel_step E c d" for c
  proof -
    obtain k s' where c: "c = (Between, k, s')" "bfs_between E v0 k s'" "is_empty (frontier s')"
      using total(2) [OF run] stuck by blast
    then have i: "bfs_inv E v0 k s'" "k \<le> unat (total_verts E)" by (simp_all add: bfs_between_def)
    then have "layer (nb E) v0 k = {}" using c(3) kshape_is_empty [of E s'] by (simp add: bfs_inv_def bfs_mid_def)
    from bfs_inv_distances(1) [OF assms(1) i(1) this i(2)] c(1,3) i(2) show ?thesis by blast
  qed
  then show ?thesis using total(1) unfolding bfs_distances_def Let_def by (fastforce split: if_splits)
qed

theorem bfs_parallel_correct_witness:
  "ends (bfs_kernel_step (demo_env 1)) (Between, 0, bfs_init 0 0 (total_verts (demo_env 1)) (demo_kstate bfs_default))"
  using bfs_parallel_correct [OF demo_env_ok demo_fresh, of 0 1 0] by simp

end
