(* ===== verification/CC.thy ===== *)
theory CC
  imports Graph_Kernel "HOL-Library.Product_Lexorder"
begin

text \<open>
  Connected components by label propagation, \<open>src/src/connected_components.hpp\<close>, with the summary
  it prints. \<open>cc_correct\<close> shows that the kernel ends with the smallest vertex that reaches \<open>v\<close> as
  the label of \<open>v\<close>; on a symmetric graph that is the representative of the component.
\<close>

subsection \<open>The kernel\<close>

record cc_vertex =
  cc_id :: u32

definition should_update :: "u32 \<Rightarrow> cc_vertex \<Rightarrow> bool" where
  "should_update proposed_label x \<longleftrightarrow> proposed_label < cc_id x"

text \<open>
  The compare-and-exchange loop, run without interference: \<open>compare_exchange_weak\<close> may fail
  spuriously, here \<open>spurious\<close> times, and then tries again with the reloaded value.
\<close>

fun cc_update_atomic :: "nat \<Rightarrow> u32 \<Rightarrow> cc_vertex \<Rightarrow> bool \<times> cc_vertex" where
  "cc_update_atomic spurious proposed_label x =
     (if should_update proposed_label x then
        (case spurious of
           0 \<Rightarrow> (True, x\<lparr> cc_id := proposed_label \<rparr>)
         | Suc m \<Rightarrow> cc_update_atomic m proposed_label x)
      else (False, x))"

declare cc_update_atomic.simps [simp del]

definition cc_edge :: "(u32 \<Rightarrow> nat) \<Rightarrow> u32 \<Rightarrow> worker \<Rightarrow> u32 \<Rightarrow> cc_vertex kstate \<Rightarrow> cc_vertex kstate" where
  "cc_edge spurious my_id t w s =
     (let (won, x) = cc_update_atomic (spurious w) my_id (verts s ! unat w);
          s1 = s\<lparr> verts := (verts s)[unat w := x] \<rparr>
      in if won then s1\<lparr> next_frontier := mark t w (next_frontier s1) \<rparr> else s1)"

definition CC_push :: "(u32 \<Rightarrow> nat) \<Rightarrow> worker \<Rightarrow> cc_vertex kstate callback" where
  "CC_push spurious t v edges n s =
     (let my_id = cc_id (verts s ! unat v) in fold (cc_edge spurious my_id t) (take (unat n) edges) s)"

partial_function (option) cc_loop ::
    "run_env \<Rightarrow> (u32 \<Rightarrow> nat) \<Rightarrow> nat \<Rightarrow> cc_vertex kstate pack_state \<Rightarrow> (abort + cc_vertex kstate pack_state) option" where
  "cc_loop E spurious c st =
     (if \<not> is_empty (frontier (cb st)) then
        Option.bind (for_each_active E c (frontier (cb st)) 0 (total_verts E) (CC_push spurious) st)
          (\<lambda>r. case r of
             Inl a \<Rightarrow> Some (Inl a)
           | Inr st1 \<Rightarrow> cc_loop E spurious (Suc c) (st1\<lparr> cb := swap_frontiers (cb st1) \<rparr>))
      else Some (Inr st))"

definition cc_init :: "run_env \<Rightarrow> worker \<Rightarrow> cc_vertex kstate \<Rightarrow> cc_vertex kstate" where
  "cc_init E t s =
     (let s1 = s\<lparr> verts := fold (\<lambda>v vs. vs[unat v := (vs ! unat v)\<lparr> cc_id := v \<rparr>]) (u32_range 0 (total_verts E)) (verts s) \<rparr>
      in s1\<lparr> frontier := set_all t (frontier s1) \<rparr>)"

definition cc_kernel ::
    "run_env \<Rightarrow> (u32 \<Rightarrow> nat) \<Rightarrow> worker \<Rightarrow> cc_vertex kstate pack_state \<Rightarrow> (abort + cc_vertex kstate pack_state) option" where
  "cc_kernel E spurious t st = cc_loop E spurious 0 (st\<lparr> cb := cc_init E t (cb st) \<rparr>)"

text \<open>
  The summary: the table of component sizes, sorted by size, and the numbers printed (all
  components, the non-trivial ones, the largest size). Its two counters are of type \<open>int\<close>. \<open>None\<close> is
  undefined behaviour: an \<open>int\<close> that overflows, or \<open>v.rbegin()\<close> dereferenced with no vertex at all.
\<close>

definition INT_MAX :: int where
  "INT_MAX = 2 ^ 31 - 1"

definition int_add :: "int \<Rightarrow> int \<Rightarrow> int option" where
  "int_add x y = (if x + y \<le> INT_MAX \<and> - INT_MAX - 1 \<le> x + y then Some (x + y) else None)"

fun tally :: "(u32 \<times> u32) list \<Rightarrow> int \<Rightarrow> int \<Rightarrow> (int \<times> int) option" where
  "tally [] non_trivial trivial_comps = Some (non_trivial, trivial_comps)"
| "tally ((n, _) # it) non_trivial trivial_comps =
     (if n > 1 then Option.bind (int_add non_trivial 1) (\<lambda>non_trivial. tally it non_trivial trivial_comps)
      else Option.bind (int_add trivial_comps 1) (\<lambda>trivial_comps. tally it non_trivial trivial_comps))"

fun count_comp :: "u32 \<Rightarrow> (u32 \<times> u32) list \<Rightarrow> (u32 \<times> u32) list" where
  "count_comp r [] = [(r, 1)]"
| "count_comp r ((a, c) # m) = (if a = r then (a, c + 1) # m else (a, c) # count_comp r m)"

definition comp_counts :: "cc_vertex list \<Rightarrow> u32 \<Rightarrow> (u32 \<times> u32) list" where
  "comp_counts vt num_verts = fold (\<lambda>v. count_comp (cc_id (vt ! unat v))) (u32_range 0 num_verts) []"

definition print_top_n :: "cc_vertex list \<Rightarrow> u32 \<Rightarrow> (int \<times> int \<times> u32) option" where
  "print_top_n vt num_verts =
     (let v = sort (map (\<lambda>(rep, n). (n, rep)) (comp_counts vt num_verts))
      in Option.bind (tally (rev v) 0 0) (\<lambda>(non_trivial, trivial_comps).
         Option.bind (int_add non_trivial trivial_comps) (\<lambda>total.
         if v = [] then None else Some (total, non_trivial, fst (last v)))))"

subsection \<open>Invariants\<close>

lemma cc_update_atomic_result:
  "cc_update_atomic m p x = (if p < cc_id x then (True, x\<lparr> cc_id := p \<rparr>) else (False, x))"
  by (induction m) (auto simp: cc_update_atomic.simps [of _ p x] should_update_def)

definition idv :: "cc_vertex kstate \<Rightarrow> u32 \<Rightarrow> u32" where
  "idv s v = cc_id (verts s ! unat v)"

definition label_sum :: "run_env \<Rightarrow> cc_vertex kstate \<Rightarrow> nat" where
  "label_sum E s = (\<Sum>v | v < total_verts E. unat (idv s v))"

text \<open>Labels are vertices that reach the vertex, and never larger than it.\<close>

definition labels_ok :: "run_env \<Rightarrow> cc_vertex kstate \<Rightarrow> bool" where
  "labels_ok E s \<longleftrightarrow> (\<forall>v. v < total_verts E \<longrightarrow> idv s v \<le> v \<and> (idv s v, v) \<in> (edge_rel E)\<^sup>*)"

text \<open>The label of \<open>v\<close> has reached its successors.\<close>

definition settled :: "run_env \<Rightarrow> cc_vertex kstate \<Rightarrow> u32 \<Rightarrow> bool" where
  "settled E s v \<longleftrightarrow> (\<forall>w \<in> set (nb E v). idv s w \<le> idv s v)"

definition cc_mid :: "run_env \<Rightarrow> Bitmap \<Rightarrow> u32 set \<Rightarrow> nat \<Rightarrow> cc_vertex kstate \<Rightarrow> bool" where
  "cc_mid E fr U m s \<longleftrightarrow> kshape E s \<and> frontier s = fr \<and> labels_ok E s \<and>
     (\<forall>v. v < total_verts E \<longrightarrow> v \<in> U \<or> v \<in> bits_of (next_frontier s) \<or> settled E s v) \<and>
     label_sum E s \<le> m \<and> (bits_of (next_frontier s) \<noteq> {} \<longrightarrow> label_sum E s < m)"

lemma cc_edge_state:
  assumes "kshape E s" "w < total_verts E"
  shows "kshape E (cc_edge sp p t w s)" "frontier (cc_edge sp p t w s) = frontier s"
    and "idv (cc_edge sp p t w s) v = (if v = w then min p (idv s w) else idv s v)"
    and "bits_of (next_frontier (cc_edge sp p t w s)) =
      bits_of (next_frontier s) \<union> (if p < idv s w then {w} else {})"
proof -
  have l: "unat w < length (verts s)" using assms by (simp add: kshape_def word_less_nat_alt)
  show "kshape E (cc_edge sp p t w s)"
    using assms by (simp add: cc_edge_def cc_update_atomic_result kshape_def mark_inv)
  show "frontier (cc_edge sp p t w s) = frontier s"
    by (simp add: cc_edge_def cc_update_atomic_result)
  show "idv (cc_edge sp p t w s) v = (if v = w then min p (idv s w) else idv s v)"
    using l by (auto simp: cc_edge_def cc_update_atomic_result idv_def nth_update_unat min_def)
  show "bits_of (next_frontier (cc_edge sp p t w s)) =
      bits_of (next_frontier s) \<union> (if p < idv s w then {w} else {})"
    using assms by (simp add: cc_edge_def cc_update_atomic_result idv_def kshape_def bm.alpha_activate)
qed

lemma cc_edge_mid:
  assumes "env_ok E" "cc_mid E fr U m s" "v \<in> U" "v < total_verts E" "w \<in> set (nb E v)"
  shows "cc_mid E fr U m (cc_edge sp (idv s v) t w s)" "idv (cc_edge sp (idv s v) t w s) v = idv s v"
    "idv (cc_edge sp (idv s v) t w s) w \<le> idv s v" "\<And>u. idv (cc_edge sp (idv s v) t w s) u \<le> idv s u"
proof -
  let ?s = "cc_edge sp (idv s v) t w s"
  have w: "w < total_verts E" using nb_bound [OF assms(1,5)] .
  have sh: "kshape E s" "frontier s = fr" and lo: "labels_ok E s" and sum: "label_sum E s \<le> m"
    "bits_of (next_frontier s) \<noteq> {} \<Longrightarrow> label_sum E s < m"
    and se: "\<And>u. u < total_verts E \<Longrightarrow> u \<in> U \<or> u \<in> bits_of (next_frontier s) \<or> settled E s u"
    using assms(2) by (auto simp: cc_mid_def)
  note st = cc_edge_state [OF sh(1) w, of sp "idv s v" t]
  show v: "idv ?s v = idv s v" "idv ?s w \<le> idv s v" and le: "idv ?s u \<le> idv s u" for u
    by (auto simp: st(3))
  have "(v, w) \<in> edge_rel E" using assms(4,5) by (simp add: edge_rel_def)
  then have reach: "(idv s v, w) \<in> (edge_rel E)\<^sup>*"
    using lo assms(4) by (auto simp: labels_ok_def intro: rtrancl_into_rtrancl)
  have lo': "labels_ok E ?s"
    unfolding labels_ok_def
  proof (intro allI impI conjI)
    fix u assume u: "u < total_verts E"
    show "idv ?s u \<le> u" using lo u order_trans [OF le] by (auto simp: labels_ok_def)
    show "(idv ?s u, u) \<in> (edge_rel E)\<^sup>*"
      using lo u w reach by (auto simp: labels_ok_def st(3) min_def)
  qed
  have sum': "label_sum E ?s \<le> label_sum E s"
    unfolding label_sum_def using le by (intro sum_mono) (simp add: word_le_nat_alt)
  have less: "label_sum E ?s < label_sum E s" if "idv s v < idv s w"
    unfolding label_sum_def using le w that
    by (intro sum_strict_mono_ex1) (auto simp: word_le_nat_alt [symmetric] word_less_nat_alt [symmetric] st(3) intro!: exI [of _ w])
  have se': "u \<in> U \<or> u \<in> bits_of (next_frontier ?s) \<or> settled E ?s u" if u: "u < total_verts E" for u
  proof (cases "u \<in> U \<or> u \<in> bits_of (next_frontier ?s)")
    case False
    then have "settled E s u" "idv ?s u = idv s u" using se [OF u] by (auto simp: st(3,4) split: if_splits)
    then show ?thesis using le unfolding settled_def by (metis order_trans)
  qed blast
  have "label_sum E ?s < m" if "bits_of (next_frontier ?s) \<noteq> {}"
  proof (cases "idv s v < idv s w")
    case False
    then have "bits_of (next_frontier s) \<noteq> {}" using that by (simp add: st(4))
    then show ?thesis using sum(2) sum' by simp
  qed (use less sum(1) in simp)
  then show "cc_mid E fr U m ?s"
    unfolding cc_mid_def using st(1,2) sh(2) lo' se' sum' sum(1) by simp
qed

lemma cc_fold_mid:
  assumes "env_ok E" "v \<in> U" "v < total_verts E" "set ws \<subseteq> set (nb E v)" "cc_mid E fr U m s" "idv s v = p"
  shows "cc_mid E fr U m (fold (cc_edge sp p t) ws s) \<and> idv (fold (cc_edge sp p t) ws s) v = p \<and>
    (\<forall>w \<in> set ws. idv (fold (cc_edge sp p t) ws s) w \<le> p) \<and> (\<forall>u. idv (fold (cc_edge sp p t) ws s) u \<le> idv s u)"
  using assms(4-6)
proof (induction ws arbitrary: s)
  case (Cons w ws)
  have w: "w \<in> set (nb E v)" "set ws \<subseteq> set (nb E v)" using Cons.prems(1) by auto
  note e = cc_edge_mid [OF assms(1) Cons.prems(2) assms(2,3) w(1), of sp t, unfolded Cons.prems(3)]
  from Cons.IH [OF w(2) e(1) e(2)]
  show ?case using e(3,4) order_trans by fastforce
qed simp

lemma cc_push_mid:
  assumes "env_ok E" "cc_mid E fr U m s" "v \<in> U" "v < total_verts E"
  shows "cc_mid E fr (U - {v}) m (CC_push sp t v (nb E v) (of_nat (length (nb E v))) s)"
proof -
  let ?s = "fold (cc_edge sp (idv s v) t) (nb E v) s"
  have e: "CC_push sp t v (nb E v) (of_nat (length (nb E v))) s = ?s"
    by (simp only: CC_push_def take_nb [OF assms(1,4)] Let_def idv_def)
  have f: "cc_mid E fr U m ?s" "idv ?s v = idv s v" "\<forall>w \<in> set (nb E v). idv ?s w \<le> idv s v"
    using cc_fold_mid [OF assms(1,3,4) order_refl assms(2) refl, of sp t] by auto
  then have "settled E ?s v" by (simp add: settled_def)
  with f(1) show ?thesis unfolding e cc_mid_def by blast
qed

text \<open>Between two rounds.\<close>

definition cc_inv :: "run_env \<Rightarrow> cc_vertex kstate \<Rightarrow> bool" where
  "cc_inv E s \<longleftrightarrow> kshape E s \<and> labels_ok E s \<and> bits_of (next_frontier s) = {} \<and>
     (\<forall>v. v < total_verts E \<longrightarrow> v \<in> bits_of (frontier s) \<or> settled E s v)"

lemma idv_swap [simp]: "idv (swap_frontiers s) = idv s"
  by (simp add: fun_eq_iff idv_def)

lemma cc_swap [simp]: "labels_ok E (swap_frontiers s) = labels_ok E s" "settled E (swap_frontiers s) = settled E s"
  "label_sum E (swap_frontiers s) = label_sum E s"
  by (simp_all add: labels_ok_def settled_def label_sum_def fun_eq_iff)

lemma cc_round:
  assumes "env_ok E" "st_ok E st" "cc_inv E (cb st)"
  obtains st' where
    "for_each_active E c (frontier (cb st)) 0 (total_verts E) (CC_push sp) st = Some (Inr st')"
    "st_ok E st'" "cc_inv E (swap_frontiers (cb st'))" "label_sum E (cb st') \<le> label_sum E (cb st)"
    "bits_of (next_frontier (cb st')) \<noteq> {} \<Longrightarrow> label_sum E (cb st') < label_sum E (cb st)"
proof -
  let ?fr = "frontier (cb st)" let ?F = "bits_of ?fr" and ?m = "label_sum E (cb st)"
  have sh: "kshape E (cb st)" using assms(3) by (simp add: cc_inv_def)
  have mid: "cc_mid E ?fr (?F - {}) ?m (cb st)" using assms(3) by (auto simp: cc_inv_def cc_mid_def)
  have step: "cc_mid E ?fr (?F - insert v D) ?m (CC_push sp t v (nb E v) (of_nat (length (nb E v))) s)"
    if "v \<in> ?F" "v \<notin> D" "cc_mid E ?fr (?F - D) ?m s" for D t v s
    using cc_push_mid [OF assms(1) that(3), of v sp t] that kshape_bits_below [OF sh that(1)]
    by (simp add: Diff_insert [of ?F v D])
  obtain st' D where o: "for_each_active E c ?fr 0 (total_verts E) (CC_push sp) st = Some (Inr st')"
    "st_ok E st'" "cc_mid E ?fr (?F - D) ?m (cb st')" "D \<subseteq> ?F" "\<forall>v \<in> ?F - D. nb E v = []"
    using round_rule [where P = "\<lambda>D. cc_mid E ?fr (?F - D) ?m", OF assms(1,2) sh mid, of "CC_push sp" c] step by metis
  have sh': "kshape E (cb st')" using o(3) by (simp add: cc_mid_def)
  have "settled E (cb st') v" if "v \<in> ?F - D" for v using o(5) that by (simp add: settled_def)
  then have "v \<in> bits_of (next_frontier (cb st')) \<or> settled E (cb st') v" if "v < total_verts E" for v
    using o(3) that by (auto simp: cc_mid_def)
  then have "cc_inv E (swap_frontiers (cb st'))"
    using o(3) kshape_swap [OF sh'] swap_frontiers_bits [OF sh'] by (simp add: cc_inv_def cc_mid_def)
  with o show ?thesis by (intro that [of st']) (auto simp: cc_mid_def)
qed

lemma cc_loop_returns:
  assumes "env_ok E" "st_ok E st" "cc_inv E (cb st)"
  shows "\<exists>st'. cc_loop E sp c st = Some (Inr st') \<and> cc_inv E (cb st') \<and> bits_of (frontier (cb st')) = {}"
  using assms(2,3)
proof (induction "2 * label_sum E (cb st) + of_bool (bits_of (frontier (cb st)) \<noteq> {})" arbitrary: c st rule: less_induct)
  case less
  let ?F = "bits_of (frontier (cb st))"
  have sh: "kshape E (cb st)" using less.prems(2) by (simp add: cc_inv_def)
  show ?case
  proof (cases "?F = {}")
    case True
    then have "cc_loop E sp c st = Some (Inr st)"
      using kshape_is_empty [OF sh] by (subst cc_loop.simps) simp
    then show ?thesis using True less.prems by blast
  next
    case False
    obtain st1 where st1: "for_each_active E c (frontier (cb st)) 0 (total_verts E) (CC_push sp) st = Some (Inr st1)"
      "st_ok E st1" "cc_inv E (swap_frontiers (cb st1))" "label_sum E (cb st1) \<le> label_sum E (cb st)"
      "bits_of (next_frontier (cb st1)) \<noteq> {} \<Longrightarrow> label_sum E (cb st1) < label_sum E (cb st)"
      using cc_round [OF assms(1) less.prems] by blast
    let ?st2 = "st1\<lparr> cb := swap_frontiers (cb st1) \<rparr>"
    have "bits_of (frontier (swap_frontiers (cb st1))) = bits_of (next_frontier (cb st1))"
      by (simp add: swap_frontiers_def)
    then have dec: "2 * label_sum E (cb ?st2) + of_bool (bits_of (frontier (cb ?st2)) \<noteq> {})
        < 2 * label_sum E (cb st) + of_bool (?F \<noteq> {})"
      using False st1(4,5) by (cases "bits_of (next_frontier (cb st1)) = {}") auto
    have "cc_loop E sp c st = cc_loop E sp (Suc c) ?st2"
      using kshape_is_empty [OF sh] False st1(1) by (subst cc_loop.simps) simp
    then show ?thesis using less.hyps [OF dec, of "Suc c"] st1(2,3) by simp
  qed
qed

lemma cc_init_ids:
  assumes "\<forall>v \<in> set us. unat v < length vs"
  shows "length (fold (\<lambda>v vs. vs[unat v := (vs ! unat v)\<lparr> cc_id := v \<rparr>]) us vs) = length vs \<and>
    (\<forall>v. unat v < length vs \<longrightarrow>
       cc_id (fold (\<lambda>v vs. vs[unat v := (vs ! unat v)\<lparr> cc_id := v \<rparr>]) us vs ! unat v) =
       (if v \<in> set us then v else cc_id (vs ! unat v)))"
  using assms
proof (induction us arbitrary: vs)
  case (Cons u us)
  then have u: "unat u < length vs" by simp
  show ?case using Cons.IH [of "vs[unat u := (vs ! unat u)\<lparr> cc_id := u \<rparr>]"] Cons.prems u
    by (auto simp: nth_update_unat)
qed simp

lemma cc_init_inv:
  assumes "fresh E x s"
  shows "cc_inv E (cc_init E t s)"
proof -
  let ?n = "total_verts E"
  let ?vs = "fold (\<lambda>v vs. vs[unat v := (vs ! unat v)\<lparr> cc_id := v \<rparr>]) (u32_range 0 ?n) (verts s)"
  have f: "kshape E s" "length (verts s) = unat ?n" "bits_of (next_frontier s) = {}" "frontier_size (frontier s) = []"
    "bitmap_inv (frontier s)" "bm_size (frontier s) = ?n"
    using assms by (auto simp: fresh_def kshape_def)
  have vs: "length ?vs = unat ?n" "\<And>v. v < ?n \<Longrightarrow> cc_id (?vs ! unat v) = v"
    using cc_init_ids [of "u32_range 0 ?n" "verts s"] f(2) by (auto simp: word_less_nat_alt)
  have fr: "bitmap_inv (set_all t (frontier s))" "bits_of (set_all t (frontier s)) = {v. v < ?n}"
    using f by (simp_all add: set_all_inv bits_of_set_all bitmap_inv_def [of "frontier s"])
  show ?thesis
    unfolding cc_inv_def
  proof (intro conjI)
    show "kshape E (cc_init E t s)" using f(1,6) vs(1) fr(1) by (simp add: kshape_def cc_init_def Let_def)
    show "labels_ok E (cc_init E t s)" using vs(2) by (simp add: labels_ok_def idv_def cc_init_def Let_def)
    show "bits_of (next_frontier (cc_init E t s)) = {}" using f(3) by (simp add: cc_init_def Let_def)
    show "\<forall>v < ?n. v \<in> bits_of (frontier (cc_init E t s)) \<or> settled E (cc_init E t s) v"
      using fr(2) by (simp add: cc_init_def Let_def)
  qed
qed

lemma settled_rtrancl:
  assumes "\<And>v. v < total_verts E \<Longrightarrow> settled E s v" "(u, v) \<in> (edge_rel E)\<^sup>*"
  shows "idv s v \<le> idv s u"
  using assms(2)
proof (induction rule: rtrancl_induct)
  case (step y z)
  then have "idv s z \<le> idv s y" using assms(1) [of y] by (auto simp: edge_rel_def settled_def)
  then show ?case using step.IH by simp
qed simp

text \<open>With an empty frontier every label is the smallest vertex that reaches the vertex.\<close>

lemma cc_inv_labels:
  assumes "cc_inv E s" "bits_of (frontier s) = {}"
  shows "\<And>v. v < total_verts E \<Longrightarrow> idv s v = Min {u. u < total_verts E \<and> (u, v) \<in> (edge_rel E)\<^sup>*}"
    and "\<And>u v. sym (edge_rel E) \<Longrightarrow> u < total_verts E \<Longrightarrow> v < total_verts E \<Longrightarrow>
      idv s u = idv s v \<longleftrightarrow> (u, v) \<in> (edge_rel E)\<^sup>*"
proof -
  let ?n = "total_verts E" and ?R = "(edge_rel E)\<^sup>*" and ?i = "idv s"
  have lo: "?i v \<le> v" "(?i v, v) \<in> ?R" if "v < ?n" for v using assms(1) that by (auto simp: cc_inv_def labels_ok_def)
  have se: "settled E s v" if "v < ?n" for v using assms that by (auto simp: cc_inv_def)
  show "?i v = Min {u. u < ?n \<and> (u, v) \<in> ?R}" if v: "v < ?n" for v
  proof (rule Min_eqI [symmetric])
    show "finite {u. u < ?n \<and> (u, v) \<in> ?R}" by (rule finite_subset [OF subset_UNIV]) simp
    show "?i v \<le> y" if "y \<in> {u. u < ?n \<and> (u, v) \<in> ?R}" for y
      using settled_rtrancl [OF se] lo(1) [of y] that by (auto intro: order_trans)
    show "?i v \<in> {u. u < ?n \<and> (u, v) \<in> ?R}"
      using lo [OF v] v by (auto intro: order_le_less_trans)
  qed
  show "?i u = ?i v \<longleftrightarrow> (u, v) \<in> ?R" if "sym (edge_rel E)" "u < ?n" "v < ?n" for u v
  proof
    have sy: "sym ?R" using that(1) by (rule sym_rtrancl)
    show "(u, v) \<in> ?R" if "?i u = ?i v"
      using lo(2) [OF \<open>u < ?n\<close>] lo(2) [OF \<open>v < ?n\<close>] that sy by (metis rtrancl_trans symD)
    show "?i u = ?i v" if "(u, v) \<in> ?R"
      using settled_rtrancl [OF se that] settled_rtrancl [OF se symD [OF sy that]] by simp
  qed
qed

subsection \<open>Properties\<close>

text \<open>
  C13. Label propagation is correct and terminates. On any graph the kernel returns, and the label
  of every vertex \<open>v\<close> is the smallest vertex from which \<open>v\<close> can be reached; so on a symmetric graph
  two vertices have the same label exactly when they are connected.
\<close>

theorem cc_correct:
  assumes "env_ok E" "st_ok E st" "fresh E x (cb st)"
  shows "\<exists>st'. cc_kernel E spurious t st = Some (Inr st') \<and>
    (\<forall>v. v < total_verts E \<longrightarrow>
       cc_id (verts (cb st') ! unat v) = Min {u. u < total_verts E \<and> (u, v) \<in> (edge_rel E)\<^sup>*}) \<and>
    (sym (edge_rel E) \<longrightarrow> (\<forall>u v. u < total_verts E \<longrightarrow> v < total_verts E \<longrightarrow>
       (cc_id (verts (cb st') ! unat u) = cc_id (verts (cb st') ! unat v) \<longleftrightarrow> (u, v) \<in> (edge_rel E)\<^sup>*)))"
proof -
  obtain st' where r: "cc_kernel E spurious t st = Some (Inr st')" "cc_inv E (cb st')" "bits_of (frontier (cb st')) = {}"
    using cc_loop_returns [OF assms(1), of "st\<lparr> cb := cc_init E t (cb st) \<rparr>" spurious 0]
      cc_init_inv [OF assms(3), of t] assms(2) by (auto simp: cc_kernel_def)
  show ?thesis using r(1) cc_inv_labels [OF r(2,3)] unfolding idv_def by blast
qed

theorem cc_correct_witness:
  "\<exists>st'. cc_kernel (demo_env 1) (\<lambda>v. 2) 0 (demo_state (demo_kstate \<lparr> cc_id = 0 \<rparr>)) = Some (Inr st') \<and>
    cc_id (verts (cb st') ! unat (2 :: u32)) = Min {u. u < 3 \<and> (u, 2) \<in> (edge_rel (demo_env 1))\<^sup>*}"
proof -
  obtain st' where "cc_kernel (demo_env 1) (\<lambda>v. 2) 0 (demo_state (demo_kstate \<lparr> cc_id = 0 \<rparr>)) = Some (Inr st')"
    "\<forall>v. v < total_verts (demo_env 1) \<longrightarrow> cc_id (verts (cb st') ! unat v) =
       Min {u. u < total_verts (demo_env 1) \<and> (u, v) \<in> (edge_rel (demo_env 1))\<^sup>*}"
    using cc_correct [OF demo_env_ok demo_st_ok, of 1 "\<lparr> cc_id = 0 \<rparr>" "demo_kstate \<lparr> cc_id = 0 \<rparr>" "\<lambda>v. 2" 0]
      demo_fresh [of 1 "\<lparr> cc_id = 0 \<rparr>"] unfolding cb_demo_state by blast
  then show ?thesis using demo_total [of 1] by (intro exI [of _ st']) (auto dest!: spec [of _ 2] simp del: One_nat_def)
qed

subsection \<open>Pointer jumping\<close>

text \<open>
  Two methods of the vertex that no kernel calls. The second replaces the label of a vertex by the label of
  its label. On labels that name a smaller vertex that reaches the vertex, as they do in every
  state of the kernel, it keeps this, never raises a label, and reports exactly whether it lowered it.
\<close>

definition cc_vertex_map :: "cc_vertex \<Rightarrow> bool \<times> cc_vertex" where
  "cc_vertex_map x = (True, x)"

definition vertex_map_shortcut :: "cc_vertex list \<Rightarrow> cc_vertex \<Rightarrow> bool \<times> cc_vertex" where
  "vertex_map_shortcut vt x =
     (let my_id = cc_id x; l = cc_id (vt ! unat my_id)
      in if my_id \<noteq> l then (True, x\<lparr> cc_id := l \<rparr>) else (False, x))"

lemma vertex_map_shortcut_sound:
  assumes "\<forall>w < n. cc_id (vt ! unat w) \<le> w \<and> (cc_id (vt ! unat w), w) \<in> R\<^sup>*" "v < n" "vertex_map_shortcut vt (vt ! unat v) = (lowered, x)"
  shows "(cc_id x, v) \<in> R\<^sup>*" "cc_id x \<le> cc_id (vt ! unat v)" "lowered \<longleftrightarrow> cc_id x < cc_id (vt ! unat v)"
proof -
  let ?p = "cc_id (vt ! unat v)"
  have "cc_id x = cc_id (vt ! unat ?p)" "lowered \<longleftrightarrow> ?p \<noteq> cc_id (vt ! unat ?p)"
    using assms(3) by (auto simp: vertex_map_shortcut_def Let_def split: if_splits)
  moreover have "?p < n" "(?p, v) \<in> R\<^sup>*" using assms(1,2) by (auto intro: le_less_trans)
  ultimately show "(cc_id x, v) \<in> R\<^sup>*" "cc_id x \<le> ?p" "lowered \<longleftrightarrow> cc_id x < ?p"
    using assms(1) by (auto intro: rtrancl_trans simp: order_less_le)
qed

subsection \<open>The printed summary\<close>

lemma count_comp_keys: "fst ` set (count_comp r m) = insert r (fst ` set m)"
  by (induction r m rule: count_comp.induct) auto

lemma count_comp_spec:
  assumes "distinct (map fst m)"
  shows "distinct (map fst (count_comp r m))"
    and "(a, c) \<in> set (count_comp r m) \<longleftrightarrow>
      (if a = r then (if r \<in> fst ` set m then (r, c - 1) \<in> set m else c = 1) else (a, c) \<in> set m)"
proof -
  show "distinct (map fst (count_comp r m))" using assms
  proof (induction r m rule: count_comp.induct)
    case (2 r b d m)
    then show ?case using count_comp_keys [of r m] by auto
  qed simp
  show "(a, c) \<in> set (count_comp r m) \<longleftrightarrow>
      (if a = r then (if r \<in> fst ` set m then (r, c - 1) \<in> set m else c = 1) else (a, c) \<in> set m)"
    using assms
  proof (induction r m rule: count_comp.induct)
    case (2 r b d m)
    show ?case
    proof (cases "b = r")
      case True
      have "c = d + 1 \<longleftrightarrow> c - 1 = d" by (metis add_diff_cancel diff_add_cancel)
      then show ?thesis using True 2 by (auto simp: image_iff)
    next
      case False
      then show ?thesis using 2 by auto
    qed
  qed auto
qed

lemma count_comps:
  assumes "length xs < 2 ^ 32"
  shows "distinct (map fst (fold count_comp xs [])) \<and> fst ` set (fold count_comp xs []) = set xs \<and>
    (\<forall>a c. (a, c) \<in> set (fold count_comp xs []) \<longrightarrow> unat c = count_list xs a)"
  using assms
proof (induction xs rule: rev_induct)
  case (snoc x xs)
  let ?m = "fold count_comp xs []"
  have IH: "distinct (map fst ?m)" "fst ` set ?m = set xs" "\<And>a c. (a, c) \<in> set ?m \<Longrightarrow> unat c = count_list xs a"
    using snoc by auto
  note sp = count_comp_keys [of x ?m] count_comp_spec [OF IH(1), where r = x]
  have "unat c = count_list (xs @ [x]) a" if ac: "(a, c) \<in> set (count_comp x ?m)" for a c
  proof (cases "a = x")
    case a: True
    show ?thesis
    proof (cases "x \<in> set xs")
      case True
      then have "unat (c - 1) = count_list xs x" using ac a sp(3) [where a = a and c = c] IH(2,3) by auto
      moreover have "unat ((c - 1) + 1) = Suc (unat (c - 1))"
        using calculation count_le_length [of xs x] snoc.prems by (subst unat_add_u32) auto
      ultimately show ?thesis using a by simp
    next
      case False
      then show ?thesis using ac a sp(3) [where a = a and c = c] IH(2) count_notin [OF False] by auto
    qed
  qed (use ac sp(3) [where a = a and c = c] IH(3) in auto)
  then show ?case using sp(1,2) IH(2) by auto
qed simp

lemma last_sorted: "sorted xs \<Longrightarrow> x \<in> set xs \<Longrightarrow> x \<le> last xs"
  by (induction xs) (auto split: if_splits)

definition label_of :: "cc_vertex list \<Rightarrow> u32 \<Rightarrow> u32" where
  "label_of vt v = cc_id (vt ! unat v)"

definition comp_size :: "cc_vertex list \<Rightarrow> u32 \<Rightarrow> u32 \<Rightarrow> nat" where
  "comp_size vt n r = card {v. v < n \<and> label_of vt v = r}"

lemma comp_counts_spec:
  shows "distinct (map fst (comp_counts vt n))" "fst ` set (comp_counts vt n) = label_of vt ` {v. v < n}"
    and "(r, c) \<in> set (comp_counts vt n) \<Longrightarrow> unat c = comp_size vt n r"
proof -
  let ?xs = "map (label_of vt) (u32_range 0 n)"
  have e: "comp_counts vt n = fold count_comp ?xs []"
    by (simp add: comp_counts_def fold_map label_of_def comp_def)
  have "length ?xs < 2 ^ 32" using unat_u32_lt [of n] by (simp add: u32_range_def)
  note c = count_comps [OF this]
  show "distinct (map fst (comp_counts vt n))" "fst ` set (comp_counts vt n) = label_of vt ` {v. v < n}"
    using c by (simp_all add: e)
  assume "(r, c) \<in> set (comp_counts vt n)"
  then have "unat c = count_list ?xs r" using c unfolding e by blast
  also have "\<dots> = length (filter (\<lambda>v. label_of vt v = r) (u32_range 0 n))"
    by (simp add: count_list_eq_length_filter filter_map comp_def eq_commute [of r])
  also have "\<dots> = comp_size vt n r"
    using distinct_card [of "filter (\<lambda>v. label_of vt v = r) (u32_range 0 n)"] by (simp add: comp_size_def)
  finally show "unat c = comp_size vt n r" .
qed

lemma length_filter_rev_sort: "length (filter P (rev (sort xs))) = length (filter P xs)"
proof -
  have "mset (filter P (rev (sort xs))) = mset (filter P xs)" by (simp only: mset_filter mset_rev mset_sort)
  from arg_cong [OF this, of size] show ?thesis by (simp only: size_mset)
qed

text \<open>The components of at least two vertices, and the largest one, in the sorted list of counts.\<close>

lemma non_trivial_components:
  "length (filter (\<lambda>(c, _). c > 1) (map (\<lambda>(rep, n). (n, rep)) (comp_counts vt n))) =
     card {r \<in> label_of vt ` {v. v < n}. 1 < comp_size vt n r}"
proof -
  let ?f = "filter (\<lambda>(r, c). c > 1) (comp_counts vt n)"
  note sp = comp_counts_spec [where vt = vt and n = n]
  have "length (filter (\<lambda>(c, _). c > 1) (map (\<lambda>(rep, n). (n, rep)) (comp_counts vt n))) = length (map fst ?f)"
    by (simp add: filter_map comp_def split_def)
  also have "\<dots> = card (set (map fst ?f))"
    using sp(1) by (metis distinct_card distinct_map_filter)
  also have "set (map fst ?f) = {r \<in> label_of vt ` {v. v < n}. 1 < comp_size vt n r}"
    unfolding sp(2) [symmetric] using sp(3) by (force simp: word_less_nat_alt)
  finally show ?thesis .
qed

lemma largest_component:
  assumes "sort (map (\<lambda>(rep, n). (n, rep)) (comp_counts vt n)) = xs" "xs \<noteq> []"
  shows "fst (last xs) = of_nat (Max (comp_size vt n ` label_of vt ` {v. v < n}))"
proof -
  let ?m = "comp_counts vt n" and ?L = "label_of vt ` {v. v < n}" and ?l = "last xs"
  note sp = comp_counts_spec [where vt = vt and n = n]
  have l: "(snd ?l, fst ?l) \<in> set ?m" using last_in_set [OF assms(2)] unfolding assms(1) [symmetric] by (auto simp: split_def)
  have "Max (comp_size vt n ` ?L) = unat (fst ?l)"
  proof (rule Max_eqI)
    show "finite (comp_size vt n ` ?L)" by simp
    show "unat (fst ?l) \<in> comp_size vt n ` ?L"
      unfolding sp(2) [symmetric] sp(3) [OF l] using imageI [OF imageI [OF l, of fst], of "comp_size vt n"] by simp
    fix y assume "y \<in> comp_size vt n ` ?L"
    then obtain r c where rc: "(r, c) \<in> set ?m" "y = comp_size vt n r" unfolding sp(2) [symmetric] by force
    then have "(c, r) \<le> ?l" unfolding assms(1) [symmetric] by (intro last_sorted) force+
    then have "c \<le> fst ?l" by (cases ?l) (auto simp: less_eq_prod_def)
    then show "y \<le> unat (fst ?l)" using sp(3) [OF rc(1)] rc(2) by (simp add: word_le_nat_alt)
  qed
  then show ?thesis by simp
qed

lemma tally_spec:
  assumes "0 \<le> a" "0 \<le> b" "a \<le> INT_MAX" "b \<le> INT_MAX"
  shows "tally xs a b =
    (let p = a + int (length (filter (\<lambda>(n, _). n > 1) xs)); q = b + int (length (filter (\<lambda>(n, _). \<not> n > 1) xs))
     in if p \<le> INT_MAX \<and> q \<le> INT_MAX then Some (p, q) else None)"
  using assms
proof (induction xs a b rule: tally.induct)
  case (2 n rep it a b)
  then show ?case by (auto simp: int_add_def Let_def add.commute add.left_commute)
qed simp

text \<open>
  C33. The printed summary of the components. If there is a vertex and there are fewer than \<open>2\<^sup>3\<^sup>1\<close> distinct
  labels, \<open>print_top_n\<close> reports the number of distinct labels, the number of labels that more
  than one vertex has, and the size of the largest such class; the 32-bit unsigned counts do not wrap. In all
  other cases the behaviour is undefined: with no vertex there is no largest component to print, and with
  more labels the sum of the two signed counters, or one of them, overflows.
\<close>

theorem component_summary:
  "print_top_n vt n =
     (if n = 0 \<or> 2 ^ 31 \<le> card (label_of vt ` {v. v < n}) then None
      else Some (int (card (label_of vt ` {v. v < n})), int (card {r \<in> label_of vt ` {v. v < n}. 1 < comp_size vt n r}),
                 of_nat (Max (comp_size vt n ` label_of vt ` {v. v < n}))))"
proof (cases "n = 0")
  case True
  then show ?thesis by (simp add: print_top_n_def comp_counts_def int_add_def INT_MAX_def)
next
  case False
  let ?m = "comp_counts vt n" and ?L = "label_of vt ` {v. v < n}"
  let ?xs = "map (\<lambda>(rep, n). (n, rep)) ?m"
  define p q where "p = length (filter (\<lambda>(c, _). c > 1) ?xs)" and "q = length (filter (\<lambda>(c, _). \<not> c > 1) ?xs)"
  note sp = comp_counts_spec [where vt = vt and n = n]
  have "0 \<in> {v. v < n}" using False by (simp add: word_gt_0)
  then have "length (sort ?xs) \<noteq> 0" using sp(2) by auto
  then have srt: "sort ?xs \<noteq> []" by (metis length_0_conv)
  have "p + q = length ?m"
    using sum_length_filter_compl [of "\<lambda>(c, _). c > 1" ?xs] by (simp add: split_def p_def q_def)
  also have "\<dots> = card ?L" using distinct_card [OF sp(1)] sp(2) by simp
  finally have pq: "card ?L = p + q" by simp
  have p: "card {r \<in> ?L. 1 < comp_size vt n r} = p" using non_trivial_components [of vt n] by (simp add: p_def)
  have t: "tally (rev (sort ?xs)) 0 0 = (if int p \<le> INT_MAX \<and> int q \<le> INT_MAX then Some (int p, int q) else None)"
    using tally_spec [of 0 0 "rev (sort ?xs)"] unfolding length_filter_rev_sort p_def q_def by (simp add: INT_MAX_def Let_def)
  show ?thesis
    unfolding print_top_n_def Let_def t pq p using False srt largest_component [OF refl srt]
    by (auto simp: int_add_def INT_MAX_def)
qed

end
