(* ===== verification/CC_Parallel.thy ===== *)
theory CC_Parallel
  imports CC Interleaving
begin

text \<open>
  Label propagation with its callbacks interleaved. The retry loop of \<open>update_atomic\<close> tests the label,
  and exchanges it only if it still is the value read before; other workers lower labels in between,
  and a label is read by its own vertex's callback while others lower it. The rounds then depend on
  the schedule, the result does not.
\<close>

subsection \<open>The callback as micro-operations\<close>

text \<open>
  \<open>CTest\<close> and \<open>CCas\<close> carry the proposed label, the vertex, the local variable \<open>current\<close> and how often
  \<open>compare_exchange_weak\<close> may still fail spuriously in this call, \<open>spurious\<close> times at the start.
\<close>

datatype cc_op = CVisit u32 | CUpd u32 u32 | CTest u32 u32 u32 nat | CCas u32 u32 u32 nat | CMark u32

fun cc_exec :: "run_env \<Rightarrow> nat \<Rightarrow> (cc_vertex kstate, cc_op) micro" where
  "cc_exec E spurious t (CVisit v) s =
     (let my_id = cc_id (verts s ! unat v)
      in [(s, map (CUpd my_id) (take (unat (of_nat (length (nb E v)) :: u32)) (nb E v)))])"
| "cc_exec E spurious t (CUpd p w) s = [(s, [CTest p w (cc_id (verts s ! unat w)) spurious])]"
| "cc_exec E spurious t (CTest p w cur m) s =
     [(s, if should_update p (verts s ! unat w) then [CCas p w cur m] else [])]"
| "cc_exec E spurious t (CCas p w cur m) s =
     (let x = verts s ! unat w in
      if cc_id x = cur
      then (s\<lparr> verts := (verts s)[unat w := x\<lparr> cc_id := p \<rparr>] \<rparr>, [CMark w]) #
           (case m of 0 \<Rightarrow> [] | Suc m' \<Rightarrow> [(s, [CTest p w cur m'])])
      else [(s, [CTest p w (cc_id x) m])])"
| "cc_exec E spurious t (CMark w) s = [(s\<lparr> next_frontier := mark t w (next_frontier s) \<rparr>, [])]"

definition cc_kernel_step ::
    "run_env \<Rightarrow> nat \<Rightarrow> (cc_vertex kstate, cc_op) kernel_config \<Rightarrow> (cc_vertex kstate, cc_op) kernel_config \<Rightarrow> bool" where
  "cc_kernel_step E spurious =
     kernel_step E (\<lambda>c s. \<not> is_empty (frontier s)) (\<lambda>c. cc_exec E spurious) CVisit swap_frontiers"

subsection \<open>The invariant of a round\<close>

text \<open>The label an operation still offers to a vertex.\<close>

fun offer :: "cc_op \<Rightarrow> (u32 \<times> u32) option" where
  "offer (CUpd p w) = Some (p, w)"
| "offer (CTest p w cur m) = Some (p, w)"
| "offer (CCas p w cur m) = Some (p, w)"
| "offer _ = None"

definition offers :: "cc_op multiset \<Rightarrow> (u32 \<times> u32) set" where
  "offers P = {x. \<exists>a. a \<in># P \<and> offer a = Some x}"

text \<open>
  What an operation relies on: labels only fall, so \<open>current\<close> is never below the label, and a label
  that passed the test against a value read after \<open>current\<close> is below \<open>current\<close>.
\<close>

fun op_ok :: "run_env \<Rightarrow> cc_vertex kstate \<Rightarrow> cc_op \<Rightarrow> bool" where
  "op_ok E s (CVisit v) \<longleftrightarrow> v < total_verts E"
| "op_ok E s (CUpd p w) \<longleftrightarrow> w < total_verts E \<and> (p, w) \<in> (edge_rel E)\<^sup>*"
| "op_ok E s (CTest p w cur m) \<longleftrightarrow> w < total_verts E \<and> (p, w) \<in> (edge_rel E)\<^sup>* \<and> idv s w \<le> cur"
| "op_ok E s (CCas p w cur m) \<longleftrightarrow> w < total_verts E \<and> (p, w) \<in> (edge_rel E)\<^sup>* \<and> idv s w \<le> cur \<and> p < cur"
| "op_ok E s (CMark w) \<longleftrightarrow> w < total_verts E"

definition active :: "cc_op multiset \<Rightarrow> cc_vertex kstate \<Rightarrow> u32 set" where
  "active P s = bits_of (next_frontier s) \<union> {w. CMark w \<in># P}"

text \<open>A successor of \<open>v\<close> has the label of \<open>v\<close> or a smaller one, or is being offered one.\<close>

definition served :: "run_env \<Rightarrow> cc_op multiset \<Rightarrow> cc_vertex kstate \<Rightarrow> u32 \<Rightarrow> bool" where
  "served E P s v \<longleftrightarrow> (\<forall>w \<in> set (nb E v). idv s w \<le> idv s v \<or> (\<exists>p. (p, w) \<in> offers P \<and> p \<le> idv s v))"

definition cc_pool :: "run_env \<Rightarrow> cc_vertex kstate \<Rightarrow> cc_op multiset \<Rightarrow> cc_vertex kstate \<Rightarrow> bool" where
  "cc_pool E r P s \<longleftrightarrow> kshape E s \<and> frontier s = frontier r \<and> labels_ok E s \<and> (\<forall>a \<in># P. op_ok E s a) \<and>
     (\<forall>v. v < total_verts E \<longrightarrow> CVisit v \<in># P \<or> v \<in> active P s \<or> served E P s v) \<and>
     label_sum E s \<le> label_sum E r \<and> (active P s \<noteq> {} \<longrightarrow> label_sum E s < label_sum E r)"

definition cc_par_inv :: "run_env \<Rightarrow> cc_vertex kstate \<Rightarrow> cc_op multiset \<Rightarrow> cc_vertex kstate \<Rightarrow> bool" where
  "cc_par_inv E r P s \<longleftrightarrow> env_ok E \<and> cc_pool E r P s"

fun cc_weight :: "run_env \<Rightarrow> nat \<Rightarrow> cc_op \<Rightarrow> nat" where
  "cc_weight E spurious (CVisit v) = 1 + (2 * (2 ^ 32 + spurious) + 4) * length (nb E v)"
| "cc_weight E spurious (CUpd p w) = 2 * (2 ^ 32 + spurious) + 4"
| "cc_weight E spurious (CTest p w cur m) = 2 * (unat cur + m) + 3"
| "cc_weight E spurious (CCas p w cur m) = 2 * (unat cur + m) + 2"
| "cc_weight E spurious (CMark w) = 1"

definition cc_mu :: "run_env \<Rightarrow> nat \<Rightarrow> cc_op multiset \<Rightarrow> cc_vertex kstate \<Rightarrow> nat" where
  "cc_mu E spurious P s = sum_mset (image_mset (cc_weight E spurious) P)"

lemma offers_simps [simp]:
  "offers {#} = {}" "offers (add_mset a P) = set_option (offer a) \<union> offers P" "offers (P + P') = offers P \<union> offers P'"
  by (auto simp: offers_def)

lemma offers_upds [simp]: "offers (image_mset (CUpd p) (mset ws)) = {p} \<times> set ws"
  by (auto simp: offers_def)

text \<open>An operation replaced by one that makes the same offer, or by one nobody waits for.\<close>

lemma pool_replace:
  assumes "cc_pool E r (add_mset a P) s" "\<forall>b \<in># N. op_ok E s b" "\<forall>v. a \<noteq> CVisit v" "\<forall>w. a \<noteq> CMark w"
    and "\<forall>w. CMark w \<notin># N" and "\<forall>p w. offer a = Some (p, w) \<longrightarrow> (p, w) \<in> offers N \<or> idv s w \<le> p"
  shows "cc_pool E r (P + N) s"
proof -
  have act: "active (P + N) s = active (add_mset a P) s" using assms(4,5) by (auto simp: active_def)
  have "served E (P + N) s v" if sv: "served E (add_mset a P) s v" for v
    unfolding served_def
  proof
    fix w assume "w \<in> set (nb E v)"
    then consider "idv s w \<le> idv s v" | p where "(p, w) \<in> offers P" "p \<le> idv s v" | p where "offer a = Some (p, w)" "p \<le> idv s v"
      using sv by (auto simp: served_def)
    then show "idv s w \<le> idv s v \<or> (\<exists>p. (p, w) \<in> offers (P + N) \<and> p \<le> idv s v)"
    proof cases
      case 3
      then show ?thesis using assms(6) order_trans by (auto; blast)
    qed auto
  qed
  then show ?thesis using assms(1-3) unfolding cc_pool_def act by auto
qed

lemma cc_visit_pool:
  assumes "env_ok E" "cc_pool E r (add_mset (CVisit v) P) s"
  shows "cc_pool E r (P + mset (map (CUpd (idv s v)) (nb E v))) s"
proof -
  let ?N = "mset (map (CUpd (idv s v)) (nb E v))"
  have v: "v < total_verts E" and lo: "labels_ok E s" using assms(2) by (auto simp: cc_pool_def)
  have ok: "\<forall>b \<in># ?N. op_ok E s b"
  proof
    fix b assume "b \<in># ?N"
    then obtain w where w: "w \<in> set (nb E v)" "b = CUpd (idv s v) w" by auto
    have "(v, w) \<in> edge_rel E" using v w by (simp add: edge_rel_def)
    then have "(idv s v, w) \<in> (edge_rel E)\<^sup>*" using lo v by (auto simp: labels_ok_def intro: rtrancl_into_rtrancl)
    then show "op_ok E s b" using w nb_bound [OF assms(1)] by simp
  qed
  have act: "active (P + ?N) s = active (add_mset (CVisit v) P) s" by (auto simp: active_def)
  have "served E (P + ?N) s v" by (auto simp: served_def)
  moreover have "served E (P + ?N) s u" if "served E (add_mset (CVisit v) P) s u" for u using that by (auto simp: served_def)
  ultimately show ?thesis using assms(2) ok unfolding cc_pool_def act by auto
qed

lemma op_ok_lower:
  "op_ok E s a \<Longrightarrow> (\<And>u. idv s' u \<le> idv s u) \<Longrightarrow> op_ok E s' a"
  by (cases a) (auto intro: order_trans)

lemma cc_exchange_pool:
  assumes "cc_pool E r (add_mset (CCas p w cur m) P) s" "cc_id (verts s ! unat w) = cur"
    and s': "s' = s\<lparr> verts := (verts s)[unat w := (verts s ! unat w)\<lparr> cc_id := p \<rparr>] \<rparr>"
  shows "cc_pool E r (add_mset (CMark w) P) s'"
proof -
  have sh: "kshape E s" and fr: "frontier s = frontier r" and lo: "labels_ok E s" and w: "w < total_verts E" "(p, w) \<in> (edge_rel E)\<^sup>*"
    and lt: "p < idv s w" and ok: "\<forall>a \<in># P. op_ok E s a" and sum: "label_sum E s \<le> label_sum E r"
    and cov: "\<And>v. v < total_verts E \<Longrightarrow> CVisit v \<in># P \<or> v \<in> active P s \<or> served E (add_mset (CCas p w cur m) P) s v"
    using assms(1,2) by (auto simp: cc_pool_def active_def idv_def)
  have lw: "unat w < length (verts s)" using sh w by (simp add: kshape_def word_less_nat_alt)
  have i: "idv s' u = (if u = w then p else idv s u)" for u using lw by (simp add: idv_def s' nth_update_unat)
  have le: "idv s' u \<le> idv s u" for u using lt by (simp add: i less_imp_le)
  have lo': "labels_ok E s'"
    unfolding labels_ok_def
  proof (intro allI impI)
    fix v assume v: "v < total_verts E"
    then have "idv s' v \<le> v" using lo le [of v] by (auto simp: labels_ok_def intro: order_trans)
    then show "idv s' v \<le> v \<and> (idv s' v, v) \<in> (edge_rel E)\<^sup>*" using lo v w(2) by (simp add: labels_ok_def i)
  qed
  have "label_sum E s' < label_sum E s"
    unfolding label_sum_def using le w(1) lt
    by (intro sum_strict_mono_ex1) (auto simp: word_le_nat_alt [symmetric] word_less_nat_alt [symmetric] i intro!: exI [of _ w])
  moreover have act: "active (add_mset (CMark w) P) s' = insert w (active P s)" by (auto simp: active_def s')
  moreover have "CVisit v \<in># P \<or> v \<in> insert w (active P s) \<or> served E (add_mset (CMark w) P) s' v"
    if "v < total_verts E" for v
  proof (cases "v = w")
    case False
    then have "served E (add_mset (CMark w) P) s' v" if "served E (add_mset (CCas p w cur m) P) s v"
      using that le order_trans unfolding served_def by (fastforce simp: i)
    then show ?thesis using cov [OF that] by blast
  qed simp
  moreover have "kshape E s'" "frontier s' = frontier r" using sh fr by (simp_all add: s' kshape_def)
  ultimately show ?thesis
    using lo' ok op_ok_lower [OF _ le] w(1) sum unfolding cc_pool_def by auto
qed

lemma cc_mark_pool:
  assumes "cc_pool E r (add_mset (CMark w) P) s"
  shows "cc_pool E r P (s\<lparr> next_frontier := mark t w (next_frontier s) \<rparr>)"
proof -
  let ?s = "s\<lparr> next_frontier := mark t w (next_frontier s) \<rparr>"
  have sh: "kshape E s" and wn: "w < total_verts E" using assms by (auto simp: cc_pool_def)
  have b: "bits_of (mark t w (next_frontier s)) = insert w (bits_of (next_frontier s))"
    using sh wn by (simp add: kshape_def bm.alpha_activate)
  have act: "active P ?s = active (add_mset (CMark w) P) s" by (auto simp: active_def b)
  have i: "idv ?s = idv s" by (simp add: fun_eq_iff idv_def)
  have ok: "op_ok E ?s a = op_ok E s a" for a by (cases a) (simp_all add: i)
  show ?thesis
    using assms kshape_mark_next [OF sh wn, of t] unfolding cc_pool_def act
    by (simp add: i labels_ok_def label_sum_def served_def ok)
qed

lemma cc_op_keeps:
  assumes "cc_par_inv E r (add_mset a P) s" "(s', nxt) \<in> set (cc_exec E sp t a s)"
  shows "cc_par_inv E r (P + mset nxt) s'"
proof -
  have c: "env_ok E" "cc_pool E r (add_mset a P) s" using assms(1) by (auto simp: cc_par_inv_def)
  then have ok: "op_ok E s a" by (simp add: cc_pool_def)
  have "cc_pool E r (P + mset nxt) s'"
  proof (cases a)
    case (CVisit v)
    then have "v < total_verts E" using ok by simp
    from take_nb [OF c(1) this] cc_visit_pool [OF c(1) c(2) [unfolded CVisit]] assms(2) show ?thesis
      by (simp add: CVisit idv_def)
  next
    case (CUpd p w)
    then have "s' = s" "nxt = [CTest p w (idv s w) sp]" using assms(2) by (simp_all add: idv_def)
    then show ?thesis using pool_replace [OF c(2), of "mset nxt"] ok CUpd by simp
  next
    case (CTest p w cur m)
    then have n: "s' = s" "nxt = (if p < idv s w then [CCas p w cur m] else [])"
      using assms(2) by (simp_all add: idv_def should_update_def)
    then show ?thesis using pool_replace [OF c(2), of "mset nxt"] ok CTest by auto
  next
    case (CCas p w cur m)
    consider (won) "s' = s\<lparr> verts := (verts s)[unat w := (verts s ! unat w)\<lparr> cc_id := p \<rparr>] \<rparr>" "nxt = [CMark w]" "cc_id (verts s ! unat w) = cur"
      | (lost) m' where "s' = s" "nxt = [CTest p w (idv s w) m']"
      using assms(2) by (auto simp: CCas Let_def idv_def split: if_splits nat.splits)
    then show ?thesis
    proof cases
      case won
      then show ?thesis using cc_exchange_pool [OF c(2) [unfolded CCas]] by simp
    next
      case lost
      then show ?thesis using pool_replace [OF c(2), of "mset nxt"] ok CCas by simp
    qed
  next
    case (CMark w)
    then show ?thesis using cc_mark_pool [OF c(2) [unfolded CMark], of t] assms(2) by simp
  qed
  then show ?thesis using c(1) by (simp add: cc_par_inv_def)
qed

lemma cc_op_lowers:
  assumes "cc_par_inv E r (add_mset a P) s" "(s', nxt) \<in> set (cc_exec E sp t a s)"
  shows "cc_mu E sp (P + mset nxt) s' < cc_mu E sp (add_mset a P) s"
proof -
  have ok: "op_ok E s a" using assms(1) by (simp add: cc_par_inv_def cc_pool_def)
  have upds: "sum_mset (image_mset (cc_weight E sp) (mset (map (CUpd p) ws))) = (2 * (2 ^ 32 + sp) + 4) * length ws" for p ws
    by (induction ws) auto
  show ?thesis
  proof (cases a)
    case (CVisit v)
    then show ?thesis
      using assms(2) upds [of "cc_id (verts s ! unat v)" "take (unat (of_nat (length (nb E v)) :: u32)) (nb E v)"]
      by (simp add: cc_mu_def Let_def less_Suc_eq_le)
  next
    case (CUpd p w)
    then show ?thesis using assms(2) unat_u32_lt [of "cc_id (verts s ! unat w)"] by (simp add: cc_mu_def)
  next
    case (CCas p w cur m)
    then have "cc_id (verts s ! unat w) \<noteq> cur \<Longrightarrow> unat (cc_id (verts s ! unat w)) < unat cur"
      using ok unfolding word_less_nat_alt [symmetric] by (simp add: idv_def) (metis order_neq_le_trans)
    then show ?thesis using CCas assms(2) by (auto simp: cc_mu_def Let_def split: if_splits nat.splits)
  qed (use assms(2) in \<open>auto simp: cc_mu_def split: if_splits\<close>)
qed

subsection \<open>Rounds\<close>

definition cc_between :: "run_env \<Rightarrow> nat \<Rightarrow> cc_vertex kstate \<Rightarrow> bool" where
  "cc_between E c s \<longleftrightarrow> env_ok E \<and> cc_inv E s"

definition cc_rank :: "run_env \<Rightarrow> nat \<Rightarrow> cc_vertex kstate \<Rightarrow> nat" where
  "cc_rank E c s = 2 * label_sum E s + of_bool (bits_of (frontier s) \<noteq> {})"

lemma cc_opens:
  assumes "cc_between E c s" "shares E (bits_of (frontier s)) vss"
  shows "cc_par_inv E s (image_mset CVisit (mset (concat vss))) s"
proof -
  let ?P = "image_mset CVisit (mset (concat vss))"
  have e: "env_ok E" "kshape E s" "labels_ok E s" and nx: "bits_of (next_frontier s) = {}"
    and se: "\<And>v. v < total_verts E \<Longrightarrow> v \<in> bits_of (frontier s) \<or> settled E s v"
    using assms(1) by (auto simp: cc_between_def cc_inv_def)
  have mem: "CVisit v \<in># ?P \<longleftrightarrow> v \<in> set (concat vss)" for v by auto
  have sub: "set (concat vss) \<subseteq> bits_of (frontier s)" "\<forall>v \<in> bits_of (frontier s). nb E v \<noteq> [] \<longrightarrow> v \<in> set (concat vss)"
    using assms(2) by (auto simp: shares_def)
  have "CVisit v \<in># ?P \<or> served E ?P s v" if "v < total_verts E" for v
  proof (cases "nb E v = []")
    case False
    then show ?thesis using se [OF that] sub(2) unfolding mem served_def settled_def by blast
  qed (simp add: served_def)
  moreover have "\<forall>a \<in># ?P. op_ok E s a" using sub(1) kshape_bits_below [OF e(2)] by auto
  moreover have "active ?P s = {}" using nx by (auto simp: active_def)
  ultimately show ?thesis using e by (auto simp: cc_par_inv_def cc_pool_def)
qed

lemma cc_closes:
  assumes "cc_between E c r" "\<not> is_empty (frontier r)" "cc_par_inv E r {#} s"
  shows "cc_between E (Suc c) (swap_frontiers s) \<and> cc_rank E (Suc c) (swap_frontiers s) < cc_rank E c r"
proof -
  have e: "env_ok E" and p: "cc_pool E r {#} s" using assms(3) by (auto simp: cc_par_inv_def)
  then have sh: "kshape E s" and a: "active {#} s = bits_of (next_frontier s)" by (simp_all add: cc_pool_def active_def)
  have "v \<in> bits_of (next_frontier s) \<or> settled E s v" if "v < total_verts E" for v
    using p that unfolding cc_pool_def a by (auto simp: served_def settled_def)
  then have "cc_inv E (swap_frontiers s)"
    using p kshape_swap [OF sh] swap_frontiers_bits [OF sh] by (simp add: cc_inv_def cc_pool_def)
  moreover have "bits_of (frontier r) \<noteq> {}"
    using assms(1,2) kshape_is_empty [of E r] by (auto simp: cc_between_def cc_inv_def)
  moreover have "label_sum E s \<le> label_sum E r" "bits_of (next_frontier s) \<noteq> {} \<Longrightarrow> label_sum E s < label_sum E r"
    using p unfolding cc_pool_def a by auto
  ultimately show ?thesis
    using e swap_frontiers_bits [OF sh] by (cases "bits_of (next_frontier s) = {}") (auto simp: cc_between_def cc_rank_def)
qed

interpretation cc_par: parallel_kernel E "\<lambda>c s. \<not> is_empty (frontier s)" "\<lambda>c. cc_exec E spurious" CVisit swap_frontiers
    "cc_between E" "\<lambda>c. cc_par_inv E" "cc_mu E spurious" "cc_rank E" for E spurious
proof unfold_locales
  show "cc_exec E spurious t a s \<noteq> []" for t a s
    by (cases a) (auto simp: Let_def)
  show "env_ok E \<and> kshape E s" if "cc_between E c s" for c s
    using that by (simp add: cc_between_def cc_inv_def)
  show "cc_par_inv E s (image_mset CVisit (mset (concat vss))) s"
    if "cc_between E c s" "shares E (bits_of (frontier s)) vss" for c s vss
    using that by (rule cc_opens)
qed (fact cc_op_keeps cc_op_lowers cc_closes)+

lemma cc_kernel_parallel:
  assumes "env_ok E" "fresh E x s"
  shows "ends (cc_kernel_step E spurious) (Between, 0, cc_init E t s) \<and>
    (\<forall>c. (cc_kernel_step E spurious)\<^sup>*\<^sup>* (Between, 0, cc_init E t s) c \<longrightarrow> (\<nexists>d. cc_kernel_step E spurious c d) \<longrightarrow>
       (\<exists>n s'. c = (Between, n, s') \<and>
          (\<forall>v. v < total_verts E \<longrightarrow>
             cc_id (verts s' ! unat v) = Min {u. u < total_verts E \<and> (u, v) \<in> (edge_rel E)\<^sup>*})))"
proof -
  have b: "cc_between E 0 (cc_init E t s)" using assms cc_init_inv [OF assms(2)] by (simp add: cc_between_def)
  note total = cc_par.kernel_total [OF b, of spurious, folded cc_kernel_step_def]
  have "\<exists>n s'. c = (Between, n, s') \<and> (\<forall>v. v < total_verts E \<longrightarrow>
          cc_id (verts s' ! unat v) = Min {u. u < total_verts E \<and> (u, v) \<in> (edge_rel E)\<^sup>*})"
    if run: "(cc_kernel_step E spurious)\<^sup>*\<^sup>* (Between, 0, cc_init E t s) c" and stuck: "\<nexists>d. cc_kernel_step E spurious c d" for c
  proof -
    obtain n s' where c: "c = (Between, n, s')" "cc_between E n s'" "is_empty (frontier s')"
      using total(2) [OF run] stuck by blast
    then have i: "cc_inv E s'" by (simp add: cc_between_def)
    then have "bits_of (frontier s') = {}" using c(3) kshape_is_empty [of E s'] by (simp add: cc_inv_def)
    from cc_inv_labels(1) [OF i this] c(1) show ?thesis by (simp add: idv_def)
  qed
  then show ?thesis using total(1) by blast
qed

subsection \<open>Property\<close>

text \<open>
  C8. Label propagation is correct under every interleaving of its callbacks. However the loads,
  tests and exchanges of the workers interleave, a compare-and-exchange failing because another
  worker was first or, boundedly often, spuriously, no run goes on forever; a run that cannot go on
  has left the loop with the smallest vertex that reaches \<open>v\<close> as the label of every \<open>v\<close>.
\<close>

theorem cc_parallel_correct:
  assumes "env_ok E" "fresh E x s"
  shows "ends (cc_kernel_step E spurious) (Between, 0, cc_init E t s) \<and>
    (\<forall>c. (cc_kernel_step E spurious)\<^sup>*\<^sup>* (Between, 0, cc_init E t s) c \<longrightarrow> (\<nexists>d. cc_kernel_step E spurious c d) \<longrightarrow>
       (\<exists>n s'. c = (Between, n, s') \<and>
          (\<forall>v. v < total_verts E \<longrightarrow>
             cc_id (verts s' ! unat v) = Min {u. u < total_verts E \<and> (u, v) \<in> (edge_rel E)\<^sup>*})))"
  by (rule cc_kernel_parallel [OF assms])

theorem cc_parallel_correct_witness:
  "ends (cc_kernel_step (demo_env 1) 2) (Between, 0, cc_init (demo_env 1) 0 (demo_kstate \<lparr> cc_id = 0 \<rparr>))"
  using cc_parallel_correct [OF demo_env_ok demo_fresh, of 1 2 0 "\<lparr> cc_id = 0 \<rparr>"] by simp

end
