(* ===== verification/MIS.thy ===== *)
theory MIS
  imports Graph_Kernel
begin

text \<open>
  Maximal independent set, \<open>src/src/mis.hpp\<close>. Vertices are released in slices of \<open>delta\<close>, an
  undecided vertex is pulled again in the next round. \<open>mis_correct\<close> shows that the kernel ends with
  the lexicographically first independent set; \<open>mis_zero_delta_hangs\<close> that it never ends when
  \<open>delta\<close> is zero.
\<close>

subsection \<open>The kernel\<close>

datatype MatchFlag = UNDECIDED | IN | OUT

record mis_vertex =
  flag :: MatchFlag

text \<open>The two counters the callback keeps per thread are part of the state of this kernel.\<close>

record mis_state = "mis_vertex kstate" +
  n_decided :: "u32 combinable"
  next_frontier_size :: "u32 combinable"

text \<open>The loop over the neighbours, with its \<open>break\<close>.\<close>

fun pull_scan :: "mis_vertex list \<Rightarrow> u32 \<Rightarrow> u32 list \<Rightarrow> MatchFlag \<Rightarrow> MatchFlag" where
  "pull_scan vt v [] v_flag = v_flag"
| "pull_scan vt v (w # ws) v_flag =
     (if w < v then
        let v_flag = (case flag (vt ! unat w) of UNDECIDED \<Rightarrow> UNDECIDED | IN \<Rightarrow> OUT | OUT \<Rightarrow> v_flag)
        in if v_flag = OUT then OUT else pull_scan vt v ws v_flag
      else pull_scan vt v ws v_flag)"

definition pull :: "worker \<Rightarrow> mis_state callback" where
  "pull t v edges n s =
     (if flag (verts s ! unat v) = OUT then s
      else
        let v_flag = pull_scan (verts s) v (take (unat n) edges) IN;
            s1 = (if v_flag = UNDECIDED
                  then s\<lparr> next_frontier := mark t v (next_frontier s),
                          next_frontier_size := tls_modify 0 t (\<lambda>x. x + 1) (next_frontier_size s) \<rparr>
                  else s\<lparr> n_decided := tls_modify 0 t (\<lambda>x. x + 1) (n_decided s) \<rparr>)
        in s1\<lparr> verts := (verts s1)[unat v := (verts s1 ! unat v)\<lparr> flag := v_flag \<rparr>] \<rparr>)"

text \<open>Vertices without out-edges are decided at the start; the second component counts them.\<close>

definition mis_zero_vertex ::
    "run_env \<Rightarrow> worker \<Rightarrow> u32 \<Rightarrow> mis_vertex list \<times> u32 combinable \<Rightarrow> mis_vertex list \<times> u32 combinable" where
  "mis_zero_vertex E t v p =
     (if out_degree (env_args E) v = 0
      then ((fst p)[unat v := (fst p ! unat v)\<lparr> flag := IN \<rparr>], tls_modify 0 t (\<lambda>x. x + 1) (snd p))
      else p)"

definition mis_zero_degree ::
    "run_env \<Rightarrow> (u32 \<Rightarrow> worker) \<Rightarrow> mis_vertex list \<Rightarrow> mis_vertex list \<times> u32 combinable" where
  "mis_zero_degree E who vs = fold (\<lambda>v. mis_zero_vertex E (who v) v) (u32_range 0 (total_verts E)) (vs, [])"

definition mis_end_round :: "mis_state \<Rightarrow> mis_state" where
  "mis_end_round s = swap_frontiers (s\<lparr> n_decided := [], next_frontier_size := [] \<rparr>)"

text \<open>Both calls of an iterator in one round; they are calls \<open>2 c\<close> and \<open>2 c + 1\<close> of the run.\<close>

definition mis_frontier_pass ::
    "run_env \<Rightarrow> nat \<Rightarrow> u32 \<Rightarrow> u32 \<Rightarrow> mis_state pack_state \<Rightarrow> (abort + mis_state pack_state) option" where
  "mis_frontier_pass E c front_size end0 st =
     (if front_size > 0 then for_each_active E (2 * c) (frontier (cb st)) 0 end0 pull st else Some (Inr st))"

definition mis_range_pass ::
    "run_env \<Rightarrow> nat \<Rightarrow> u32 \<Rightarrow> u32 \<Rightarrow> mis_state pack_state \<Rightarrow> (abort + mis_state pack_state) option" where
  "mis_range_pass E c start0 end0 st =
     (if start0 < end0 then for_each_in E (2 * c + 1) (frontier (cb st)) start0 end0 pull st else Some (Inr st))"

partial_function (option) mis_loop ::
    "run_env \<Rightarrow> u32 \<Rightarrow> nat \<Rightarrow> u32 \<Rightarrow> u32 \<Rightarrow> u32 \<Rightarrow> u32 \<Rightarrow> mis_state pack_state \<Rightarrow> (abort + mis_state pack_state) option" where
  "mis_loop E delta c start0 end0 undecided front_size st =
     (if undecided > 0 then
        Option.bind (mis_frontier_pass E c front_size end0 st) (\<lambda>r1. case r1 of
          Inl a \<Rightarrow> Some (Inl a)
        | Inr st1 \<Rightarrow>
            let end1 = min (total_verts E) (end0 + delta - front_size) in
            Option.bind (mis_range_pass E c start0 end1 st1) (\<lambda>r2. case r2 of
              Inl a \<Rightarrow> Some (Inl a)
            | Inr st2 \<Rightarrow>
                mis_loop E delta (Suc c) end1 end1 (undecided - tls_sum (n_decided (cb st2)))
                  (tls_sum (next_frontier_size (cb st2))) (st2\<lparr> cb := mis_end_round (cb st2) \<rparr>)))
      else Some (Inr st))"

definition mis_kernel ::
    "run_env \<Rightarrow> u32 \<Rightarrow> (u32 \<Rightarrow> worker) \<Rightarrow> mis_state pack_state \<Rightarrow> (abort + mis_state pack_state) option" where
  "mis_kernel E divisor who st =
     (let delta = total_verts E div divisor;
          (vs, zero_deg_nodes) = mis_zero_degree E who (verts (cb st));
          s = (cb st)\<lparr> verts := vs, n_decided := [], next_frontier_size := [] \<rparr>
      in mis_loop E delta 0 0 0 (total_verts E - tls_sum zero_deg_nodes) 0 (st\<lparr> cb := s \<rparr>))"

definition get_cardinality :: "(u32 \<times> u32) list \<Rightarrow> mis_vertex list \<Rightarrow> u32" where
  "get_cardinality cs vt = parallel_reduce cs (count_if (\<lambda>i. flag (vt ! unat i) = IN)) (+) 0"

subsection \<open>The lexicographically first independent set\<close>

function first_mis :: "(u32 \<Rightarrow> u32 list) \<Rightarrow> u32 \<Rightarrow> bool" where
  "first_mis nbs v \<longleftrightarrow> (\<forall>w \<in> set (filter (\<lambda>w. w < v) (nbs v)). \<not> first_mis nbs w)"
  by pat_completeness auto
termination by (relation "measure (\<lambda>(nbs, v). unat v)") (auto simp: word_less_nat_alt)

declare first_mis.simps [simp del]

lemma pull_scan_OUT:
  "f \<noteq> OUT \<Longrightarrow> pull_scan vt v ws f = OUT \<longleftrightarrow> (\<exists>w \<in> set ws. w < v \<and> flag (vt ! unat w) = IN)"
  by (induction vt v ws f rule: pull_scan.induct) (auto simp: Let_def split: MatchFlag.splits)

lemma pull_scan_UNDECIDED: "pull_scan vt v ws UNDECIDED \<noteq> IN"
  by (induction ws) (auto simp: Let_def split: MatchFlag.splits)

lemma pull_scan_IN:
  "pull_scan vt v ws IN = IN \<longleftrightarrow> (\<forall>w \<in> set ws. w < v \<longrightarrow> flag (vt ! unat w) = OUT)"
  by (induction ws) (auto simp: Let_def pull_scan_UNDECIDED split: MatchFlag.splits)

text \<open>A decided vertex is decided the way the set has it.\<close>

definition flags_sound :: "run_env \<Rightarrow> (u32 \<Rightarrow> MatchFlag) \<Rightarrow> bool" where
  "flags_sound E f \<longleftrightarrow> (\<forall>v. v < total_verts E \<longrightarrow>
     (f v = IN \<longrightarrow> first_mis (nb E) v) \<and> (f v = OUT \<longrightarrow> \<not> first_mis (nb E) v))"

lemma pull_scan_sound:
  assumes "env_ok E" "flags_sound E (\<lambda>w. flag (vt ! unat w))"
  shows "pull_scan vt v (nb E v) IN = IN \<Longrightarrow> first_mis (nb E) v"
    and "pull_scan vt v (nb E v) IN = OUT \<Longrightarrow> \<not> first_mis (nb E) v"
  using assms nb_bound [OF assms(1)]
  by (auto simp: pull_scan_IN pull_scan_OUT flags_sound_def first_mis.simps [of "nb E" v])

subsection \<open>Invariants\<close>

definition flagv :: "mis_state \<Rightarrow> u32 \<Rightarrow> MatchFlag" where
  "flagv s v = flag (verts s ! unat v)"

text \<open>
  Within a round that started with the flags \<open>f0\<close>, after the vertices of \<open>D\<close> have been pulled. A
  pulled vertex below which nothing was undecided is decided.
\<close>

definition mis_mid :: "run_env \<Rightarrow> Bitmap \<Rightarrow> (u32 \<Rightarrow> MatchFlag) \<Rightarrow> u32 set \<Rightarrow> mis_state \<Rightarrow> bool" where
  "mis_mid E fr f0 D s \<longleftrightarrow> kshape E s \<and> frontier s = fr \<and> flags_sound E (flagv s) \<and>
     D \<subseteq> {v. v < total_verts E \<and> f0 v = UNDECIDED} \<and>
     (\<forall>v. v < total_verts E \<longrightarrow> v \<notin> D \<longrightarrow> flagv s v = f0 v) \<and>
     bits_of (next_frontier s) = {v \<in> D. flagv s v = UNDECIDED} \<and>
     tls_sum (next_frontier_size s) = of_nat (card {v \<in> D. flagv s v = UNDECIDED}) \<and>
     tls_sum (n_decided s) = of_nat (card {v \<in> D. flagv s v \<noteq> UNDECIDED}) \<and>
     (\<forall>v \<in> D. (\<forall>w. w < v \<longrightarrow> f0 w \<noteq> UNDECIDED) \<longrightarrow> flagv s v \<noteq> UNDECIDED)"

lemma pull_state:
  fixes t :: worker
  assumes "kshape E s" "v < total_verts E" "flagv s v = UNDECIDED" "take (unat n) edges = nb E v"
  defines "r \<equiv> pull_scan (verts s) v (nb E v) IN" and "s' \<equiv> pull t v edges n s"
  shows "kshape E s'" "frontier s' = frontier s"
    and "flagv s' u = (if u = v then r else flagv s u)"
    and "bits_of (next_frontier s') = bits_of (next_frontier s) \<union> (if r = UNDECIDED then {v} else {})"
    and "tls_sum (next_frontier_size s') = tls_sum (next_frontier_size s) + of_bool (r = UNDECIDED)"
    and "tls_sum (n_decided s') = tls_sum (n_decided s) + of_bool (r \<noteq> UNDECIDED)"
proof -
  have l: "unat v < length (verts s)" using assms(1,2) by (simp add: kshape_def word_less_nat_alt)
  have f: "flag (verts s ! unat v) \<noteq> OUT" using assms(3) by (simp add: flagv_def)
  have e: "s' = (let s1 = (if r = UNDECIDED
                  then s\<lparr> next_frontier := mark t v (next_frontier s),
                          next_frontier_size := tls_modify 0 t (\<lambda>x. x + 1) (next_frontier_size s) \<rparr>
                  else s\<lparr> n_decided := tls_modify 0 t (\<lambda>x. x + 1) (n_decided s) \<rparr>)
        in s1\<lparr> verts := (verts s1)[unat v := (verts s1 ! unat v)\<lparr> flag := r \<rparr>] \<rparr>)"
    using f by (simp add: s'_def pull_def assms(4) r_def Let_def)
  show "kshape E s'" using assms(1,2) by (simp add: e Let_def kshape_def mark_inv)
  show "frontier s' = frontier s" by (simp add: e Let_def)
  show "flagv s' u = (if u = v then r else flagv s u)"
    using l by (simp add: e Let_def flagv_def nth_update_unat)
  show "bits_of (next_frontier s') = bits_of (next_frontier s) \<union> (if r = UNDECIDED then {v} else {})"
    using assms(1,2) by (simp add: e Let_def kshape_def bm.alpha_activate)
  show "tls_sum (next_frontier_size s') = tls_sum (next_frontier_size s) + of_bool (r = UNDECIDED)"
    "tls_sum (n_decided s') = tls_sum (n_decided s) + of_bool (r \<noteq> UNDECIDED)"
    by (simp_all add: e Let_def)
qed

lemma pull_mid:
  assumes "env_ok E" "mis_mid E fr f0 D s" "v < total_verts E" "f0 v = UNDECIDED" "v \<notin> D"
  shows "mis_mid E fr f0 (insert v D) (pull t v (nb E v) (of_nat (length (nb E v))) s)"
proof -
  let ?s = "pull t v (nb E v) (of_nat (length (nb E v))) s" and ?r = "pull_scan (verts s) v (nb E v) IN"
  have m: "kshape E s" "frontier s = fr" "flags_sound E (flagv s)" "D \<subseteq> {v. v < total_verts E \<and> f0 v = UNDECIDED}"
    "bits_of (next_frontier s) = {v \<in> D. flagv s v = UNDECIDED}"
    "tls_sum (next_frontier_size s) = of_nat (card {v \<in> D. flagv s v = UNDECIDED})"
    "tls_sum (n_decided s) = of_nat (card {v \<in> D. flagv s v \<noteq> UNDECIDED})"
    and old: "\<And>u. u < total_verts E \<Longrightarrow> u \<notin> D \<Longrightarrow> flagv s u = f0 u"
    and low: "\<And>u. u \<in> D \<Longrightarrow> \<forall>w. w < u \<longrightarrow> f0 w \<noteq> UNDECIDED \<Longrightarrow> flagv s u \<noteq> UNDECIDED"
    using assms(2) by (auto simp: mis_mid_def)
  have fv: "flagv s v = UNDECIDED" using old [OF assms(3,5)] assms(4) by simp
  note p = pull_state [OF m(1) assms(3) fv take_nb [OF assms(1,3)], where t = t]
  have fin: "finite D" by (rule finite_subset [OF subset_UNIV]) simp
  have sets: "{u \<in> insert v D. flagv ?s u = UNDECIDED} = {u \<in> D. flagv s u = UNDECIDED} \<union> (if ?r = UNDECIDED then {v} else {})"
    "{u \<in> insert v D. flagv ?s u \<noteq> UNDECIDED} = {u \<in> D. flagv s u \<noteq> UNDECIDED} \<union> (if ?r \<noteq> UNDECIDED then {v} else {})"
    using assms(5) by (auto simp: p(3))
  have cards: "card {u \<in> insert v D. flagv ?s u = UNDECIDED} = card {u \<in> D. flagv s u = UNDECIDED} + of_bool (?r = UNDECIDED)"
    "card {u \<in> insert v D. flagv ?s u \<noteq> UNDECIDED} = card {u \<in> D. flagv s u \<noteq> UNDECIDED} + of_bool (?r \<noteq> UNDECIDED)"
    unfolding sets using fin assms(5) by auto
  have "flags_sound E (\<lambda>w. flag (verts s ! unat w))" using m(3) by (simp add: flags_sound_def flagv_def)
  from pull_scan_sound [OF assms(1) this, of v]
  have sound: "flags_sound E (flagv ?s)" using m(3) by (auto simp: flags_sound_def p(3))
  have dec: "?r \<noteq> UNDECIDED" if "\<forall>w. w < v \<longrightarrow> f0 w \<noteq> UNDECIDED"
  proof -
    have w: "flagv s w \<noteq> UNDECIDED" if "w < v" for w
      using old [of w] assms(3) \<open>\<forall>w. w < v \<longrightarrow> f0 w \<noteq> UNDECIDED\<close> that m(4)
      by (metis (mono_tags, lifting) mem_Collect_eq order_less_trans subsetD)
    show ?thesis
    proof (cases "\<exists>w \<in> set (nb E v). w < v \<and> flag (verts s ! unat w) = IN")
      case True
      then have "?r = OUT" by (simp add: pull_scan_OUT)
      then show ?thesis by simp
    next
      case False
      have "flag (verts s ! unat w) = OUT" if "w \<in> set (nb E v)" "w < v" for w
        using False w [OF that(2)] that by (cases "flag (verts s ! unat w)") (auto simp: flagv_def)
      then have "?r = IN" by (simp add: pull_scan_IN)
      then show ?thesis by simp
    qed
  qed
  show ?thesis
    unfolding mis_mid_def
  proof (intro conjI)
    show "bits_of (next_frontier ?s) = {u \<in> insert v D. flagv ?s u = UNDECIDED}"
      unfolding sets p(4) m(5) ..
    show "\<forall>u \<in> insert v D. (\<forall>w. w < u \<longrightarrow> f0 w \<noteq> UNDECIDED) \<longrightarrow> flagv ?s u \<noteq> UNDECIDED"
      using dec low by (auto simp: p(3))
    show "\<forall>u. u < total_verts E \<longrightarrow> u \<notin> insert v D \<longrightarrow> flagv ?s u = f0 u" using old by (simp add: p(3))
    show "tls_sum (next_frontier_size ?s) = of_nat (card {u \<in> insert v D. flagv ?s u = UNDECIDED})"
      "tls_sum (n_decided ?s) = of_nat (card {u \<in> insert v D. flagv ?s u \<noteq> UNDECIDED})"
      unfolding cards p(5,6) m(6,7) by simp_all
  qed (use p(1,2) m(2,4) sound assms(3,4) in auto)
qed

definition undec :: "run_env \<Rightarrow> (u32 \<Rightarrow> MatchFlag) \<Rightarrow> u32 \<Rightarrow> u32 set" where
  "undec E f b = {v. v < b \<and> f v = UNDECIDED}"

text \<open>Between two rounds, \<open>en\<close> being the end of the released slices.\<close>

definition mis_inv :: "run_env \<Rightarrow> u32 \<Rightarrow> u32 \<Rightarrow> u32 \<Rightarrow> u32 \<Rightarrow> mis_state \<Rightarrow> bool" where
  "mis_inv E delta en und front s \<longleftrightarrow> kshape E s \<and> flags_sound E (flagv s) \<and>
     (\<forall>v. v < total_verts E \<longrightarrow> flagv s v = UNDECIDED \<longrightarrow> nb E v \<noteq> []) \<and>
     (\<forall>v. v < total_verts E \<longrightarrow> en \<le> v \<longrightarrow> nb E v \<noteq> [] \<longrightarrow> flagv s v = UNDECIDED) \<and>
     bits_of (frontier s) = undec E (flagv s) en \<and> bits_of (next_frontier s) = {} \<and>
     n_decided s = [] \<and> next_frontier_size s = [] \<and>
     unat front = card (undec E (flagv s) en) \<and> front \<le> delta \<and> en \<le> total_verts E \<and>
     unat und = card (undec E (flagv s) (total_verts E))"

lemma finite_u32 [simp]: "finite (X :: u32 set)"
  by (rule finite_subset [OF subset_UNIV]) simp

lemma mis_frontier_round:
  assumes "env_ok E" "st_ok E st" "mis_inv E delta en und front (cb st)"
  obtains st' where "mis_frontier_pass E c front en st = Some (Inr st')" "st_ok E st'"
    "mis_mid E (frontier (cb st)) (flagv (cb st)) (undec E (flagv (cb st)) en) (cb st')"
proof -
  let ?fr = "frontier (cb st)" and ?f0 = "flagv (cb st)"
  let ?U = "undec E ?f0 en"
  have i: "kshape E (cb st)" "bits_of ?fr = ?U" "unat front = card ?U" "en \<le> total_verts E"
    and ne: "\<And>v. v < total_verts E \<Longrightarrow> ?f0 v = UNDECIDED \<Longrightarrow> nb E v \<noteq> []"
    using assms(3) by (auto simp: mis_inv_def)
  have mid: "mis_mid E ?fr ?f0 {} (cb st)" using assms(3) by (auto simp: mis_inv_def mis_mid_def)
  show ?thesis
  proof (cases "front > 0")
    case False
    then have "front = 0" by (simp add: word_gt_0)
    then have "card ?U = 0" using i(3) by simp
    then have "?U = {}" by simp
    moreover have "mis_frontier_pass E c front en st = Some (Inr st)" using False by (simp add: mis_frontier_pass_def)
    ultimately show ?thesis using that mid assms(2) by simp
  next
    case True
    have bit: "0 \<le> v \<and> v < en \<and> get_bit ?fr v \<noteq> 0 \<longleftrightarrow> v \<in> ?U" for v
      using kshape_bits_iff [OF i(1), of v] i(2,4) by (auto simp: undec_def intro: order_less_le_trans)
    have U: "v < total_verts E \<and> ?f0 v = UNDECIDED" if "v \<in> ?U" for v
      using that i(4) by (auto simp: undec_def intro: order_less_le_trans)
    have step: "mis_mid E ?fr ?f0 (insert v D) (pull t v (nb E v) (of_nat (length (nb E v))) s)"
      if "0 \<le> v" "v < en" "get_bit ?fr v \<noteq> 0" "v \<notin> D" "mis_mid E ?fr ?f0 D s" for D t v s
      using pull_mid [OF assms(1) that(5) _ _ that(4)] U bit that(1-3) by blast
    obtain st' D where o: "for_each_active E (2 * c) ?fr 0 en pull st = Some (Inr st')" "st_ok E st'"
      "mis_mid E ?fr ?f0 D (cb st')" "D \<subseteq> {v. 0 \<le> v \<and> v < en \<and> get_bit ?fr v \<noteq> 0}"
      "{v. 0 \<le> v \<and> v < en \<and> get_bit ?fr v \<noteq> 0 \<and> nb E v \<noteq> []} \<subseteq> D"
      using ccy.iter_rule [where P = "mis_mid E ?fr ?f0" and F = pull and fr = ?fr and lo = 0 and k = "2 * c",
          OF assms(1,2) i(4) mid step] by blast
    have "D = ?U" using o(4,5) bit U ne by blast
    then show ?thesis using that o(1-3) True by (simp add: mis_frontier_pass_def)
  qed
qed

lemma mis_range_round:
  assumes "env_ready E" "st_ok E st" "mis_mid E fr f0 (undec E f0 en) (cb st)" "en \<le> en'" "en' \<le> total_verts E"
    and "\<forall>v. v < total_verts E \<longrightarrow> f0 v = UNDECIDED \<longrightarrow> nb E v \<noteq> []"
    and "\<forall>v. v < total_verts E \<longrightarrow> en \<le> v \<longrightarrow> nb E v \<noteq> [] \<longrightarrow> f0 v = UNDECIDED"
  obtains st' where "mis_range_pass E c en en' st = Some (Inr st')" "st_ok E st'"
    "mis_mid E fr f0 (undec E f0 en') (cb st')"
proof (cases "en < en'")
  case False
  then have "en' = en" using assms(4) by simp
  then show ?thesis using that assms(2,3) by (simp add: mis_range_pass_def)
next
  case True
  have ok: "env_ok E" using assms(1) by (simp add: env_ready_def)
  let ?P = "\<lambda>D. mis_mid E fr f0 (undec E f0 en \<union> D)"
  have lt: "v < total_verts E" if "v < en'" for v using that assms(5) by (rule order_less_le_trans)
  have step: "?P (insert v D) (pull t v (nb E v) (of_nat (length (nb E v))) s)"
    if "en \<le> v" "v < en'" "nb E v \<noteq> []" "v \<notin> D" "?P D s" for D t v s
  proof -
    have "v \<notin> undec E f0 en \<union> D" using that(1,4) by (auto simp: undec_def)
    then show ?thesis using pull_mid [OF ok that(5) lt [OF that(2)]] assms(7) that(1,3) lt [OF that(2)] by simp
  qed
  have p0: "?P {} (cb st)" using assms(3) by simp
  obtain st' D where o: "for_each_in E (2 * c + 1) (frontier (cb st)) en en' pull st = Some (Inr st')" "st_ok E st'"
    "?P D (cb st')" "D \<subseteq> {v. en \<le> v \<and> v < en' \<and> nb E v \<noteq> []}"
    "{v. en \<le> v \<and> v < en' \<and> nb E v \<noteq> [] \<and> nb E v \<noteq> []} \<subseteq> D"
    using rng.iter_rule [where P = ?P and F = pull and fr = "frontier (cb st)" and lo = en and k = "2 * c + 1",
        OF assms(1,2,5) p0 step] by blast
  have "undec E f0 en \<union> D = undec E f0 en'"
  proof -
    have D: "D = {v. en \<le> v \<and> v < en' \<and> nb E v \<noteq> []}" using o(4,5) by blast
    have "v < en' \<and> f0 v = UNDECIDED \<longleftrightarrow> v < en \<and> f0 v = UNDECIDED \<or> en \<le> v \<and> v < en' \<and> nb E v \<noteq> []" for v
      using lt [of v] assms(4,6,7) by (cases "v < en") (auto intro: order_less_le_trans)
    then show ?thesis unfolding undec_def D by blast
  qed
  then show ?thesis using that o(1-3) True by (simp add: mis_range_pass_def)
qed

text \<open>A whole round keeps the invariant and makes progress.\<close>

lemma slice_end:
  assumes "unat (total_verts E) + unat delta < 2 ^ 32" "front \<le> delta" "en \<le> total_verts E"
  defines "en' \<equiv> min (total_verts E) (en + delta - front)"
  shows "en \<le> en'" "en' \<le> total_verts E" "unat en' - unat en \<le> unat delta - unat front"
    "front < delta \<Longrightarrow> en < total_verts E \<Longrightarrow> en < en'"
proof -
  have e: "unat en \<le> unat (total_verts E)" "unat front \<le> unat delta" using assms(2,3) by (auto simp: word_le_nat_alt)
  have s: "unat (en + delta) = unat en + unat delta" using e(1) assms(1) by (intro unat_add_u32) simp
  have "unat (en + delta - front) = unat en + unat delta - unat front"
    using s e(2) by (subst unat_sub_word) (auto simp: word_le_nat_alt)
  then have m: "unat en' = min (unat (total_verts E)) (unat en + unat delta - unat front)"
    unfolding en'_def by (auto simp: min_def word_le_nat_alt)
  show "en \<le> en'" "en' \<le> total_verts E" using m e by (auto simp: word_le_nat_alt)
  show "unat en' - unat en \<le> unat delta - unat front" using m e by simp
  show "en < en'" if "front < delta" "en < total_verts E"
    using m e that by (auto simp: word_less_nat_alt min_def)
qed

lemma mis_end_round_inv:
  assumes "mis_inv E delta en und front s" "mis_mid E fr (flagv s) (undec E (flagv s) en') s'"
    and "en \<le> en'" "en' \<le> total_verts E" "unat en' - unat en \<le> unat delta - unat front"
  defines "und' \<equiv> und - tls_sum (n_decided s')" and "front' \<equiv> tls_sum (next_frontier_size s')"
  shows "mis_inv E delta en' und' front' (mis_end_round s')"
    and "unat und' = card (undec E (flagv s') (total_verts E))"
    and "card (undec E (flagv s) (total_verts E)) =
      card (undec E (flagv s') (total_verts E)) + card {v \<in> undec E (flagv s) en'. flagv s' v \<noteq> UNDECIDED}"
proof -
  let ?D = "undec E (flagv s) en'" and ?n = "total_verts E" and ?f' = "flagv s'"
  let ?N = "{v \<in> ?D. ?f' v = UNDECIDED}" and ?X = "{v \<in> ?D. ?f' v \<noteq> UNDECIDED}"
  have i: "unat und = card (undec E (flagv s) ?n)" "unat front = card (undec E (flagv s) en)" "front \<le> delta" "en \<le> ?n"
    and ne: "\<And>v. v < ?n \<Longrightarrow> flagv s v = UNDECIDED \<Longrightarrow> nb E v \<noteq> []"
    and rel: "\<And>v. v < ?n \<Longrightarrow> en \<le> v \<Longrightarrow> nb E v \<noteq> [] \<Longrightarrow> flagv s v = UNDECIDED"
    using assms(1) by (auto simp: mis_inv_def)
  have m: "kshape E s'" "flags_sound E ?f'" "bits_of (next_frontier s') = ?N"
    "front' = of_nat (card ?N)" "tls_sum (n_decided s') = of_nat (card ?X)"
    and old: "\<And>v. v < ?n \<Longrightarrow> v \<notin> ?D \<Longrightarrow> ?f' v = flagv s v"
    using assms(2) by (auto simp: mis_mid_def front'_def)
  have lt: "v < ?n" if "v < en'" for v using that assms(4) by (rule order_less_le_trans)
  have "v \<in> ?N \<longleftrightarrow> v \<in> undec E ?f' en'" for v
    using old [of v] lt [of v] by (cases "v \<in> ?D") (auto simp: undec_def)
  then have N: "?N = undec E ?f' en'" by blast
  have split: "undec E (flagv s) ?n = undec E ?f' ?n \<union> ?X" "undec E ?f' ?n \<inter> ?X = {}"
  proof -
    have "v \<in> undec E (flagv s) ?n \<longleftrightarrow> v \<in> undec E ?f' ?n \<union> ?X" for v
      using old [of v] lt [of v] by (cases "v \<in> ?D") (auto simp: undec_def)
    then show "undec E (flagv s) ?n = undec E ?f' ?n \<union> ?X" by blast
    show "undec E ?f' ?n \<inter> ?X = {}" by (auto simp: undec_def)
  qed
  show card: "card (undec E (flagv s) ?n) = card (undec E ?f' ?n) + card ?X"
    unfolding split(1) using split(2) by (intro card_Un_disjoint) simp_all
  have Xle: "card ?X < 2 ^ 32" using card i(1) unat_u32_lt [of und] by simp
  show und': "unat und' = card (undec E ?f' ?n)"
    unfolding und'_def m(5) using card i(1) Xle
    by (subst unat_sub_word) (auto simp: word_le_nat_alt unat_of_nat_u32)
  have Dle: "card ?D \<le> unat delta"
  proof -
    have "?D \<subseteq> undec E (flagv s) en \<union> set (u32_range en en')" by (auto simp: undec_def)
    then have "card ?D \<le> card (undec E (flagv s) en) + card (set (u32_range en en'))"
      using card_mono card_Un_le by (metis (no_types, lifting) finite_u32 order_trans)
    also have "card (set (u32_range en en')) = unat en' - unat en"
      using distinct_card [OF distinct_u32_range, of en en'] by (simp only:) (simp add: u32_range_def)
    finally show ?thesis using i(2,3) assms(5) by (simp add: word_le_nat_alt)
  qed
  have "card ?N \<le> card ?D" by (intro card_mono) auto
  then have Nle: "card ?N \<le> unat delta" using Dle by simp
  then have f': "unat front' = card ?N" unfolding m(4)
    using unat_u32_lt [of delta] by (intro unat_of_nat_u32) linarith
  have fl: "flagv (mis_end_round s') = ?f'" by (simp add: fun_eq_iff flagv_def mis_end_round_def swap_frontiers_def)
  have sh: "kshape E (s'\<lparr> n_decided := [], next_frontier_size := [] \<rparr>)" using m(1) by (simp add: kshape_def)
  show "mis_inv E delta en' und' front' (mis_end_round s')"
    unfolding mis_inv_def fl
  proof (intro conjI)
    show "kshape E (mis_end_round s')" unfolding mis_end_round_def by (rule kshape_swap [OF sh])
    show "\<forall>v. v < ?n \<longrightarrow> ?f' v = UNDECIDED \<longrightarrow> nb E v \<noteq> []"
      using ne split(1) by (auto simp: undec_def)
    show "\<forall>v. v < ?n \<longrightarrow> en' \<le> v \<longrightarrow> nb E v \<noteq> [] \<longrightarrow> ?f' v = UNDECIDED"
      using rel old assms(3) by (auto simp: undec_def)
    show "bits_of (frontier (mis_end_round s')) = undec E ?f' en'" "bits_of (next_frontier (mis_end_round s')) = {}"
      using swap_frontiers_bits [OF sh] m(3) N by (simp_all add: mis_end_round_def)
    show "unat front' = card (undec E ?f' en')" using f' N by simp
    show "front' \<le> delta" using f' Nle by (simp add: word_le_nat_alt)
  qed (use m(2) und' assms(4) in \<open>simp_all add: mis_end_round_def swap_frontiers_def\<close>)
qed

lemma mis_round_progress:
  assumes "mis_inv E delta en und front s" "und > 0" "delta > 0" "unat (total_verts E) + unat delta < 2 ^ 32"
  defines "en' \<equiv> min (total_verts E) (en + delta - front)"
  assumes "mis_mid E fr (flagv s) (undec E (flagv s) en') s'"
  shows "mis_inv E delta en' (und - tls_sum (n_decided s')) (tls_sum (next_frontier_size s')) (mis_end_round s')"
    and "unat (und - tls_sum (n_decided s')) + (unat (total_verts E) - unat en') < unat und + (unat (total_verts E) - unat en)"
proof -
  let ?n = "total_verts E" and ?f = "flagv s"
  have i: "front \<le> delta" "en \<le> ?n" "unat front = card (undec E ?f en)" "unat und = card (undec E ?f ?n)"
    using assms(1) by (auto simp: mis_inv_def)
  note sl = slice_end [OF assms(4) i(1,2), folded en'_def]
  let ?und' = "und - tls_sum (n_decided s')" and ?X = "{v \<in> undec E ?f en'. flagv s' v \<noteq> UNDECIDED}"
  note e = mis_end_round_inv [OF assms(1,6) sl(1-3)]
  show "mis_inv E delta en' ?und' (tls_sum (next_frontier_size s')) (mis_end_round s')" by (rule e(1))
  have cnt: "unat und = unat ?und' + card ?X" using e(2,3) i(4) by simp
  have le: "unat en \<le> unat en'" "unat en' \<le> unat ?n" using sl(1,2) by (auto simp: word_le_nat_alt)
  show "unat ?und' + (unat ?n - unat en') < unat und + (unat ?n - unat en)"
  proof (cases "front > 0")
    case True
    then have "undec E ?f en \<noteq> {}" using i(3) by (auto simp: word_less_nat_alt)
    define m where "m = Min (undec E ?f en)"
    have m: "m \<in> undec E ?f en" using \<open>undec E ?f en \<noteq> {}\<close> by (simp add: m_def)
    have "?f w \<noteq> UNDECIDED" if "w < m" for w
    proof
      assume "?f w = UNDECIDED"
      then have "w \<in> undec E ?f en" using that m by (auto simp: undec_def)
      then have "m \<le> w" by (simp add: m_def)
      then show False using that by simp
    qed
    moreover have mem: "m \<in> undec E ?f en'" using m sl(1) by (auto simp: undec_def)
    ultimately have "m \<in> ?X" using assms(6) by (auto simp: mis_mid_def)
    then have "0 < card ?X" by (auto simp: card_gt_0_iff)
    then show ?thesis using cnt le by simp
  next
    case False
    then have "front = 0" by (simp add: word_gt_0)
    then have "undec E ?f en = {}" using i(3) by simp
    moreover have "undec E ?f ?n \<noteq> {}" using i(4) assms(2) by (auto simp: word_less_nat_alt)
    ultimately have "en < ?n" using i(2) by (cases "en = ?n") auto
    then have "en < en'" using sl(4) assms(3) \<open>front = 0\<close> by simp
    then show ?thesis using cnt le \<open>en < ?n\<close> by (simp add: word_less_nat_alt)
  qed
qed

lemma mis_round:
  assumes "env_ready E" "st_ok E st" "mis_inv E delta en und front (cb st)" "und > 0" "delta > 0"
    and "unat (total_verts E) + unat delta < 2 ^ 32"
  defines "en' \<equiv> min (total_verts E) (en + delta - front)"
  obtains st1 st2 where "mis_frontier_pass E c front en st = Some (Inr st1)"
    "mis_range_pass E c en en' st1 = Some (Inr st2)" "st_ok E st2"
    "mis_inv E delta en' (und - tls_sum (n_decided (cb st2))) (tls_sum (next_frontier_size (cb st2))) (mis_end_round (cb st2))"
    "unat (und - tls_sum (n_decided (cb st2))) + (unat (total_verts E) - unat en') < unat und + (unat (total_verts E) - unat en)"
proof -
  let ?n = "total_verts E" and ?f = "flagv (cb st)"
  have ok: "env_ok E" using assms(1) by (simp add: env_ready_def)
  have i: "front \<le> delta" "en \<le> ?n"
    "\<forall>v. v < ?n \<longrightarrow> ?f v = UNDECIDED \<longrightarrow> nb E v \<noteq> []"
    "\<forall>v. v < ?n \<longrightarrow> en \<le> v \<longrightarrow> nb E v \<noteq> [] \<longrightarrow> ?f v = UNDECIDED"
    using assms(3) by (auto simp: mis_inv_def)
  note sl = slice_end [OF assms(6) i(1,2), folded en'_def]
  obtain st1 where s1: "mis_frontier_pass E c front en st = Some (Inr st1)" "st_ok E st1"
    "mis_mid E (frontier (cb st)) ?f (undec E ?f en) (cb st1)"
    using mis_frontier_round [OF ok assms(2,3)] by blast
  obtain st2 where s2: "mis_range_pass E c en en' st1 = Some (Inr st2)" "st_ok E st2"
    "mis_mid E (frontier (cb st)) ?f (undec E ?f en') (cb st2)"
    using mis_range_round [OF assms(1) s1(2,3) sl(1,2) i(3,4)] by blast
  note pr = mis_round_progress [OF assms(3-6) s2(3) [unfolded en'_def], folded en'_def]
  show ?thesis by (rule that [OF s1(1) s2(1,2) pr])
qed

lemma mis_loop_returns:
  assumes "env_ready E" "delta > 0" "unat (total_verts E) + unat delta < 2 ^ 32"
    and "st_ok E st" "mis_inv E delta en und front (cb st)"
  shows "\<exists>st' en'. mis_loop E delta c en en und front st = Some (Inr st') \<and> mis_inv E delta en' 0 0 (cb st')"
  using assms(4,5)
proof (induction "unat und + (unat (total_verts E) - unat en)" arbitrary: c en und front st rule: less_induct)
  case less
  show ?case
  proof (cases "und > 0")
    case False
    then have z: "und = 0" by (simp add: word_gt_0)
    then have "undec E (flagv (cb st)) (total_verts E) = {}" using less.prems(2) by (simp add: mis_inv_def)
    then have "undec E (flagv (cb st)) en = {}"
      using less.prems(2) by (auto simp: mis_inv_def undec_def intro: order_less_le_trans)
    then have "front = 0" using less.prems(2) by (simp add: mis_inv_def unat_eq_zero)
    then show ?thesis using z less.prems(2) by (subst mis_loop.simps) auto
  next
    case True
    let ?en' = "min (total_verts E) (en + delta - front)"
    obtain st1 st2 where r: "mis_frontier_pass E c front en st = Some (Inr st1)"
      "mis_range_pass E c en ?en' st1 = Some (Inr st2)" "st_ok E st2"
      "mis_inv E delta ?en' (und - tls_sum (n_decided (cb st2))) (tls_sum (next_frontier_size (cb st2))) (mis_end_round (cb st2))"
      "unat (und - tls_sum (n_decided (cb st2))) + (unat (total_verts E) - unat ?en') < unat und + (unat (total_verts E) - unat en)"
      using mis_round [OF assms(1) less.prems True assms(2,3)] by blast
    have "mis_loop E delta c en en und front st = mis_loop E delta (Suc c) ?en' ?en'
        (und - tls_sum (n_decided (cb st2))) (tls_sum (next_frontier_size (cb st2))) (st2\<lparr> cb := mis_end_round (cb st2) \<rparr>)"
      using True r(1,2) by (subst mis_loop.simps) (simp add: Let_def)
    then show ?thesis
      using less.hyps [OF r(5), of "st2\<lparr> cb := mis_end_round (cb st2) \<rparr>" "tls_sum (next_frontier_size (cb st2))" "Suc c"] r(3,4)
      by simp
  qed
qed

text \<open>The start: vertices without out-edges are in.\<close>

lemma mis_zero_fold:
  assumes "\<forall>v \<in> set us. unat v < length vs" "distinct us"
  shows "length (fst (fold (\<lambda>v. mis_zero_vertex E (who v) v) us (vs, c))) = length vs \<and>
    tls_sum (snd (fold (\<lambda>v. mis_zero_vertex E (who v) v) us (vs, c))) =
      tls_sum c + of_nat (card {v \<in> set us. out_degree (env_args E) v = 0}) \<and>
    (\<forall>v. flag (fst (fold (\<lambda>v. mis_zero_vertex E (who v) v) us (vs, c)) ! unat v) =
       (if v \<in> set us \<and> out_degree (env_args E) v = 0 then IN else flag (vs ! unat v)))"
  using assms
proof (induction us arbitrary: vs c)
  case (Cons u us)
  have u: "unat u < length vs" "u \<notin> set us" using Cons.prems by auto
  show ?case
  proof (cases "out_degree (env_args E) u = 0")
    case True
    let ?vs = "vs[unat u := (vs ! unat u)\<lparr> flag := IN \<rparr>]" and ?c = "tls_modify 0 (who u) (\<lambda>x. x + 1) c"
    have s: "{v \<in> set (u # us). out_degree (env_args E) v = 0} = insert u {v \<in> set us. out_degree (env_args E) v = 0}"
      using True by auto
    have "card (insert u {v \<in> set us. out_degree (env_args E) v = 0}) = Suc (card {v \<in> set us. out_degree (env_args E) v = 0})"
      using u(2) by simp
    then show ?thesis
      using Cons.IH [of ?vs ?c] Cons.prems u True unfolding s
      by (auto simp: mis_zero_vertex_def nth_update_unat)
  next
    case False
    then have "{v \<in> set (u # us). out_degree (env_args E) v = 0} = {v \<in> set us. out_degree (env_args E) v = 0}" by auto
    then show ?thesis using Cons.IH [of vs c] Cons.prems u False by (auto simp: mis_zero_vertex_def)
  qed
qed simp

lemma mis_start_inv:
  assumes "env_ok E" "fresh E \<lparr> flag = UNDECIDED \<rparr> s" "mis_zero_degree E who (verts s) = (vs, z)"
  shows "mis_inv E delta 0 (total_verts E - tls_sum z) 0 (s\<lparr> verts := vs, n_decided := [], next_frontier_size := [] \<rparr>)"
proof -
  let ?n = "total_verts E" and ?s = "s\<lparr> verts := vs, n_decided := [], next_frontier_size := [] \<rparr>"
  have f: "kshape E s" "bits_of (frontier s) = {}" "bits_of (next_frontier s) = {}" "verts s = replicate (unat ?n) \<lparr> flag = UNDECIDED \<rparr>"
    using assms(2) by (auto simp: fresh_def)
  let ?Z = "{v. v < ?n \<and> out_degree (env_args E) v = 0}"
  have z: "length vs = unat ?n" "tls_sum z = of_nat (card ?Z)"
    "\<And>v. v < ?n \<Longrightarrow> flag (vs ! unat v) = (if out_degree (env_args E) v = 0 then IN else UNDECIDED)"
    using mis_zero_fold [of "u32_range 0 ?n" "verts s" E who "[]"] assms(3) f(4)
    by (auto simp: mis_zero_degree_def word_less_nat_alt)
  have nb: "nb E v = [] \<longleftrightarrow> out_degree (env_args E) v = 0" if "v < ?n" for v
    using nb_length [OF assms(1) that] by (metis length_0_conv unat_0 unat_eq_zero)
  have fl: "flagv ?s v = (if nb E v = [] then IN else UNDECIDED)" if "v < ?n" for v
    using z(3) [OF that] nb [OF that] by (simp add: flagv_def)
  have un: "undec E (flagv ?s) ?n = {v. v < ?n} - ?Z" using fl nb by (auto simp: undec_def split: if_splits)
  have c: "card (undec E (flagv ?s) ?n) = unat ?n - card ?Z" "card ?Z \<le> unat ?n"
  proof -
    have "?Z \<subseteq> {v. v < ?n}" by auto
    then show "card (undec E (flagv ?s) ?n) = unat ?n - card ?Z" "card ?Z \<le> unat ?n"
      unfolding un using card_Diff_subset [of ?Z "{v. v < ?n}"] card_mono [of "{v. v < ?n}" ?Z]
      by (simp_all add: card_words_below)
  qed
  have "unat (?n - tls_sum z) = unat ?n - card ?Z"
    using c(2) unat_u32_lt [of ?n] unfolding z(2) by (subst unat_sub_word) (auto simp: word_le_nat_alt unat_of_nat_u32)
  then have und: "unat (?n - tls_sum z) = card (undec E (flagv ?s) ?n)" using c(1) by simp
  have "first_mis (nb E) v" if "nb E v = []" for v using that by (subst first_mis.simps) simp
  then have "flags_sound E (flagv ?s)" using fl by (auto simp: flags_sound_def split: if_splits)
  then show ?thesis
    using f(1-3) z(1) fl und by (auto simp: mis_inv_def undec_def kshape_def split: if_splits)
qed

text \<open>When no vertex is undecided the flags are those of the set, which is maximal and independent.\<close>

lemma mis_decided:
  fixes s :: mis_state
  assumes "env_ok E" "undec E (flagv s) (total_verts E) = {}" "flags_sound E (flagv s)"
  defines "I \<equiv> {v. v < total_verts E \<and> flag (verts s ! unat v) = IN}"
  shows "v < total_verts E \<Longrightarrow> flag (verts s ! unat v) = (if first_mis (nb E) v then IN else OUT)"
    and "v < total_verts E \<Longrightarrow> v \<notin> I \<Longrightarrow> \<exists>w \<in> I. w \<in> set (nb E v)"
    and "sym (edge_rel E) \<Longrightarrow> u \<in> I \<Longrightarrow> v \<in> I \<Longrightarrow> u \<noteq> v \<Longrightarrow> v \<notin> set (nb E u)"
proof -
  let ?f = "\<lambda>v. flag (verts s ! unat v)" and ?n = "total_verts E"
  have f: "?f v = (if first_mis (nb E) v then IN else OUT)" if "v < ?n" for v
    using assms(2,3) that by (cases "?f v") (auto simp: undec_def flagv_def flags_sound_def)
  then show "v < ?n \<Longrightarrow> ?f v = (if first_mis (nb E) v then IN else OUT)" .
  have fm: "first_mis (nb E) v \<longleftrightarrow> (\<forall>w \<in> set (nb E v). w < v \<longrightarrow> \<not> first_mis (nb E) w)" for v
    by (subst first_mis.simps) auto
  have I: "v \<in> I \<longleftrightarrow> v < ?n \<and> first_mis (nb E) v" for v using f [of v] by (auto simp: I_def split: if_splits)
  show "\<exists>w \<in> I. w \<in> set (nb E v)" if "v < ?n" "v \<notin> I"
  proof -
    have "\<not> first_mis (nb E) v" using that unfolding I by blast
    then obtain w where w: "w \<in> set (nb E v)" "first_mis (nb E) w" using fm [of v] by blast
    then have "w \<in> I" unfolding I using nb_bound [OF assms(1)] by blast
    then show ?thesis using w(1) by blast
  qed
  show "v \<notin> set (nb E u)" if "sym (edge_rel E)" "u \<in> I" "v \<in> I" "u \<noteq> v"
  proof
    assume v: "v \<in> set (nb E u)"
    then have "(u, v) \<in> edge_rel E" using that(2) by (simp add: edge_rel_def I)
    then have u: "u \<in> set (nb E v)" using that(1) by (auto simp: edge_rel_def dest: symD)
    have "u < v \<or> v < u" using that(4) by auto
    then show False using u v that(2,3) fm [of u] fm [of v] unfolding I by blast
  qed
qed

subsection \<open>Properties\<close>

text \<open>
  C14. The independent-set kernel is correct and terminates when \<open>delta = total_verts / divisor\<close> is
  positive (and \<open>total_verts + delta\<close> fits 32 bits). It returns with every vertex decided: a vertex is in
  exactly when no smaller neighbour is, which is the lexicographically first choice; every vertex
  that is out has a neighbour that is in; on a symmetric graph no two vertices that are in are
  adjacent; and \<open>get_cardinality\<close> prints the size of the set.
\<close>

theorem mis_correct:
  assumes "env_ready E" "st_ok E st" "fresh E \<lparr> flag = UNDECIDED \<rparr> (cb st)" "total_verts E div divisor > 0"
    and "unat (total_verts E) + unat (total_verts E div divisor) < 2 ^ 32" "covers (total_verts E) cs"
  shows "\<exists>st' I. mis_kernel E divisor who st = Some (Inr st') \<and>
    I = {v. v < total_verts E \<and> flag (verts (cb st') ! unat v) = IN} \<and>
    (\<forall>v. v < total_verts E \<longrightarrow> flag (verts (cb st') ! unat v) = (if first_mis (nb E) v then IN else OUT)) \<and>
    (\<forall>v. v < total_verts E \<longrightarrow> v \<notin> I \<longrightarrow> (\<exists>w \<in> I. w \<in> set (nb E v))) \<and>
    (sym (edge_rel E) \<longrightarrow> (\<forall>u \<in> I. \<forall>v \<in> I. u \<noteq> v \<longrightarrow> v \<notin> set (nb E u))) \<and>
    unat (get_cardinality cs (verts (cb st'))) = card I"
proof -
  have ok: "env_ok E" using assms(1) by (simp add: env_ready_def)
  obtain vs z where vz: "mis_zero_degree E who (verts (cb st)) = (vs, z)" by (cases "mis_zero_degree E who (verts (cb st))")
  let ?s = "(cb st)\<lparr> verts := vs, n_decided := [], next_frontier_size := [] \<rparr>" and ?n = "total_verts E"
  have inv0: "mis_inv E (?n div divisor) 0 (?n - tls_sum z) 0 (cb (st\<lparr> cb := ?s \<rparr>))"
    using mis_start_inv [OF ok assms(3) vz] by simp
  have st0: "st_ok E (st\<lparr> cb := ?s \<rparr>)" using assms(2) by simp
  obtain st' en where r: "mis_kernel E divisor who st = Some (Inr st')" "mis_inv E (?n div divisor) en 0 0 (cb st')"
    using mis_loop_returns [OF assms(1,4,5) st0 inv0, of 0] vz by (auto simp: mis_kernel_def Let_def)
  have d: "undec E (flagv (cb st')) ?n = {}" "flags_sound E (flagv (cb st'))" using r(2) by (simp_all add: mis_inv_def)
  show ?thesis
    unfolding get_cardinality_def using r(1) mis_decided [OF ok d] parallel_reduce_count [OF assms(6)]
    by (intro exI [of _ st'] exI [of _ "{v. v < ?n \<and> flag (verts (cb st') ! unat v) = IN}"]) blast
qed

theorem mis_correct_witness:
  "\<exists>st' I. mis_kernel (demo_env 0) 3 (\<lambda>v. 0)
      (demo_state (kstate.extend (demo_kstate \<lparr> flag = UNDECIDED \<rparr>) \<lparr> n_decided = [], next_frontier_size = [] \<rparr>))
      = Some (Inr st') \<and>
    I = {v :: u32. v < 3 \<and> flag (verts (cb st') ! unat v) = IN} \<and>
    unat (get_cardinality [(0, 3)] (verts (cb st'))) = card I"
proof -
  have "covers 3 [(0, 3)]" by (simp add: covers_def)
  moreover have "fresh (demo_env 0) \<lparr> flag = UNDECIDED \<rparr>
      (kstate.extend (demo_kstate \<lparr> flag = UNDECIDED \<rparr>) \<lparr> n_decided = [], next_frontier_size = [] \<rparr>)"
    by (intro fresh_extend demo_fresh)
  moreover have "(3 :: u32) div 3 = 1" by code_simp
  ultimately show ?thesis
    using mis_correct [OF demo_env_ready demo_st_ok, of "kstate.extend (demo_kstate \<lparr> flag = UNDECIDED \<rparr>)
        \<lparr> n_decided = [], next_frontier_size = [] \<rparr>" 3 "[(0, 3)]" "\<lambda>v. 0"]
    unfolding cb_demo_state demo_total by auto
qed

lemma mis_loop_stuck:
  assumes "mis_loop E delta c start0 end0 und front st = Some y"
  shows "\<not> (delta = 0 \<and> start0 = 0 \<and> end0 = 0 \<and> front = 0 \<and> und > 0 \<and> n_decided (cb st) = [] \<and> next_frontier_size (cb st) = [])"
proof (rule mis_loop.raw_induct [OF _ assms, of "\<lambda>E delta c start0 end0 und front st y.
    \<not> (delta = 0 \<and> start0 = 0 \<and> end0 = 0 \<and> front = 0 \<and> und > 0 \<and> n_decided (cb st) = [] \<and> next_frontier_size (cb st) = [])"],
    rule notI)
  fix loop E c st y
  fix delta start0 end0 und front :: u32
  assume IH: "\<And>E delta c start0 end0 und front st y. loop E delta c start0 end0 und front st = Some y \<Longrightarrow>
      \<not> (delta = 0 \<and> start0 = 0 \<and> end0 = 0 \<and> front = 0 \<and> und > 0 \<and> n_decided (cb st) = [] \<and> next_frontier_size (cb st) = [])"
    and step: "(if und > 0 then
        Option.bind (mis_frontier_pass E c front end0 st) (\<lambda>r1. case r1 of
          Inl a \<Rightarrow> Some (Inl a)
        | Inr st1 \<Rightarrow>
            let end1 = min (total_verts E) (end0 + delta - front) in
            Option.bind (mis_range_pass E c start0 end1 st1) (\<lambda>r2. case r2 of
              Inl a \<Rightarrow> Some (Inl a)
            | Inr st2 \<Rightarrow>
                loop E delta (Suc c) end1 end1 (und - tls_sum (n_decided (cb st2)))
                  (tls_sum (next_frontier_size (cb st2))) (st2\<lparr> cb := mis_end_round (cb st2) \<rparr>)))
      else Some (Inr st)) = Some y"
    and s: "delta = 0 \<and> start0 = 0 \<and> end0 = 0 \<and> front = 0 \<and> und > 0 \<and> n_decided (cb st) = [] \<and> next_frontier_size (cb st) = []"
  have "min (total_verts E) 0 = 0" by (simp add: min_def)
  then have "loop E 0 (Suc c) 0 0 und 0 (st\<lparr> cb := mis_end_round (cb st) \<rparr>) = Some y"
    using step s by (simp add: mis_frontier_pass_def mis_range_pass_def Let_def)
  from IH [OF this] s show False by (simp add: mis_end_round_def swap_frontiers_def)
qed

text \<open>
  C34. With fewer vertices than the divisor, \<open>delta\<close> is zero: no vertex is ever released, and the
  kernel never returns unless all vertices are without out-edges.
\<close>

theorem mis_zero_delta_hangs:
  assumes "env_ok E" "fresh E \<lparr> flag = UNDECIDED \<rparr> (cb st)" "total_verts E < divisor" "v < total_verts E" "nb E v \<noteq> []"
  shows "mis_kernel E divisor who st = None"
proof (rule ccontr)
  assume "mis_kernel E divisor who st \<noteq> None"
  then obtain y where y: "mis_kernel E divisor who st = Some y" by auto
  obtain vs z where vz: "mis_zero_degree E who (verts (cb st)) = (vs, z)" by (cases "mis_zero_degree E who (verts (cb st))")
  let ?s = "(cb st)\<lparr> verts := vs, n_decided := [], next_frontier_size := [] \<rparr>" and ?n = "total_verts E"
  have d: "?n div divisor = 0"
    using assms(3) by (intro word_unat_eq_iff [THEN iffD2]) (simp add: unat_div_distrib word_less_nat_alt)
  have inv: "mis_inv E 0 0 (?n - tls_sum z) 0 ?s" using mis_start_inv [OF assms(1,2) vz] .
  then have "v \<in> undec E (flagv ?s) ?n" using assms(4,5) by (auto simp: mis_inv_def undec_def)
  then have "0 < card (undec E (flagv ?s) ?n)" by (auto simp: card_gt_0_iff)
  then have "?n - tls_sum z > 0" using inv by (simp add: mis_inv_def word_less_nat_alt)
  moreover have "mis_loop E 0 0 0 0 (?n - tls_sum z) 0 (st\<lparr> cb := ?s \<rparr>) = Some y"
    using y by (simp add: mis_kernel_def vz d Let_def)
  ultimately show False using mis_loop_stuck by fastforce
qed

theorem mis_zero_delta_hangs_witness:
  "mis_kernel (demo_env 0) 16 (\<lambda>v. 0)
     (demo_state (kstate.extend (demo_kstate \<lparr> flag = UNDECIDED \<rparr>) \<lparr> n_decided = [], next_frontier_size = [] \<rparr>)) = None"
proof -
  have "fresh (demo_env 0) \<lparr> flag = UNDECIDED \<rparr>
      (kstate.extend (demo_kstate \<lparr> flag = UNDECIDED \<rparr>) \<lparr> n_decided = [], next_frontier_size = [] \<rparr>)"
    by (intro fresh_extend demo_fresh)
  then show ?thesis
    using mis_zero_delta_hangs [OF demo_env_ok [of 0], of _ 16 0 "\<lambda>v. 0"] by (simp add: demo_nb)
qed

end
