(* ===== verification/MIS_Parallel.thy ===== *)
theory MIS_Parallel
  imports MIS Interleaving
begin

text \<open>
  The independent-set kernel with its callbacks interleaved. A worker reads the flags of the smaller
  neighbours one by one, while the workers of those neighbours decide them: it may see one neighbour
  before and another one after its decision. The rounds then depend on the schedule, and so does how
  many vertices are released in each; the set does not. The flag is a plain byte, not an atomic: for C++ these
  accesses race. The model takes each of them as indivisible, as a machine does with a byte.
\<close>

subsection \<open>The callback as micro-operations\<close>

text \<open>
  \<open>MScan\<close> is the loop over the neighbours, with those that are still to be read and \<open>v_flag\<close>. The two counters
  belong to the thread that increments them: an increment is part of the access next to it.
\<close>

datatype mis_op = MVisit u32 | MScan u32 "u32 list" MatchFlag | MMark u32 | MStore u32 MatchFlag

fun mis_exec :: "run_env \<Rightarrow> (mis_state, mis_op) micro" where
  "mis_exec E t (MVisit v) s =
     [(s, if flag (verts s ! unat v) = OUT then []
          else [MScan v (take (unat (of_nat (length (nb E v)) :: u32)) (nb E v)) IN])]"
| "mis_exec E t (MScan v [] v_flag) s = [(s, if v_flag = UNDECIDED then [MMark v] else [MStore v v_flag])]"
| "mis_exec E t (MScan v (w # ws) v_flag) s =
     (if w < v then
        let v_flag = (case flag (verts s ! unat w) of UNDECIDED \<Rightarrow> UNDECIDED | IN \<Rightarrow> OUT | OUT \<Rightarrow> v_flag)
        in [(s, if v_flag = OUT then [MStore v OUT] else [MScan v ws v_flag])]
      else [(s, [MScan v ws v_flag])])"
| "mis_exec E t (MMark v) s =
     [(s\<lparr> next_frontier := mark t v (next_frontier s),
          next_frontier_size := tls_modify 0 t (\<lambda>x. x + 1) (next_frontier_size s) \<rparr>, [MStore v UNDECIDED])]"
| "mis_exec E t (MStore v v_flag) s =
     (let s = (if v_flag = UNDECIDED then s else s\<lparr> n_decided := tls_modify 0 t (\<lambda>x. x + 1) (n_decided s) \<rparr>)
      in [(s\<lparr> verts := (verts s)[unat v := (verts s ! unat v)\<lparr> flag := v_flag \<rparr>] \<rparr>, [])])"

text \<open>The locals of the kernel; \<open>mv_range\<close> tells which of the two loops of a round comes next.\<close>

record mis_locals =
  mv_start :: u32
  mv_end :: u32
  mv_undecided :: u32
  mv_front_size :: u32
  mv_range :: bool

definition mis_starts :: "run_env \<Rightarrow> mis_locals \<Rightarrow> mis_state \<Rightarrow> mis_op list list \<Rightarrow> bool" where
  "mis_starts E l s Q \<longleftrightarrow>
     (if mv_range l then
        (if mv_start l < mv_end l
         then \<exists>vss. shares E {v. mv_start l \<le> v \<and> v < mv_end l \<and> nb E v \<noteq> []} vss \<and> Q = map (map MVisit) vss
         else Q = [])
      else mv_undecided l > 0 \<and>
        (if mv_front_size l > 0
         then \<exists>vss. shares E (bits_of (frontier s) \<inter> {v. v < mv_end l}) vss \<and> Q = map (map MVisit) vss
         else Q = []))"

definition mis_fin :: "run_env \<Rightarrow> u32 \<Rightarrow> mis_locals \<Rightarrow> mis_state \<Rightarrow> mis_locals \<times> mis_state" where
  "mis_fin E delta l s =
     (if mv_range l
      then (l\<lparr> mv_start := mv_end l, mv_undecided := mv_undecided l - tls_sum (n_decided s),
               mv_front_size := tls_sum (next_frontier_size s), mv_range := False \<rparr>, mis_end_round s)
      else (l\<lparr> mv_end := min (total_verts E) (mv_end l + delta - mv_front_size l), mv_range := True \<rparr>, s))"

definition mis_pass_step ::
    "run_env \<Rightarrow> u32 \<Rightarrow> (mis_locals, mis_state, mis_op) pass_config \<Rightarrow> (mis_locals, mis_state, mis_op) pass_config \<Rightarrow> bool" where
  "mis_pass_step E delta = pass_step (mis_starts E) (\<lambda>l. mis_exec E) (mis_fin E delta)"

text \<open>
  The loop over a range of new vertices is \<open>for_each_range\<close>, which ends the process when the card has no room
  in its send queue; the loop over the frontier tries again.
\<close>

fun mis_may_exit :: "run_env \<Rightarrow> (mis_locals, mis_state, mis_op) pass_config \<Rightarrow> bool" where
  "mis_may_exit E (Within Q, l, s) \<longleftrightarrow> mv_range l \<and> mv_start l < mv_end l \<and> (\<exists>k. \<not> nic_ready (env_nic E k))"
| "mis_may_exit E (Between, l, s) \<longleftrightarrow> False"

definition mis_kernel_step ::
    "run_env \<Rightarrow> u32 \<Rightarrow> (mis_locals, mis_state, mis_op) pass_config process \<Rightarrow>
       (mis_locals, mis_state, mis_op) pass_config process \<Rightarrow> bool" where
  "mis_kernel_step E delta = exit_step (mis_pass_step E delta) (mis_may_exit E)"

text \<open>The start of the kernel: vertices without out-edges are decided.\<close>

definition mis_begin :: "run_env \<Rightarrow> (u32 \<Rightarrow> worker) \<Rightarrow> mis_state \<Rightarrow> (mis_locals, mis_state, mis_op) pass_config" where
  "mis_begin E who s =
     (let (vs, zero_deg_nodes) = mis_zero_degree E who (verts s)
      in (Between, \<lparr> mv_start = 0, mv_end = 0, mv_undecided = total_verts E - tls_sum zero_deg_nodes, mv_front_size = 0,
                     mv_range = False \<rparr>,
          s\<lparr> verts := vs, n_decided := [], next_frontier_size := [] \<rparr>))"

subsection \<open>The invariant of a loop\<close>

fun vof :: "mis_op \<Rightarrow> u32" where
  "vof (MVisit v) = v"
| "vof (MScan v ws f) = v"
| "vof (MMark v) = v"
| "vof (MStore v f) = v"

text \<open>
  What a worker knows from the flags it has read, in a round that started with the flags \<open>f0\<close>. A flag
  once decided does not change, so that what it knows stays true.
\<close>

definition waits :: "(u32 \<Rightarrow> MatchFlag) \<Rightarrow> u32 \<Rightarrow> bool" where
  "waits f0 v \<longleftrightarrow> (\<exists>w < v. f0 w = UNDECIDED)"

fun known :: "run_env \<Rightarrow> (u32 \<Rightarrow> MatchFlag) \<Rightarrow> mis_op \<Rightarrow> bool" where
  "known E f0 (MVisit v) \<longleftrightarrow> True"
| "known E f0 (MScan v ws f) \<longleftrightarrow> f \<noteq> OUT \<and> (f = UNDECIDED \<longrightarrow> waits f0 v) \<and>
     (\<exists>ps. nb E v = ps @ ws \<and> (f = IN \<longrightarrow> (\<forall>w \<in> set ps. w < v \<longrightarrow> \<not> first_mis (nb E) w)))"
| "known E f0 (MMark v) \<longleftrightarrow> waits f0 v"
| "known E f0 (MStore v f) \<longleftrightarrow> (case f of UNDECIDED \<Rightarrow> waits f0 v | IN \<Rightarrow> first_mis (nb E) v | OUT \<Rightarrow> \<not> first_mis (nb E) v)"

definition mis_op_ok :: "run_env \<Rightarrow> (u32 \<Rightarrow> MatchFlag) \<Rightarrow> u32 set \<Rightarrow> mis_state \<Rightarrow> mis_op \<Rightarrow> bool" where
  "mis_op_ok E f0 A s a \<longleftrightarrow> vof a \<in> A \<and> flagv s (vof a) = UNDECIDED \<and>
     (vof a \<in> bits_of (next_frontier s) \<longleftrightarrow> a = MStore (vof a) UNDECIDED) \<and> known E f0 a"

text \<open>\<open>A\<close> are the vertices pulled in this round so far, or being pulled.\<close>

definition mis_par :: "run_env \<Rightarrow> Bitmap \<Rightarrow> (u32 \<Rightarrow> MatchFlag) \<Rightarrow> u32 set \<Rightarrow> mis_op multiset \<Rightarrow> mis_state \<Rightarrow> bool" where
  "mis_par E fr f0 A P s \<longleftrightarrow> kshape E s \<and> frontier s = fr \<and> flags_sound E (flagv s) \<and>
     A \<subseteq> {v. v < total_verts E \<and> f0 v = UNDECIDED} \<and>
     (\<forall>v. v < total_verts E \<longrightarrow> v \<notin> A \<longrightarrow> flagv s v = f0 v) \<and>
     owned_once vof P \<and> (\<forall>a \<in># P. mis_op_ok E f0 A s a) \<and>
     (\<forall>v \<in> A. v \<in> vof ` set_mset P \<or> flagv s v \<noteq> UNDECIDED \<or> v \<in> bits_of (next_frontier s)) \<and>
     bits_of (next_frontier s) \<subseteq> {v \<in> A. flagv s v = UNDECIDED \<and> waits f0 v} \<and>
     tls_sum (next_frontier_size s) = of_nat (card (bits_of (next_frontier s))) \<and>
     tls_sum (n_decided s) = of_nat (card {v \<in> A. flagv s v \<noteq> UNDECIDED})"

lemma mis_par_opens:
  assumes "mis_mid E fr f0 D s" "set vs = A - D" "D \<subseteq> A" "distinct vs" "A \<subseteq> {v. v < total_verts E \<and> f0 v = UNDECIDED}"
  shows "mis_par E fr f0 A (image_mset MVisit (mset vs)) s"
proof -
  have m: "kshape E s" "frontier s = fr" "flags_sound E (flagv s)" "bits_of (next_frontier s) = {v \<in> D. flagv s v = UNDECIDED}"
    "tls_sum (next_frontier_size s) = of_nat (card {v \<in> D. flagv s v = UNDECIDED})"
    "tls_sum (n_decided s) = of_nat (card {v \<in> D. flagv s v \<noteq> UNDECIDED})"
    and old: "\<And>v. v < total_verts E \<Longrightarrow> v \<notin> D \<Longrightarrow> flagv s v = f0 v"
    and low: "\<And>v. v \<in> D \<Longrightarrow> flagv s v = UNDECIDED \<Longrightarrow> waits f0 v"
    using assms(1) by (auto simp: mis_mid_def waits_def)
  have new: "flagv s v = UNDECIDED" if "v \<in> A" "v \<notin> D" for v using old [of v] assms(5) that by auto
  have "{v \<in> A. flagv s v \<noteq> UNDECIDED} = {v \<in> D. flagv s v \<noteq> UNDECIDED}" using new assms(3) by auto
  moreover have "owned_once vof (image_mset MVisit (mset vs))" by (rule owned_once_visits) (use assms(4) in simp_all)
  moreover have "vof ` set_mset (image_mset MVisit (mset vs)) = A - D" using assms(2) by (simp add: image_image)
  moreover have "\<forall>a \<in># image_mset MVisit (mset vs). mis_op_ok E f0 A s a"
    using assms(2) new m(4) by (auto simp: mis_op_ok_def)
  moreover have "\<forall>v. v < total_verts E \<longrightarrow> v \<notin> A \<longrightarrow> flagv s v = f0 v" using old assms(3) by blast
  ultimately show ?thesis
    using m assms(3,5) low unfolding mis_par_def by auto
qed

lemma mis_par_closes: "mis_par E fr f0 A {#} s \<Longrightarrow> mis_mid E fr f0 A s"
proof -
  assume p: "mis_par E fr f0 A {#} s"
  then have b: "bits_of (next_frontier s) = {v \<in> A. flagv s v = UNDECIDED}" by (auto simp: mis_par_def)
  then have "\<forall>v \<in> A. flagv s v = UNDECIDED \<longrightarrow> waits f0 v" using p by (auto simp: mis_par_def)
  then show ?thesis using p b by (auto simp: mis_par_def mis_mid_def waits_def)
qed

text \<open>A step of a worker that does not change the state.\<close>

lemma mis_par_goes_on:
  assumes "mis_par E fr f0 A (add_mset a P) s" "vof b = vof a" "known E f0 b"
    and "a \<noteq> MStore (vof a) UNDECIDED" "b \<noteq> MStore (vof a) UNDECIDED"
  shows "mis_par E fr f0 A (add_mset b P) s"
  using assms unfolding mis_par_def by (auto simp: mis_op_ok_def)

lemma op_ok_other:
  assumes "mis_op_ok E f0 A s a" "flagv s' (vof a) = flagv s (vof a)"
    and "vof a \<in> bits_of (next_frontier s') \<longleftrightarrow> vof a \<in> bits_of (next_frontier s)"
  shows "mis_op_ok E f0 A s' a"
  using assms by (simp add: mis_op_ok_def)

lemma mis_par_marks:
  assumes "mis_par E fr f0 A (add_mset (MMark v) P) s"
  shows "mis_par E fr f0 A (add_mset (MStore v UNDECIDED) P)
    (s\<lparr> next_frontier := mark t v (next_frontier s), next_frontier_size := tls_modify 0 t (\<lambda>x. x + 1) (next_frontier_size s) \<rparr>)"
proof -
  let ?s = "s\<lparr> next_frontier := mark t v (next_frontier s), next_frontier_size := tls_modify 0 t (\<lambda>x. x + 1) (next_frontier_size s) \<rparr>"
  have sh: "kshape E s" and v: "v \<in> A" "v < total_verts E" "flagv s v = UNDECIDED" "v \<notin> bits_of (next_frontier s)" "waits f0 v"
    and ow: "v \<notin> vof ` set_mset P"
    using assms by (auto simp: mis_par_def mis_op_ok_def)
  have b: "bits_of (mark t v (next_frontier s)) = insert v (bits_of (next_frontier s))"
    using sh v(2) by (simp add: kshape_def bm.alpha_activate)
  have f: "flagv ?s = flagv s" by (simp add: fun_eq_iff flagv_def)
  have c: "card (insert v (bits_of (next_frontier s))) = Suc (card (bits_of (next_frontier s)))" using v(4) by simp
  have "mis_op_ok E f0 A ?s a" if "a \<in># P" for a
  proof (rule op_ok_other)
    show "mis_op_ok E f0 A s a" using assms that by (auto simp: mis_par_def)
    have "vof a \<noteq> v" using ow that by auto
    then show "vof a \<in> bits_of (next_frontier ?s) \<longleftrightarrow> vof a \<in> bits_of (next_frontier s)" by (simp add: b)
  qed (simp add: f)
  moreover have "mis_op_ok E f0 A ?s (MStore v UNDECIDED)" using v by (simp add: mis_op_ok_def f b)
  moreover have "kshape E ?s" using sh v(2) by (simp add: kshape_def mark_inv)
  ultimately show ?thesis
    using assms v unfolding mis_par_def f by (simp add: b c) blast
qed

lemma mis_par_stores:
  assumes "mis_par E fr f0 A (add_mset (MStore v f) P) s"
    and s': "s' = (if f = UNDECIDED then s else s\<lparr> n_decided := tls_modify 0 t (\<lambda>x. x + 1) (n_decided s) \<rparr>)
               \<lparr> verts := (verts s)[unat v := (verts s ! unat v)\<lparr> flag := f \<rparr>] \<rparr>"
  shows "mis_par E fr f0 A P s'"
proof -
  have sh: "kshape E s" and v: "v \<in> A" "v < total_verts E" "flagv s v = UNDECIDED" "v \<in> bits_of (next_frontier s) \<longleftrightarrow> f = UNDECIDED"
    and k: "known E f0 (MStore v f)" and ow: "v \<notin> vof ` set_mset P"
    using assms(1) by (auto simp: mis_par_def mis_op_ok_def)
  have l: "unat v < length (verts s)" using sh v(2) by (simp add: kshape_def word_less_nat_alt)
  have fl: "flagv s' u = (if u = v then f else flagv s u)" for u using l by (simp add: s' flagv_def nth_update_unat)
  have nf: "next_frontier s' = next_frontier s" "frontier s' = frontier s" "next_frontier_size s' = next_frontier_size s" by (simp_all add: s')
  have "mis_op_ok E f0 A s' a" if "a \<in># P" for a
  proof (rule op_ok_other)
    show "mis_op_ok E f0 A s a" using assms(1) that by (auto simp: mis_par_def)
    show "flagv s' (vof a) = flagv s (vof a)" using ow that by (auto simp: fl)
  qed (simp add: nf)
  moreover have "flags_sound E (flagv s')"
    using assms(1) k by (auto simp: mis_par_def flags_sound_def fl split: MatchFlag.splits)
  moreover have "tls_sum (n_decided s') = of_nat (card {u \<in> A. flagv s' u \<noteq> UNDECIDED})"
  proof (cases "f = UNDECIDED")
    case True
    then have "{u \<in> A. flagv s' u \<noteq> UNDECIDED} = {u \<in> A. flagv s u \<noteq> UNDECIDED}" using v(3) by (auto simp: fl)
    then show ?thesis using assms(1) True by (simp add: mis_par_def s')
  next
    case False
    then have "{u \<in> A. flagv s' u \<noteq> UNDECIDED} = insert v {u \<in> A. flagv s u \<noteq> UNDECIDED}" using v(1) by (auto simp: fl)
    then show ?thesis using assms(1) False v(3) by (simp add: mis_par_def s')
  qed
  moreover have "kshape E s'" using sh by (simp add: s' kshape_def)
  moreover have "bits_of (next_frontier s') \<subseteq> {u \<in> A. flagv s' u = UNDECIDED \<and> waits f0 u}"
    using assms(1) v(4) by (auto simp: mis_par_def nf fl)
  moreover have "\<forall>u \<in> A. u \<in> vof ` set_mset P \<or> flagv s' u \<noteq> UNDECIDED \<or> u \<in> bits_of (next_frontier s')"
    using assms(1) v(4) by (auto simp: mis_par_def nf fl)
  ultimately show ?thesis
    using assms(1) v(1) unfolding mis_par_def by (auto simp: nf fl)
qed

lemma scan_step:
  assumes "mis_par E fr f0 A (add_mset (MScan v (w # ws) f) P) s" "env_ok E" "w < v"
    and f': "f' = (case flag (verts s ! unat w) of UNDECIDED \<Rightarrow> UNDECIDED | IN \<Rightarrow> OUT | OUT \<Rightarrow> f)"
  shows "f' = OUT \<Longrightarrow> known E f0 (MStore v OUT)" "f' \<noteq> OUT \<Longrightarrow> known E f0 (MScan v ws f')"
proof -
  have snd: "flags_sound E (flagv s)" and A: "A \<subseteq> {v. v < total_verts E \<and> f0 v = UNDECIDED}"
    and old: "\<And>v. v < total_verts E \<Longrightarrow> v \<notin> A \<Longrightarrow> flagv s v = f0 v"
    and k: "known E f0 (MScan v (w # ws) f)" and v: "v < total_verts E"
    using assms(1) by (auto simp: mis_par_def mis_op_ok_def)
  obtain ps where ps: "nb E v = ps @ w # ws" "f = IN \<longrightarrow> (\<forall>w \<in> set ps. w < v \<longrightarrow> \<not> first_mis (nb E) w)" using k by auto
  have w: "w < total_verts E" using assms(3) v by (rule order_less_trans)
  have rd: "flagv s w = UNDECIDED \<Longrightarrow> f0 w = UNDECIDED" "flagv s w = IN \<Longrightarrow> first_mis (nb E) w" "flagv s w = OUT \<Longrightarrow> \<not> first_mis (nb E) w"
    using old [OF w] A snd w by (cases "w \<in> A"; auto simp: flags_sound_def)+
  have e: "f' = (case flagv s w of UNDECIDED \<Rightarrow> UNDECIDED | IN \<Rightarrow> OUT | OUT \<Rightarrow> f)" using f' by (simp add: flagv_def)
  show "known E f0 (MStore v OUT)" if "f' = OUT"
  proof -
    have "flagv s w = IN" using that e k by (cases "flagv s w") auto
    then have "first_mis (nb E) w" by (rule rd(2))
    then show ?thesis using ps(1) assms(3) by (simp add: first_mis.simps [of "nb E" v])
  qed
  show "known E f0 (MScan v ws f')" if "f' \<noteq> OUT"
    using that e k rd assms(3) ps
    by (cases "flagv s w") (auto simp: waits_def intro!: exI [of _ "ps @ [w]"])
qed

lemma mis_op_keeps:
  assumes "env_ok E" "mis_par E fr f0 A (add_mset a P) s" "(s', nxt) \<in> set (mis_exec E t a s)"
  shows "mis_par E fr f0 A (P + mset nxt) s'"
proof -
  have ok: "mis_op_ok E f0 A s a" using assms(2) by (simp add: mis_par_def)
  note on = mis_par_goes_on [OF assms(2)]
  show ?thesis
  proof (cases a)
    case (MVisit v)
    then have v: "v < total_verts E" "flagv s v = UNDECIDED" using ok assms(2) by (auto simp: mis_par_def mis_op_ok_def)
    then have "s' = s" "nxt = [MScan v (nb E v) IN]"
      using assms(3) take_nb [OF assms(1) v(1)] by (simp_all add: MVisit flagv_def)
    then show ?thesis using on [of "MScan v (nb E v) IN"] by (simp add: MVisit)
  next
    case (MScan v ws f)
    then have k: "known E f0 (MScan v ws f)" using ok by (simp add: mis_op_ok_def)
    show ?thesis
    proof (cases ws)
      case Nil
      have "f = IN \<Longrightarrow> first_mis (nb E) v" using k by (subst first_mis.simps) (auto simp: Nil)
      then show ?thesis
        using on [of "MMark v"] on [of "MStore v f"] assms(3) k by (auto simp: MScan Nil split: MatchFlag.splits)
    next
      case (Cons w ws')
      show ?thesis
      proof (cases "w < v")
        case True
        note st = scan_step [OF assms(2) [unfolded MScan Cons] assms(1) True refl]
        show ?thesis using on assms(3) st True by (auto simp: MScan Cons Let_def split: if_splits simp del: known.simps)
      next
        case False
        then have "known E f0 (MScan v ws' f)" using k by (auto simp: Cons)
        then show ?thesis using on [of "MScan v ws' f"] assms(3) False by (simp add: MScan Cons del: known.simps)
      qed
    qed
  next
    case (MMark v)
    then show ?thesis using mis_par_marks [OF assms(2) [unfolded MMark], of t] assms(3) by simp
  next
    case (MStore v f)
    then show ?thesis using mis_par_stores [OF assms(2) [unfolded MStore], of s' t] assms(3) by (simp add: Let_def split: if_splits)
  qed
qed

fun mis_weight :: "run_env \<Rightarrow> mis_op \<Rightarrow> nat" where
  "mis_weight E (MVisit v) = 4 + length (nb E v)"
| "mis_weight E (MScan v ws f) = 3 + length ws"
| "mis_weight E (MMark v) = 2"
| "mis_weight E (MStore v f) = 1"

definition mis_mu :: "run_env \<Rightarrow> mis_op multiset \<Rightarrow> mis_state \<Rightarrow> nat" where
  "mis_mu E P s = sum_mset (image_mset (mis_weight E) P)"

lemma mis_op_lowers:
  assumes "(s', nxt) \<in> set (mis_exec E t a s)"
  shows "mis_mu E (P + mset nxt) s' < mis_mu E (add_mset a P) s"
proof (cases a)
  case (MScan v ws f)
  then show ?thesis using assms by (cases ws) (auto simp: mis_mu_def Let_def split: if_splits)
qed (use assms in \<open>auto simp: mis_mu_def Let_def split: if_splits\<close>)

subsection \<open>Rounds\<close>

definition mis_params :: "run_env \<Rightarrow> u32 \<Rightarrow> bool" where
  "mis_params E delta \<longleftrightarrow> env_ok E \<and> delta > 0 \<and> unat (total_verts E) + unat delta < 2 ^ 32"

text \<open>The second loop of a round that started in the state \<open>r\<close>.\<close>

definition round_of :: "run_env \<Rightarrow> u32 \<Rightarrow> mis_locals \<Rightarrow> mis_state \<Rightarrow> bool" where
  "round_of E delta l r \<longleftrightarrow> mis_params E delta \<and> mv_undecided l > 0 \<and>
     mis_inv E delta (mv_start l) (mv_undecided l) (mv_front_size l) r \<and>
     mv_end l = (if mv_range l then min (total_verts E) (mv_start l + delta - mv_front_size l) else mv_start l)"

definition mis_between :: "run_env \<Rightarrow> u32 \<Rightarrow> mis_locals \<Rightarrow> mis_state \<Rightarrow> bool" where
  "mis_between E delta l s \<longleftrightarrow>
     (if mv_range l
      then \<exists>r. round_of E delta l r \<and> mis_mid E (frontier r) (flagv r) (undec E (flagv r) (mv_start l)) s
      else mis_params E delta \<and> mv_end l = mv_start l \<and> mis_inv E delta (mv_start l) (mv_undecided l) (mv_front_size l) s)"

definition mis_within :: "run_env \<Rightarrow> u32 \<Rightarrow> mis_locals \<Rightarrow> mis_state \<Rightarrow> mis_op multiset \<Rightarrow> mis_state \<Rightarrow> bool" where
  "mis_within E delta l s0 P s \<longleftrightarrow>
     (\<exists>r. round_of E delta l r \<and> mis_par E (frontier r) (flagv r) (undec E (flagv r) (mv_end l)) P s)"

definition mis_rank :: "run_env \<Rightarrow> mis_locals \<Rightarrow> mis_state \<Rightarrow> nat" where
  "mis_rank E l s = 2 * (unat (mv_undecided l) + (unat (total_verts E) - unat (mv_start l))) + of_bool (\<not> mv_range l)"

lemma mis_opens:
  assumes "mis_between E delta l s" "mis_starts E l s Q"
  shows "mis_within E delta l s (pending Q) s"
proof (cases "mv_range l")
  case True
  then obtain r where r: "round_of E delta l r" "mis_mid E (frontier r) (flagv r) (undec E (flagv r) (mv_start l)) s"
    using assms(1) by (auto simp: mis_between_def)
  let ?f = "flagv r" and ?n = "total_verts E"
  have i: "mis_inv E delta (mv_start l) (mv_undecided l) (mv_front_size l) r" and p: "unat ?n + unat delta < 2 ^ 32"
    and en: "mv_end l = min ?n (mv_start l + delta - mv_front_size l)"
    using r(1) True by (auto simp: round_of_def mis_params_def)
  have i': "mv_front_size l \<le> delta" "mv_start l \<le> ?n"
    and ne: "\<And>v. v < ?n \<Longrightarrow> ?f v = UNDECIDED \<Longrightarrow> nb E v \<noteq> []"
    and rel: "\<And>v. v < ?n \<Longrightarrow> mv_start l \<le> v \<Longrightarrow> nb E v \<noteq> [] \<Longrightarrow> ?f v = UNDECIDED"
    using i by (auto simp: mis_inv_def)
  note sl = slice_end [OF p i', folded en]
  have lt: "v < ?n" if "v < mv_end l" for v using that sl(2) by (rule order_less_le_trans)
  have A: "undec E ?f (mv_end l) \<subseteq> {v. v < ?n \<and> ?f v = UNDECIDED}" using lt by (auto simp: undec_def)
  have sub: "undec E ?f (mv_start l) \<subseteq> undec E ?f (mv_end l)" using sl(1) by (auto simp: undec_def)
  have new: "undec E ?f (mv_end l) - undec E ?f (mv_start l) = {v. mv_start l \<le> v \<and> v < mv_end l \<and> nb E v \<noteq> []}"
    using lt ne rel by (auto simp: undec_def)
  obtain vs where vs: "pending Q = image_mset MVisit (mset vs)" "distinct vs"
    "set vs = undec E ?f (mv_end l) - undec E ?f (mv_start l)"
  proof (cases "mv_start l < mv_end l")
    case True
    then obtain vss where v: "shares E {v. mv_start l \<le> v \<and> v < mv_end l \<and> nb E v \<noteq> []} vss" "Q = map (map MVisit) vss"
      using assms(2) \<open>mv_range l\<close> by (auto simp: mis_starts_def)
    have "set (concat vss) = {v. mv_start l \<le> v \<and> v < mv_end l \<and> nb E v \<noteq> []}" "distinct (concat vss)"
      using v(1) unfolding shares_def by blast+
    then show ?thesis using that [of "concat vss"] v(2) new by (simp only: pending_visits)
  next
    case False
    then have "Q = []" "mv_end l = mv_start l" using assms(2) \<open>mv_range l\<close> sl(1) by (auto simp: mis_starts_def)
    then show ?thesis using that [of "[]"] by (simp add: pending_def)
  qed
  then show ?thesis
    using mis_par_opens [OF r(2) vs(3) sub vs(2) A] r(1) by (auto simp: mis_within_def)
next
  case False
  then have i: "mis_inv E delta (mv_start l) (mv_undecided l) (mv_front_size l) s" and p: "mis_params E delta"
    and en: "mv_end l = mv_start l" using assms(1) by (auto simp: mis_between_def)
  have u: "mv_undecided l > 0" using assms(2) False by (simp add: mis_starts_def)
  then have r: "round_of E delta l s" using i p en False by (simp add: round_of_def)
  let ?U = "undec E (flagv s) (mv_end l)"
  have b: "bits_of (frontier s) = ?U" "unat (mv_front_size l) = card ?U" "mv_end l \<le> total_verts E"
    and ne: "\<And>v. v < total_verts E \<Longrightarrow> flagv s v = UNDECIDED \<Longrightarrow> nb E v \<noteq> []"
    using i en by (auto simp: mis_inv_def)
  have U: "?U \<subseteq> {v. v < total_verts E \<and> flagv s v = UNDECIDED}" using b(3) by (auto simp: undec_def intro: order_less_le_trans)
  have mid: "mis_mid E (frontier s) (flagv s) {} s" using i by (auto simp: mis_inv_def mis_mid_def)
  obtain vs where vs: "pending Q = image_mset MVisit (mset vs)" "distinct vs" "set vs = ?U - {}"
  proof (cases "mv_front_size l > 0")
    case True
    then obtain vss where v: "shares E (bits_of (frontier s) \<inter> {v. v < mv_end l}) vss" "Q = map (map MVisit) vss"
      using assms(2) False by (auto simp: mis_starts_def)
    have "bits_of (frontier s) \<inter> {v. v < mv_end l} = ?U" using b(1) by (auto simp: undec_def)
    then have "set (concat vss) = ?U" "distinct (concat vss)" using v(1) ne U unfolding shares_def by blast+
    then show ?thesis using that [of "concat vss"] v(2) by (simp only: pending_visits Diff_empty)
  next
    case zero: False
    then have "Q = []" "card ?U = 0" using assms(2) False b(2) by (auto simp: mis_starts_def word_gt_0)
    then show ?thesis using that [of "[]"] by (simp add: pending_def)
  qed
  then show ?thesis
    using mis_par_opens [OF mid vs(3) _ vs(2) U] r by (auto simp: mis_within_def)
qed

lemma mis_closes:
  assumes "mis_within E delta l s0 {#} s" "mis_fin E delta l s = (l', s')"
  shows "mis_between E delta l' s' \<and> mis_rank E l' s' < mis_rank E l s0"
proof -
  obtain r where r: "round_of E delta l r" "mis_mid E (frontier r) (flagv r) (undec E (flagv r) (mv_end l)) s"
    using assms(1) mis_par_closes by (auto simp: mis_within_def)
  have p: "mis_params E delta" "mv_undecided l > 0" "mis_inv E delta (mv_start l) (mv_undecided l) (mv_front_size l) r"
    using r(1) by (auto simp: round_of_def)
  show ?thesis
  proof (cases "mv_range l")
    case True
    then have en: "mv_end l = min (total_verts E) (mv_start l + delta - mv_front_size l)" using r(1) by (simp add: round_of_def)
    have d: "delta > 0" "unat (total_verts E) + unat delta < 2 ^ 32" using p(1) by (auto simp: mis_params_def)
    note q = mis_round_progress [OF p(3,2) d r(2) [unfolded en], folded en]
    show ?thesis using q p(1) assms(2) True by (auto simp: mis_fin_def mis_between_def mis_rank_def)
  next
    case False
    then have "mv_end l = mv_start l" using r(1) by (simp add: round_of_def)
    then show ?thesis
      using r assms(2) False by (auto simp: mis_fin_def mis_between_def mis_rank_def round_of_def intro!: exI [of _ r])
  qed
qed

lemma mis_continues:
  assumes "mis_between E delta l s"
  shows "mv_range l \<or> mv_undecided l > 0 \<longleftrightarrow> (\<exists>Q. mis_starts E l s Q)"
proof -
  have e: "env_ok E" and b: "mv_end l \<le> total_verts E"
    using assms by (auto simp: mis_between_def round_of_def mis_params_def mis_inv_def min_def split: if_splits)
  have "\<exists>vss. shares E (X \<inter> {v. v < mv_end l}) vss" for X
    by (rule shares_exist [OF e]) (use b in \<open>auto intro: order_less_le_trans\<close>)
  from this [of "{v. mv_start l \<le> v \<and> nb E v \<noteq> []}"] this [of "bits_of (frontier s)"] show ?thesis
    by (auto simp: mis_starts_def Int_def conj_ac)
qed

interpretation mis_par: passes "mis_starts E" "\<lambda>l. mis_exec E" "mis_fin E delta" "\<lambda>l s. mv_range l \<or> mv_undecided l > 0"
    "mis_between E delta" "mis_within E delta" "mis_mu E" "mis_rank E" for E delta
proof unfold_locales
  show "mis_exec E t a s \<noteq> []" for t a s
  proof (cases a)
    case (MScan v ws f)
    then show ?thesis by (cases ws) (auto simp: Let_def)
  qed (auto simp: Let_def)
  show "mis_within E delta l s0 (P + mset nxt) s'"
    if "mis_within E delta l s0 (add_mset a P) s" "(s', nxt) \<in> set (mis_exec E t a s)" for l s0 a P s s' nxt t
    using that mis_op_keeps [OF _ _ that(2)] by (auto simp: mis_within_def round_of_def mis_params_def)
  show "mis_mu E (P + mset nxt) s' < mis_mu E (add_mset a P) s" if "(s', nxt) \<in> set (mis_exec E t a s)" for a P s s' nxt t
    using that by (rule mis_op_lowers)
  show "mis_between E delta l' s' \<and> mis_rank E l' s' < mis_rank E l s0"
    if "mis_within E delta l s0 {#} s" "mis_fin E delta l s = (l', s')" for l s0 s l' s'
    using that by (rule mis_closes)
qed (fact mis_opens mis_continues)+

lemma mis_passes_total:
  assumes "env_ok E" "fresh E \<lparr> flag = UNDECIDED \<rparr> s" "delta > 0" "unat (total_verts E) + unat delta < 2 ^ 32"
  shows "ends (mis_pass_step E delta) (mis_begin E who s) \<and>
    (\<forall>c. (mis_pass_step E delta)\<^sup>*\<^sup>* (mis_begin E who s) c \<longrightarrow> (\<nexists>d. mis_pass_step E delta c d) \<longrightarrow>
       (\<exists>l s'. c = (Between, l, s') \<and>
          (\<forall>v. v < total_verts E \<longrightarrow> flag (verts s' ! unat v) = (if first_mis (nb E) v then IN else OUT)) \<and>
          (let I = {v. v < total_verts E \<and> flag (verts s' ! unat v) = IN} in
           (\<forall>v. v < total_verts E \<longrightarrow> v \<notin> I \<longrightarrow> (\<exists>w \<in> I. w \<in> set (nb E v))) \<and>
           (sym (edge_rel E) \<longrightarrow> (\<forall>u \<in> I. \<forall>v \<in> I. u \<noteq> v \<longrightarrow> v \<notin> set (nb E u))))))"
proof -
  obtain vs z where vz: "mis_zero_degree E who (verts s) = (vs, z)" by (cases "mis_zero_degree E who (verts s)")
  let ?s = "s\<lparr> verts := vs, n_decided := [], next_frontier_size := [] \<rparr>" and ?n = "total_verts E"
  let ?l = "\<lparr> mv_start = 0, mv_end = 0, mv_undecided = ?n - tls_sum z, mv_front_size = 0, mv_range = False \<rparr>"
  have c0: "mis_begin E who s = (Between, ?l, ?s)" by (simp add: mis_begin_def vz)
  have "mis_between E delta ?l ?s"
    using mis_start_inv [OF assms(1,2) vz, of delta] assms by (simp add: mis_between_def mis_params_def)
  note total = mis_par.passes_total [OF this, folded mis_pass_step_def c0]
  have left: "\<exists>l s'. c = (Between, l, s') \<and> undec E (flagv s') ?n = {} \<and> flags_sound E (flagv s')"
    if run: "(mis_pass_step E delta)\<^sup>*\<^sup>* (mis_begin E who s) c" and stuck: "\<nexists>d. mis_pass_step E delta c d" for c
  proof -
    obtain l s' where c: "c = (Between, l, s')" "mis_between E delta l s'" "\<not> (mv_range l \<or> mv_undecided l > 0)"
      using total(2) [OF run] stuck by blast
    then have "mis_inv E delta (mv_start l) 0 (mv_front_size l) s'" by (simp add: mis_between_def word_gt_0)
    then show ?thesis using c(1) by (auto simp: mis_inv_def)
  qed
  show ?thesis
  proof (intro conjI allI impI, rule total(1))
    fix c assume "(mis_pass_step E delta)\<^sup>*\<^sup>* (mis_begin E who s) c" "\<nexists>d. mis_pass_step E delta c d"
    then obtain l s' where c: "c = (Between, l, s')" "undec E (flagv s') ?n = {}" "flags_sound E (flagv s')" using left by blast
    show "\<exists>l s'. c = (Between, l, s') \<and>
          (\<forall>v. v < ?n \<longrightarrow> flag (verts s' ! unat v) = (if first_mis (nb E) v then IN else OUT)) \<and>
          (let I = {v. v < ?n \<and> flag (verts s' ! unat v) = IN} in
           (\<forall>v. v < ?n \<longrightarrow> v \<notin> I \<longrightarrow> (\<exists>w \<in> I. w \<in> set (nb E v))) \<and>
           (sym (edge_rel E) \<longrightarrow> (\<forall>u \<in> I. \<forall>v \<in> I. u \<noteq> v \<longrightarrow> v \<notin> set (nb E u))))"
      using c(1) mis_decided [OF assms(1) c(2,3)] unfolding Let_def by blast
  qed
qed

lemma mis_exited_unready: "mis_may_exit E c \<Longrightarrow> \<not> env_ready E"
  by (induction E c rule: mis_may_exit.induct) (auto simp: env_ready_def)

lemma mis_kernel_parallel:
  assumes "env_ok E" "fresh E \<lparr> flag = UNDECIDED \<rparr> s" "delta > 0" "unat (total_verts E) + unat delta < 2 ^ 32"
  shows "ends (mis_kernel_step E delta) (Running (mis_begin E who s)) \<and>
    (\<forall>c. (mis_kernel_step E delta)\<^sup>*\<^sup>* (Running (mis_begin E who s)) c \<longrightarrow> (\<nexists>d. mis_kernel_step E delta c d) \<longrightarrow>
       c = Exited \<and> \<not> env_ready E \<or>
       (\<exists>l s'. c = Running (Between, l, s') \<and>
          (\<forall>v. v < total_verts E \<longrightarrow> flag (verts s' ! unat v) = (if first_mis (nb E) v then IN else OUT)) \<and>
          (let I = {v. v < total_verts E \<and> flag (verts s' ! unat v) = IN} in
           (\<forall>v. v < total_verts E \<longrightarrow> v \<notin> I \<longrightarrow> (\<exists>w \<in> I. w \<in> set (nb E v))) \<and>
           (sym (edge_rel E) \<longrightarrow> (\<forall>u \<in> I. \<forall>v \<in> I. u \<noteq> v \<longrightarrow> v \<notin> set (nb E u))))))"
proof (intro conjI allI impI)
  note p = mis_passes_total [OF assms, of who]
  show "ends (mis_kernel_step E delta) (Running (mis_begin E who s))"
    unfolding mis_kernel_step_def by (rule exit_step_ends [OF p [THEN conjunct1]])
  fix c assume run: "(mis_kernel_step E delta)\<^sup>*\<^sup>* (Running (mis_begin E who s)) c" and stuck: "\<nexists>d. mis_kernel_step E delta c d"
  note r = exit_step_reach [OF run [unfolded mis_kernel_step_def]]
  show "c = Exited \<and> \<not> env_ready E \<or> (\<exists>l s'. c = Running (Between, l, s') \<and>
      (\<forall>v. v < total_verts E \<longrightarrow> flag (verts s' ! unat v) = (if first_mis (nb E) v then IN else OUT)) \<and>
      (let I = {v. v < total_verts E \<and> flag (verts s' ! unat v) = IN} in
       (\<forall>v. v < total_verts E \<longrightarrow> v \<notin> I \<longrightarrow> (\<exists>w \<in> I. w \<in> set (nb E v))) \<and>
       (sym (edge_rel E) \<longrightarrow> (\<forall>u \<in> I. \<forall>v \<in> I. u \<noteq> v \<longrightarrow> v \<notin> set (nb E u)))))"
  proof (cases c)
    case Exited
    then show ?thesis using r mis_exited_unready by auto
  next
    case (Running d)
    then have "\<nexists>e. mis_pass_step E delta d e" using stuck by (auto simp: mis_kernel_step_def intro: exit_step.runs)
    moreover have "(mis_pass_step E delta)\<^sup>*\<^sup>* (mis_begin E who s) d" using r Running by simp
    ultimately obtain l s' where "d = (Between, l, s')"
        "\<forall>v. v < total_verts E \<longrightarrow> flag (verts s' ! unat v) = (if first_mis (nb E) v then IN else OUT)"
        "let I = {v. v < total_verts E \<and> flag (verts s' ! unat v) = IN} in
           (\<forall>v. v < total_verts E \<longrightarrow> v \<notin> I \<longrightarrow> (\<exists>w \<in> I. w \<in> set (nb E v))) \<and>
           (sym (edge_rel E) \<longrightarrow> (\<forall>u \<in> I. \<forall>v \<in> I. u \<noteq> v \<longrightarrow> v \<notin> set (nb E u)))"
      using p [THEN conjunct2] by blast
    then show ?thesis using Running by blast
  qed
qed

subsection \<open>Property\<close>

text \<open>
  C9. The independent-set kernel is correct under every interleaving of its callbacks, for a positive
  \<open>delta\<close> (and \<open>total_verts + delta\<close> within 32 bits). However the reads of the flags and the stores of the
  workers interleave, in both parallel loops of a round, no run goes on forever. A run that cannot go on
  has left the loop with every vertex decided as in the lexicographically first independent set,
  which is maximal and, on a symmetric graph, independent; or the process has exited, which happens only
  if in some call the card refuses a read because its send queue is full.
\<close>

theorem mis_parallel_correct:
  assumes "env_ok E" "fresh E \<lparr> flag = UNDECIDED \<rparr> s" "delta > 0" "unat (total_verts E) + unat delta < 2 ^ 32"
  shows "ends (mis_kernel_step E delta) (Running (mis_begin E who s)) \<and>
    (\<forall>c. (mis_kernel_step E delta)\<^sup>*\<^sup>* (Running (mis_begin E who s)) c \<longrightarrow> (\<nexists>d. mis_kernel_step E delta c d) \<longrightarrow>
       c = Exited \<and> \<not> env_ready E \<or>
       (\<exists>l s'. c = Running (Between, l, s') \<and>
          (\<forall>v. v < total_verts E \<longrightarrow> flag (verts s' ! unat v) = (if first_mis (nb E) v then IN else OUT)) \<and>
          (let I = {v. v < total_verts E \<and> flag (verts s' ! unat v) = IN} in
           (\<forall>v. v < total_verts E \<longrightarrow> v \<notin> I \<longrightarrow> (\<exists>w \<in> I. w \<in> set (nb E v))) \<and>
           (sym (edge_rel E) \<longrightarrow> (\<forall>u \<in> I. \<forall>v \<in> I. u \<noteq> v \<longrightarrow> v \<notin> set (nb E u))))))"
  using assms by (rule mis_kernel_parallel)

theorem mis_parallel_correct_witness:
  "ends (mis_kernel_step (demo_env 0) 1)
     (Running (mis_begin (demo_env 0) (\<lambda>v. 0) (kstate.extend (demo_kstate \<lparr> flag = UNDECIDED \<rparr>) \<lparr> n_decided = [], next_frontier_size = [] \<rparr>)))"
proof -
  have "fresh (demo_env 0) \<lparr> flag = UNDECIDED \<rparr>
      (kstate.extend (demo_kstate \<lparr> flag = UNDECIDED \<rparr>) \<lparr> n_decided = [], next_frontier_size = [] \<rparr>)"
    by (intro fresh_extend demo_fresh)
  from mis_parallel_correct [OF demo_env_ok this, of 1 "\<lambda>v. 0"] show ?thesis by (simp add: demo_total)
qed

end
