(* ===== verification/PageRank.thy ===== *)
theory PageRank
  imports Graph_Kernel Complex_Main "HOL-Library.Product_Lexorder"
begin

text \<open>
  The delta PageRank kernel, \<open>src/src/pagerank_delta.hpp\<close>. Floating-point arithmetic is a parameter,
  the record \<open>float_ops\<close>. The kernel returns for any arithmetic; for exact arithmetic, where the
  order of the concurrent additions does not matter, its rounds are the rounds of the sequential
  recurrence \<open>pr_round\<close> (a refinement), and the summary prints vertices of largest rank.
\<close>

subsection \<open>The kernel\<close>

record 'f float_ops =
  f_zero :: 'f
  f_alpha :: 'f
  f_epsilon :: 'f
  f_init_residual :: 'f
  f_add :: "'f \<Rightarrow> 'f \<Rightarrow> 'f"
  f_mul :: "'f \<Rightarrow> 'f \<Rightarrow> 'f"
  f_div :: "'f \<Rightarrow> 'f \<Rightarrow> 'f"
  f_of_u32 :: "u32 \<Rightarrow> 'f"
  f_abs :: "'f \<Rightarrow> 'f"
  f_less :: "'f \<Rightarrow> 'f \<Rightarrow> bool"

record 'f pagerank_delta_vertex =
  pr_value :: 'f
  pr_delta :: 'f
  pr_residual :: 'f

definition update_add_atomic :: "'f float_ops \<Rightarrow> 'f \<Rightarrow> 'f pagerank_delta_vertex \<Rightarrow> 'f pagerank_delta_vertex" where
  "update_add_atomic fo s_val x = x\<lparr> pr_residual := f_add fo (pr_residual x) s_val \<rparr>"

definition vertex_map :: "'f float_ops \<Rightarrow> 'f pagerank_delta_vertex \<Rightarrow> bool \<times> 'f pagerank_delta_vertex" where
  "vertex_map fo x =
     (let res = pr_residual x
      in if f_less fo (f_epsilon fo) (f_abs fo res)
         then (True, x\<lparr> pr_value := f_add fo (pr_value x) res, pr_delta := res, pr_residual := f_zero fo \<rparr>)
         else (False, x))"

type_synonym 'f pr_state = "'f pagerank_delta_vertex kstate"

definition pr_edge :: "'f float_ops \<Rightarrow> 'f \<Rightarrow> u32 \<Rightarrow> 'f pr_state \<Rightarrow> 'f pr_state" where
  "pr_edge fo my_val w s = s\<lparr> verts := (verts s)[unat w := update_add_atomic fo my_val (verts s ! unat w)] \<rparr>"

definition pagerank_push :: "'f float_ops \<Rightarrow> worker \<Rightarrow> 'f pr_state callback" where
  "pagerank_push fo t v edges n s =
     (if n > 0 then
        let my_delta = pr_delta (verts s ! unat v);
            s = s\<lparr> verts := (verts s)[unat v := (verts s ! unat v)\<lparr> pr_delta := f_zero fo \<rparr>] \<rparr>;
            my_val = f_div fo (f_mul fo my_delta (f_alpha fo)) (f_of_u32 fo n)
        in fold (pr_edge fo my_val) (take (unat n) edges) s
      else s)"

definition pr_init_vertex :: "'f float_ops \<Rightarrow> u32 \<Rightarrow> 'f pr_state \<Rightarrow> 'f pr_state" where
  "pr_init_vertex fo v s =
     s\<lparr> verts := (verts s)[unat v := (verts s ! unat v)\<lparr> pr_value := f_zero fo, pr_delta := f_init_residual fo,
                                     pr_residual := f_zero fo \<rparr>] \<rparr>"

definition pr_init :: "run_env \<Rightarrow> 'f float_ops \<Rightarrow> worker \<Rightarrow> 'f pr_state \<Rightarrow> 'f pr_state" where
  "pr_init E fo t s =
     (let s = fold (pr_init_vertex fo) (u32_range 0 (total_verts E)) s
      in s\<lparr> frontier := set_all t (frontier s) \<rparr>)"

definition pr_map_vertex :: "'f float_ops \<Rightarrow> worker \<Rightarrow> u32 \<Rightarrow> 'f pr_state \<Rightarrow> 'f pr_state" where
  "pr_map_vertex fo t v s =
     (let (b, x) = vertex_map fo (verts s ! unat v); s = s\<lparr> verts := (verts s)[unat v := x] \<rparr>
      in if b then s\<lparr> next_frontier := mark t v (next_frontier s) \<rparr> else s)"

definition pr_map :: "run_env \<Rightarrow> 'f float_ops \<Rightarrow> (u32 \<Rightarrow> worker) \<Rightarrow> 'f pr_state \<Rightarrow> 'f pr_state" where
  "pr_map E fo who s = fold (\<lambda>v. pr_map_vertex fo (who v) v) (u32_range 0 (total_verts E)) s"

definition max_iterations :: u32 where "max_iterations = 5"

text \<open>The loop; \<open>iter\<close> is incremented in its condition, after the frontier has been tested.\<close>

partial_function (option) pr_loop ::
    "run_env \<Rightarrow> 'f float_ops \<Rightarrow> (u32 \<Rightarrow> worker) \<Rightarrow> u32 \<Rightarrow> nat \<Rightarrow> 'f pr_state pack_state
       \<Rightarrow> (abort + 'f pr_state pack_state) option" where
  "pr_loop E fo who iter c st =
     (if \<not> is_empty (frontier (cb st)) \<and> iter + 1 < max_iterations then
        Option.bind (for_each_active E c (frontier (cb st)) 0 (total_verts E) (pagerank_push fo) st)
          (\<lambda>r. case r of
             Inl a \<Rightarrow> Some (Inl a)
           | Inr st1 \<Rightarrow> pr_loop E fo who (iter + 1) (Suc c) (st1\<lparr> cb := swap_frontiers (pr_map E fo who (cb st1)) \<rparr>))
      else Some (Inr st))"

definition pagerank_delta_kernel ::
    "run_env \<Rightarrow> 'f float_ops \<Rightarrow> worker \<Rightarrow> (u32 \<Rightarrow> worker) \<Rightarrow> 'f pr_state pack_state
       \<Rightarrow> (abort + 'f pr_state pack_state) option" where
  "pagerank_delta_kernel E fo t who st = pr_loop E fo who 0 0 (st\<lparr> cb := pr_init E fo t (cb st) \<rparr>)"

text \<open>The summary; values are ordered by \<open>\<le>\<close>, pairs lexicographically, as \<open>std::pair\<close> is.\<close>

definition top_step :: "('f::linorder) pagerank_delta_vertex list \<Rightarrow> u32 \<Rightarrow> ('f \<times> u32) list \<Rightarrow> ('f \<times> u32) list" where
  "top_step vt v t20 =
     (if length t20 < 20 then sort (t20 @ [(pr_value (vt ! unat v), v)])
      else if pr_value (vt ! unat v) > fst (t20 ! 0) then sort (t20[0 := (pr_value (vt ! unat v), v)])
      else t20)"

definition print_top_20 :: "('f::linorder) pagerank_delta_vertex list \<Rightarrow> u32 \<Rightarrow> (u32 \<times> 'f) list" where
  "print_top_20 vt num_verts =
     map (\<lambda>(rank, v). (v, rank)) (rev (fold (top_step vt) (u32_range 0 num_verts) []))"

subsection \<open>Shape and termination\<close>

lemma pr_edges_verts:
  "frontier (fold (pr_edge fo x) ws s) = frontier s \<and> next_frontier (fold (pr_edge fo x) ws s) = next_frontier s \<and>
   length (verts (fold (pr_edge fo x) ws s)) = length (verts s)"
  by (induction ws arbitrary: s) (auto simp: pr_edge_def)

lemma pagerank_push_frame:
  "frontier (pagerank_push fo t v es n s) = frontier s \<and> next_frontier (pagerank_push fo t v es n s) = next_frontier s \<and>
   length (verts (pagerank_push fo t v es n s)) = length (verts s)"
  by (simp add: pagerank_push_def Let_def pr_edges_verts)

lemma pr_init_fold:
  "kshape E s \<Longrightarrow> \<forall>v \<in> set vs. v < total_verts E \<Longrightarrow>
   kshape E (fold (pr_init_vertex fo) vs s) \<and> frontier (fold (pr_init_vertex fo) vs s) = frontier s \<and>
   next_frontier (fold (pr_init_vertex fo) vs s) = next_frontier s \<and>
   (\<forall>w \<in> set vs. verts (fold (pr_init_vertex fo) vs s) ! unat w =
      \<lparr> pr_value = f_zero fo, pr_delta = f_init_residual fo, pr_residual = f_zero fo \<rparr>)"
proof (induction vs rule: rev_induct)
  case (snoc v vs)
  let ?s = "fold (pr_init_vertex fo) vs s"
  have sh: "kshape E ?s" and f: "frontier ?s = frontier s" "next_frontier ?s = next_frontier s"
    and w: "\<forall>w \<in> set vs. verts ?s ! unat w = \<lparr> pr_value = f_zero fo, pr_delta = f_init_residual fo, pr_residual = f_zero fo \<rparr>"
    using snoc by auto
  have l: "unat v < length (verts ?s)" using sh snoc.prems(2) by (simp add: kshape_def word_less_nat_alt)
  have "kshape E (pr_init_vertex fo v ?s)" using sh by (simp add: pr_init_vertex_def kshape_def)
  moreover have "verts (pr_init_vertex fo v ?s) ! unat w = \<lparr> pr_value = f_zero fo, pr_delta = f_init_residual fo, pr_residual = f_zero fo \<rparr>"
    if "w \<in> set (vs @ [v])" for w
    using that w l by (auto simp: pr_init_vertex_def nth_update_unat)
  moreover have "frontier (pr_init_vertex fo v ?s) = frontier ?s" "next_frontier (pr_init_vertex fo v ?s) = next_frontier ?s"
    by (simp_all add: pr_init_vertex_def)
  ultimately show ?case using f by simp
qed simp

lemma pr_init_spec:
  assumes "fresh E x s"
  shows "kshape E (pr_init E fo t s)" "bits_of (frontier (pr_init E fo t s)) = {v. v < total_verts E}"
    "bits_of (next_frontier (pr_init E fo t s)) = {}"
    "\<And>w. w < total_verts E \<Longrightarrow> verts (pr_init E fo t s) ! unat w = \<lparr> pr_value = f_zero fo, pr_delta = f_init_residual fo, pr_residual = f_zero fo \<rparr>"
proof -
  let ?s = "fold (pr_init_vertex fo) (u32_range 0 (total_verts E)) s"
  have sh: "kshape E s" and e: "frontier_size (frontier s) = []" "bits_of (next_frontier s) = {}" using assms by (auto simp: fresh_def)
  note f = pr_init_fold [OF sh, of "u32_range 0 (total_verts E)" fo]
  have b: "bitmap_shape (frontier s)" "bm_size (frontier s) = total_verts E" using sh by (simp_all add: kshape_def bitmap_inv_def)
  have p: "pr_init E fo t s = ?s\<lparr> frontier := set_all t (frontier s) \<rparr>" using f by (simp add: pr_init_def)
  show "kshape E (pr_init E fo t s)"
    using f sh set_all_inv [OF b(1) e(1)] b(2) by (simp add: p kshape_def)
  show "bits_of (frontier (pr_init E fo t s)) = {v. v < total_verts E}" using bits_of_set_all [OF b(1)] b(2) by (simp add: p)
  show "bits_of (next_frontier (pr_init E fo t s)) = {}" using f e(2) by (simp add: p)
  show "verts (pr_init E fo t s) ! unat w = \<lparr> pr_value = f_zero fo, pr_delta = f_init_residual fo, pr_residual = f_zero fo \<rparr>"
    if "w < total_verts E" for w using f that by (simp add: p)
qed

text \<open>The pass over all vertices after a round.\<close>

lemma pr_map_fold:
  assumes "kshape E s" "\<forall>v \<in> set vs. v < total_verts E" "distinct vs"
  shows "kshape E (fold (\<lambda>v. pr_map_vertex fo (who v) v) vs s) \<and>
    frontier (fold (\<lambda>v. pr_map_vertex fo (who v) v) vs s) = frontier s \<and>
    bits_of (next_frontier (fold (\<lambda>v. pr_map_vertex fo (who v) v) vs s)) =
      bits_of (next_frontier s) \<union> {v \<in> set vs. fst (vertex_map fo (verts s ! unat v))} \<and>
    (\<forall>w. verts (fold (\<lambda>v. pr_map_vertex fo (who v) v) vs s) ! unat w =
      (if w \<in> set vs then snd (vertex_map fo (verts s ! unat w)) else verts s ! unat w))"
  using assms(2,3)
proof (induction vs rule: rev_induct)
  case Nil
  then show ?case using assms(1) by simp
next
  case (snoc v vs)
  let ?s = "fold (\<lambda>v. pr_map_vertex fo (who v) v) vs s"
  have IH: "kshape E ?s" "frontier ?s = frontier s"
    "bits_of (next_frontier ?s) = bits_of (next_frontier s) \<union> {v \<in> set vs. fst (vertex_map fo (verts s ! unat v))}"
    "\<And>w. verts ?s ! unat w = (if w \<in> set vs then snd (vertex_map fo (verts s ! unat w)) else verts s ! unat w)"
    using snoc by auto
  have v: "v < total_verts E" "v \<notin> set vs" using snoc.prems by auto
  have x: "verts ?s ! unat v = verts s ! unat v" using IH(4) v(2) by simp
  have l: "unat v < length (verts ?s)" using IH(1) v(1) by (simp add: kshape_def word_less_nat_alt)
  let ?s1 = "?s\<lparr> verts := (verts ?s)[unat v := snd (vertex_map fo (verts s ! unat v))] \<rparr>"
  have e: "pr_map_vertex fo (who v) v ?s =
      (if fst (vertex_map fo (verts s ! unat v)) then ?s1\<lparr> next_frontier := mark (who v) v (next_frontier ?s) \<rparr> else ?s1)"
    by (simp add: pr_map_vertex_def Let_def split_beta x)
  have sh1: "kshape E ?s1" using IH(1) by (simp add: kshape_def)
  have "kshape E (?s1\<lparr> next_frontier := mark (who v) v (next_frontier ?s) \<rparr>)"
    using kshape_mark_next [OF sh1 v(1), of "who v"] by simp
  moreover have "bits_of (mark (who v) v (next_frontier ?s)) = insert v (bits_of (next_frontier ?s))"
    using IH(1) v(1) by (simp add: kshape_def bm.alpha_activate)
  ultimately show ?case
    using sh1 IH l by (auto simp: e nth_update_unat)
qed

lemma pr_map_spec:
  assumes "kshape E s"
  shows "kshape E (pr_map E fo who s)" "frontier (pr_map E fo who s) = frontier s"
    "bits_of (next_frontier (pr_map E fo who s)) =
      bits_of (next_frontier s) \<union> {v. v < total_verts E \<and> fst (vertex_map fo (verts s ! unat v))}"
    "\<And>w. w < total_verts E \<Longrightarrow> verts (pr_map E fo who s) ! unat w = snd (vertex_map fo (verts s ! unat w))"
  using pr_map_fold [OF assms, of "u32_range 0 (total_verts E)" fo who] by (auto simp: pr_map_def)

lemma pr_round_shape:
  assumes "env_ok E" "st_ok E st" "kshape E (cb st)"
  obtains st1 where "for_each_active E c (frontier (cb st)) 0 (total_verts E) (pagerank_push fo) st = Some (Inr st1)"
    "st_ok E st1" "kshape E (cb st1)"
proof -
  let ?P = "\<lambda>(D :: u32 set) s. kshape E s"
  have step: "kshape E (pagerank_push fo t v es n s)" if "kshape E s" for t v es n s
    using that pagerank_push_frame [of fo t v es n s] by (simp add: kshape_def)
  show thesis
    by (rule round_rule [where P = ?P and F = "pagerank_push fo" and k = c, OF assms(1,2,3) assms(3)])
      (use step that in auto)
qed

lemma pr_loop_returns:
  assumes "env_ok E"
  shows "st_ok E st \<Longrightarrow> kshape E (cb st) \<Longrightarrow> k + unat i = 5 \<Longrightarrow>
    \<exists>st'. pr_loop E fo who i c st = Some (Inr st') \<and> st_ok E st' \<and> kshape E (cb st')"
proof (induction k arbitrary: i c st)
  case 0
  then have "i = 5" by (simp add: word_unat_eq_iff)
  then show ?case using 0 by (subst pr_loop.simps) (simp add: max_iterations_def)
next
  case (Suc k)
  show ?case
  proof (cases "\<not> is_empty (frontier (cb st)) \<and> i + 1 < max_iterations")
    case True
    obtain st1 where r: "for_each_active E c (frontier (cb st)) 0 (total_verts E) (pagerank_push fo) st = Some (Inr st1)"
      "st_ok E st1" "kshape E (cb st1)" using pr_round_shape [OF assms Suc.prems(1,2)] .
    let ?st = "st1\<lparr> cb := swap_frontiers (pr_map E fo who (cb st1)) \<rparr>"
    have "kshape E (cb ?st)" using pr_map_spec(1) [OF r(3)] by (simp add: kshape_swap)
    moreover have "unat (i + 1) = unat i + 1" using Suc.prems(3) using unat_inc [of i 5] by (simp add: word_less_nat_alt)
    ultimately have "\<exists>st'. pr_loop E fo who (i + 1) (Suc c) ?st = Some (Inr st') \<and> st_ok E st' \<and> kshape E (cb st')"
      using Suc.IH [of ?st "i + 1"] r(2) Suc.prems(3) by simp
    then show ?thesis using True r(1) by (subst pr_loop.simps) simp
  next
    case False
    then show ?thesis using Suc.prems by (subst pr_loop.simps) auto
  qed
qed

subsection \<open>The recurrence of exact arithmetic\<close>

text \<open>The constants of the kernel over the rationals.\<close>

definition exact_ops :: "rat float_ops" where
  "exact_ops =
     \<lparr> f_zero = 0, f_alpha = 85 / 100, f_epsilon = 1 / 1000, f_init_residual = 1 - 85 / 100,
       f_add = (+), f_mul = (*), f_div = (/), f_of_u32 = (\<lambda>n. of_nat (unat n)), f_abs = abs, f_less = (<) \<rparr>"

lemma exact_ops_sel [simp]:
  "f_zero exact_ops = 0" "f_alpha exact_ops = 85 / 100" "f_epsilon exact_ops = 1 / 1000"
  "f_init_residual exact_ops = 15 / 100" "f_add exact_ops = (+)" "f_mul exact_ops = (*)" "f_div exact_ops = (/)"
  "f_abs exact_ops = abs" "f_less exact_ops = (<)"
  by (simp_all add: exact_ops_def)

lemma exact_ops_of_u32: "n < 2 ^ 32 \<Longrightarrow> f_of_u32 exact_ops (of_nat n) = of_nat n"
  using arg_cong [OF unat_of_nat_u32, of n rat_of_nat] by (simp add: exact_ops_def del: of_nat_unat)

text \<open>
  A sequential reference: every vertex of the frontier spreads its delta evenly over its out-edges,
  a vertex whose residual exceeds the threshold absorbs it and is in the next frontier.
\<close>

record pr_ranks =
  r_value :: "u32 \<Rightarrow> rat"
  r_delta :: "u32 \<Rightarrow> rat"
  r_residual :: "u32 \<Rightarrow> rat"
  r_frontier :: "u32 set"

definition pr_share :: "(u32 \<Rightarrow> u32 list) \<Rightarrow> (u32 \<Rightarrow> rat) \<Rightarrow> u32 \<Rightarrow> rat" where
  "pr_share G del v = del v * (85 / 100) / of_nat (length (G v))"

definition pr_inflow :: "(u32 \<Rightarrow> u32 list) \<Rightarrow> (u32 \<Rightarrow> rat) \<Rightarrow> u32 set \<Rightarrow> u32 \<Rightarrow> rat" where
  "pr_inflow G del D w = (\<Sum>v\<in>D. of_nat (count_list (G v) w) * pr_share G del v)"

definition pr_round :: "u32 \<Rightarrow> (u32 \<Rightarrow> u32 list) \<Rightarrow> pr_ranks \<Rightarrow> pr_ranks" where
  "pr_round n G r =
     (let res = (\<lambda>w. r_residual r w + pr_inflow G (r_delta r) (r_frontier r) w);
          A = {w. w < n \<and> \<bar>res w\<bar> > 1 / 1000}
      in \<lparr> r_value = (\<lambda>w. if w \<in> A then r_value r w + res w else r_value r w),
           r_delta = (\<lambda>w. if w \<in> A then res w else if w \<in> r_frontier r \<and> G w \<noteq> [] then 0 else r_delta r w),
           r_residual = (\<lambda>w. if w \<in> A then 0 else res w),
           r_frontier = A \<rparr>)"

definition pr_start :: "u32 \<Rightarrow> pr_ranks" where
  "pr_start n = \<lparr> r_value = (\<lambda>_. 0), r_delta = (\<lambda>_. 15 / 100), r_residual = (\<lambda>_. 0), r_frontier = {w. w < n} \<rparr>"

text \<open>The abstraction relation between a state of the kernel and the reference.\<close>

definition pr_rel :: "run_env \<Rightarrow> rat pr_state \<Rightarrow> pr_ranks \<Rightarrow> bool" where
  "pr_rel E s r \<longleftrightarrow> kshape E s \<and> bits_of (frontier s) = r_frontier r \<and> bits_of (next_frontier s) = {} \<and>
     (\<forall>w. w < total_verts E \<longrightarrow>
        verts s ! unat w = \<lparr> pr_value = r_value r w, pr_delta = r_delta r w, pr_residual = r_residual r w \<rparr>)"

lemma pr_edges_exact:
  assumes "\<forall>w \<in> set ws. unat w < length (verts s)"
  shows "verts (fold (pr_edge exact_ops x) ws s) ! unat w =
    (verts s ! unat w)\<lparr> pr_residual := pr_residual (verts s ! unat w) + of_nat (count_list ws w) * x \<rparr>"
  using assms
proof (induction ws arbitrary: s)
  case (Cons u ws)
  have l: "unat u < length (verts s)" using Cons.prems by simp
  have "verts (fold (pr_edge exact_ops x) ws (pr_edge exact_ops x u s)) ! unat w =
     (verts (pr_edge exact_ops x u s) ! unat w)\<lparr> pr_residual :=
        pr_residual (verts (pr_edge exact_ops x u s) ! unat w) + of_nat (count_list ws w) * x \<rparr>"
    using Cons.prems by (intro Cons.IH) (simp add: pr_edge_def)
  moreover have "verts (pr_edge exact_ops x u s) ! unat w =
     (if w = u then (verts s ! unat w)\<lparr> pr_residual := pr_residual (verts s ! unat w) + x \<rparr> else verts s ! unat w)"
    using l by (simp add: pr_edge_def nth_update_unat update_add_atomic_def)
  ultimately show ?case by (simp add: algebra_simps)
qed simp

lemma pagerank_push_exact:
  assumes "env_ok E" "v < total_verts E" "kshape E s" "w < total_verts E"
  shows "verts (pagerank_push exact_ops t v (nb E v) (of_nat (length (nb E v))) s) ! unat w =
    (let x = verts s ! unat w; my = pr_share (nb E) (\<lambda>u. pr_delta (verts s ! unat u)) v in
     x\<lparr> pr_delta := (if w = v \<and> nb E v \<noteq> [] then 0 else pr_delta x),
        pr_residual := pr_residual x + of_nat (count_list (nb E v) w) * my \<rparr>)"
proof (cases "nb E v = []")
  case True
  then show ?thesis by (simp add: pagerank_push_def)
next
  case False
  have len: "length (nb E v) < 2 ^ 32" using nb_length [OF assms(1,2)] unat_u32_lt by simp
  then have u: "unat (of_nat (length (nb E v)) :: u32) = length (nb E v)" by (simp add: unat_of_nat_u32)
  then have pos: "(of_nat (length (nb E v)) :: u32) > 0" using False by (simp add: word_less_nat_alt)
  have l: "unat z < length (verts s)" if "z < total_verts E" for z
    using that assms(3) by (simp add: kshape_def word_less_nat_alt)
  have ws: "\<forall>z \<in> set (nb E v). unat z < length (verts s)" using nb_bound [OF assms(1)] l by blast
  let ?s = "s\<lparr> verts := (verts s)[unat v := (verts s ! unat v)\<lparr> pr_delta := 0 \<rparr>] \<rparr>"
  let ?my = "pr_share (nb E) (\<lambda>u. pr_delta (verts s ! unat u)) v"
  have "pagerank_push exact_ops t v (nb E v) (of_nat (length (nb E v))) s = fold (pr_edge exact_ops ?my) (nb E v) ?s"
    using pos take_nb [OF assms(1,2)] by (simp add: pagerank_push_def Let_def exact_ops_of_u32 [OF len] pr_share_def)
  moreover have "verts ?s ! unat w = (if w = v then (verts s ! unat w)\<lparr> pr_delta := 0 \<rparr> else verts s ! unat w)"
    using l [OF assms(2)] by (simp add: nth_update_unat)
  ultimately show ?thesis using pr_edges_exact [of "nb E v" ?s ?my w] ws False by (simp add: Let_def)
qed

text \<open>The calls of one round, in any order, add up to the inflow of the recurrence.\<close>

definition pr_pushed :: "run_env \<Rightarrow> pr_ranks \<Rightarrow> rat pr_state \<Rightarrow> u32 set \<Rightarrow> rat pr_state \<Rightarrow> bool" where
  "pr_pushed E r s0 D s \<longleftrightarrow> kshape E s \<and> frontier s = frontier s0 \<and> next_frontier s = next_frontier s0 \<and>
     (\<forall>w. w < total_verts E \<longrightarrow> verts s ! unat w =
        \<lparr> pr_value = r_value r w, pr_delta = (if w \<in> D \<and> nb E w \<noteq> [] then 0 else r_delta r w),
          pr_residual = r_residual r w + pr_inflow (nb E) (r_delta r) D w \<rparr>)"

lemma pr_pushed_step:
  assumes "env_ok E" "pr_pushed E r s0 D s" "v \<notin> D" "finite D" "v < total_verts E"
  shows "pr_pushed E r s0 (insert v D) (pagerank_push exact_ops t v (nb E v) (of_nat (length (nb E v))) s)"
proof -
  let ?s = "pagerank_push exact_ops t v (nb E v) (of_nat (length (nb E v))) s"
  have sh: "kshape E s" and fr: "frontier s = frontier s0" "next_frontier s = next_frontier s0"
    and x: "\<And>w. w < total_verts E \<Longrightarrow> verts s ! unat w =
        \<lparr> pr_value = r_value r w, pr_delta = (if w \<in> D \<and> nb E w \<noteq> [] then 0 else r_delta r w),
          pr_residual = r_residual r w + pr_inflow (nb E) (r_delta r) D w \<rparr>"
    using assms(2) by (auto simp: pr_pushed_def)
  have "kshape E ?s" using sh pagerank_push_frame [of exact_ops t v "nb E v" _ s] by (simp add: kshape_def)
  moreover have "pr_share (nb E) (\<lambda>u. pr_delta (verts s ! unat u)) v = pr_share (nb E) (r_delta r) v"
    using x [OF assms(5)] assms(3) by (simp add: pr_share_def)
  then have "verts ?s ! unat w =
      \<lparr> pr_value = r_value r w, pr_delta = (if w \<in> insert v D \<and> nb E w \<noteq> [] then 0 else r_delta r w),
        pr_residual = r_residual r w + pr_inflow (nb E) (r_delta r) (insert v D) w \<rparr>"
    if "w < total_verts E" for w
    using pagerank_push_exact [OF assms(1,5) sh that, of t] x [OF that] assms(3,4)
    by (auto simp: Let_def pr_inflow_def)
  ultimately show ?thesis using fr pagerank_push_frame [of exact_ops t v "nb E v" _ s] by (simp add: pr_pushed_def)
qed

lemma pr_pushed_all:
  assumes "pr_pushed E r s0 D s" "D \<subseteq> F" "\<forall>v \<in> F - D. nb E v = []" "finite F"
  shows "pr_pushed E r s0 F s"
proof -
  have "pr_inflow (nb E) (r_delta r) F w = pr_inflow (nb E) (r_delta r) D w" for w
    unfolding pr_inflow_def using assms(2-4) by (intro sum.mono_neutral_right) auto
  moreover have "w \<in> F \<and> nb E w \<noteq> [] \<longleftrightarrow> w \<in> D \<and> nb E w \<noteq> []" for w using assms(2,3) by auto
  ultimately show ?thesis using assms(1) by (simp add: pr_pushed_def)
qed

lemma pr_round_closes:
  assumes "pr_pushed E r s0 (r_frontier r) s1" "kshape E m"
    and "bits_of (next_frontier m) = {v. v < total_verts E \<and> fst (vertex_map exact_ops (verts s1 ! unat v))}"
    and "\<And>w. w < total_verts E \<Longrightarrow> verts m ! unat w = snd (vertex_map exact_ops (verts s1 ! unat w))"
  shows "pr_rel E (swap_frontiers m) (pr_round (total_verts E) (nb E) r)"
proof -
  have "kshape E (swap_frontiers m)" using assms(2) by (rule kshape_swap)
  moreover have "bits_of (frontier (swap_frontiers m)) = r_frontier (pr_round (total_verts E) (nb E) r)"
    using assms(1) by (auto simp: swap_frontiers_bits(1) [OF assms(2)] assms(3) pr_pushed_def pr_round_def Let_def vertex_map_def)
  moreover have "bits_of (next_frontier (swap_frontiers m)) = {}" by (rule swap_frontiers_bits(2) [OF assms(2)])
  moreover have "verts m ! unat w = \<lparr> pr_value = r_value (pr_round (total_verts E) (nb E) r) w,
      pr_delta = r_delta (pr_round (total_verts E) (nb E) r) w, pr_residual = r_residual (pr_round (total_verts E) (nb E) r) w \<rparr>"
    if "w < total_verts E" for w
    using assms(1) that by (simp add: assms(4) pr_pushed_def pr_round_def Let_def vertex_map_def)
  ultimately show ?thesis by (simp add: pr_rel_def)
qed

lemma pr_round_exact:
  assumes "env_ok E" "st_ok E st" "pr_rel E (cb st) r"
  obtains st1 where
    "for_each_active E c (frontier (cb st)) 0 (total_verts E) (pagerank_push exact_ops) st = Some (Inr st1)"
    "st_ok E st1" "pr_rel E (swap_frontiers (pr_map E exact_ops who (cb st1))) (pr_round (total_verts E) (nb E) r)"
proof -
  have sh: "kshape E (cb st)" and F: "bits_of (frontier (cb st)) = r_frontier r"
    and nf: "bits_of (next_frontier (cb st)) = {}" using assms(3) by (auto simp: pr_rel_def)
  have fin: "finite X" for X :: "u32 set" by simp
  have start: "pr_pushed E r (cb st) {} (cb st)" using assms(3) by (simp add: pr_rel_def pr_pushed_def pr_inflow_def)
  obtain st1 D where o: "for_each_active E c (frontier (cb st)) 0 (total_verts E) (pagerank_push exact_ops) st = Some (Inr st1)"
    "st_ok E st1" "pr_pushed E r (cb st) D (cb st1)" "D \<subseteq> r_frontier r" "\<forall>v \<in> r_frontier r - D. nb E v = []"
    by (rule round_rule [where P = "pr_pushed E r (cb st)" and F = "pagerank_push exact_ops" and k = c, OF assms(1,2) sh start])
      (use pr_pushed_step [OF assms(1)] kshape_bits_below [OF sh] F fin in auto)
  have p: "pr_pushed E r (cb st) (r_frontier r) (cb st1)" using pr_pushed_all [OF o(3-5) fin] .
  then have sh1: "kshape E (cb st1)" by (simp add: pr_pushed_def)
  let ?m = "pr_map E exact_ops who (cb st1)"
  note m = pr_map_spec [OF sh1, where fo = exact_ops and who = who]
  have "bits_of (next_frontier ?m) = {v. v < total_verts E \<and> fst (vertex_map exact_ops (verts (cb st1) ! unat v))}"
    using m(3) p nf by (simp add: pr_pushed_def)
  from pr_round_closes [OF p m(1) this m(4)] show thesis using that [OF o(1,2)] by blast
qed

lemma pr_loop_exact:
  assumes "env_ok E"
  shows "st_ok E st \<Longrightarrow> pr_rel E (cb st) r \<Longrightarrow> k + unat i = 4 \<Longrightarrow>
    \<exists>st' j. pr_loop E exact_ops who i c st = Some (Inr st') \<and> j \<le> k \<and>
      pr_rel E (cb st') ((pr_round (total_verts E) (nb E) ^^ j) r) \<and>
      (j = k \<or> r_frontier ((pr_round (total_verts E) (nb E) ^^ j) r) = {})"
proof (induction k arbitrary: i c st r)
  case 0
  then have "i = 4" by (simp add: word_unat_eq_iff)
  then show ?case using 0 by (subst pr_loop.simps) (simp add: max_iterations_def)
next
  case (Suc k)
  have e: "is_empty (frontier (cb st)) \<longleftrightarrow> r_frontier r = {}"
    using Suc.prems(2) kshape_is_empty by (auto simp: pr_rel_def)
  show ?case
  proof (cases "r_frontier r = {}")
    case False
    obtain st1 where o:
      "for_each_active E c (frontier (cb st)) 0 (total_verts E) (pagerank_push exact_ops) st = Some (Inr st1)" "st_ok E st1"
      "pr_rel E (swap_frontiers (pr_map E exact_ops who (cb st1))) (pr_round (total_verts E) (nb E) r)"
      using pr_round_exact [OF assms Suc.prems(1,2)] .
    let ?st = "st1\<lparr> cb := swap_frontiers (pr_map E exact_ops who (cb st1)) \<rparr>"
    have i: "unat (i + 1) = unat i + 1" using unat_inc [of i 5] Suc.prems(3) by (simp add: word_less_nat_alt)
    then have lt: "i + 1 < max_iterations" using Suc.prems(3) by (simp add: max_iterations_def word_less_nat_alt)
    obtain st' j where j: "pr_loop E exact_ops who (i + 1) (Suc c) ?st = Some (Inr st')" "j \<le> k"
      "pr_rel E (cb st') ((pr_round (total_verts E) (nb E) ^^ j) (pr_round (total_verts E) (nb E) r))"
      "j = k \<or> r_frontier ((pr_round (total_verts E) (nb E) ^^ j) (pr_round (total_verts E) (nb E) r)) = {}"
      using Suc.IH [of ?st "pr_round (total_verts E) (nb E) r" "i + 1" "Suc c"] o(2,3) i Suc.prems(3) by auto
    have "pr_loop E exact_ops who i c st = Some (Inr st')"
      using False e lt o(1) j(1) by (subst pr_loop.simps) simp
    then show ?thesis using j(2-4) by (intro exI [of _ st'] exI [of _ "Suc j"]) (simp add: funpow_swap1)
  next
    case True
    then have "pr_loop E exact_ops who i c st = Some (Inr st)" using e by (subst pr_loop.simps) simp
    then show ?thesis using Suc.prems(2) True by (intro exI [of _ st] exI [of _ 0]) simp
  qed
qed

subsection \<open>The summary\<close>

text \<open>What the buffer of the summary holds after the vertices \<open>vs\<close>.\<close>

definition top_inv :: "('f::linorder) pagerank_delta_vertex list \<Rightarrow> u32 list \<Rightarrow> ('f \<times> u32) list \<Rightarrow> bool" where
  "top_inv vt vs t \<longleftrightarrow> sorted t \<and> distinct (map snd t) \<and> length t = min 20 (length vs) \<and>
     (\<forall>p \<in> set t. snd p \<in> set vs \<and> fst p = pr_value (vt ! unat (snd p))) \<and>
     (\<forall>u \<in> set vs - snd ` set t. \<forall>p \<in> set t. pr_value (vt ! unat u) \<le> fst p) \<and>
     (length vs \<le> 20 \<longrightarrow> snd ` set t = set vs)"

lemma top_inv_omitted:
  "top_inv vt vs t \<Longrightarrow> u \<in> set vs \<Longrightarrow> u \<notin> snd ` set t \<Longrightarrow> p \<in> set t \<Longrightarrow> pr_value (vt ! unat u) \<le> fst p"
  unfolding top_inv_def by blast

lemma distinct_snd_sort: "distinct (map snd (sort t)) = distinct (map snd t)"
proof -
  have "mset (map snd (sort t)) = mset (map snd t)" by simp
  then show ?thesis by (metis mset_eq_imp_distinct_iff)
qed

lemma top_inv_step:
  assumes "top_inv vt vs t" "v \<notin> set vs"
  shows "top_inv vt (vs @ [v]) (top_step vt v t)"
proof (cases "length t < 20")
  case True
  then have "snd ` set t = set vs" using assms(1) by (auto simp: top_inv_def)
  then show ?thesis using assms True by (auto simp: top_inv_def top_step_def distinct_snd_sort)
next
  case False
  then have l: "length t = 20" "20 \<le> length vs" using assms(1) by (auto simp: top_inv_def)
  obtain q ts where t: "t = q # ts" using l(1) by (cases t) auto
  have le: "fst q \<le> fst p" if "p \<in> set ts" for p
    using assms(1) that t by (auto simp: top_inv_def less_eq_prod_def)
  show ?thesis
  proof (cases "pr_value (vt ! unat v) > fst q")
    case True
    have e: "top_step vt v t = sort ((pr_value (vt ! unat v), v) # ts)"
      using l True by (simp add: top_step_def t)
    have old: "pr_value (vt ! unat u) \<le> fst p"
      if "u \<in> set vs - snd ` set ts" "p \<in> insert (pr_value (vt ! unat v), v) (set ts)" for u p
    proof -
      have "pr_value (vt ! unat u) \<le> fst q"
      proof (cases "u = snd q")
        case True
        then show ?thesis using assms(1) by (simp add: top_inv_def t)
      next
        case False
        then show ?thesis using assms(1) that(1) by (auto simp: top_inv_def t)
      qed
      moreover have "fst q \<le> fst p" using that(2) True by (auto intro: le)
      ultimately show ?thesis by simp
    qed
    have "v \<notin> snd ` set ts" using assms by (auto simp: top_inv_def t)
    then have d: "distinct (map snd (top_step vt v t))" unfolding e distinct_snd_sort using assms(1) by (simp add: top_inv_def t)
    have set: "set (top_step vt v t) = insert (pr_value (vt ! unat v), v) (set ts)" and s: "sorted (top_step vt v t)"
      unfolding e by (simp_all add: set_insort_key sorted_insort del: sort_key_simps)
    have len: "length (top_step vt v t) = 20" using l(1) unfolding e by (simp add: t)
    have "\<forall>p \<in> set (top_step vt v t). snd p \<in> set (vs @ [v]) \<and> fst p = pr_value (vt ! unat (snd p))"
      using assms(1) unfolding set by (auto simp: top_inv_def t)
    moreover have "\<forall>u \<in> set (vs @ [v]) - snd ` set (top_step vt v t). \<forall>p \<in> set (top_step vt v t). pr_value (vt ! unat u) \<le> fst p"
      unfolding set by (intro ballI old) auto
    ultimately show ?thesis unfolding top_inv_def using s d len l(2) by simp
  next
    case False
    have "pr_value (vt ! unat v) \<le> fst p" if "p \<in> set t" for p
    proof -
      have "fst q \<le> fst p" using le [of p] that by (cases "p = q") (simp_all add: t)
      then show ?thesis using False by simp
    qed
    then have "pr_value (vt ! unat u) \<le> fst p" if "u \<in> set (vs @ [v]) - snd ` set t" "p \<in> set t" for u p
      using top_inv_omitted [OF assms(1), of u p] that by (cases "u = v") simp_all
    moreover have "top_step vt v t = t" using l False by (simp add: top_step_def t)
    ultimately show ?thesis using assms(1) l(2) unfolding top_inv_def by simp
  qed
qed

lemma top_inv_fold: "distinct vs \<Longrightarrow> top_inv vt vs (fold (top_step vt) vs [])"
proof (induction vs rule: rev_induct)
  case Nil
  show ?case by (simp add: top_inv_def)
next
  case (snoc v vs)
  then show ?case using top_inv_step [of vt vs "fold (top_step vt) vs []" v] by simp
qed

subsection \<open>Properties\<close>

text \<open>
  The delta PageRank kernel returns on every graph: whatever the arithmetic of the processor gives, whatever
  the card, the schedule and the caches, the loop ends, within \<open>max_iterations\<close>, without an abort, and the
  frontiers and the vertex table keep their shape.
\<close>

lemma pagerank_returns:
  assumes "env_ok E" "fresh E x (cb st)" "st_ok E st"
  shows "\<exists>st'. pagerank_delta_kernel E fo t who st = Some (Inr st') \<and> kshape E (cb st')"
  using pr_loop_returns [OF assms(1), of "st\<lparr> cb := pr_init E fo t (cb st) \<rparr>" 5 0 fo who 0] pr_init_spec(1) [OF assms(2)] assms(3)
  by (auto simp: pagerank_delta_kernel_def)

lemma pagerank_returns_witness:
  "\<exists>st'. pagerank_delta_kernel (demo_env 1) exact_ops 0 (\<lambda>v. 1)
      (demo_state (demo_kstate \<lparr> pr_value = 0, pr_delta = 0, pr_residual = 0 \<rparr>)) = Some (Inr st') \<and> kshape (demo_env 1) (cb st')"
  by (rule pagerank_returns [OF demo_env_ok _ demo_st_ok]) (unfold cb_demo_state, rule demo_fresh)

text \<open>
  C15. For exact arithmetic the kernel refines a sequential recurrence: its result is that of \<open>j\<close> rounds of
  \<open>pr_round\<close> from \<open>pr_start\<close>, in whatever order the workers add to the residuals, and it stops after four rounds
  or as soon as no residual exceeds the threshold. (\<open>max_iterations\<close> is 5, but the counter is incremented before
  it is compared, so that there is no fifth round.)
\<close>

theorem pagerank_exact:
  assumes "env_ok E" "fresh E x (cb st)" "st_ok E st"
  shows "\<exists>st' j. pagerank_delta_kernel E exact_ops t who st = Some (Inr st') \<and> j \<le> 4 \<and>
    (let r = (pr_round (total_verts E) (nb E) ^^ j) (pr_start (total_verts E)) in
     bits_of (frontier (cb st')) = r_frontier r \<and> (j = 4 \<or> r_frontier r = {}) \<and>
     (\<forall>w. w < total_verts E \<longrightarrow> verts (cb st') ! unat w =
        \<lparr> pr_value = r_value r w, pr_delta = r_delta r w, pr_residual = r_residual r w \<rparr>))"
proof -
  note i = pr_init_spec [OF assms(2), where fo = exact_ops and t = t]
  have "pr_rel E (pr_init E exact_ops t (cb st)) (pr_start (total_verts E))"
    using i by (simp add: pr_rel_def pr_start_def)
  then show ?thesis
    using pr_loop_exact [OF assms(1), of "st\<lparr> cb := pr_init E exact_ops t (cb st) \<rparr>" "pr_start (total_verts E)" 4 0 who 0] assms(3)
    by (auto simp: pagerank_delta_kernel_def pr_rel_def Let_def)
qed

theorem pagerank_exact_witness:
  "\<exists>st' j. pagerank_delta_kernel (demo_env 1) exact_ops 0 (\<lambda>v. 1)
       (demo_state (demo_kstate \<lparr> pr_value = 0, pr_delta = 0, pr_residual = 0 \<rparr>)) = Some (Inr st') \<and> j \<le> 4 \<and>
    pr_value (verts (cb st') ! 0) = r_value ((pr_round 3 (nb (demo_env 1)) ^^ j) (pr_start 3)) 0"
proof -
  let ?x = "\<lparr> pr_value = 0, pr_delta = 0, pr_residual = 0 \<rparr> :: rat pagerank_delta_vertex"
  have "fresh (demo_env 1) ?x (cb (demo_state (demo_kstate ?x)))" by (simp add: demo_fresh)
  from pagerank_exact [OF demo_env_ok this demo_st_ok, of 0 "\<lambda>v. 1"] obtain st' j where
    "pagerank_delta_kernel (demo_env 1) exact_ops 0 (\<lambda>v. 1) (demo_state (demo_kstate ?x)) = Some (Inr st')" "j \<le> 4"
    "\<forall>w. w < 3 \<longrightarrow> pr_value (verts (cb st') ! unat w) = r_value ((pr_round 3 (nb (demo_env 1)) ^^ j) (pr_start 3)) w"
    unfolding Let_def demo_total by (metis (no_types, lifting) pagerank_delta_vertex.select_convs(1))
  then show ?thesis by (intro exI [of _ st'] exI [of _ j]) (auto dest: spec [of _ 0])
qed

text \<open>
  The summary of PageRank is right on totally ordered ranks (no NaN): it prints twenty vertices, or all of a smaller graph, each once,
  with its rank, in descending order, and no vertex left out has a rank above one printed.
\<close>

lemma top20_correct:
  fixes vt :: "('f::linorder) pagerank_delta_vertex list"
  shows "length (print_top_20 vt n) = min 20 (unat n) \<and> distinct (map fst (print_top_20 vt n)) \<and>
    sorted_wrt (\<lambda>p q. snd q \<le> snd p) (print_top_20 vt n) \<and>
    (\<forall>p \<in> set (print_top_20 vt n). fst p < n \<and> snd p = pr_value (vt ! unat (fst p))) \<and>
    (\<forall>u. u < n \<longrightarrow> u \<notin> fst ` set (print_top_20 vt n) \<longrightarrow>
       (\<forall>p \<in> set (print_top_20 vt n). pr_value (vt ! unat u) \<le> snd p))"
proof -
  define t where "t = fold (top_step vt) (u32_range 0 n) []"
  have inv: "top_inv vt (u32_range 0 n) t" unfolding t_def by (rule top_inv_fold) simp
  have p: "print_top_20 vt n = map prod.swap (rev t)" by (auto simp: print_top_20_def prod.swap_def t_def)
  have omitted: "\<forall>u. u < n \<longrightarrow> u \<notin> snd ` set t \<longrightarrow> (\<forall>p \<in> set t. pr_value (vt ! unat u) \<le> fst p)"
    using top_inv_omitted [OF inv] by simp
  have sorted: "sorted_wrt (\<lambda>p q. fst p \<le> fst q) t"
    by (rule sorted_wrt_mono_rel [of _ "(\<le>)"]) (use inv in \<open>auto simp: top_inv_def less_eq_prod_def\<close>)
  have "length (u32_range 0 n) = unat n" by (simp add: u32_range_def)
  then have "length (print_top_20 vt n) = min 20 (unat n)" using inv by (simp add: p top_inv_def)
  moreover have "map fst (print_top_20 vt n) = rev (map snd t)" by (simp add: p rev_map)
  then have "distinct (map fst (print_top_20 vt n))" using inv by (simp add: top_inv_def)
  moreover have "sorted_wrt (\<lambda>p q. snd q \<le> snd p) (print_top_20 vt n)"
    using sorted by (simp add: p sorted_wrt_map sorted_wrt_rev)
  moreover have "\<forall>p \<in> set (print_top_20 vt n). fst p < n \<and> snd p = pr_value (vt ! unat (fst p))"
    using inv by (auto simp: p top_inv_def)
  moreover have "fst ` set (print_top_20 vt n) = snd ` set t" by (auto simp: p image_image)
  then have "\<forall>u. u < n \<longrightarrow> u \<notin> fst ` set (print_top_20 vt n) \<longrightarrow>
       (\<forall>p \<in> set (print_top_20 vt n). pr_value (vt ! unat u) \<le> snd p)"
    using omitted by (simp add: p)
  ultimately show ?thesis by blast
qed

lemma top20_correct_witness:
  "length (print_top_20 (map (\<lambda>k. \<lparr> pr_value = k * k mod 7, pr_delta = 0, pr_residual = 0 \<rparr>) [0..<25]) 25) = 20 \<and>
   distinct (map fst (print_top_20 (map (\<lambda>k. \<lparr> pr_value = k * k mod (7 :: nat), pr_delta = 0, pr_residual = 0 \<rparr>) [0..<25]) 25))"
  using top20_correct [of "map (\<lambda>k. \<lparr> pr_value = k * k mod 7, pr_delta = 0, pr_residual = 0 \<rparr>) [0..<25]" 25] by simp

end
