(* ===== verification/PageRank_Parallel.thy ===== *)
theory PageRank_Parallel
  imports PageRank Interleaving
begin

text \<open>
  Delta PageRank with its callbacks interleaved: the additions of concurrent workers to one residual,
  each a loop around a compare-and-exchange that fails whenever another addition came first, and the
  pass over the vertices after them. For any arithmetic no run goes on forever; for exact arithmetic
  the result is that of the sequential recurrence, whatever the order of the additions.
\<close>

subsection \<open>The callbacks as micro-operations\<close>

text \<open>
  \<open>PVisit\<close> to \<open>PCas\<close> are \<open>pagerank_push\<close> and \<open>update_add_atomic\<close>: \<open>PClear\<close> carries \<open>my_delta\<close>, \<open>PCas\<close> the
  value to be added, the local variable \<open>current\<close> and how often \<open>compare_exchange_weak\<close> may still fail
  spuriously. \<open>PMap\<close> to \<open>PMark\<close> are \<open>vertex_map\<close> and the loop body around it.
\<close>

datatype 'f pr_op =
    PVisit u32 | PClear u32 'f | PAdd 'f u32 | PCas 'f u32 'f nat
  | PMap u32 | PValue u32 'f | PDelta u32 'f | PReset u32 | PMark u32

definition put :: "u32 \<Rightarrow> ('v \<Rightarrow> 'v) \<Rightarrow> 'v kstate \<Rightarrow> 'v kstate" where
  "put v h s = s\<lparr> verts := (verts s)[unat v := h (verts s ! unat v)] \<rparr>"

fun pr_exec :: "run_env \<Rightarrow> 'f float_ops \<Rightarrow> nat \<Rightarrow> ('f pr_state, 'f pr_op) micro" where
  "pr_exec E fo spurious t (PVisit v) s =
     [(s, if (of_nat (length (nb E v)) :: u32) > 0 then [PClear v (pr_delta (verts s ! unat v))] else [])]"
| "pr_exec E fo spurious t (PClear v my_delta) s =
     (let n = of_nat (length (nb E v)) :: u32;
          my_val = f_div fo (f_mul fo my_delta (f_alpha fo)) (f_of_u32 fo n)
      in [(put v (\<lambda>x. x\<lparr> pr_delta := f_zero fo \<rparr>) s, map (PAdd my_val) (take (unat n) (nb E v)))])"
| "pr_exec E fo spurious t (PAdd s_val w) s = [(s, [PCas s_val w (pr_residual (verts s ! unat w)) spurious])]"
| "pr_exec E fo spurious t (PCas s_val w current m) s =
     (if pr_residual (verts s ! unat w) = current
      then (put w (\<lambda>x. x\<lparr> pr_residual := f_add fo current s_val \<rparr>) s, []) #
           (case m of 0 \<Rightarrow> [] | Suc m' \<Rightarrow> [(s, [PCas s_val w current m'])])
      else [(s, [PCas s_val w (pr_residual (verts s ! unat w)) m])])"
| "pr_exec E fo spurious t (PMap v) s =
     (let res = pr_residual (verts s ! unat v)
      in [(s, if f_less fo (f_epsilon fo) (f_abs fo res) then [PValue v res] else [])])"
| "pr_exec E fo spurious t (PValue v res) s = [(put v (\<lambda>x. x\<lparr> pr_value := f_add fo (pr_value x) res \<rparr>) s, [PDelta v res])]"
| "pr_exec E fo spurious t (PDelta v res) s = [(put v (\<lambda>x. x\<lparr> pr_delta := res \<rparr>) s, [PReset v])]"
| "pr_exec E fo spurious t (PReset v) s = [(put v (\<lambda>x. x\<lparr> pr_residual := f_zero fo \<rparr>) s, [PMark v])]"
| "pr_exec E fo spurious t (PMark v) s = [(s\<lparr> next_frontier := mark t v (next_frontier s) \<rparr>, [])]"

text \<open>The locals of the kernel; \<open>pv_map\<close> tells which of the two loops of an iteration comes next.\<close>

record pr_locals =
  pv_iter :: u32
  pv_map :: bool

definition pr_go :: "pr_locals \<Rightarrow> 'f pr_state \<Rightarrow> bool" where
  "pr_go l s \<longleftrightarrow> pv_map l \<or> (\<not> is_empty (frontier s) \<and> pv_iter l + 1 < max_iterations)"

definition pr_starts :: "run_env \<Rightarrow> pr_locals \<Rightarrow> 'f pr_state \<Rightarrow> 'f pr_op list list \<Rightarrow> bool" where
  "pr_starts E l s Q \<longleftrightarrow> pr_go l s \<and>
     (\<exists>vss. if pv_map l
        then length vss = env_workers E \<and> distinct (concat vss) \<and> set (concat vss) = {v. v < total_verts E} \<and> Q = map (map PMap) vss
        else shares E (bits_of (frontier s)) vss \<and> Q = map (map PVisit) vss)"

definition pr_fin :: "pr_locals \<Rightarrow> 'f pr_state \<Rightarrow> pr_locals \<times> 'f pr_state" where
  "pr_fin l s =
     (if pv_map l then (l\<lparr> pv_map := False \<rparr>, swap_frontiers s)
      else (l\<lparr> pv_iter := pv_iter l + 1, pv_map := True \<rparr>, s))"

definition pr_kernel_step ::
    "run_env \<Rightarrow> 'f float_ops \<Rightarrow> nat \<Rightarrow> (pr_locals, 'f pr_state, 'f pr_op) pass_config \<Rightarrow> (pr_locals, 'f pr_state, 'f pr_op) pass_config \<Rightarrow> bool" where
  "pr_kernel_step E fo spurious = pass_step (pr_starts E) (\<lambda>l. pr_exec E fo spurious) pr_fin"

definition pr_begin :: "run_env \<Rightarrow> 'f float_ops \<Rightarrow> worker \<Rightarrow> 'f pr_state \<Rightarrow> (pr_locals, 'f pr_state, 'f pr_op) pass_config" where
  "pr_begin E fo t s = (Between, \<lparr> pv_iter = 0, pv_map = False \<rparr>, pr_init E fo t s)"

subsection \<open>Termination for any arithmetic\<close>

text \<open>
  An exchange that fails has read a residual another worker has written since. \<open>writes\<close> counts the
  residual writes still to come from an operation; each of them can make all pending exchanges stale.
\<close>

fun writes :: "run_env \<Rightarrow> 'f pr_op \<Rightarrow> nat" where
  "writes E (PVisit v) = length (nb E v)"
| "writes E (PClear v d) = length (nb E v)"
| "writes E (PDelta v r) = 1"
| "writes E (PMark v) = 0"
| "writes E _ = 1"

fun stale :: "'f pr_state \<Rightarrow> 'f pr_op \<Rightarrow> bool" where
  "stale s (PCas x w current m) \<longleftrightarrow> pr_residual (verts s ! unat w) \<noteq> current"
| "stale s _ \<longleftrightarrow> False"

fun pr_weight :: "run_env \<Rightarrow> nat \<Rightarrow> 'f pr_op \<Rightarrow> nat" where
  "pr_weight E spurious (PVisit v) = 2 + (2 + spurious) * length (nb E v)"
| "pr_weight E spurious (PClear v d) = 1 + (2 + spurious) * length (nb E v)"
| "pr_weight E spurious (PAdd x w) = 2 + spurious"
| "pr_weight E spurious (PCas x w c m) = 1 + m"
| "pr_weight E spurious (PMap v) = 5"
| "pr_weight E spurious (PValue v r) = 4"
| "pr_weight E spurious (PDelta v r) = 3"
| "pr_weight E spurious (PReset v) = 2"
| "pr_weight E spurious (PMark v) = 1"

definition all_writes :: "run_env \<Rightarrow> 'f pr_op multiset \<Rightarrow> nat" where
  "all_writes E P = sum_mset (image_mset (writes E) P)"

definition pr_mu :: "run_env \<Rightarrow> nat \<Rightarrow> 'f pr_op multiset \<Rightarrow> 'f pr_state \<Rightarrow> nat" where
  "pr_mu E spurious P s =
     all_writes E P * (all_writes E P + 1) + size (filter_mset (stale s) P) + sum_mset (image_mset (pr_weight E spurious) P)"

lemma stale_le_writes: "size (filter_mset (stale s) P) \<le> all_writes E P"
proof (induction P)
  case (add a P)
  have "stale s a \<Longrightarrow> 1 \<le> writes E a" by (cases a) auto
  then show ?case using add by (auto simp: all_writes_def)
qed (simp add: all_writes_def)

text \<open>A step that writes no residual, and one that does.\<close>

lemma quiet_step_lowers:
  assumes "\<And>w :: u32. pr_residual (verts s' ! unat w) = pr_residual (verts s ! unat w)"
    and "all_writes E N \<le> writes E a" "size (filter_mset (stale s) N) \<le> of_bool (stale s a)"
    and "sum_mset (image_mset (pr_weight E sp) N) + size (filter_mset (stale s) N) < pr_weight E sp a + of_bool (stale s a)"
  shows "pr_mu E sp (P + N) s' < pr_mu E sp (add_mset a P) s"
proof -
  have st: "stale s' = stale s"
  proof
    show "stale s' b = stale s b" for b by (cases b) (simp_all add: assms(1))
  qed
  have w: "all_writes E (P + N) \<le> all_writes E (add_mset a P)" using assms(2) by (simp add: all_writes_def)
  then have "all_writes E (P + N) * (all_writes E (P + N) + 1) \<le> all_writes E (add_mset a P) * (all_writes E (add_mset a P) + 1)"
    by (intro mult_le_mono) simp_all
  moreover have "size (filter_mset (stale s) (P + N)) + sum_mset (image_mset (pr_weight E sp) (P + N))
      < size (filter_mset (stale s) (add_mset a P)) + sum_mset (image_mset (pr_weight E sp) (add_mset a P))"
    using assms(4) by (auto split: if_splits)
  ultimately show ?thesis unfolding pr_mu_def st by linarith
qed

lemma write_step_lowers:
  assumes "all_writes E N < writes E a" "sum_mset (image_mset (pr_weight E sp) N) \<le> pr_weight E sp a"
  shows "pr_mu E sp (P + N) s' < pr_mu E sp (add_mset a P) s"
proof -
  define T where "T = all_writes E (add_mset a P)"
  have w: "all_writes E (P + N) < T" using assms(1) by (simp add: T_def all_writes_def)
  then have "all_writes E (P + N) * (all_writes E (P + N) + 1) + all_writes E (P + N) < T * (T + 1)"
  proof -
    have "all_writes E (P + N) + 1 \<le> T" using w by simp
    then have "(all_writes E (P + N) + 1) * (all_writes E (P + N) + 1) \<le> T * T" by (intro mult_le_mono)
    then show ?thesis using w by simp
  qed
  moreover have "size (filter_mset (stale s') (P + N)) \<le> all_writes E (P + N)" by (rule stale_le_writes)
  moreover have "sum_mset (image_mset (pr_weight E sp) (P + N)) \<le> sum_mset (image_mset (pr_weight E sp) (add_mset a P))"
    using assms(2) by simp
  ultimately show ?thesis unfolding pr_mu_def T_def [symmetric] by linarith
qed

lemma put_residual: "(\<And>x. pr_residual (h x) = pr_residual x) \<Longrightarrow> pr_residual (verts (put v h s) ! i) = pr_residual (verts s ! i)"
  by (cases "unat v < length (verts s)") (auto simp: put_def nth_list_update list_update_beyond)

lemma adds_measure:
  "all_writes E (mset (map (PAdd x) ws)) = length ws" "filter_mset (stale s) (mset (map (PAdd x) ws)) = {#}"
  "sum_mset (image_mset (pr_weight E sp) (mset (map (PAdd x) ws))) = (2 + sp) * length ws"
  by (induction ws) (auto simp: all_writes_def)

lemma pr_op_lowers:
  assumes "(s', nxt) \<in> set (pr_exec E fo sp t a s)"
  shows "pr_mu E sp (P + mset nxt) s' < pr_mu E sp (add_mset a P) s"
proof (cases a)
  case (PClear v d)
  let ?ws = "take (unat (of_nat (length (nb E v)) :: u32)) (nb E v)"
  let ?x = "f_div fo (f_mul fo d (f_alpha fo)) (f_of_u32 fo (of_nat (length (nb E v))))"
  have n: "nxt = map (PAdd ?x) ?ws" "s' = put v (\<lambda>x. x\<lparr> pr_delta := f_zero fo \<rparr>) s"
    using assms by (simp_all add: PClear Let_def)
  have "(2 + sp) * length ?ws \<le> (2 + sp) * length (nb E v)" by (intro mult_le_mono) simp_all
  then show ?thesis
    unfolding n(1) by (intro quiet_step_lowers) (simp_all add: n(2) put_residual adds_measure PClear less_Suc_eq_le del: mset_map)
next
  case (PCas x w c m)
  consider (won) "nxt = []" | (lost) m' where "s' = s" "nxt = [PCas x w (pr_residual (verts s ! unat w)) m']"
      "pr_residual (verts s ! unat w) \<noteq> c \<and> m' = m \<or> pr_residual (verts s ! unat w) = c \<and> m = Suc m'"
    using assms by (auto simp: PCas split: if_splits nat.splits)
  then show ?thesis
  proof cases
    case won
    then show ?thesis by (intro write_step_lowers) (simp_all add: PCas all_writes_def)
  next
    case lost
    then show ?thesis by (intro quiet_step_lowers) (auto simp: PCas all_writes_def)
  qed
next
  case (PReset v)
  then show ?thesis using assms by (intro write_step_lowers) (simp_all add: all_writes_def)
qed (use assms in \<open>(intro quiet_step_lowers; auto simp: all_writes_def put_residual Let_def split: if_splits)\<close>)+

lemma pr_exec_enabled: "pr_exec E fo sp t a s \<noteq> []"
  by (cases a) (auto simp: Let_def)

text \<open>Any arithmetic: the shape of the state is kept, and every loop ends.\<close>

fun at_vertex :: "'f pr_op \<Rightarrow> u32" where
  "at_vertex (PVisit v) = v"
| "at_vertex (PClear v d) = v"
| "at_vertex (PAdd x w) = w"
| "at_vertex (PCas x w c m) = w"
| "at_vertex (PMap v) = v"
| "at_vertex (PValue v r) = v"
| "at_vertex (PDelta v r) = v"
| "at_vertex (PReset v) = v"
| "at_vertex (PMark v) = v"

definition pr_shape :: "run_env \<Rightarrow> 'f pr_op multiset \<Rightarrow> 'f pr_state \<Rightarrow> bool" where
  "pr_shape E P s \<longleftrightarrow> env_ok E \<and> kshape E s \<and> (\<forall>a \<in># P. at_vertex a < total_verts E)"

lemma pr_exec_shape:
  assumes "pr_shape E (add_mset a P) s" "(s', nxt) \<in> set (pr_exec E fo sp t a s)"
  shows "pr_shape E (P + mset nxt) s'"
proof -
  have e: "env_ok E" "kshape E s" "at_vertex a < total_verts E" using assms(1) by (auto simp: pr_shape_def)
  have "kshape E (put v h s)" for v h using e(2) by (simp add: put_def kshape_def)
  then have "kshape E s'" using assms(2) e(2) kshape_mark_next [OF e(2,3), of t]
    by (cases a) (auto simp: Let_def split: if_splits nat.splits)
  moreover have "at_vertex b < total_verts E" if "b \<in> set nxt" for b
    using assms(2) that e(3) nb_bound [OF e(1)] by (cases a) (auto simp: Let_def split: if_splits nat.splits dest!: in_set_takeD)
  ultimately show ?thesis using assms(1) by (auto simp: pr_shape_def)
qed

definition pr_rank :: "pr_locals \<Rightarrow> 'f pr_state \<Rightarrow> nat" where
  "pr_rank l s = 2 * (5 - unat (pv_iter l)) + of_bool (pv_map l)"

definition pr_regular :: "run_env \<Rightarrow> pr_locals \<Rightarrow> 'f pr_state \<Rightarrow> bool" where
  "pr_regular E l s \<longleftrightarrow> env_ok E \<and> kshape E s \<and> unat (pv_iter l) \<le> 4"

lemma pr_starts_shape:
  assumes "pr_regular E l s" "pr_starts E l s Q"
  shows "pr_shape E (pending Q) s"
proof -
  have r: "env_ok E" "kshape E s" using assms(1) by (auto simp: pr_regular_def)
  obtain vss where v: "set (concat vss) \<subseteq> {v. v < total_verts E}" "Q = map (map PMap) vss \<or> Q = map (map PVisit) vss"
  proof (cases "pv_map l")
    case True
    then obtain vss where "set (concat vss) = {v. v < total_verts E}" "Q = map (map PMap) vss"
      using assms(2) unfolding pr_starts_def by (simp del: set_concat) blast
    then show ?thesis using that [of vss] by blast
  next
    case False
    then obtain vss where v: "shares E (bits_of (frontier s)) vss" "Q = map (map PVisit) vss" using assms(2) by (auto simp: pr_starts_def)
    then have "set (concat vss) \<subseteq> bits_of (frontier s)" by (simp only: shares_def)
    then show ?thesis using that [of vss] v(2) kshape_bits_below [OF r(2)] by blast
  qed
  from v(2) have "pending Q = image_mset PMap (mset (concat vss)) \<or> pending Q = image_mset PVisit (mset (concat vss))"
    by (elim disjE) (simp_all only: pending_visits simp_thms)
  moreover have "v < total_verts E" if "v \<in> set (concat vss)" for v using v(1) that by blast
  ultimately show ?thesis using r by (auto simp: pr_shape_def simp del: set_concat)
qed

lemma pr_rank_drops:
  assumes "pr_go l s0" "pr_regular E l s0" "kshape E s" "pr_fin l s = (l', s')"
  shows "pr_regular E l' s' \<and> pr_rank l' s' < pr_rank l s0"
proof (cases "pv_map l")
  case True
  then show ?thesis using assms(2-4) kshape_swap [OF assms(3)] by (auto simp: pr_fin_def pr_regular_def pr_rank_def)
next
  case False
  then have i: "pv_iter l + 1 < 5" using assms(1) by (simp add: pr_go_def max_iterations_def)
  have "unat (pv_iter l) \<le> 4" using assms(2) by (simp add: pr_regular_def)
  then have u: "unat (pv_iter l + 1) = unat (pv_iter l) + 1" using unat_inc [of "pv_iter l" 5] by (simp add: word_less_nat_alt)
  then have "unat (pv_iter l) + 1 < 5" using i by (simp add: word_less_nat_alt)
  then show ?thesis using assms(2-4) False u by (auto simp: pr_fin_def pr_regular_def pr_rank_def)
qed

lemma pr_continues: "pr_regular E l s \<Longrightarrow> pr_go l s \<longleftrightarrow> (\<exists>Q. pr_starts E l s Q)"
proof -
  assume r: "pr_regular E l s"
  then have e: "env_ok E" "kshape E s" by (auto simp: pr_regular_def)
  obtain vss where "length vss = env_workers E \<and> distinct (concat vss) \<and> set (concat vss) = {v. v < total_verts E}"
    using work_shared_out [OF e(1) order_refl] by blast
  moreover obtain vss' where "shares E (bits_of (frontier s)) vss'"
    using shares_exist [OF e(1), of "bits_of (frontier s)"] kshape_bits_below [OF e(2)] by blast
  ultimately show "pr_go l s \<longleftrightarrow> (\<exists>Q. pr_starts E l s Q)" by (cases "pv_map l") (auto simp: pr_starts_def)
qed

interpretation pr_any: passes "pr_starts E" "\<lambda>l. pr_exec E fo spurious" pr_fin pr_go "pr_regular E"
    "\<lambda>l s0 P s. pr_shape E P s \<and> pr_regular E l s0" "pr_mu E spurious" pr_rank for E fo spurious
proof unfold_locales
  show "pr_exec E fo spurious t a s \<noteq> []" for t a s by (rule pr_exec_enabled)
  show "pr_mu E spurious (P + mset nxt) s' < pr_mu E spurious (add_mset a P) s"
    if "(s', nxt) \<in> set (pr_exec E fo spurious t a s)" for a P s s' nxt t
    using that by (rule pr_op_lowers)
  show "pr_shape E (P + mset nxt) s' \<and> pr_regular E l s0"
    if "pr_shape E (add_mset a P) s \<and> pr_regular E l s0" "(s', nxt) \<in> set (pr_exec E fo spurious t a s)" for l s0 a P s s' nxt t
    using that pr_exec_shape by blast
  show "pr_shape E (pending Q) s \<and> pr_regular E l s" if "pr_regular E l s" "pr_starts E l s Q" for l s Q
    using that pr_starts_shape by blast
  show "pr_regular E l' s' \<and> pr_rank l' s' < pr_rank l s0"
    if "pr_go l s0" "pr_shape E {#} s \<and> pr_regular E l s0" "pr_fin l s = (l', s')" for l s0 s l' s'
    using pr_rank_drops [OF that(1) _ _ that(3)] that(2) by (auto simp: pr_shape_def)
qed (fact pr_continues)

subsection \<open>The additions of an iteration, in exact arithmetic\<close>

fun is_visit :: "'f pr_op \<Rightarrow> bool" where
  "is_visit (PVisit v) = True"
| "is_visit (PClear v d) = True"
| "is_visit _ = False"

definition visiting :: "'f pr_op multiset \<Rightarrow> u32 set" where
  "visiting P = at_vertex ` set_mset (filter_mset is_visit P)"

text \<open>What an operation will still add to the residual of \<open>w\<close>.\<close>

fun contrib :: "run_env \<Rightarrow> (u32 \<Rightarrow> rat) \<Rightarrow> u32 \<Rightarrow> rat pr_op \<Rightarrow> rat" where
  "contrib E del w (PVisit v) = of_nat (count_list (nb E v) w) * pr_share (nb E) del v"
| "contrib E del w (PClear v d) = of_nat (count_list (nb E v) w) * pr_share (nb E) del v"
| "contrib E del w (PAdd x u) = (if u = w then x else 0)"
| "contrib E del w (PCas x u c m) = (if u = w then x else 0)"
| "contrib E del w _ = 0"

fun push_ok :: "run_env \<Rightarrow> pr_ranks \<Rightarrow> rat pr_op \<Rightarrow> bool" where
  "push_ok E r (PVisit v) \<longleftrightarrow> v < total_verts E \<and> v \<in> r_frontier r"
| "push_ok E r (PClear v d) \<longleftrightarrow> v < total_verts E \<and> v \<in> r_frontier r \<and> nb E v \<noteq> [] \<and> d = r_delta r v"
| "push_ok E r (PAdd x w) \<longleftrightarrow> w < total_verts E"
| "push_ok E r (PCas x w c m) \<longleftrightarrow> w < total_verts E"
| "push_ok E r _ \<longleftrightarrow> False"

definition pr_push :: "run_env \<Rightarrow> pr_ranks \<Rightarrow> rat pr_state \<Rightarrow> rat pr_op multiset \<Rightarrow> rat pr_state \<Rightarrow> bool" where
  "pr_push E r s0 P s \<longleftrightarrow> kshape E s \<and> frontier s = frontier s0 \<and> next_frontier s = next_frontier s0 \<and>
     (\<forall>a \<in># P. push_ok E r a) \<and> owned_once at_vertex (filter_mset is_visit P) \<and>
     (\<forall>w. w < total_verts E \<longrightarrow> pr_value (verts s ! unat w) = r_value r w \<and>
        pr_delta (verts s ! unat w) = (if w \<in> r_frontier r \<and> nb E w \<noteq> [] \<and> w \<notin> visiting P then 0 else r_delta r w) \<and>
        pr_residual (verts s ! unat w) + sum_mset (image_mset (contrib E (r_delta r) w) P) =
          r_residual r w + pr_inflow (nb E) (r_delta r) (r_frontier r) w)"

lemma visiting_simps [simp]:
  "visiting {#} = {}" "visiting (P + P') = visiting P \<union> visiting P'"
  "visiting (add_mset a P) = (if is_visit a then insert (at_vertex a) (visiting P) else visiting P)"
  by (auto simp: visiting_def)

lemma adds_simps [simp]:
  "visiting (image_mset (PAdd x) M) = {}" "filter_mset is_visit (image_mset (PAdd x) M) = {#}"
  by (induction M) (auto simp: visiting_def)

lemma contrib_adds: "sum_mset (image_mset (contrib E del w) (mset (map (PAdd x) ws))) = of_nat (count_list ws w) * x"
  by (induction ws) (auto simp: algebra_simps)

lemma put_vertex:
  assumes "kshape E s" "v < total_verts E"
  shows "verts (put v h s) ! unat w = (if w = v then h (verts s ! unat v) else verts s ! unat w)"
    and "kshape E (put v h s)" "frontier (put v h s) = frontier s" "next_frontier (put v h s) = next_frontier s"
  using assms by (simp_all add: put_def kshape_def nth_update_unat word_less_nat_alt)

text \<open>A step without a write; what it continues with contributes the same.\<close>

lemma pr_push_goes_on:
  assumes "pr_push E r s0 (add_mset a P) s" "\<forall>b \<in># N. push_ok E r b"
    and "filter_mset is_visit N = {#} \<and> (is_visit a \<longrightarrow> nb E (at_vertex a) = []) \<or> is_visit a \<and> (\<exists>b. N = {#b#} \<and> is_visit b \<and> at_vertex b = at_vertex a)"
    and "\<And>w. sum_mset (image_mset (contrib E (r_delta r) w) N) = contrib E (r_delta r) w a"
  shows "pr_push E r s0 (P + N) s"
proof -
  have v: "visiting (P + N) = visiting (add_mset a P) \<or> (nb E (at_vertex a) = [] \<and> insert (at_vertex a) (visiting (P + N)) = insert (at_vertex a) (visiting (add_mset a P)))"
  proof -
    have "filter_mset is_visit N = {#} \<Longrightarrow> visiting N = {}" by (simp only: visiting_def) simp
    then show ?thesis using assms(3) by auto
  qed
  have ow: "owned_once at_vertex (filter_mset is_visit (add_mset a P))" using assms(1) by (simp only: pr_push_def)
  have "owned_once at_vertex (filter_mset is_visit (P + N))"
    using assms(3)
  proof (elim disjE conjE exE)
    assume "filter_mset is_visit N = {#}"
    then show ?thesis unfolding filter_union_mset using ow by (cases "is_visit a") (simp_all only: filter_mset_add_mset if_True if_False owned_once_add add_0_right simp_thms)
  next
    fix b assume "is_visit a" "N = {#b#}" "is_visit b" "at_vertex b = at_vertex a"
    then show ?thesis using ow by simp
  qed
  moreover have "(w \<in> r_frontier r \<and> nb E w \<noteq> [] \<and> w \<notin> visiting (P + N)) = (w \<in> r_frontier r \<and> nb E w \<noteq> [] \<and> w \<notin> visiting (add_mset a P))" for w
    using v by (metis insert_iff)
  ultimately show ?thesis using assms(1,2,4) unfolding pr_push_def by (auto simp: algebra_simps)
qed

lemma pr_push_clears:
  assumes "env_ok E" "pr_push E r s0 (add_mset (PClear v d) P) s"
  shows "pr_push E r s0 (P + mset (map (PAdd (pr_share (nb E) (r_delta r) v)) (nb E v))) (put v (\<lambda>x. x\<lparr> pr_delta := 0 \<rparr>) s)"
proof -
  have sh: "kshape E s" and v: "v < total_verts E" "v \<in> r_frontier r" "nb E v \<noteq> []" "v \<notin> visiting P"
    using assms(2) by (auto simp: pr_push_def visiting_def)
  note p = put_vertex [OF sh v(1), where h = "\<lambda>x. x\<lparr> pr_delta := 0 \<rparr>"]
  have "\<forall>b \<in># mset (map (PAdd (pr_share (nb E) (r_delta r) v)) (nb E v)). push_ok E r b" using nb_bound [OF assms(1)] by auto
  then show ?thesis
    using assms(2) p(2-4) v unfolding pr_push_def p(1) image_mset_union sum_mset.union contrib_adds
    by (auto simp: algebra_simps)
qed

lemma pr_push_adds:
  assumes "pr_push E r s0 (add_mset (PCas x w c m) P) s" "pr_residual (verts s ! unat w) = c"
  shows "pr_push E r s0 P (put w (\<lambda>y. y\<lparr> pr_residual := c + x \<rparr>) s)"
proof -
  have sh: "kshape E s" and w: "w < total_verts E" using assms(1) by (auto simp: pr_push_def)
  note p = put_vertex [OF sh w, where h = "\<lambda>y. y\<lparr> pr_residual := c + x \<rparr>"]
  show ?thesis using assms p(2-4) unfolding pr_push_def p(1) by (auto simp: algebra_simps)
qed

lemma pr_push_keeps:
  assumes "env_ok E" "pr_push E r s0 (add_mset a P) s" "(s', nxt) \<in> set (pr_exec E exact_ops sp t a s)"
  shows "pr_push E r s0 (P + mset nxt) s'"
proof -
  note on = pr_push_goes_on [OF assms(2)]
  have ok: "push_ok E r a" using assms(2) by (simp add: pr_push_def)
  show ?thesis
  proof (cases a)
    case (PVisit v)
    then have v: "v < total_verts E" "v \<in> r_frontier r" using ok by auto
    have n: "(of_nat (length (nb E v)) :: u32) > 0 \<longleftrightarrow> nb E v \<noteq> []"
    proof -
      have "length (nb E v) < 2 ^ 32" using nb_length [OF assms(1) v(1)] unat_u32_lt by simp
      then show ?thesis by (simp add: word_less_nat_alt unat_of_nat_u32)
    qed
    have d: "pr_delta (verts s ! unat v) = r_delta r v" using assms(2) v(1) by (simp add: pr_push_def PVisit)
    show ?thesis
      using on [of "mset nxt"] assms(3) v n d by (cases "nb E v = []") (auto simp: PVisit)
  next
    case (PClear v d)
    then have v: "v < total_verts E" "d = r_delta r v" using ok by auto
    have len: "length (nb E v) < 2 ^ 32" using nb_length [OF assms(1) v(1)] unat_u32_lt by simp
    have "nxt = map (PAdd (pr_share (nb E) (r_delta r) v)) (nb E v)" "s' = put v (\<lambda>x. x\<lparr> pr_delta := 0 \<rparr>) s"
      using assms(3) take_nb [OF assms(1) v(1)] by (simp_all add: PClear Let_def pr_share_def exact_ops_of_u32 [OF len] v(2))
    then show ?thesis using pr_push_clears [OF assms(1) assms(2) [unfolded PClear]] by simp
  next
    case (PAdd x w)
    then show ?thesis using on [of "mset nxt"] assms(3) ok by auto
  next
    case (PCas x w c m)
    then consider (won) "pr_residual (verts s ! unat w) = c" "s' = put w (\<lambda>y. y\<lparr> pr_residual := c + x \<rparr>) s" "nxt = []"
      | (lost) c' m' where "s' = s" "nxt = [PCas x w c' m']"
      using assms(3) by (auto split: if_splits nat.splits)
    then show ?thesis
    proof cases
      case won
      then show ?thesis using pr_push_adds [OF assms(2) [unfolded PCas]] by simp
    next
      case lost
      then show ?thesis using on [of "mset nxt"] ok PCas by auto
    qed
  qed (use ok in simp_all)
qed

lemma pr_push_opens:
  assumes "env_ok E" "pr_rel E s r" "shares E (bits_of (frontier s)) vss"
  shows "pr_push E r s (image_mset PVisit (mset (concat vss))) s"
proof -
  let ?vs = "concat vss" and ?F = "r_frontier r"
  have F: "bits_of (frontier s) = ?F" "kshape E s" using assms(2) by (auto simp: pr_rel_def)
  have v: "distinct ?vs" "set ?vs \<subseteq> ?F" "\<forall>v \<in> ?F. nb E v \<noteq> [] \<longrightarrow> v \<in> set ?vs" using assms(3) F(1) unfolding shares_def by simp_all
  have fl: "filter_mset is_visit (image_mset PVisit M) = image_mset PVisit M" for M :: "u32 multiset" by (induction M) auto
  then have vis: "visiting (image_mset PVisit (mset ?vs)) = set ?vs" unfolding visiting_def fl by (simp add: image_image del: set_concat)
  have "sum_mset (image_mset (contrib E (r_delta r) w) (image_mset PVisit (mset ?vs))) = pr_inflow (nb E) (r_delta r) ?F w" for w
  proof -
    have "sum_mset (image_mset (contrib E (r_delta r) w) (image_mset PVisit (mset ?vs))) =
        (\<Sum>v \<in> set ?vs. of_nat (count_list (nb E v) w) * pr_share (nb E) (r_delta r) v)"
      using v(1) by (simp add: multiset.map_comp comp_def sum_unfold_sum_mset mset_set_set del: set_concat)
    also have "\<dots> = pr_inflow (nb E) (r_delta r) ?F w"
      unfolding pr_inflow_def using v(2,3) by (intro sum.mono_neutral_left) (auto simp del: set_concat)
    finally show ?thesis .
  qed
  moreover have "owned_once at_vertex (image_mset PVisit (mset ?vs) :: rat pr_op multiset)"
    by (rule owned_once_visits) (use v(1) in simp_all)
  moreover have "\<forall>a \<in># image_mset PVisit (mset ?vs). push_ok E r a"
    using v(2) kshape_bits_below [OF F(2)] unfolding F(1) by (auto simp del: set_concat)
  ultimately show ?thesis using assms(2) v(3) unfolding pr_push_def vis fl by (auto simp: pr_rel_def simp del: set_concat)
qed

lemma pr_push_closes: "pr_push E r s0 {#} s \<Longrightarrow> pr_pushed E r s0 (r_frontier r) s"
  by (auto simp: pr_push_def pr_pushed_def)

subsection \<open>The pass over the vertices\<close>

text \<open>
  What a vertex that was \<open>x0\<close> at the start of the pass is when the given operation is the next one its
  worker executes on it.
\<close>

fun awaits :: "'f float_ops \<Rightarrow> 'f pagerank_delta_vertex \<Rightarrow> 'f pagerank_delta_vertex \<Rightarrow> 'f pr_op \<Rightarrow> bool" where
  "awaits fo x0 x (PMap v) \<longleftrightarrow> x = x0"
| "awaits fo x0 x (PValue v res) \<longleftrightarrow> x = x0 \<and> res = pr_residual x0 \<and> fst (vertex_map fo x0)"
| "awaits fo x0 x (PDelta v res) \<longleftrightarrow>
     x = x0\<lparr> pr_value := f_add fo (pr_value x0) res \<rparr> \<and> res = pr_residual x0 \<and> fst (vertex_map fo x0)"
| "awaits fo x0 x (PReset v) \<longleftrightarrow>
     x = x0\<lparr> pr_value := f_add fo (pr_value x0) (pr_residual x0), pr_delta := pr_residual x0 \<rparr> \<and> fst (vertex_map fo x0)"
| "awaits fo x0 x (PMark v) \<longleftrightarrow> x = snd (vertex_map fo x0) \<and> fst (vertex_map fo x0)"
| "awaits fo x0 x _ \<longleftrightarrow> False"

definition map_ok :: "run_env \<Rightarrow> 'f float_ops \<Rightarrow> 'f pagerank_delta_vertex list \<Rightarrow> 'f pr_state \<Rightarrow> 'f pr_op \<Rightarrow> bool" where
  "map_ok E fo xs s a \<longleftrightarrow> at_vertex a < total_verts E \<and> at_vertex a \<notin> bits_of (next_frontier s) \<and>
     awaits fo (xs ! unat (at_vertex a)) (verts s ! unat (at_vertex a)) a"

definition pr_mapping :: "run_env \<Rightarrow> 'f float_ops \<Rightarrow> 'f pagerank_delta_vertex list \<Rightarrow> 'f pr_op multiset \<Rightarrow> 'f pr_state \<Rightarrow> bool" where
  "pr_mapping E fo xs P s \<longleftrightarrow> kshape E s \<and> owned_once at_vertex P \<and> (\<forall>a \<in># P. map_ok E fo xs s a) \<and>
     (\<forall>w. w < total_verts E \<longrightarrow> w \<notin> at_vertex ` set_mset P \<longrightarrow>
        verts s ! unat w = snd (vertex_map fo (xs ! unat w)) \<and>
        (w \<in> bits_of (next_frontier s) \<longleftrightarrow> fst (vertex_map fo (xs ! unat w))))"

lemma map_ok_other:
  assumes "map_ok E fo xs s a" "verts s' ! unat (at_vertex a) = verts s ! unat (at_vertex a)"
    and "at_vertex a \<in> bits_of (next_frontier s') \<Longrightarrow> at_vertex a \<in> bits_of (next_frontier s)"
  shows "map_ok E fo xs s' a"
  using assms by (auto simp: map_ok_def)

text \<open>A worker goes on with its vertex.\<close>

lemma pr_mapping_on:
  assumes "pr_mapping E fo xs (add_mset a P) s" "at_vertex b = at_vertex a"
    and "awaits fo (xs ! unat (at_vertex a)) (h (verts s ! unat (at_vertex a))) b"
  shows "pr_mapping E fo xs (add_mset b P) (put (at_vertex a) h s)"
proof -
  let ?v = "at_vertex a"
  have sh: "kshape E s" and v: "?v < total_verts E" "?v \<notin> bits_of (next_frontier s)" "?v \<notin> at_vertex ` set_mset P"
    using assms(1) by (auto simp: pr_mapping_def map_ok_def)
  note p = put_vertex [OF sh v(1), where h = h]
  have "map_ok E fo xs (put ?v h s) c" if "c \<in># P" for c
  proof (rule map_ok_other)
    show "map_ok E fo xs s c" using assms(1) that by (auto simp: pr_mapping_def)
    have "at_vertex c \<noteq> ?v" using v(3) that by (metis imageI)
    then show "verts (put ?v h s) ! unat (at_vertex c) = verts s ! unat (at_vertex c)" by (simp add: p(1))
  qed (simp add: p(4))
  moreover have "map_ok E fo xs (put ?v h s) b" using assms(2,3) v by (simp add: map_ok_def p(1,4))
  ultimately show ?thesis
    using assms(1,2) p(2) unfolding pr_mapping_def by (auto simp: p(1,4))
qed

text \<open>A worker has finished a vertex, without or with activating it.\<close>

lemma pr_mapping_done:
  assumes "pr_mapping E fo xs (add_mset (PMap v) P) s" "\<not> fst (vertex_map fo (xs ! unat v))"
  shows "pr_mapping E fo xs P s"
proof -
  have "snd (vertex_map fo (xs ! unat v)) = xs ! unat v" using assms(2) by (auto simp: vertex_map_def Let_def split: if_splits)
  then show ?thesis using assms unfolding pr_mapping_def by (auto simp: map_ok_def)
qed

lemma pr_mapping_marked:
  assumes "pr_mapping E fo xs (add_mset (PMark v) P) s"
  shows "pr_mapping E fo xs P (s\<lparr> next_frontier := mark t v (next_frontier s) \<rparr>)"
proof -
  let ?s = "s\<lparr> next_frontier := mark t v (next_frontier s) \<rparr>"
  have sh: "kshape E s" and v: "v < total_verts E" "v \<notin> at_vertex ` set_mset P"
    using assms by (auto simp: pr_mapping_def map_ok_def)
  have b: "bits_of (mark t v (next_frontier s)) = insert v (bits_of (next_frontier s))"
    using sh v(1) by (simp add: kshape_def bm.alpha_activate)
  have "map_ok E fo xs ?s c" if "c \<in># P" for c
  proof (rule map_ok_other)
    show "map_ok E fo xs s c" using assms that by (auto simp: pr_mapping_def)
    show "at_vertex c \<in> bits_of (next_frontier ?s) \<Longrightarrow> at_vertex c \<in> bits_of (next_frontier s)" using v(2) that by (auto simp: b)
  qed simp
  then show ?thesis
    using assms kshape_mark_next [OF sh v(1), of t] unfolding pr_mapping_def by (auto simp: b map_ok_def)
qed

lemma put_id: "put v (\<lambda>x. x) s = s"
  by (simp add: put_def)

lemma pr_mapping_keeps:
  assumes "pr_mapping E fo xs (add_mset a P) s" "(s', nxt) \<in> set (pr_exec E fo sp t a s)"
  shows "pr_mapping E fo xs (P + mset nxt) s'"
proof -
  let ?v = "at_vertex a"
  let ?old = "xs ! unat ?v" and ?now = "verts s ! unat ?v"
  have aw: "awaits fo ?old ?now a" using assms(1) by (simp add: pr_mapping_def map_ok_def)
  note on = pr_mapping_on [OF assms(1)]
  have big: "f_less fo (f_epsilon fo) (f_abs fo (pr_residual ?old)) \<longleftrightarrow> fst (vertex_map fo ?old)"
    by (simp add: vertex_map_def Let_def)
  have res: "fst (vertex_map fo ?old) \<Longrightarrow> snd (vertex_map fo ?old) =
      ?old\<lparr> pr_value := f_add fo (pr_value ?old) (pr_residual ?old), pr_delta := pr_residual ?old, pr_residual := f_zero fo \<rparr>"
    by (auto simp: vertex_map_def Let_def split: if_splits)
  show ?thesis
  proof (cases a)
    case (PMap v)
    show ?thesis
    proof (cases "fst (vertex_map fo ?old)")
      case True
      then show ?thesis using on [of "PValue v (pr_residual ?now)" "\<lambda>x. x"] assms(2) aw big by (simp add: PMap put_id)
    next
      case False
      then show ?thesis using pr_mapping_done [OF assms(1) [unfolded PMap]] assms(2) aw big by (simp add: PMap)
    qed
  next
    case (PValue v r)
    then show ?thesis using on [of "PDelta v r" "\<lambda>x. x\<lparr> pr_value := f_add fo (pr_value x) r \<rparr>"] assms(2) aw by simp
  next
    case (PDelta v r)
    then show ?thesis using on [of "PReset v" "\<lambda>x. x\<lparr> pr_delta := r \<rparr>"] assms(2) aw by simp
  next
    case (PReset v)
    then show ?thesis using on [of "PMark v" "\<lambda>x. x\<lparr> pr_residual := f_zero fo \<rparr>"] assms(2) aw res by simp
  next
    case (PMark v)
    then show ?thesis using pr_mapping_marked [OF assms(1) [unfolded PMark], of t] assms(2) by simp
  qed (use aw in simp_all)
qed

lemma pr_mapping_opens:
  assumes "kshape E s" "bits_of (next_frontier s) = {}" "distinct vs" "set vs = {v. v < total_verts E}"
  shows "pr_mapping E fo (verts s) (image_mset PMap (mset vs)) s"
proof -
  have "owned_once at_vertex (image_mset PMap (mset vs))" by (rule owned_once_visits) (use assms(3) in simp_all)
  moreover have "at_vertex ` set_mset (image_mset PMap (mset vs)) = {v. v < total_verts E}" using assms(4) by (simp add: image_image)
  ultimately show ?thesis using assms by (auto simp: pr_mapping_def map_ok_def)
qed

lemma pr_mapping_closes:
  assumes "pr_pushed E r z (r_frontier r) s0" "pr_mapping E exact_ops (verts s0) {#} s"
  shows "pr_rel E (swap_frontiers s) (pr_round (total_verts E) (nb E) r)"
proof (rule pr_round_closes [OF assms(1)])
  have sh: "kshape E s" using assms(2) by (simp add: pr_mapping_def)
  then show "kshape E s" .
  show "bits_of (next_frontier s) = {v. v < total_verts E \<and> fst (vertex_map exact_ops (verts s0 ! unat v))}"
  proof -
    have "v < total_verts E" if "v \<in> bits_of (next_frontier s)" for v using bm.alpha_below [OF that] sh by (simp add: kshape_def)
    then show ?thesis using assms(2) by (auto simp: pr_mapping_def)
  qed
  show "verts s ! unat w = snd (vertex_map exact_ops (verts s0 ! unat w))" if "w < total_verts E" for w
    using assms(2) that by (simp add: pr_mapping_def)
qed

subsection \<open>Iterations\<close>

text \<open>The recurrence after the given number of rounds.\<close>

definition pr_after :: "run_env \<Rightarrow> nat \<Rightarrow> pr_ranks" where
  "pr_after E j = (pr_round (total_verts E) (nb E) ^^ j) (pr_start (total_verts E))"

definition pr_between :: "run_env \<Rightarrow> pr_locals \<Rightarrow> rat pr_state \<Rightarrow> bool" where
  "pr_between E l s \<longleftrightarrow> pr_regular E l s \<and>
     (if pv_map l
      then \<exists>j z. unat (pv_iter l) = Suc j \<and> pr_rel E z (pr_after E j) \<and> pr_pushed E (pr_after E j) z (r_frontier (pr_after E j)) s
      else pr_rel E s (pr_after E (unat (pv_iter l))))"

definition pr_within :: "run_env \<Rightarrow> pr_locals \<Rightarrow> rat pr_state \<Rightarrow> rat pr_op multiset \<Rightarrow> rat pr_state \<Rightarrow> bool" where
  "pr_within E l s0 P s \<longleftrightarrow> pr_between E l s0 \<and>
     (if pv_map l then pr_mapping E exact_ops (verts s0) P s else pr_push E (pr_after E (unat (pv_iter l))) s0 P s)"

lemma pr_within_opens:
  assumes "pr_between E l s" "pr_starts E l s Q"
  shows "pr_within E l s (pending Q) s"
proof (cases "pv_map l")
  case True
  then obtain vss where v: "distinct (concat vss)" "set (concat vss) = {v. v < total_verts E}" "Q = map (map PMap) vss"
    using assms(2) unfolding pr_starts_def by (simp del: set_concat) blast
  have "kshape E s" "bits_of (next_frontier s) = {}" using assms(1) True by (auto simp: pr_between_def pr_rel_def pr_pushed_def)
  from pr_mapping_opens [OF this v(1,2), of exact_ops] show ?thesis
    using assms(1) True unfolding v(3) pending_visits by (simp add: pr_within_def)
next
  case False
  then obtain vss where v: "shares E (bits_of (frontier s)) vss" "Q = map (map PVisit) vss" using assms(2) by (auto simp: pr_starts_def)
  have "env_ok E" "pr_rel E s (pr_after E (unat (pv_iter l)))" using assms(1) False by (auto simp: pr_between_def pr_regular_def)
  from pr_push_opens [OF this v(1)] show ?thesis
    using assms(1) False unfolding v(2) pending_visits by (simp add: pr_within_def)
qed

lemma pr_within_closes:
  assumes "pr_go l s0" "pr_within E l s0 {#} s" "pr_fin l s = (l', s')"
  shows "pr_between E l' s' \<and> pr_rank l' s' < pr_rank l s0"
proof -
  have b: "pr_between E l s0" "pr_regular E l s0" using assms(2) by (auto simp: pr_within_def pr_between_def)
  have sh: "kshape E s" using assms(2) by (auto simp: pr_within_def pr_mapping_def pr_push_def split: if_splits)
  note q = pr_rank_drops [OF assms(1) b(2) sh assms(3)]
  have "if pv_map l' then \<exists>j z. unat (pv_iter l') = Suc j \<and> pr_rel E z (pr_after E j) \<and> pr_pushed E (pr_after E j) z (r_frontier (pr_after E j)) s'
      else pr_rel E s' (pr_after E (unat (pv_iter l')))"
  proof (cases "pv_map l")
    case True
    then obtain j z where j: "unat (pv_iter l) = Suc j" "pr_pushed E (pr_after E j) z (r_frontier (pr_after E j)) s0"
      using b(1) by (auto simp: pr_between_def)
    have "pr_rel E (swap_frontiers s) (pr_after E (Suc j))"
      using pr_mapping_closes [OF j(2)] assms(2) True by (simp add: pr_within_def pr_after_def)
    then show ?thesis using assms(3) True j(1) by (auto simp: pr_fin_def)
  next
    case False
    then have "unat (pv_iter l + 1) = Suc (unat (pv_iter l))"
      using b(2) unat_inc [of "pv_iter l" 5] by (simp add: pr_regular_def word_less_nat_alt)
    then show ?thesis
      using assms(2,3) False b(1) pr_push_closes by (auto simp: pr_fin_def pr_within_def pr_between_def) blast
  qed
  then show ?thesis using q by (simp add: pr_between_def)
qed

interpretation pr_exact: passes "pr_starts E" "\<lambda>l. pr_exec E exact_ops spurious" pr_fin pr_go "pr_between E"
    "pr_within E" "pr_mu E spurious" pr_rank for E spurious
proof unfold_locales
  show "pr_exec E exact_ops spurious t a s \<noteq> []" for t a s by (rule pr_exec_enabled)
  show "pr_mu E spurious (P + mset nxt) s' < pr_mu E spurious (add_mset a P) s"
    if "(s', nxt) \<in> set (pr_exec E exact_ops spurious t a s)" for a P s s' nxt t
    using that by (rule pr_op_lowers)
  show "pr_within E l s0 (P + mset nxt) s'"
    if "pr_within E l s0 (add_mset a P) s" "(s', nxt) \<in> set (pr_exec E exact_ops spurious t a s)" for l s0 a P s s' nxt t
    using that pr_push_keeps [OF _ _ that(2)] pr_mapping_keeps [OF _ that(2)]
    by (auto simp: pr_within_def pr_between_def pr_regular_def split: if_splits)
  show "pr_between E l' s' \<and> pr_rank l' s' < pr_rank l s0"
    if "pr_go l s0" "pr_within E l s0 {#} s" "pr_fin l s = (l', s')" for l s0 s l' s'
    using that by (rule pr_within_closes)
  show "pr_go l s \<longleftrightarrow> (\<exists>Q. pr_starts E l s Q)" if "pr_between E l s" for l s
    using pr_continues that unfolding pr_between_def by blast
qed (fact pr_within_opens)

subsection \<open>Property\<close>

text \<open>
  C10. Delta PageRank under every interleaving of its callbacks. Whatever the arithmetic, and however the
  additions of the workers interleave, an exchange failing because another addition came first or,
  boundedly often, spuriously, no run goes on forever and one that cannot go on has left the loop. In exact
  arithmetic the vertex table then is that of \<open>j\<close> rounds of the sequential recurrence, four, or
  fewer when no residual exceeds the threshold: the result does not depend on the schedule.
\<close>

theorem pagerank_parallel_correct:
  fixes fo :: "'f float_ops" and s :: "rat pr_state"
  assumes "env_ok E" "fresh E x s" "fresh E y u"
  shows "ends (pr_kernel_step E fo spurious) (pr_begin E fo t u) \<and>
    (\<forall>c. (pr_kernel_step E exact_ops spurious)\<^sup>*\<^sup>* (pr_begin E exact_ops t s) c \<longrightarrow> (\<nexists>d. pr_kernel_step E exact_ops spurious c d) \<longrightarrow>
       (\<exists>l s' j. c = (Between, l, s') \<and> j \<le> 4 \<and>
          (let r = (pr_round (total_verts E) (nb E) ^^ j) (pr_start (total_verts E)) in
           (j = 4 \<or> r_frontier r = {}) \<and>
           (\<forall>w. w < total_verts E \<longrightarrow> verts s' ! unat w =
              \<lparr> pr_value = r_value r w, pr_delta = r_delta r w, pr_residual = r_residual r w \<rparr>))))"
proof (intro conjI allI impI)
  let ?l = "\<lparr> pv_iter = 0, pv_map = False \<rparr>"
  have "pr_regular E ?l (pr_init E fo t u)" using assms(1) pr_init_spec(1) [OF assms(3)] by (simp add: pr_regular_def)
  from pr_any.passes_total(1) [OF this, of fo spurious] show "ends (pr_kernel_step E fo spurious) (pr_begin E fo t u)"
    by (simp add: pr_kernel_step_def pr_begin_def)
  note i = pr_init_spec [OF assms(2), where fo = exact_ops and t = t]
  have b: "pr_between E ?l (pr_init E exact_ops t s)"
    using assms(1) i by (simp add: pr_between_def pr_regular_def pr_rel_def pr_after_def pr_start_def)
  fix c assume run: "(pr_kernel_step E exact_ops spurious)\<^sup>*\<^sup>* (pr_begin E exact_ops t s) c" and stuck: "\<nexists>d. pr_kernel_step E exact_ops spurious c d"
  obtain l s' where c: "c = (Between, l, s')" "pr_between E l s'" "\<not> pr_go l s'"
    using pr_exact.passes_total(2) [OF b] run stuck unfolding pr_kernel_step_def pr_begin_def by blast
  let ?j = "unat (pv_iter l)"
  have r: "pr_rel E s' (pr_after E ?j)" "?j \<le> 4" using c(2,3) by (auto simp: pr_between_def pr_go_def pr_regular_def)
  have "?j = 4 \<or> r_frontier (pr_after E ?j) = {}"
  proof (rule disjCI)
    assume "r_frontier (pr_after E ?j) \<noteq> {}"
    then have "\<not> is_empty (frontier s')" using r(1) kshape_is_empty [of E s'] by (simp add: pr_rel_def)
    then have n: "\<not> pv_iter l + 1 < 5" using c(3) by (simp add: pr_go_def max_iterations_def)
    have "unat (pv_iter l + 1) = ?j + 1" using r(2) unat_inc [of "pv_iter l" 5] by (simp add: word_less_nat_alt)
    then show "?j = 4" using n r(2) by (simp add: word_less_nat_alt)
  qed
  then show "\<exists>l s' j. c = (Between, l, s') \<and> j \<le> 4 \<and>
      (let r = (pr_round (total_verts E) (nb E) ^^ j) (pr_start (total_verts E)) in
       (j = 4 \<or> r_frontier r = {}) \<and>
       (\<forall>w. w < total_verts E \<longrightarrow> verts s' ! unat w =
          \<lparr> pr_value = r_value r w, pr_delta = r_delta r w, pr_residual = r_residual r w \<rparr>))"
    using c(1) r by (intro exI [of _ l] exI [of _ s'] exI [of _ ?j]) (simp add: pr_after_def pr_rel_def Let_def)
qed

theorem pagerank_parallel_correct_witness:
  "ends (pr_kernel_step (demo_env 1) exact_ops 2)
     (pr_begin (demo_env 1) exact_ops 0 (demo_kstate \<lparr> pr_value = 0, pr_delta = 0, pr_residual = 0 \<rparr>))"
  using pagerank_parallel_correct [OF demo_env_ok demo_fresh demo_fresh, of 1 exact_ops 2 0 "\<lparr> pr_value = 0, pr_delta = 0, pr_residual = 0 \<rparr>"]
  by simp

end
