(* ===== verification/Edgemap.thy ===== *)
theory Edgemap
  imports Edge_Iterator
begin

text \<open>
  The iterator of \<open>src/src/edgemap.hpp\<close>, which splits adjacency lists over batches: a batch holds
  exactly as many edges as the buffer (\<open>next_batch\<close>), runs of consecutive vertices become one read
  (\<open>coalesce_intervals\<close>, \<open>make_WRs\<close>), and the requests are posted in windows (\<open>post_all\<close>). The theorems show
  that the batches are the consecutive pieces of the sequence of all edge slots, that coalescing does not
  change what is read, and that the callback sees every slot once, in order.
\<close>

subsection \<open>Batches\<close>

text \<open>\<open>next_set\<close>: the next vertex whose bit is on, or the end, and the new \<open>from_inclusive\<close>.\<close>

function next_set :: "Bitmap \<Rightarrow> u32 \<Rightarrow> u32 \<Rightarrow> u32 \<times> u32" where
  "next_set b from_inclusive end_exclusive =
     (if from_inclusive < end_exclusive then
        if get_bit b from_inclusive \<noteq> 0 then (from_inclusive, from_inclusive + 1)
        else next_set b (from_inclusive + 1) end_exclusive
      else (end_exclusive, from_inclusive))"
  by pat_completeness auto
termination
  by (relation "measure (\<lambda>(b, f, e). unat e - unat f)") (auto simp: unat_inc word_less_nat_alt)

declare next_set.simps [simp del]

record v_interval =
  iv_v :: u32
  iv_d :: u32
  iv_start :: u32
  iv_end :: u32

record next_batch =
  nb_b :: Bitmap
  nb_cur_v :: u32
  nb_cur_e :: u32
  nb_end :: u32
  nb_capacity :: u32

definition is_done :: "next_batch \<Rightarrow> bool" where
  "is_done s \<longleftrightarrow> nb_cur_v s \<ge> nb_end s"

text \<open>
  The loop of \<open>operator()\<close>; \<open>from\<close> is the position of \<open>get_next_v\<close>. The loop ends because a vertex
  that does not fit fills the batch.
\<close>

lemma next_set_progress:
  "next_set b f e = (v, f') \<Longrightarrow> v < e \<Longrightarrow> f < e \<and> f < f' \<and> f' \<le> e \<and> f' = v + 1 \<and> f \<le> v"
proof (induction b f e rule: next_set.induct)
  case (1 b f e)
  show ?case
  proof (cases "f < e")
    case True
    have i: "unat (f + 1) = Suc (unat f)" using unat_inc [OF True] .
    then have lt: "f < f + 1" "f + 1 \<le> e" using True by (simp_all add: word_less_nat_alt word_le_nat_alt)
    show ?thesis
    proof (cases "get_bit b f \<noteq> 0")
      case True
      then show ?thesis using 1 \<open>f < e\<close> lt by (auto simp: next_set.simps [of b f])
    next
      case False
      then have "next_set b (f + 1) e = (v, f')" using 1 \<open>f < e\<close> by (simp add: next_set.simps [of b f])
      then have "f + 1 < e \<and> f + 1 < f' \<and> f' \<le> e \<and> f' = v + 1 \<and> f + 1 \<le> v"
        using "1.IH" \<open>f < e\<close> False "1.prems"(2) by blast
      then show ?thesis using lt(1) \<open>f < e\<close> by (meson less_trans less_le_trans less_imp_le)
    qed
  next
    case False
    then show ?thesis using "1.prems" by (simp add: next_set.simps [of b f])
  qed
qed

definition batch_take :: "u32 \<Rightarrow> u32 \<Rightarrow> u32 \<Rightarrow> u32 \<Rightarrow> u32" where
  "batch_take d cur_e capacity edges =
     (let n_left = d - cur_e; space_left = capacity - edges in min n_left space_left)"

definition add_interval :: "v_interval list \<Rightarrow> u32 \<Rightarrow> u32 \<Rightarrow> u32 \<Rightarrow> u32 \<Rightarrow> v_interval list" where
  "add_interval vec v d cur_e n = vec @ [\<lparr> iv_v = v, iv_d = d, iv_start = cur_e, iv_end = cur_e + n \<rparr>]"

function next_batch_loop ::
    "Bitmap \<Rightarrow> (u32 \<Rightarrow> u32) \<Rightarrow> u32 \<Rightarrow> u32 \<Rightarrow> u32 \<Rightarrow> u32 \<Rightarrow> u32 \<Rightarrow> u32 \<Rightarrow> v_interval list \<Rightarrow> v_interval list \<times> u32 \<times> u32" where
  "next_batch_loop b get_degree end0 capacity from edges v cur_e vec =
     (if v < end0 \<and> edges < capacity then
        if get_degree v = 0 then
          next_batch_loop b get_degree end0 capacity (snd (next_set b from end0)) edges (fst (next_set b from end0)) 0 vec
        else if batch_take (get_degree v) cur_e capacity edges = get_degree v - cur_e then
          next_batch_loop b get_degree end0 capacity (snd (next_set b from end0))
            (edges + batch_take (get_degree v) cur_e capacity edges) (fst (next_set b from end0)) 0
            (add_interval vec v (get_degree v) cur_e (batch_take (get_degree v) cur_e capacity edges))
        else
          next_batch_loop b get_degree end0 capacity from
            (edges + batch_take (get_degree v) cur_e capacity edges) v
            (cur_e + batch_take (get_degree v) cur_e capacity edges)
            (add_interval vec v (get_degree v) cur_e (batch_take (get_degree v) cur_e capacity edges))
      else (vec, v, cur_e))"
  by pat_completeness auto
termination
proof (relation "measure (\<lambda>(b, g, e, c, f, k, v, ce, vec). if v < e \<and> k < c then Suc (unat e - unat f) else 0)", goal_cases)
  case (2 b g e c f k v ce vec)
  then show ?case
    using next_set_progress [of b f e "fst (next_set b f e)" "snd (next_set b f e)"] by (auto simp: word_less_nat_alt word_le_nat_alt)
next
  case (3 b g e c f k v ce vec)
  then show ?case
    using next_set_progress [of b f e "fst (next_set b f e)" "snd (next_set b f e)"] by (auto simp: word_less_nat_alt word_le_nat_alt)
next
  case (4 b g e c f k v ce vec)
  then have "batch_take (g v) ce c k = c - k" by (auto simp: batch_take_def Let_def min_def split: if_splits)
  then show ?case using 4 by simp
qed simp

declare next_batch_loop.simps [simp del]

definition next_batch_call :: "(u32 \<Rightarrow> u32) \<Rightarrow> next_batch \<Rightarrow> v_interval list \<times> next_batch" where
  "next_batch_call get_degree s =
     (let (vec, v, e) = next_batch_loop (nb_b s) get_degree (nb_end s) (nb_capacity s) (nb_cur_v s + 1) 0
                          (nb_cur_v s) (nb_cur_e s) []
      in (vec, s\<lparr> nb_cur_v := v, nb_cur_e := e \<rparr>))"

subsection \<open>Requests\<close>

text \<open>\<open>coalesce_intervals\<close>; \<open>prev\<close> is \<open>vec[i - 1]\<close>.\<close>

fun coalesce_from :: "v_interval \<Rightarrow> v_interval list \<Rightarrow> v_interval list \<Rightarrow> v_interval list" where
  "coalesce_from prev combined [] = combined"
| "coalesce_from prev combined (interval # rest) =
     coalesce_from interval
       (if iv_v prev + 1 = iv_v interval
        then combined[length combined - 1 := (last combined)
               \<lparr> iv_end := iv_end (last combined) + (iv_end interval - iv_start interval) \<rparr>]
        else combined @ [interval]) rest"

definition coalesce_intervals :: "v_interval list \<Rightarrow> v_interval list" where
  "coalesce_intervals vec = coalesce_from (hd vec) [hd vec] (tl vec)"

fun sign_buffer :: "v_interval list \<Rightarrow> nat \<Rightarrow> u32 list \<Rightarrow> u32 list" where
  "sign_buffer [] b mem = mem"
| "sign_buffer (interval # rest) b mem =
     (let edges = iv_end interval - iv_start interval
      in sign_buffer rest (b + unat edges) (mem[b := NULL_VERT, b + unat (edges - 1) := NULL_VERT]))"

text \<open>\<open>make_WRs\<close>; the request \<open>k\<close> points to the scatter element beside it.\<close>

fun make_WRs :: "pack_args \<Rightarrow> nat \<Rightarrow> nat \<Rightarrow> v_interval list \<Rightarrow> (ibv_send_wr \<times> ibv_sge) list" where
  "make_WRs A k buffer [] = []"
| "make_WRs A k buffer (interval # rest) =
     (let remote_offset = (edge_offset (vtable A ! unat (iv_v interval)) + ucast (iv_start interval)) * 4;
          edges = iv_end interval - iv_start interval
      in (\<lparr> wr_next = None, opcode = IBV_WR_RDMA_READ, signaled = False,
            remote_addr = peer_addr (ctx A) + remote_offset, rkey = peer_rkey (ctx A), sg_list = k, num_sge = 1 \<rparr>,
          \<lparr> sge_addr = area_addr A + of_nat buffer * 4, sge_length = edges * 4, sge_lkey = heap_lkey (ctx A) \<rparr>)
         # make_WRs A (Suc k) (buffer + unat edges) rest)"

text \<open>
  \<open>post_all\<close>: the requests are linked up to the end of a window and posted from \<open>wr\<close>, the first
  one that is not yet posted. The result is the posted chains.
\<close>

function post_all_loop ::
    "nic \<Rightarrow> nat \<Rightarrow> nat \<Rightarrow> nat \<Rightarrow> (ibv_send_wr \<times> ibv_sge) list \<Rightarrow> (ibv_send_wr \<times> ibv_sge) list list
       \<Rightarrow> abort + (ibv_send_wr \<times> ibv_sge) list list" where
  "post_all_loop n window i wr WRs posts =
     (if i < length WRs then
        if i mod window = window - 1 \<or> i = length WRs - 1 then
          let WRs' = WRs[i := ((fst (WRs ! i))\<lparr> signaled := True, wr_next := None \<rparr>, snd (WRs ! i))];
              chain = wr_chain (length WRs) (map fst WRs') (map snd WRs') wr
          in if post_send n 0 chain \<noteq> 0 then Inl Rc_die
             else post_all_loop n window (Suc i) (Suc i) WRs' (posts @ [chain])
        else post_all_loop n window (Suc i) wr
               (WRs[i := ((fst (WRs ! i))\<lparr> wr_next := Some (Suc i) \<rparr>, snd (WRs ! i))]) posts
      else Inr posts)"
  by pat_completeness auto
termination
  by (relation "measure (\<lambda>(n, window, i, wr, WRs, posts). length WRs - i)") (auto simp: Let_def)

declare post_all_loop.simps [simp del]

definition post_all ::
    "nic \<Rightarrow> pack_args \<Rightarrow> (ibv_send_wr \<times> ibv_sge) list \<Rightarrow> abort + (ibv_send_wr \<times> ibv_sge) list list" where
  "post_all n A WRs = post_all_loop n (unat (opt_wr_window (opts A))) 0 0 WRs []"

subsection \<open>The iterator\<close>

type_synonym 's edge_function = "u32 \<Rightarrow> u32 list \<Rightarrow> u32 \<Rightarrow> u32 \<Rightarrow> 's \<Rightarrow> 's"

text \<open>The loop over the intervals of a batch: spin on the first and on the last slot, then call the function.\<close>

fun consume_intervals ::
    "(nat \<Rightarrow> u32 list) \<Rightarrow> 's edge_function \<Rightarrow> v_interval list \<Rightarrow> nat \<Rightarrow> nat \<Rightarrow> 's \<Rightarrow> ('s \<times> nat) option" where
  "consume_intervals mem F [] e_buf t s = Some (s, t)"
| "consume_intervals mem F (interval # rest) e_buf t s =
     (let edges = iv_end interval - iv_start interval in
      case spin (\<lambda>t. mem t ! e_buf) t of
        None \<Rightarrow> None
      | Some t1 \<Rightarrow>
          (case spin (\<lambda>t. mem t ! (e_buf + unat (edges - 1))) t1 of
             None \<Rightarrow> None
           | Some t2 \<Rightarrow>
               consume_intervals mem F rest (e_buf + unat edges) t2
                 (F (iv_v interval) (take (unat edges) (drop e_buf (mem t2))) edges (iv_d interval) s)))"

text \<open>The loop of a worker over its subrange.\<close>

partial_function (option) edgemap_loop ::
    "nic \<Rightarrow> pack_args \<Rightarrow> 's edge_function \<Rightarrow> next_batch \<Rightarrow> u32 list \<times> 's \<Rightarrow> (abort + u32 list \<times> 's) option" where
  "edgemap_loop n A F get_next_batch st =
     (if \<not> is_done get_next_batch then
        let (intervals, get_next_batch') = next_batch_call (out_degree A) get_next_batch in
        if intervals = [] then edgemap_loop n A F get_next_batch' st
        else
          let mem = sign_buffer intervals (edge_buf A) (fst st);
              WRs = make_WRs A 0 (edge_buf A) (coalesce_intervals intervals)
          in case post_all n A WRs of
               Inl a \<Rightarrow> Some (Inl a)
             | Inr posts \<Rightarrow>
                 Option.bind (consume_intervals (dma n (concat posts) mem) F intervals (edge_buf A) 0 (snd st)) (\<lambda>(s, t).
                   edgemap_loop n A F get_next_batch' (dma n (concat posts) mem t, s))
      else Some (Inr st))"

fun edgemap ::
    "nic \<Rightarrow> pack_args \<Rightarrow> Bitmap \<Rightarrow> (worker \<Rightarrow> 's edge_function) \<Rightarrow> chunks \<Rightarrow> u32 list \<times> 's \<Rightarrow> (abort + u32 list \<times> 's) option" where
  "edgemap n A frontier F [] st = Some (Inr st)"
| "edgemap n A frontier F ((t, b, e) # cs) st =
     (case edgemap_loop n (worker_args A t) (F t)
             \<lparr> nb_b = frontier, nb_cur_v = b, nb_cur_e = 0, nb_end = e, nb_capacity = edge_buf_size A \<rparr> st of
        None \<Rightarrow> None
      | Some (Inl x) \<Rightarrow> Some (Inl x)
      | Some (Inr st') \<Rightarrow> edgemap n A frontier F cs st')"

subsection \<open>The batches are the pieces of the sequence of slots\<close>

definition slots :: "(u32 \<Rightarrow> u32) \<Rightarrow> u32 \<Rightarrow> (u32 \<times> nat) list" where
  "slots g v = map (Pair v) [0..<unat (g v)]"

definition active_from :: "Bitmap \<Rightarrow> u32 \<Rightarrow> u32 \<Rightarrow> u32 list" where
  "active_from b a e = filter (\<lambda>v. get_bit b v \<noteq> 0) (u32_range a e)"

text \<open>The slots that a generator at vertex \<open>v\<close> and edge \<open>c\<close> has still to produce.\<close>

definition remaining :: "Bitmap \<Rightarrow> (u32 \<Rightarrow> u32) \<Rightarrow> u32 \<Rightarrow> u32 \<Rightarrow> u32 \<Rightarrow> (u32 \<times> nat) list" where
  "remaining b g e v c =
     (if v < e then drop (unat c) (slots g v) @ concat (map (slots g) (active_from b (v + 1) e)) else [])"

definition iv_slots :: "v_interval \<Rightarrow> (u32 \<times> nat) list" where
  "iv_slots i = map (Pair (iv_v i)) [unat (iv_start i)..<unat (iv_end i)]"

lemma next_set_remaining:
  "next_set b f e = (v, f') \<Longrightarrow> concat (map (slots g) (active_from b f e)) = remaining b g e v 0 \<and> v \<le> e"
proof (induction b f e rule: next_set.induct)
  case (1 b f e)
  show ?case
  proof (cases "f < e")
    case True
    have r: "u32_range f e = f # u32_range (f + 1) e" using True by (rule u32_range_Cons)
    show ?thesis
    proof (cases "get_bit b f \<noteq> 0")
      case True
      then have "v = f" using "1.prems" \<open>f < e\<close> by (simp add: next_set.simps [of b f])
      then show ?thesis using True \<open>f < e\<close> by (simp add: active_from_def r remaining_def)
    next
      case False
      then have "next_set b (f + 1) e = (v, f')" using "1.prems" \<open>f < e\<close> by (simp add: next_set.simps [of b f])
      from "1.IH" [OF \<open>f < e\<close> _ this] False show ?thesis by (simp add: active_from_def r)
    qed
  next
    case False
    then show ?thesis using "1.prems" by (auto simp: next_set.simps [of b f] active_from_def remaining_def)
  qed
qed

text \<open>What a batch looks like: only its first interval starts inside a vertex, only its last one ends inside one.\<close>

fun linked :: "v_interval list \<Rightarrow> bool" where
  "linked (a # b # xs) \<longleftrightarrow> iv_end a = iv_d a \<and> iv_start b = 0 \<and> linked (b # xs)"
| "linked _ \<longleftrightarrow> True"

definition iv_ok :: "(u32 \<Rightarrow> u32) \<Rightarrow> u32 \<Rightarrow> v_interval \<Rightarrow> bool" where
  "iv_ok g e i \<longleftrightarrow> iv_v i < e \<and> iv_d i = g (iv_v i) \<and> iv_start i < iv_end i \<and> iv_end i \<le> iv_d i"

lemma linked_snoc:
  "linked (xs @ [x]) \<longleftrightarrow> linked xs \<and> (xs \<noteq> [] \<longrightarrow> iv_end (last xs) = iv_d (last xs) \<and> iv_start x = 0)"
  by (induction xs rule: linked.induct) auto

lemma slots_split:
  assumes "unat c + k \<le> unat (g v)"
  shows "drop (unat c) (slots g v) = map (Pair v) [unat c..<unat c + k] @ map (Pair v) [unat c + k..<unat (g v)]"
  using assms upt_add_eq_append [of "unat c" "unat c + k" "unat (g v) - (unat c + k)"]
  by (simp add: slots_def drop_map flip: map_append)

definition batch_inv :: "Bitmap \<Rightarrow> (u32 \<Rightarrow> u32) \<Rightarrow> u32 \<Rightarrow> u32 \<Rightarrow> u32 \<Rightarrow> u32 \<Rightarrow> u32 \<Rightarrow> v_interval list \<Rightarrow> bool" where
  "batch_inv b g e cap k v c vec \<longleftrightarrow> k \<le> cap \<and> (c = 0 \<or> c < g v) \<and> v \<le> e \<and> list_all (iv_ok g e) vec \<and> linked vec \<and>
     length (concat (map iv_slots vec)) = unat k \<and>
     (vec \<noteq> [] \<and> k < cap \<longrightarrow> c = 0 \<and> iv_end (last vec) = iv_d (last vec))"

text \<open>One more interval, of \<open>n\<close> slots.\<close>

lemma batch_inv_add:
  assumes "batch_inv b g e cap k v c vec" "v < e" "k < cap" "g v \<noteq> 0"
  defines "n \<equiv> batch_take (g v) c cap k"
  shows "unat (c + n) = unat c + unat n" "unat (k + n) = unat k + unat n" "unat c + unat n \<le> unat (g v)" "0 < unat n"
    "unat n \<le> unat cap - unat k" "n = g v - c \<longleftrightarrow> unat c + unat n = unat (g v)" "n \<noteq> g v - c \<Longrightarrow> unat k + unat n = unat cap"
    "list_all (iv_ok g e) (add_interval vec v (g v) c n)" "linked (add_interval vec v (g v) c n)"
    "concat (map iv_slots (add_interval vec v (g v) c n)) = concat (map iv_slots vec) @ map (Pair v) [unat c..<unat c + unat n]"
proof -
  have c: "unat c < unat (g v)"
    using assms(1,4) by (auto simp: batch_inv_def word_less_nat_alt unat_gt_0)
  have d: "unat (g v - c) = unat (g v) - unat c" "unat (cap - k) = unat cap - unat k"
    using c assms(3) by (simp_all add: unat_sub_word word_le_nat_alt word_less_nat_alt)
  have n: "unat n = min (unat (g v) - unat c) (unat cap - unat k)"
    by (auto simp: n_def batch_take_def Let_def min_def word_le_nat_alt d)
  show cn: "unat (c + n) = unat c + unat n" using n c unat_u32_lt [of "g v"] by (intro unat_add_u32) linarith
  show "unat (k + n) = unat k + unat n"
    using n assms(3) unat_u32_lt [of cap] by (intro unat_add_u32) (simp add: word_less_nat_alt)
  show le: "unat c + unat n \<le> unat (g v)" using n c by simp
  show pos: "0 < unat n" using n c assms(3) by (simp add: word_less_nat_alt)
  show "unat n \<le> unat cap - unat k" using n by simp
  show full: "n = g v - c \<longleftrightarrow> unat c + unat n = unat (g v)" using c d(1) by (auto simp: word_unat_eq_iff)
  show "unat k + unat n = unat cap" if "n \<noteq> g v - c"
    using that full n c assms(3) by (simp add: word_less_nat_alt min_def split: if_splits)
  show "list_all (iv_ok g e) (add_interval vec v (g v) c n)"
    using assms(1,2) cn le pos by (simp add: add_interval_def batch_inv_def iv_ok_def word_less_nat_alt word_le_nat_alt)
  show "linked (add_interval vec v (g v) c n)"
    using assms(1,3) by (auto simp: add_interval_def batch_inv_def linked_snoc)
  show "concat (map iv_slots (add_interval vec v (g v) c n)) = concat (map iv_slots vec) @ map (Pair v) [unat c..<unat c + unat n]"
    by (simp add: add_interval_def iv_slots_def cn)
qed

lemma next_batch_loop_spec:
  assumes "batch_inv b g e cap k v c vec" "v < e \<longrightarrow> f = v + 1"
    and "next_batch_loop b g e cap f k v c vec = (vec', v', c')"
  shows "\<exists>k'. batch_inv b g e cap k' v' c' vec' \<and> (v' \<ge> e \<or> k' = cap) \<and>
    concat (map iv_slots vec') = concat (map iv_slots vec) @ take (unat cap - unat k) (remaining b g e v c) \<and>
    remaining b g e v' c' = drop (unat cap - unat k) (remaining b g e v c)"
  using assms
proof (induction b g e cap f k v c vec rule: next_batch_loop.induct)
  case (1 b g e cap f k v c vec)
  show ?case
  proof (cases "v < e \<and> k < cap")
    case False
    then have "vec' = vec" "v' = v" "c' = c" using "1.prems"(3) by (auto simp: next_batch_loop.simps [of b g e cap f])
    moreover have "k = cap \<or> e \<le> v" "k \<le> cap" using False "1.prems"(1) by (auto simp: batch_inv_def not_less intro: antisym)
    ultimately show ?thesis using "1.prems"(1) by (intro exI [of _ k]) (auto simp: remaining_def not_less)
  next
    case True
    let ?w = "fst (next_set b f e)" and ?f = "snd (next_set b f e)" and ?n = "batch_take (g v) c cap k"
    have w: "concat (map (slots g) (active_from b (v + 1) e)) = remaining b g e ?w 0" "?w \<le> e"
      using next_set_remaining [of b f e ?w ?f g] "1.prems"(2) True by simp_all
    have wf: "?w < e \<longrightarrow> ?f = ?w + 1" using next_set_progress [of b f e ?w ?f] by simp
    have rem: "remaining b g e v c = drop (unat c) (slots g v) @ remaining b g e ?w 0" using True w(1) by (simp add: remaining_def)
    note eq = next_batch_loop.simps [of b g e cap f k v c vec]
    show ?thesis
    proof (cases "g v = 0")
      case z: True
      have "batch_inv b g e cap k ?w 0 vec" using "1.prems"(1) w(2) z by (auto simp: batch_inv_def)
      from "1.IH"(1) [OF True z this wf] "1.prems"(3) eq True z show ?thesis by (simp add: rem slots_def)
    next
      case nz: False
      note a = batch_inv_add [OF "1.prems"(1) conjunct1 [OF True] conjunct2 [OF True] nz]
      have len: "length (concat (map iv_slots (add_interval vec v (g v) c ?n))) = unat (k + ?n)"
        using "1.prems"(1) by (simp add: a(2,10) batch_inv_def)
      have kn: "k + ?n \<le> cap" using a(2,5) True unfolding word_le_nat_alt word_less_nat_alt by linarith
      note sp = slots_split [of c "unat ?n" g v, OF a(3)]
      show ?thesis
      proof (cases "?n = g v - c")
        case full: True
        have "batch_inv b g e cap (k + ?n) ?w 0 (add_interval vec v (g v) c ?n)"
          using a(8,9) len kn w(2) full by (simp add: batch_inv_def) (simp add: add_interval_def)
        moreover have "unat cap + unat c - (unat k + unat (g v)) = unat cap - (unat k + unat (g v - c))"
          using a(6) full by simp
        ultimately show ?thesis
          using "1.IH"(2) [OF True nz full _ wf] "1.prems"(3) eq True nz full a(2,5,6,10) sp by (simp add: rem)
      next
        case part: False
        have "batch_inv b g e cap (k + ?n) v (c + ?n) (add_interval vec v (g v) c ?n)"
          using a(1-3,6-9) len kn part True by (auto simp: batch_inv_def word_less_nat_alt word_le_nat_alt)
        from "1.IH"(3) [OF True nz part this "1.prems"(2)] "1.prems"(3) eq True nz part a(1,2,5,7,10) sp
        show ?thesis by (auto simp: rem remaining_def w(1) slots_def drop_map)
      qed
    qed
  qed
qed

definition nb_remaining :: "(u32 \<Rightarrow> u32) \<Rightarrow> next_batch \<Rightarrow> (u32 \<times> nat) list" where
  "nb_remaining g s = remaining (nb_b s) g (nb_end s) (nb_cur_v s) (nb_cur_e s)"

definition nb_ok :: "(u32 \<Rightarrow> u32) \<Rightarrow> next_batch \<Rightarrow> bool" where
  "nb_ok g s \<longleftrightarrow> (nb_cur_e s = 0 \<or> nb_cur_e s < g (nb_cur_v s)) \<and> nb_cur_v s \<le> nb_end s"

lemma next_batch_call_spec:
  assumes "nb_ok g s" "next_batch_call g s = (ivs, s')" "0 < nb_capacity s"
  shows "concat (map iv_slots ivs) = take (unat (nb_capacity s)) (nb_remaining g s)"
    "nb_remaining g s' = drop (unat (nb_capacity s)) (nb_remaining g s)"
    "list_all (iv_ok g (nb_end s)) ivs" "linked ivs" "ivs = [] \<Longrightarrow> is_done s'" "nb_ok g s'"
    "nb_b s' = nb_b s" "nb_end s' = nb_end s" "nb_capacity s' = nb_capacity s"
proof -
  let ?e = "nb_end s" and ?c = "nb_capacity s"
  obtain v c where l: "next_batch_loop (nb_b s) g ?e ?c (nb_cur_v s + 1) 0 (nb_cur_v s) (nb_cur_e s) [] = (ivs, v, c)"
    and s': "s' = s\<lparr> nb_cur_v := v, nb_cur_e := c \<rparr>"
    using assms(2) by (auto simp: next_batch_call_def split: prod.splits)
  have "batch_inv (nb_b s) g ?e ?c 0 (nb_cur_v s) (nb_cur_e s) []" using assms(1) by (simp add: batch_inv_def nb_ok_def)
  from next_batch_loop_spec [OF this _ l] obtain k' where k: "batch_inv (nb_b s) g ?e ?c k' v c ivs" "v \<ge> ?e \<or> k' = ?c"
    "concat (map iv_slots ivs) = take (unat ?c) (nb_remaining g s)"
    "remaining (nb_b s) g ?e v c = drop (unat ?c) (nb_remaining g s)"
    by (auto simp: nb_remaining_def)
  show "concat (map iv_slots ivs) = take (unat ?c) (nb_remaining g s)" by (fact k(3))
  show "nb_remaining g s' = drop (unat ?c) (nb_remaining g s)" using k(4) by (simp add: nb_remaining_def s')
  show "list_all (iv_ok g ?e) ivs" "linked ivs" "nb_ok g s'" using k(1) by (auto simp: batch_inv_def nb_ok_def s')
  show "is_done s'" if "ivs = []"
    using k(1,2) that assms(3) by (auto simp: is_done_def s' batch_inv_def word_less_nat_alt)
  show "nb_b s' = nb_b s" "nb_end s' = ?e" "nb_capacity s' = ?c" by (simp_all add: s')
qed

subsection \<open>What the requests of a batch read\<close>

definition voff :: "pack_args \<Rightarrow> u32 \<Rightarrow> nat" where
  "voff A v = off (vtable A) (num_edges (ctx A)) (unat v)"

definition iv_len :: "v_interval \<Rightarrow> nat" where
  "iv_len i = unat (iv_end i) - unat (iv_start i)"

definition total_len :: "v_interval list \<Rightarrow> nat" where
  "total_len ivs = sum_list (map iv_len ivs)"

definition iv_words :: "pack_args \<Rightarrow> u32 list \<Rightarrow> v_interval \<Rightarrow> u32 list" where
  "iv_words A remote i = take (iv_len i) (drop (voff A (iv_v i) + unat (iv_start i)) remote)"

definition span_ok :: "pack_args \<Rightarrow> v_interval \<Rightarrow> bool" where
  "span_ok A i \<longleftrightarrow> iv_v i < num_vertices (ctx A) \<and> iv_start i < iv_end i \<and>
     voff A (iv_v i) + unat (iv_end i) \<le> unat (num_edges (ctx A))"

lemma total_len_simps [simp]:
  "total_len [] = 0" "total_len (i # is) = iv_len i + total_len is" "total_len (xs @ ys) = total_len xs + total_len ys"
  by (simp_all add: total_len_def)

lemma length_iv_slots: "length (concat (map iv_slots ivs)) = total_len ivs"
  by (induction ivs) (simp_all add: iv_slots_def iv_len_def)

lemma iv_ok_span:
  assumes "args_ok A" "e \<le> num_vertices (ctx A)" "iv_ok (out_degree A) e i"
  shows "span_ok A i" "unat (iv_end i) \<le> unat (edge_buf_size A)"
    "iv_v i + 1 < num_vertices (ctx A) \<Longrightarrow> voff A (iv_v i + 1) = voff A (iv_v i) + unat (iv_d i)"
proof -
  let ?t = "vtable A" and ?m = "num_edges (ctx A)" and ?n = "num_vertices (ctx A)"
  have csr: "csr_ok ?t ?n ?m" using assms(1) by (simp add: args_ok_def)
  have v: "iv_v i < ?n" using assms(2,3) by (auto simp: iv_ok_def)
  then have vn: "unat (iv_v i) < unat ?n" by (simp add: word_less_nat_alt)
  have d: "unat (iv_d i) = deg ?t ?m (unat (iv_v i))"
    using dg_deg [OF assms(1) v] assms(3) by (simp add: iv_ok_def dg_def)
  have o: "off ?t ?m (Suc (unat (iv_v i))) = voff A (iv_v i) + unat (iv_d i)"
    using off_Suc [OF csr vn] d by (simp add: voff_def)
  have "voff A (iv_v i) + unat (iv_d i) \<le> unat ?m" using off_le_end [OF csr, of "Suc (unat (iv_v i))"] vn o by simp
  then show "span_ok A i" using v assms(3) by (auto simp: span_ok_def iv_ok_def word_le_nat_alt)
  show "unat (iv_end i) \<le> unat (edge_buf_size A)"
    using assms(1,3) v unfolding args_ok_def iv_ok_def dg_def word_le_nat_alt by (metis le_trans)
  show "voff A (iv_v i + 1) = voff A (iv_v i) + unat (iv_d i)"
    using o unat_inc [OF v] by (simp add: voff_def)
qed

lemma iv_words_slots:
  assumes "args_ok A" "e \<le> num_vertices (ctx A)" "iv_ok (out_degree A) e i" "length remote = unat (num_edges (ctx A))"
  shows "iv_words A remote i = map (\<lambda>(v, j). adjs A remote v ! j) (iv_slots i)"
    and "iv_words A remote i = take (iv_len i) (drop (unat (iv_start i)) (adjs A remote (iv_v i)))"
proof -
  have v: "iv_v i < num_vertices (ctx A)" using assms(2,3) by (auto simp: iv_ok_def)
  have e: "unat (iv_end i) \<le> dg A (iv_v i)" using assms(3) unfolding iv_ok_def dg_def word_le_nat_alt by metis
  have a: "adjs A remote (iv_v i) = take (dg A (iv_v i)) (drop (voff A (iv_v i)) remote)"
    using dg_deg [OF assms(1) v] by (simp add: adjs_def adj_def voff_def)
  have s: "voff A (iv_v i) + unat (iv_end i) \<le> length remote" using iv_ok_span(1) [OF assms(1-3)] assms(4) by (simp add: span_ok_def)
  show t: "iv_words A remote i = take (iv_len i) (drop (unat (iv_start i)) (adjs A remote (iv_v i)))"
    using e by (simp add: iv_words_def a drop_take iv_len_def min_def add.commute)
  have "length (adjs A remote (iv_v i)) = dg A (iv_v i)" by (rule length_adjs [OF assms(1,4) v])
  then show "iv_words A remote i = map (\<lambda>(v, j). adjs A remote v ! j) (iv_slots i)"
    unfolding t using e by (intro nth_equalityI) (auto simp: iv_slots_def iv_len_def)
qed

lemma iv_words_append:
  assumes "unat (iv_end i) + k < 2 ^ 32" "iv_start i < iv_end i" "j = i\<lparr> iv_end := iv_end i + of_nat k \<rparr>"
  shows "iv_words A remote j = iv_words A remote i @ take k (drop (voff A (iv_v i) + unat (iv_end i)) remote)"
    and "unat (iv_end j) = unat (iv_end i) + k" "iv_len j = iv_len i + k"
proof -
  have "unat (of_nat k :: u32) = k" using assms(1) by (intro unat_of_nat_u32) simp
  then show e: "unat (iv_end j) = unat (iv_end i) + k" using assms(1,3) unat_add_u32 [of "iv_end i" "of_nat k"] by simp
  then show l: "iv_len j = iv_len i + k" using assms(2,3) by (simp add: iv_len_def word_less_nat_alt)
  have eq: "iv_len i + (voff A (iv_v i) + unat (iv_start i)) = voff A (iv_v i) + unat (iv_end i)"
    using assms(2) by (simp add: iv_len_def word_less_nat_alt)
  have j: "iv_v j = iv_v i" "iv_start j = iv_start i" using assms(3) by simp_all
  show "iv_words A remote j = iv_words A remote i @ take k (drop (voff A (iv_v i) + unat (iv_end i)) remote)"
    unfolding iv_words_def l take_add drop_drop j eq ..
qed

lemma concat_words_last:
  "xs \<noteq> [] \<Longrightarrow> f y = f (last xs) @ zs \<Longrightarrow> concat (map f (xs[length xs - 1 := y])) = concat (map f xs) @ zs"
  by (cases xs rule: rev_cases) auto

lemma coalesce_from_words:
  assumes "args_ok A" "e \<le> num_vertices (ctx A)" "length remote = unat (num_edges (ctx A))"
    and "linked (prev # rest)" "list_all (iv_ok (out_degree A) e) (prev # rest)"
    and "combined \<noteq> []" "list_all (span_ok A) combined"
    and "voff A (iv_v (last combined)) + unat (iv_end (last combined)) = voff A (iv_v prev) + unat (iv_end prev)"
    and "unat (iv_end (last combined)) + total_len rest < 2 ^ 32" "total_len rest \<le> unat (edge_buf_size A)"
  shows "concat (map (iv_words A remote) (coalesce_from prev combined rest)) =
      concat (map (iv_words A remote) (combined @ rest)) \<and> list_all (span_ok A) (coalesce_from prev combined rest) \<and>
      total_len (coalesce_from prev combined rest) = total_len (combined @ rest)"
  using assms(4-)
proof (induction rest arbitrary: prev combined)
  case (Cons i rest)
  have iok: "iv_ok (out_degree A) e i" and pok: "iv_ok (out_degree A) e prev" using Cons.prems(2) by simp_all
  have lk: "iv_end prev = iv_d prev" "iv_start i = 0" "linked (i # rest)" using Cons.prems(1) by simp_all
  note sp = iv_ok_span [OF assms(1,2) iok]
  have ebs: "4 * unat (edge_buf_size A) < 2 ^ 32" using assms(1) by (simp add: args_ok_def)
  have ie: "unat (iv_end i) = iv_len i" "iv_end i - iv_start i = of_nat (iv_len i)" using lk(2) by (simp_all add: iv_len_def)
  show ?case
  proof (cases "iv_v prev + 1 = iv_v i")
    case True
    let ?l = "last combined"
    let ?j = "?l\<lparr> iv_end := iv_end ?l + of_nat (iv_len i) \<rparr>"
    have "iv_v prev + 1 < num_vertices (ctx A)" using sp(1) True by (simp add: span_ok_def)
    then have o: "voff A (iv_v ?l) + unat (iv_end ?l) = voff A (iv_v i)"
      using iv_ok_span(3) [OF assms(1,2) pok] Cons.prems(5) lk(1) True by simp
    have l: "span_ok A ?l" using Cons.prems(3,4) by (simp add: list_all_iff)
    have fit: "unat (iv_end ?l) + iv_len i < 2 ^ 32" using Cons.prems(6) by simp
    have lt: "iv_start ?l < iv_end ?l" using l by (simp add: span_ok_def)
    note ap = iv_words_append(1) [OF fit lt refl, of A remote] iv_words_append(2,3) [OF fit lt refl]
    have w: "iv_words A remote ?j = iv_words A remote ?l @ iv_words A remote i"
      using ap(1) l o lk(2) by (simp add: span_ok_def iv_words_def)
    have j: "span_ok A ?j" using l ap(2) o sp(1) ie(1) by (simp add: span_ok_def word_less_nat_alt)
    let ?c = "combined[length combined - 1 := ?j]"
    have last: "last ?c = ?j" using Cons.prems(3) by (simp add: last_list_update)
    have "list_all (span_ok A) ?c" 
      using Cons.prems(4) j set_update_subset_insert [of combined "length combined - 1" ?j] by (auto simp: list_all_iff)
    moreover have "total_len ?c = total_len combined + iv_len i"
      using Cons.prems(3) ap(3) l by (cases combined rule: rev_cases) (simp_all add: span_ok_def)
    moreover have "concat (map (iv_words A remote) (coalesce_from i ?c rest)) = concat (map (iv_words A remote) (?c @ rest)) \<and>
        list_all (span_ok A) (coalesce_from i ?c rest) \<and> total_len (coalesce_from i ?c rest) = total_len (?c @ rest)"
    proof (rule Cons.IH [OF lk(3)])
      show "voff A (iv_v (last ?c)) + unat (iv_end (last ?c)) = voff A (iv_v i) + unat (iv_end i)"
        unfolding last using ap(2) o ie(1) by simp
      show "unat (iv_end (last ?c)) + total_len rest < 2 ^ 32" unfolding last using ap(2) Cons.prems(6) by simp
    qed (use Cons.prems calculation in simp_all)
    ultimately show ?thesis
      using True ie(2) concat_words_last [OF Cons.prems(3) w] by simp
  next
    case False
    have "concat (map (iv_words A remote) (coalesce_from i (combined @ [i]) rest)) =
        concat (map (iv_words A remote) ((combined @ [i]) @ rest)) \<and> list_all (span_ok A) (coalesce_from i (combined @ [i]) rest) \<and>
        total_len (coalesce_from i (combined @ [i]) rest) = total_len ((combined @ [i]) @ rest)"
      using lk(3) Cons.prems(2,4,7) sp(1,2) ebs by (intro Cons.IH) auto
    then show ?thesis using False by simp
  qed
qed simp

lemma coalesce_words:
  assumes "args_ok A" "e \<le> num_vertices (ctx A)" "length remote = unat (num_edges (ctx A))"
    and "linked ivs" "list_all (iv_ok (out_degree A) e) ivs" "ivs \<noteq> []" "total_len ivs \<le> unat (edge_buf_size A)"
  shows "concat (map (iv_words A remote) (coalesce_intervals ivs)) = concat (map (iv_words A remote) ivs)"
    "list_all (span_ok A) (coalesce_intervals ivs)" "total_len (coalesce_intervals ivs) = total_len ivs"
proof -
  obtain i rest where ivs: "ivs = i # rest" using assms(6) by (cases ivs) auto
  have ebs: "4 * unat (edge_buf_size A) < 2 ^ 32" using assms(1) by (simp add: args_ok_def)
  have i: "span_ok A i" "unat (iv_end i) \<le> unat (edge_buf_size A)"
    using iv_ok_span [OF assms(1,2), of i] assms(5) by (simp_all add: ivs)
  have "concat (map (iv_words A remote) (coalesce_from i [i] rest)) = concat (map (iv_words A remote) ([i] @ rest)) \<and>
      list_all (span_ok A) (coalesce_from i [i] rest) \<and> total_len (coalesce_from i [i] rest) = total_len ([i] @ rest)"
    using assms(4,5,7) i ebs by (intro coalesce_from_words [OF assms(1-3)]) (auto simp: ivs)
  then show "concat (map (iv_words A remote) (coalesce_intervals ivs)) = concat (map (iv_words A remote) ivs)"
    "list_all (span_ok A) (coalesce_intervals ivs)" "total_len (coalesce_intervals ivs) = total_len ivs"
    by (simp_all add: coalesce_intervals_def ivs)
qed

text \<open>The requests read the words of their intervals into consecutive slots of the buffer.\<close>

lemma make_WRs_reads:
  assumes "args_ok A" "length remote = unat (num_edges (ctx A))" "edge_buf A + unat (edge_buf_size A) \<le> len"
    and "list_all (span_ok A) ivs" "p + total_len ivs \<le> edge_buf A + unat (edge_buf_size A)" "edge_buf A \<le> p"
  shows "concat (map (read_words A remote) (make_WRs A k p ivs)) =
      zip [p..<p + total_len ivs] (concat (map (iv_words A remote) ivs)) \<and>
    (\<forall>x \<in> set (make_WRs A k p ivs). valid_read A remote len x) \<and>
    length (concat (map (iv_words A remote) ivs)) = total_len ivs"
  using assms(4-)
proof (induction ivs arbitrary: k p)
  case (Cons i ivs)
  have b: "4 * unat (edge_buf_size A) < 2 ^ 32" "4 * unat (num_edges (ctx A)) < 2 ^ 64"
    "4 * (edge_buf A + unat (edge_buf_size A)) < 2 ^ 64" and csr: "csr_ok (vtable A) (num_vertices (ctx A)) (num_edges (ctx A))"
    using assms(1) by (simp_all add: args_ok_def)
  have sp: "iv_v i < num_vertices (ctx A)" "unat (iv_start i) < unat (iv_end i)"
    "voff A (iv_v i) + unat (iv_end i) \<le> unat (num_edges (ctx A))" using Cons.prems(1) by (simp_all add: span_ok_def word_less_nat_alt)
  have n: "unat (iv_end i - iv_start i) = iv_len i" using sp(2) by (simp add: iv_len_def unat_sub_word word_le_nat_alt)
  have o: "voff A (iv_v i) = unat (edge_offset (vtable A ! unat (iv_v i)))"
    using sp(1) csr_ok_length [OF csr] by (simp add: voff_def off_def word_less_nat_alt)
  define x where "x = hd (make_WRs A k p (i # ivs))"
  have st: "unat (ucast (iv_start i) :: u64) = unat (iv_start i)"
    using unat_u32_lt [of "iv_start i"] by (simp add: unsigned_ucast_eq take_bit_nat_eq_self)
  define w where "w = edge_offset (vtable A ! unat (iv_v i)) + ucast (iv_start i)"
  have "unat w = voff A (iv_v i) + unat (iv_start i)"
    unfolding w_def using sp(2,3) b(2) st o by (subst unat_add_lem [THEN iffD1]) simp_all
  then have "unat (w * 4) = 4 * (voff A (iv_v i) + unat (iv_start i))" using sp(2,3) b(2) by (simp add: unat_mult_u64)
  moreover have "remote_addr (fst x) - peer_addr (ctx A) = w * 4" by (simp add: x_def Let_def w_def)
  ultimately have src: "unat (remote_addr (fst x) - peer_addr (ctx A)) div 4 = voff A (iv_v i) + unat (iv_start i)" by simp
  have "unat (of_nat p * 4 :: u64) = 4 * p" using b(3) Cons.prems(2) by (simp add: unat_mult_u64 unat_of_nat_u64)
  then have dst: "unat (sge_addr (snd x) - area_addr A) div 4 = p" by (simp add: x_def Let_def)
  have "unat ((iv_end i - iv_start i) * 4) = 4 * iv_len i"
    using b(1) Cons.prems(2,3) n by (subst unat_mult_u32) simp_all
  moreover have "sge_length (snd x) = (iv_end i - iv_start i) * 4" by (simp add: x_def Let_def)
  ultimately have len: "unat (sge_length (snd x)) div 4 = iv_len i" by simp
  have r: "read_words A remote x = zip [p..<p + iv_len i] (iv_words A remote i)"
    by (simp add: read_words_def Let_def src dst len iv_words_def)
  have pos: "0 < iv_len i" "voff A (iv_v i) + unat (iv_start i) + iv_len i \<le> length remote" "p + iv_len i \<le> len"
    using sp(2,3) assms(2,3) Cons.prems(2) by (simp_all add: iv_len_def)
  then have v: "valid_read A remote len x"
    using src dst len by (simp add: valid_read_def Let_def) (simp add: x_def Let_def)
  have l: "length (iv_words A remote i) = iv_len i" using pos(2) by (simp add: iv_words_def)
  have IH: "concat (map (read_words A remote) (make_WRs A (Suc k) (p + iv_len i) ivs)) =
      zip [p + iv_len i..<p + iv_len i + total_len ivs] (concat (map (iv_words A remote) ivs))"
    "\<forall>x \<in> set (make_WRs A (Suc k) (p + iv_len i) ivs). valid_read A remote len x"
    "length (concat (map (iv_words A remote) ivs)) = total_len ivs"
    using Cons.IH [of "p + iv_len i" "Suc k"] Cons.prems by simp_all
  have m: "make_WRs A k p (i # ivs) = x # make_WRs A (Suc k) (p + iv_len i) ivs" by (simp add: x_def Let_def n)
  have up: "[p..<p + (iv_len i + total_len ivs)] = [p..<p + iv_len i] @ [p + iv_len i..<p + iv_len i + total_len ivs]"
    using upt_add_eq_append [of p "p + iv_len i" "total_len ivs"] by (simp add: add.assoc)
  show ?case unfolding m using r v l IH by (simp add: up zip_append)
qed simp

lemma make_WRs_shape:
  "length (make_WRs A k p ivs) = length ivs \<and> (\<forall>j < length ivs. sg_list (fst (make_WRs A k p ivs ! j)) = k + j)"
proof (induction ivs arbitrary: k p)
  case (Cons i ivs)
  show ?case
  proof (intro conjI allI impI)
    show "length (make_WRs A k p (i # ivs)) = length (i # ivs)" using Cons by (simp add: Let_def)
    fix j assume "j < length (i # ivs)"
    then show "sg_list (fst (make_WRs A k p (i # ivs) ! j)) = k + j" using Cons by (cases j) (simp_all add: Let_def)
  qed
qed simp

subsection \<open>Posting\<close>

text \<open>What a request asks for, without its flag and link.\<close>

definition strip :: "ibv_send_wr \<times> ibv_sge \<Rightarrow> ibv_send_wr \<times> ibv_sge" where
  "strip x = ((fst x)\<lparr> wr_next := None, signaled := False \<rparr>, snd x)"

lemma strip_same [simp]:
  "read_words A remote (strip x) = read_words A remote x" "valid_read A remote len (strip x) = valid_read A remote len x"
  by (simp_all add: strip_def read_words_def valid_read_def Let_def)

lemma wr_chain_slice:
  assumes "w \<le> i" "i < length W" "\<forall>j < length W. sg_list (fst (W ! j)) = j" "Suc i - w \<le> f"
    and "\<forall>j. w \<le> j \<and> j < i \<longrightarrow> wr_next (fst (W ! j)) = Some (Suc j)" "wr_next (fst (W ! i)) = None"
  shows "wr_chain f (map fst W) (map snd W) w = map ((!) W) [w..<Suc i]"
  using assms(1,4,5)
proof (induction "i - w" arbitrary: w f)
  case 0
  then have "w = i" by simp
  moreover obtain f' where "f = Suc f'" using 0 by (cases f) auto
  ultimately show ?case using assms(2,3,6) by simp
next
  case (Suc k)
  then have wi: "w < i" by simp
  obtain f' where f: "f = Suc f'" using Suc by (cases f) auto
  have "wr_chain f' (map fst W) (map snd W) (Suc w) = map ((!) W) [Suc w..<Suc i]"
    using Suc wi f by (intro Suc.hyps(1)) auto
  moreover have "wr_next (fst (W ! w)) = Some (Suc w)" using Suc.prems(3) wi by simp
  ultimately show ?case using wi assms(2,3) by (simp add: f upt_conv_Cons del: upt_Suc)
qed

lemma map_nth_slice: "b \<le> length xs \<Longrightarrow> map ((!) xs) [a..<b] = take (b - a) (drop a xs)"
  by (intro nth_equalityI) auto

definition post_inv :: "nat \<Rightarrow> nat \<Rightarrow> (ibv_send_wr \<times> ibv_sge) list \<Rightarrow> bool" where
  "post_inv i w W \<longleftrightarrow> w \<le> i \<and> i \<le> length W \<and> (i = length W \<longrightarrow> w = i) \<and> (\<forall>j < length W. sg_list (fst (W ! j)) = j) \<and>
     (\<forall>j. w \<le> j \<and> j < i \<longrightarrow> wr_next (fst (W ! j)) = Some (Suc j))"

lemma strip_update: "i < length W \<Longrightarrow> strip x = strip (W ! i) \<Longrightarrow> map strip (W[i := x]) = map strip W"
  by (simp add: map_update) (metis list_update_id length_map nth_map)

lemma post_all_loop_posts:
  assumes "\<forall>ch. (\<forall>x \<in> set ch. valid_read A remote len x) \<longrightarrow> post_send n 0 ch = 0"
    and "post_inv i w W" "\<forall>x \<in> set W. valid_read A remote len x"
  shows "\<exists>ps. post_all_loop n win i w W posts = Inr (posts @ ps) \<and> map strip (concat ps) = drop w (map strip W)"
  using assms
proof (induction n win i w W posts rule: post_all_loop.induct)
  case (1 n win i w W posts)
  show ?case
  proof (cases "i < length W")
    case False
    then have "w = length W" using "1.prems"(2) by (simp add: post_inv_def)
    then show ?thesis using False by (simp add: post_all_loop.simps [of n win i])
  next
    case lt: True
    let ?last = "i mod win = win - 1 \<or> i = length W - 1"
    have valid: "\<forall>x \<in> set (W[i := y]). valid_read A remote len x" if "strip y = strip (W ! i)" for y
    proof -
      have "valid_read A remote len y" using "1.prems"(3) lt that by (metis nth_mem strip_same(2))
      then show ?thesis using "1.prems"(3) set_update_subset_insert [of W i y] by auto
    qed
    show ?thesis
    proof (cases ?last)
      case True
      let ?y = "((fst (W ! i))\<lparr> signaled := True, wr_next := None \<rparr>, snd (W ! i))"
      let ?W = "W[i := ?y]"
      let ?ch = "wr_chain (length W) (map fst ?W) (map snd ?W) w"
      have y: "strip ?y = strip (W ! i)" by (simp add: strip_def)
      have ch: "?ch = map ((!) ?W) [w..<Suc i]"
        using "1.prems"(2) lt by (intro wr_chain_slice) (auto simp: post_inv_def nth_list_update)
      have "set ?ch \<subseteq> set ?W" unfolding ch using lt by (force simp: set_conv_nth [of ?W])
      then have acc: "post_send n 0 ?ch = 0" using "1.prems"(1) valid [OF y] by blast
      have inv: "post_inv (Suc i) (Suc i) ?W" using "1.prems"(2) lt by (auto simp: post_inv_def nth_list_update)
      from "1.IH"(1) [OF lt True refl refl _ "1.prems"(1) inv valid [OF y]] acc
      obtain ps where ps: "post_all_loop n win (Suc i) (Suc i) ?W (posts @ [?ch]) = Inr ((posts @ [?ch]) @ ps)"
        "map strip (concat ps) = drop (Suc i) (map strip ?W)" by auto
      have "map strip ?ch = take (Suc i - w) (drop w (map strip ?W))"
        unfolding ch using map_nth_slice [of "Suc i" ?W w] lt by (simp add: take_map drop_map del: upt_Suc)
      then have "map strip (concat (?ch # ps)) = drop w (map strip ?W)"
        using ps(2) append_take_drop_id [of "Suc i - w" "drop w (map strip ?W)"] "1.prems"(2) by (simp add: post_inv_def)
      moreover have "post_all_loop n win i w W posts = Inr (posts @ ?ch # ps)"
        using lt True acc ps(1) by (subst post_all_loop.simps) (simp add: Let_def)
      ultimately show ?thesis using strip_update [OF lt y] by (intro exI [of _ "?ch # ps"]) simp
    next
      case False
      let ?y = "((fst (W ! i))\<lparr> wr_next := Some (Suc i) \<rparr>, snd (W ! i))"
      let ?W = "W[i := ?y]"
      have y: "strip ?y = strip (W ! i)" by (simp add: strip_def)
      have inv: "post_inv (Suc i) w ?W" using "1.prems"(2) lt False by (auto simp: post_inv_def nth_list_update less_Suc_eq)
      from "1.IH"(2) [OF lt False "1.prems"(1) inv valid [OF y]] show ?thesis
        using lt False strip_update [OF lt y] by (subst post_all_loop.simps) simp
    qed
  qed
qed

subsection \<open>One batch\<close>

text \<open>The calls of a batch: for every interval the part of the adjacency list it covers.\<close>

definition iv_call :: "pack_args \<Rightarrow> u32 list \<Rightarrow> 's edge_function \<Rightarrow> v_interval \<Rightarrow> 's \<Rightarrow> 's" where
  "iv_call A remote F i = F (iv_v i) (iv_words A remote i) (iv_end i - iv_start i) (iv_d i)"

fun iv_signed :: "u32 list \<Rightarrow> nat \<Rightarrow> v_interval list \<Rightarrow> bool" where
  "iv_signed m p [] = True"
| "iv_signed m p (i # is) =
     (m ! p = NULL_VERT \<and> m ! (p + iv_len i - 1) = NULL_VERT \<and> iv_signed m (p + iv_len i) is)"

lemma sign_buffer_spec:
  assumes "list_all (\<lambda>i. iv_start i < iv_end i) ivs" "p + total_len ivs \<le> length m"
  shows "length (sign_buffer ivs p m) = length m \<and> iv_signed (sign_buffer ivs p m) p ivs \<and>
    (\<forall>j. j < p \<or> p + total_len ivs \<le> j \<longrightarrow> sign_buffer ivs p m ! j = m ! j)"
  using assms
proof (induction ivs arbitrary: p m)
  case (Cons i ivs)
  have n: "unat (iv_end i - iv_start i) = iv_len i" "0 < iv_len i"
    using Cons.prems(1) by (simp_all add: iv_len_def unat_sub_word word_le_nat_alt word_less_nat_alt)
  then have n1: "unat (iv_end i - iv_start i - 1) = iv_len i - 1" using unat_dec [of "iv_end i - iv_start i"] by simp
  let ?m = "m[p := NULL_VERT, p + (iv_len i - 1) := NULL_VERT]"
  have IH: "length (sign_buffer ivs (p + iv_len i) ?m) = length m" "iv_signed (sign_buffer ivs (p + iv_len i) ?m) (p + iv_len i) ivs"
    "\<And>j. j < p + iv_len i \<or> p + iv_len i + total_len ivs \<le> j \<Longrightarrow> sign_buffer ivs (p + iv_len i) ?m ! j = ?m ! j"
  proof -
    have "length (sign_buffer ivs (p + iv_len i) ?m) = length ?m \<and> iv_signed (sign_buffer ivs (p + iv_len i) ?m) (p + iv_len i) ivs \<and>
      (\<forall>j. j < p + iv_len i \<or> p + iv_len i + total_len ivs \<le> j \<longrightarrow> sign_buffer ivs (p + iv_len i) ?m ! j = ?m ! j)"
      using Cons.prems by (intro Cons.IH) simp_all
    then show "length (sign_buffer ivs (p + iv_len i) ?m) = length m" "iv_signed (sign_buffer ivs (p + iv_len i) ?m) (p + iv_len i) ivs"
      "\<And>j. j < p + iv_len i \<or> p + iv_len i + total_len ivs \<le> j \<Longrightarrow> sign_buffer ivs (p + iv_len i) ?m ! j = ?m ! j"
      unfolding length_list_update by blast+
  qed
  have e: "sign_buffer (i # ivs) p m = sign_buffer ivs (p + iv_len i) ?m" by (simp add: Let_def n n1)
  have s: "?m ! p = NULL_VERT" "?m ! (p + iv_len i - 1) = NULL_VERT" using n(2) Cons.prems(2) by (auto simp: nth_list_update)
  have o: "?m ! j = m ! j" if "j < p \<or> p + iv_len i \<le> j" for j using that n(2) by (auto simp: nth_list_update_neq)
  have "sign_buffer ivs (p + iv_len i) ?m ! p = ?m ! p" by (rule IH(3)) (use n(2) in simp)
  moreover have "sign_buffer ivs (p + iv_len i) ?m ! (p + iv_len i - 1) = ?m ! (p + iv_len i - 1)" by (rule IH(3)) (use n(2) in simp)
  moreover have "sign_buffer ivs (p + iv_len i) ?m ! j = m ! j" if "j < p \<or> p + (iv_len i + total_len ivs) \<le> j" for j
    using IH(3) [of j] o [of j] that by (auto simp: add.assoc)
  ultimately show ?case unfolding e using IH(1,2) s by simp
qed simp

lemma consume_intervals_returns:
  assumes "arriving mem eb m (pre @ concat (map (iv_words A remote) ivs)) p"
    and "\<forall>i \<in> set ivs. iv_start i < iv_end i \<and> length (iv_words A remote i) = iv_len i" "iv_signed m (eb + length pre) ivs"
  shows "\<exists>t'. consume_intervals mem F ivs (eb + length pre) t s = Some (fold (iv_call A remote F) ivs s, t')"
  using assms
proof (induction ivs arbitrary: pre t s)
  case (Cons i ivs)
  let ?x = "iv_words A remote i" and ?ws = "pre @ concat (map (iv_words A remote) (i # ivs))" and ?e = "iv_end i - iv_start i"
  have i: "iv_start i < iv_end i" "length ?x = iv_len i" using Cons.prems(2) by simp_all
  have n: "unat ?e = iv_len i" "0 < iv_len i"
    using i(1) by (simp_all add: iv_len_def unat_sub_word word_le_nat_alt word_less_nat_alt)
  then have n1: "unat (?e - 1) = iv_len i - 1" using unat_dec [of ?e] by simp
  have sg: "m ! (eb + length pre) = NULL_VERT" "m ! (eb + (length pre + iv_len i - 1)) = NULL_VERT"
    "iv_signed m (eb + length (pre @ ?x)) ivs"
    using Cons.prems(3) i n(2) by (simp_all add: add.assoc)
  obtain t1 where t1: "spin (\<lambda>t. mem t ! (eb + length pre)) t = Some t1" "length pre < p t1"
    using arriving_spin [OF Cons.prems(1) _ sg(1)] i n(2) by auto
  have "length pre + iv_len i - 1 < length ?ws" using i n(2) by simp
  from arriving_spin [OF Cons.prems(1) this sg(2), of t1]
  obtain t2 where t2: "spin (\<lambda>t. mem t ! (eb + (length pre + iv_len i - 1))) t1 = Some t2" "length pre + iv_len i - 1 < p t2" by blast
  have slot: "eb + length pre + unat (?e - 1) = eb + (length pre + iv_len i - 1)" using n(2) by (simp add: n1)
  have blk: "take (iv_len i) (drop (eb + length pre) (mem t2)) = ?x"
    using arriving_block [of mem eb m pre ?x "concat (map (iv_words A remote) ivs)" p t2] Cons.prems(1) t2(2) i n(2) by simp
  have arr: "arriving mem eb m ((pre @ ?x) @ concat (map (iv_words A remote) ivs)) p" using Cons.prems(1) by simp
  have c: "consume_intervals mem F (i # ivs) (eb + length pre) t s =
      consume_intervals mem F ivs (eb + length (pre @ ?x)) t2 (iv_call A remote F i s)"
    using t1(1) t2(1) slot blk i(2) n(1) by (simp add: Let_def iv_call_def add.assoc)
  show ?case unfolding c using Cons.IH [OF arr _ sg(3), of t2 "iv_call A remote F i s"] Cons.prems(2) by simp
qed simp

lemma batch_consumed:
  assumes "run_ok n A remote" "nic_ready n" "edge_buf A + unat (edge_buf_size A) \<le> length m"
    and "e \<le> num_vertices (ctx A)" "linked ivs" "list_all (iv_ok (out_degree A) e) ivs" "ivs \<noteq> []"
    and "total_len ivs \<le> unat (edge_buf_size A)"
  obtains ps t where "post_all n A (make_WRs A 0 (edge_buf A) (coalesce_intervals ivs)) = Inr ps"
    "consume_intervals (dma n (concat ps) (sign_buffer ivs (edge_buf A) m)) F ivs (edge_buf A) 0 s =
       Some (fold (iv_call A remote F) ivs s, t)"
    "length (dma n (concat ps) (sign_buffer ivs (edge_buf A) m) t) = length m"
proof -
  let ?eb = "edge_buf A" and ?W = "make_WRs A 0 (edge_buf A) (coalesce_intervals ivs)" and ?m = "sign_buffer ivs (edge_buf A) m"
  let ?ws = "concat (map (iv_words A remote) ivs)"
  have ok: "args_ok A" "length remote = unat (num_edges (ctx A))" "NULL_VERT \<notin> set remote" "nic_ok n A remote"
    using assms(1) by (simp_all add: run_ok_def)
  note co = coalesce_words [OF ok(1) assms(4) ok(2) assms(5-8)]
  have pos: "list_all (\<lambda>i. iv_start i < iv_end i) ivs" using assms(6) by (auto simp: list_all_iff iv_ok_def)
  have fits: "?eb + total_len ivs \<le> length m" using assms(3,8) by simp
  note sg = sign_buffer_spec [OF pos fits]
  have tot: "?eb + total_len (coalesce_intervals ivs) \<le> ?eb + unat (edge_buf_size A)" using co(3) assms(8) by simp
  have r: "concat (map (read_words A remote) ?W) = zip [?eb..<?eb + total_len ivs] ?ws"
    "\<forall>x \<in> set ?W. valid_read A remote (length ?m) x" "length ?ws = total_len ivs"
    using make_WRs_reads [OF ok(1,2) assms(3) co(2) tot order_refl, of 0] co(1,3) sg by simp_all
  have acc: "\<forall>ch. (\<forall>x \<in> set ch. valid_read A remote (length ?m) x) \<longrightarrow> post_send n 0 ch = 0"
  proof (intro allI impI)
    fix ch assume "\<forall>x \<in> set ch. valid_read A remote (length ?m) x"
    then obtain k where k: "post_send n k ch = 0" "\<forall>j < k. post_send n j ch = ENOMEM"
      using ok(4) unfolding nic_ok_def by blast
    then show "post_send n 0 ch = 0" using assms(2) by (cases k) (auto simp: nic_ready_def)
  qed
  have "coalesce_intervals ivs \<noteq> []" using co(3) assms(6,7) pos
    by (cases ivs) (auto simp: iv_len_def word_less_nat_alt)
  then have "post_inv 0 0 ?W" using make_WRs_shape [of A 0 ?eb "coalesce_intervals ivs"] by (simp add: post_inv_def)
  from post_all_loop_posts [OF acc this r(2), of "unat (opt_wr_window (opts A))" "[]"]
  obtain ps where ps: "post_all n A ?W = Inr ps" "map strip (concat ps) = map strip ?W" by (auto simp: post_all_def)
  have rd: "map (read_words A remote) (concat ps) = map (read_words A remote) ?W"
    using arg_cong [OF ps(2), of "map (read_words A remote)"] by (simp add: comp_def)
  have "list_all (valid_read A remote (length ?m)) (map strip (concat ps))"
    unfolding ps(2) using r(2) by (simp add: list_all_iff)
  then have "\<forall>x \<in> set (concat ps). valid_read A remote (length ?m) x" by (simp add: list_all_iff)
  then obtain p T where p: "mono p" "length (concat (map (read_words A remote) (concat ps))) \<le> p T"
    "\<And>t. dma n (concat ps) ?m t = apply_writes (take (p t) (concat (map (read_words A remote) (concat ps)))) ?m"
    using ok(4) unfolding nic_ok_def by meson
  have fit: "?eb + length ?ws \<le> length ?m" using fits sg r(3) by simp
  have mem: "dma n (concat ps) ?m t = take ?eb ?m @ take (p t) ?ws @ drop (?eb + min (p t) (length ?ws)) ?m" for t
    unfolding p(3) rd r(1) using apply_writes_block [OF fit] r(3) by simp
  have "set ?ws \<subseteq> set remote" by (auto simp: iv_words_def dest!: in_set_takeD in_set_dropD)
  then have "arriving (dma n (concat ps) ?m) ?eb ?m ([] @ ?ws) p"
    using p(1,2) mem fit ok(3) rd r(1,3) by (auto simp: arriving_def)
  moreover have "\<forall>i \<in> set ivs. iv_start i < iv_end i \<and> length (iv_words A remote i) = iv_len i"
  proof
    fix i assume "i \<in> set ivs"
    then have "iv_ok (out_degree A) e i" using assms(6) by (simp add: list_all_iff)
    then show "iv_start i < iv_end i \<and> length (iv_words A remote i) = iv_len i"
      using arg_cong [OF iv_words_slots(1) [OF ok(1) assms(4) _ ok(2)], of i length] by (simp add: iv_slots_def iv_len_def) (simp add: iv_ok_def)
  qed
  ultimately obtain t where "consume_intervals (dma n (concat ps) ?m) F ivs ?eb 0 s = Some (fold (iv_call A remote F) ivs s, t)"
    using consume_intervals_returns [of "dma n (concat ps) ?m" ?eb ?m "[]" A remote ivs p F 0 s] sg by auto
  moreover have "length (dma n (concat ps) ?m t) = length m" for t using fit sg by (auto simp: mem min_def)
  ultimately show thesis using that ps(1) by blast
qed

subsection \<open>The worker's loop\<close>

text \<open>
  A run of calls on pieces of adjacency lists: piece \<open>(v, a, b)\<close> is the call for the edges \<open>a\<close> to \<open>b - 1\<close>
  of \<open>v\<close>, with the number of these edges and the degree of \<open>v\<close>.
\<close>

definition piece_call :: "pack_args \<Rightarrow> u32 list \<Rightarrow> 's edge_function \<Rightarrow> u32 \<times> nat \<times> nat \<Rightarrow> 's \<Rightarrow> 's" where
  "piece_call A remote F = (\<lambda>(v, a, b). F v (take (b - a) (drop a (adjs A remote v))) (of_nat (b - a)) (out_degree A v))"

definition piece_slots :: "u32 \<times> nat \<times> nat \<Rightarrow> (u32 \<times> nat) list" where
  "piece_slots = (\<lambda>(v, a, b). map (Pair v) [a..<b])"

definition piece_of :: "v_interval \<Rightarrow> u32 \<times> nat \<times> nat" where
  "piece_of i = (iv_v i, unat (iv_start i), unat (iv_end i))"

lemma piece_of_call:
  assumes "run_ok n A remote" "e \<le> num_vertices (ctx A)" "list_all (iv_ok (out_degree A) e) ivs"
  shows "fold (iv_call A remote F) ivs s = fold (piece_call A remote F) (map piece_of ivs) s"
    and "concat (map piece_slots (map piece_of ivs)) = concat (map iv_slots ivs)"
proof -
  have "iv_call A remote F i = piece_call A remote F (piece_of i)" if "i \<in> set ivs" for i
  proof -
    have i: "iv_ok (out_degree A) e i" using assms(3) that by (simp add: list_all_iff)
    then have "iv_start i \<le> iv_end i" by (auto simp: iv_ok_def)
    then have "iv_end i - iv_start i = of_nat (unat (iv_end i) - unat (iv_start i))"
      using unat_sub_word [of "iv_start i" "iv_end i"] by (simp flip: unat_sub_word)
    then show ?thesis
      using i iv_words_slots(2) [OF _ assms(2) i, of remote] assms(1)
      by (simp add: iv_call_def piece_call_def piece_of_def run_ok_def iv_ok_def iv_len_def)
  qed
  then show "fold (iv_call A remote F) ivs s = fold (piece_call A remote F) (map piece_of ivs) s"
    unfolding fold_map by (intro fold_cong) auto
  show "concat (map piece_slots (map piece_of ivs)) = concat (map iv_slots ivs)"
    unfolding map_map by (intro arg_cong [of _ _ concat] map_cong) (simp_all add: piece_slots_def piece_of_def iv_slots_def)
qed

lemma edgemap_loop_returns:
  assumes "run_ok n A remote" "nic_ready n"
  shows "edge_buf A + unat (edge_buf_size A) \<le> length m \<Longrightarrow> nb_ok (out_degree A) g \<Longrightarrow> nb_end g \<le> num_vertices (ctx A) \<Longrightarrow>
    nb_capacity g = edge_buf_size A \<Longrightarrow>
    \<exists>m' pieces. edgemap_loop n A F g (m, s) = Some (Inr (m', fold (piece_call A remote F) pieces s)) \<and> length m' = length m \<and>
      concat (map piece_slots pieces) = nb_remaining (out_degree A) g"
proof (induction "length (nb_remaining (out_degree A) g)" arbitrary: g m s rule: less_induct)
  case less
  let ?d = "out_degree A"
  have cap: "0 < nb_capacity g" using assms(1) less.prems(4) by (simp add: run_ok_def)
  show ?case
  proof (cases "is_done g")
    case True
    then have "nb_remaining ?d g = []" by (auto simp: is_done_def nb_remaining_def remaining_def)
    then show ?thesis using True by (intro exI [of _ m] exI [of _ "[]"]) (subst edgemap_loop.simps, simp)
  next
    case False
    obtain ivs g' where c: "next_batch_call ?d g = (ivs, g')" by fastforce
    note sp = next_batch_call_spec [OF less.prems(2) c cap]
    show ?thesis
    proof (cases "ivs = []")
      case True
      then have e: "edgemap_loop n A F g (m, s) = Some (Inr (m, s))"
        using False c sp(5) by (subst edgemap_loop.simps) (simp add: edgemap_loop.simps [of n A F g'])
      have "nb_remaining ?d g = []" using sp(1) True cap by (simp add: word_less_nat_alt)
      then show ?thesis using e by (intro exI [of _ m] exI [of _ "[]"]) simp
    next
      case ne: False
      have tl: "total_len ivs \<le> unat (edge_buf_size A)"
        using arg_cong [OF sp(1), of length] less.prems(4) by (simp add: length_iv_slots)
      obtain ps t where b: "post_all n A (make_WRs A 0 (edge_buf A) (coalesce_intervals ivs)) = Inr ps"
        "consume_intervals (dma n (concat ps) (sign_buffer ivs (edge_buf A) m)) F ivs (edge_buf A) 0 s =
           Some (fold (iv_call A remote F) ivs s, t)"
        "length (dma n (concat ps) (sign_buffer ivs (edge_buf A) m) t) = length m"
        using batch_consumed [OF assms less.prems(1,3) sp(4,3) ne tl, of F s] by blast
      let ?m = "dma n (concat ps) (sign_buffer ivs (edge_buf A) m) t" and ?s = "fold (iv_call A remote F) ivs s"
      have "nb_remaining ?d g \<noteq> []" using sp(1,3) ne by (cases ivs) (auto simp: iv_slots_def iv_ok_def word_less_nat_alt)
      then have "length (nb_remaining ?d g') < length (nb_remaining ?d g)" using sp(2) cap by (simp add: word_less_nat_alt)
      from less.hyps [OF this, of ?m ?s] obtain m' pieces where r:
        "edgemap_loop n A F g' (?m, ?s) = Some (Inr (m', fold (piece_call A remote F) pieces ?s))" "length m' = length m"
        "concat (map piece_slots pieces) = nb_remaining ?d g'"
        using less.prems b(3) sp(6-9) by auto
      have l: "edgemap_loop n A F g (m, s) = edgemap_loop n A F g' (?m, ?s)"
        using False c ne b(1,2) by (subst edgemap_loop.simps) (simp add: Let_def)
      note pc = piece_of_call(1) [OF assms(1) less.prems(3) sp(3), of F s] piece_of_call(2) [OF assms(1) less.prems(3) sp(3)]
      have "fold (piece_call A remote F) pieces ?s = fold (piece_call A remote F) (map piece_of ivs @ pieces) s"
        unfolding pc(1) by simp
      moreover have "concat (map piece_slots (map piece_of ivs @ pieces)) = nb_remaining ?d g"
        using pc(2) r(3) sp(1,2) by simp
      ultimately show ?thesis using r(1,2) l by metis
    qed
  qed
qed

text \<open>Pieces of several workers.\<close>

definition range_slots :: "Bitmap \<Rightarrow> (u32 \<Rightarrow> u32) \<Rightarrow> u32 \<Rightarrow> u32 \<Rightarrow> (u32 \<times> nat) list" where
  "range_slots b g lo hi = (if lo < hi then concat (map (slots g) (lo # active_from b (lo + 1) hi)) else [])"

lemma piece_call_worker [simp]: "piece_call (worker_args A t) remote F = piece_call A remote F"
  by (simp add: piece_call_def)

lemma edgemap_returns:
  assumes "setup_ok n A workers remote" "nic_ready n"
    and "\<forall>(t, b, e) \<in> set cs. t < workers \<and> b \<le> e \<and> e \<le> num_vertices (ctx A)" "workers * unat (edge_buf_size A) \<le> length m"
  shows "\<exists>m' pieces. edgemap n A frontier F cs (m, s) =
      Some (Inr (m', fold (\<lambda>(t, p). piece_call A remote (F t) p) pieces s)) \<and>
    concat (map (piece_slots \<circ> snd) pieces) = concat (map (\<lambda>(t, b, e). range_slots frontier (out_degree A) b e) cs)"
  using assms(3,4)
proof (induction cs arbitrary: m s)
  case Nil
  show ?case by (intro exI [of _ m] exI [of _ "[]"]) simp
next
  case (Cons c cs)
  obtain t b e where c: "c = (t, b, e)" by (cases c)
  let ?A = "worker_args A t"
  let ?g = "\<lparr> nb_b = frontier, nb_cur_v = b, nb_cur_e = 0, nb_end = e, nb_capacity = edge_buf_size A \<rparr>"
  have t: "t < workers" "b \<le> e" "e \<le> num_vertices (ctx A)" using Cons.prems(1) by (simp_all add: c)
  have r: "run_ok n ?A remote" by (rule setup_run_ok [OF assms(1) t(1)])
  have l: "edge_buf ?A + unat (edge_buf_size ?A) \<le> length m"
    using slice_le [OF t(1), of "unat (edge_buf_size A)"] Cons.prems(2) by simp
  have "nb_ok (out_degree ?A) ?g" "nb_end ?g \<le> num_vertices (ctx ?A)" "nb_capacity ?g = edge_buf_size ?A"
    using t by (simp_all add: nb_ok_def)
  from edgemap_loop_returns [OF r assms(2) l this, of "F t" s] obtain m1 ps where m1:
    "edgemap_loop n ?A (F t) ?g (m, s) = Some (Inr (m1, fold (piece_call A remote (F t)) ps s))" "length m1 = length m"
    "concat (map piece_slots ps) = nb_remaining (out_degree A) ?g" by auto
  let ?s = "fold (piece_call A remote (F t)) ps s"
  obtain m' qs where qs: "edgemap n A frontier F cs (m1, ?s) = Some (Inr (m', fold (\<lambda>(t, p). piece_call A remote (F t) p) qs ?s))"
    "concat (map (piece_slots \<circ> snd) qs) = concat (map (\<lambda>(t, b, e). range_slots frontier (out_degree A) b e) cs)"
  proof -
    have "\<forall>(t, b, e) \<in> set cs. t < workers \<and> b \<le> e \<and> e \<le> num_vertices (ctx A)" "workers * unat (edge_buf_size A) \<le> length m1"
      using Cons.prems m1(2) by simp_all
    then show thesis using Cons.IH [of m1 ?s] that by blast
  qed
  have "nb_remaining (out_degree A) ?g = range_slots frontier (out_degree A) b e"
    by (simp add: nb_remaining_def remaining_def range_slots_def)
  then show ?case
    using m1(1,3) qs by (intro exI [of _ m'] exI [of _ "map (Pair t) ps @ qs"]) (simp add: c fold_map comp_def)
qed

subsection \<open>Property\<close>

text \<open>
  C30. The iterator \<open>edgemap\<close> returns, and its function is called on pieces of adjacency lists that, put together,
  are the edges of the active vertices of every subrange, each edge once and in order, with the words of the server's array, the
  number of edges of the piece and the degree of the vertex; an adjacency list may be split where the
  buffer is full. The first vertex of a subrange is visited whether its bit is on or not.
\<close>

theorem edgemap_complete:
  assumes "setup_ok n A workers remote" "nic_ready n"
    and "\<forall>(t, b, e) \<in> set cs. t < workers \<and> b \<le> e \<and> e \<le> num_vertices (ctx A)" "workers * unat (edge_buf_size A) \<le> length m"
  shows "\<exists>m' pieces. edgemap n A frontier F cs (m, s) =
      Some (Inr (m', fold (\<lambda>(t, v, a, b). F t v (take (b - a) (drop a (adjs A remote v))) (of_nat (b - a)) (out_degree A v)) pieces s)) \<and>
    concat (map (\<lambda>(t, v, a, b). map (Pair v) [a..<b]) pieces) =
    concat (map (\<lambda>(t, lo, hi). if lo < hi
      then concat (map (\<lambda>v. map (Pair v) [0..<unat (out_degree A v)])
             (lo # filter (\<lambda>v. get_bit frontier v \<noteq> 0) (u32_range (lo + 1) hi)))
      else []) cs)"
proof -
  have p: "(\<lambda>(t, p). piece_call A remote (F t) p) =
      (\<lambda>(t, v, a, b). F t v (take (b - a) (drop a (adjs A remote v))) (of_nat (b - a)) (out_degree A v))"
    by (auto simp: piece_call_def fun_eq_iff)
  have q: "piece_slots \<circ> snd = (\<lambda>(t, v, a, b). map (Pair v) [a..<b])" by (auto simp: piece_slots_def fun_eq_iff)
  have r: "range_slots frontier (out_degree A) lo hi = (if lo < hi
      then concat (map (\<lambda>v. map (Pair v) [0..<unat (out_degree A v)])
             (lo # filter (\<lambda>v. get_bit frontier v \<noteq> 0) (u32_range (lo + 1) hi))) else [])" for lo hi
    by (simp add: range_slots_def slots_def [abs_def] active_from_def)
  show ?thesis using edgemap_returns [OF assms, of frontier F s] unfolding p q r .
qed

theorem edgemap_complete_witness:
  "\<exists>m' pieces. edgemap (slow_nic demo_args demo_edges 0) demo_args (mk_Bitmap (\<lambda>n _. n) 3 False)
      (\<lambda>t v ns k d s. (v, ns) # s) [(0, 0, 2), (1, 2, 3)] (replicate 4 0, []) = Some (Inr (m', pieces))"
proof -
  have "nic_ready (slow_nic demo_args demo_edges 0)" by (simp add: nic_ready_def slow_nic_def ENOMEM_def)
  from edgemap_complete [OF demo_setup this, of "[(0, 0, 2), (1, 2, 3)]" "replicate 4 0" "mk_Bitmap (\<lambda>n _. n) 3 False"
      "\<lambda>t v ns k d s. (v, ns) # s" "[]"]
  show ?thesis by (simp add: demo_args_def) blast
qed

end
