(* ===== verification/CSR_Utils.thy ===== *)
theory CSR_Utils
  imports Vertex_Table "HOL-Library.Product_Lexorder"
begin

text \<open>
  The offline tools that make the files the client and the server read:
  \<open>src/util/edge_list_to_csr.cpp\<close> and its transposing variant \<open>edge_list_to_decsr.cpp\<close>.
  The input is the sequence of numbers the stream extraction yields;
  the output files are byte lists. \<open>csr_files_roundtrip\<close> leads from an edge list through the files
  and the client's index reader to the adjacency lists the kernels see.
\<close>

subsection \<open>Building the index\<close>

record csr_graph =
  csr_index :: "u64 list"
  csr_dest :: "u32 list"

text \<open>The local variables of \<open>edge_list_to_csr\<close>.\<close>

record csr_locals =
  b_idx :: "u64 list"
  b_dest :: "u32 list"
  prev_vertex_from :: u32
  b_count :: u64
  vertex_from :: u32

text \<open>\<open>for (uint32_t row = lo; row <= hi; ++row) idx[row] = c\<close>, for \<open>hi\<close> below the largest index.\<close>

definition fill_rows :: "u32 \<Rightarrow> u32 \<Rightarrow> u64 \<Rightarrow> u64 list \<Rightarrow> u64 list" where
  "fill_rows lo hi c idx = fold (\<lambda>row idx. idx[unat row := c]) (u32_range lo (hi + 1)) idx"

definition csr_step :: "u32 \<times> u32 \<Rightarrow> csr_locals \<Rightarrow> csr_locals" where
  "csr_step p l =
     (let l1 = l\<lparr> vertex_from := fst p \<rparr>;
          l2 = (if vertex_from l1 \<noteq> prev_vertex_from l1
                then l1\<lparr> b_idx := fill_rows (prev_vertex_from l1 + 1) (vertex_from l1) (b_count l1) (b_idx l1),
                         prev_vertex_from := vertex_from l1 \<rparr>
                else l1)
      in l2\<lparr> b_dest := (b_dest l2)[unat (b_count l2) := snd p], b_count := b_count l2 + 1 \<rparr>)"

text \<open>For the largest 32-bit index \<open>max_vert + 1\<close> is zero and \<open>idx[0]\<close> is out of range.\<close>

definition edge_list_to_csr :: "(u32 \<times> u32) list \<Rightarrow> u32 \<Rightarrow> csr_graph option" where
  "edge_list_to_csr v max_vert =
     (if max_vert + 1 = 0 then None
      else
        let size = of_nat (length v);
            l0 = \<lparr> b_idx = (replicate (unat (max_vert + 1)) (size - 1))[0 := 0],
                   b_dest = replicate (length v) 0, prev_vertex_from = 0, b_count = 0, vertex_from = 0 \<rparr>;
            l = fold csr_step v l0
        in Some \<lparr> csr_index = fill_rows (vertex_from l + 1) max_vert size (b_idx l), csr_dest = b_dest l \<rparr>)"

text \<open>The read loop, with the running maximum; the transposing tool swaps each pair first.\<close>

definition read_edge :: "bool \<Rightarrow> u32 \<times> u32 \<Rightarrow> (u32 \<times> u32) list \<times> u32 \<Rightarrow> (u32 \<times> u32) list \<times> u32" where
  "read_edge make_undirected p vm =
     (let (a, b) = p; (v, max_vert) = vm
      in (v @ [(a, b)] @ (if make_undirected then [(b, a)] else []), max max_vert (max a b)))"

definition read_edges :: "bool \<Rightarrow> (u32 \<times> u32) list \<Rightarrow> (u32 \<times> u32) list \<times> u32" where
  "read_edges make_undirected input = fold (read_edge make_undirected) input ([], 0)"

definition decsr_read_edges :: "bool \<Rightarrow> (u32 \<times> u32) list \<Rightarrow> (u32 \<times> u32) list \<times> u32" where
  "decsr_read_edges make_undirected input =
     fold (\<lambda>(a, b). let (a, b) = (b, a) in read_edge make_undirected (a, b)) input ([], 0)"

definition write_csr :: "csr_graph \<Rightarrow> u8 list \<times> u8 list" where
  "write_csr g = (concat (map (le_bytes 8) (csr_index g)), concat (map (le_bytes 4) (csr_dest g)))"

definition encode_unweighted :: "bool \<Rightarrow> bool \<Rightarrow> (u32 \<times> u32) list \<Rightarrow> (u8 list \<times> u8 list) option" where
  "encode_unweighted make_undirected presorted input =
     (let (v, max_vert) = read_edges make_undirected input;
          v = (if \<not> presorted then sort v else v)
      in map_option write_csr (edge_list_to_csr v max_vert))"

text \<open>The transposing tool has its own copies of the two conversions.\<close>

definition decsr_edge_list_to_csr :: "(u32 \<times> u32) list \<Rightarrow> u32 \<Rightarrow> csr_graph option" where
  "decsr_edge_list_to_csr v max_vert =
     (if max_vert + 1 = 0 then None
      else
        let size = of_nat (length v);
            l0 = \<lparr> b_idx = (replicate (unat (max_vert + 1)) (size - 1))[0 := 0],
                   b_dest = replicate (length v) 0, prev_vertex_from = 0, b_count = 0, vertex_from = 0 \<rparr>;
            l = fold csr_step v l0
        in Some \<lparr> csr_index = fill_rows (vertex_from l + 1) max_vert size (b_idx l), csr_dest = b_dest l \<rparr>)"

definition decsr_encode_unweighted :: "bool \<Rightarrow> bool \<Rightarrow> (u32 \<times> u32) list \<Rightarrow> (u8 list \<times> u8 list) option" where
  "decsr_encode_unweighted make_undirected presorted input =
     (let (v, max_vert) = decsr_read_edges make_undirected input;
          v = (if \<not> presorted then sort v else v)
      in map_option write_csr (decsr_edge_list_to_csr v max_vert))"

subsection \<open>Weighted graphs\<close>

text \<open>A weight is the 32-bit pattern of its \<open>float\<close>: the tools only copy it.\<close>

record w_csr_graph = csr_graph +
  csr_val :: "u32 list"

record w_csr_locals = csr_locals +
  b_val :: "u32 list"

definition w_csr_step :: "u32 \<times> u32 \<times> u32 \<Rightarrow> w_csr_locals \<Rightarrow> w_csr_locals" where
  "w_csr_step p l =
     (let l1 = l\<lparr> vertex_from := fst p \<rparr>;
          l2 = (if vertex_from l1 \<noteq> prev_vertex_from l1
                then l1\<lparr> b_idx := fill_rows (prev_vertex_from l1 + 1) (vertex_from l1) (b_count l1) (b_idx l1),
                         prev_vertex_from := vertex_from l1 \<rparr>
                else l1)
      in l2\<lparr> b_dest := (b_dest l2)[unat (b_count l2) := fst (snd p)],
             b_val := (b_val l2)[unat (b_count l2) := snd (snd p)], b_count := b_count l2 + 1 \<rparr>)"

definition edge_list_to_w_csr :: "(u32 \<times> u32 \<times> u32) list \<Rightarrow> u32 \<Rightarrow> w_csr_graph option" where
  "edge_list_to_w_csr v max_vert =
     (if max_vert + 1 = 0 then None
      else
        let size = of_nat (length v);
            l0 = \<lparr> b_idx = (replicate (unat (max_vert + 1)) size)[0 := 0], b_dest = replicate (length v) 0,
                   prev_vertex_from = 0, b_count = 0, vertex_from = 0, b_val = replicate (length v) 0 \<rparr>;
            l = fold w_csr_step v l0
        in Some \<lparr> csr_index = fill_rows (vertex_from l + 1) max_vert (b_count l) (b_idx l),
                  csr_dest = b_dest l, csr_val = b_val l \<rparr>)"

definition w_read_edge ::
    "bool \<Rightarrow> u32 \<times> u32 \<times> u32 \<Rightarrow> (u32 \<times> u32 \<times> u32) list \<times> u32 \<Rightarrow> (u32 \<times> u32 \<times> u32) list \<times> u32" where
  "w_read_edge make_undirected p vm =
     (let (a, b, c) = p; (v, max_vert) = vm
      in (v @ [(a, b, c)] @ (if make_undirected then [(b, a, c)] else []), max max_vert (max a b)))"

definition write_w_csr :: "w_csr_graph \<Rightarrow> u8 list \<times> u8 list" where
  "write_w_csr g =
     (concat (map (le_bytes 8) (csr_index g)),
      concat (map (\<lambda>idx. le_bytes 4 (csr_dest g ! idx) @ le_bytes 4 (csr_val g ! idx)) [0..<length (csr_dest g)]))"

text \<open>The order on floating-point triples belongs to the sorting library: \<open>sorter\<close> is its \<open>sort\<close>.\<close>

definition encode_weighted ::
    "((u32 \<times> u32 \<times> u32) list \<Rightarrow> (u32 \<times> u32 \<times> u32) list) \<Rightarrow> bool \<Rightarrow> bool \<Rightarrow> (u32 \<times> u32 \<times> u32) list \<Rightarrow>
       (u8 list \<times> u8 list) option" where
  "encode_weighted sorter make_undirected presorted input =
     (let (v, max_vert) = fold (w_read_edge make_undirected) input ([], 0);
          v = (if \<not> presorted then sorter v else v)
      in map_option write_w_csr (edge_list_to_w_csr v max_vert))"

definition decsr_edge_list_to_w_csr :: "(u32 \<times> u32 \<times> u32) list \<Rightarrow> u32 \<Rightarrow> w_csr_graph option" where
  "decsr_edge_list_to_w_csr v max_vert =
     (if max_vert + 1 = 0 then None
      else
        let size = of_nat (length v);
            l0 = \<lparr> b_idx = (replicate (unat (max_vert + 1)) size)[0 := 0], b_dest = replicate (length v) 0,
                   prev_vertex_from = 0, b_count = 0, vertex_from = 0, b_val = replicate (length v) 0 \<rparr>;
            l = fold w_csr_step v l0
        in Some \<lparr> csr_index = fill_rows (vertex_from l + 1) max_vert (b_count l) (b_idx l),
                  csr_dest = b_dest l, csr_val = b_val l \<rparr>)"

definition decsr_encode_weighted ::
    "((u32 \<times> u32 \<times> u32) list \<Rightarrow> (u32 \<times> u32 \<times> u32) list) \<Rightarrow> bool \<Rightarrow> bool \<Rightarrow> (u32 \<times> u32 \<times> u32) list \<Rightarrow>
       (u8 list \<times> u8 list) option" where
  "decsr_encode_weighted sorter make_undirected presorted input =
     (let (v, max_vert) = fold (\<lambda>(a, b, c). let (a, b) = (b, a) in w_read_edge make_undirected (a, b, c)) input ([], 0);
          v = (if \<not> presorted then sorter v else v)
      in map_option write_w_csr (decsr_edge_list_to_w_csr v max_vert))"

subsection \<open>What the index holds\<close>

definition below :: "(u32 \<times> 'e) list \<Rightarrow> nat \<Rightarrow> nat" where
  "below v r = length (filter (\<lambda>e. unat (fst e) < r) v)"

lemma fill_rows_spec:
  assumes "hi + 1 \<noteq> 0"
  shows "length (fill_rows lo hi c idx) = length idx"
    and "unat r < length idx \<Longrightarrow> fill_rows lo hi c idx ! unat r = (if lo \<le> r \<and> r \<le> hi then c else idx ! unat r)"
proof -
  have len: "length (fold (\<lambda>row idx. idx[unat row := c]) rs idx) = length idx" for rs :: "u32 list" and idx :: "u64 list"
    by (induction rs arbitrary: idx) auto
  have nth: "fold (\<lambda>row idx. idx[unat row := c]) rs idx ! unat r = (if r \<in> set rs then c else idx ! unat r)"
    if "unat r < length idx" for rs and idx :: "u64 list"
    using that
  proof (induction rs arbitrary: idx)
    case (Cons x rs)
    then show ?case
      by (cases "unat x < length idx") (auto simp: nth_update_unat list_update_beyond)
  qed simp
  show "length (fill_rows lo hi c idx) = length idx" by (simp add: fill_rows_def len)
  have "unat (hi + 1) = Suc (unat hi)" using unatSuc [of hi] assms by (simp add: add.commute)
  then have "r < hi + 1 \<longleftrightarrow> r \<le> hi" by (simp add: word_less_nat_alt word_le_nat_alt less_Suc_eq_le)
  then show "unat r < length idx \<Longrightarrow> fill_rows lo hi c idx ! unat r = (if lo \<le> r \<and> r \<le> hi then c else idx ! unat r)"
    using nth [of idx "u32_range lo (hi + 1)"] by (simp add: fill_rows_def)
qed

text \<open>The loop after the prefix \<open>us\<close> of the edge list \<open>v\<close>.\<close>

definition csr_built :: "(u32 \<times> u32) list \<Rightarrow> u32 \<Rightarrow> (u32 \<times> u32) list \<Rightarrow> csr_locals \<Rightarrow> bool" where
  "csr_built v max_vert us l \<longleftrightarrow> length (b_idx l) = Suc (unat max_vert) \<and>
     b_dest l = map snd us @ replicate (length v - length us) 0 \<and> b_count l = of_nat (length us) \<and>
     prev_vertex_from l = (if us = [] then 0 else fst (last us)) \<and> vertex_from l = prev_vertex_from l \<and>
     (\<forall>r. r \<le> prev_vertex_from l \<longrightarrow> b_idx l ! unat r = of_nat (below v (unat r)))"

lemma below_split:
  assumes "\<forall>e \<in> set us. fst e < r" "\<forall>e \<in> set ws. r \<le> fst e"
  shows "below (us @ ws) (unat r) = length us"
proof -
  have "filter (\<lambda>e. unat (fst e) < unat r) us = us" using assms(1) by (simp add: filter_id_conv word_less_nat_alt)
  moreover have "filter (\<lambda>e. unat (fst e) < unat r) ws = []"
    using assms(2) by (auto simp: filter_empty_conv word_le_nat_alt)
  ultimately show ?thesis by (simp add: below_def)
qed

lemma csr_step_built:
  assumes "csr_built v max_vert us l" "v = us @ p # ws" "sorted (map fst v)" "\<forall>e \<in> set v. fst e \<le> max_vert"
    and "max_vert + 1 \<noteq> 0" "length v < 2 ^ 64"
  shows "csr_built v max_vert (us @ [p]) (csr_step p l)"
proof -
  let ?f = "fst p" and ?prev = "prev_vertex_from l"
  have l: "length (b_idx l) = Suc (unat max_vert)" "b_dest l = map snd us @ replicate (length v - length us) 0"
    "b_count l = of_nat (length us)" "?prev = (if us = [] then 0 else fst (last us))"
    "\<And>r. r \<le> ?prev \<Longrightarrow> b_idx l ! unat r = of_nat (below v (unat r))"
    using assms(1) by (auto simp: csr_built_def)
  have fm: "?f \<le> max_vert" using assms(2,4) by simp
  have srt: "sorted (map fst (us @ p # ws))" using assms(2,3) by simp
  have ge: "\<forall>e \<in> set us. fst e \<le> ?prev"
  proof (cases us rule: rev_cases)
    case (snoc xs x)
    then show ?thesis using srt l(4) by (auto simp: sorted_append)
  qed simp
  have pf: "?prev \<le> ?f" using srt l(4) by (cases us rule: rev_cases) (auto simp: sorted_append)
  have nx: "\<forall>e \<in> set (p # ws). ?f \<le> fst e" using srt by (auto simp: sorted_append)
  have f1: "?f + 1 \<noteq> 0"
  proof
    assume "?f + 1 = 0"
    then have "?f = - 1" by (simp add: eq_neg_iff_add_eq_0)
    then show False using fm assms(5) by (metis add.left_inverse max_word_max order_antisym)
  qed
  define idx where "idx = (if ?f \<noteq> ?prev then fill_rows (?prev + 1) ?f (b_count l) (b_idx l) else b_idx l)"
  have li: "length idx = Suc (unat max_vert)" using fill_rows_spec(1) [OF f1] l(1) by (simp add: idx_def)
  have ix: "idx ! unat r = of_nat (below v (unat r))" if r: "r \<le> ?f" for r
  proof (cases "r \<le> ?prev")
    case True
    have "\<not> ?prev + 1 \<le> r" if "?f \<noteq> ?prev"
    proof -
      have "?prev < ?f" using pf that by simp
      from unat_inc [OF this] True show ?thesis by (simp add: word_le_nat_alt)
    qed
    then show ?thesis
      using True r fm l(1,5) fill_rows_spec(2) [OF f1, of r "b_idx l"] by (auto simp: idx_def word_le_nat_alt)
  next
    case False
    then have lt: "?prev < r" "?f \<noteq> ?prev" using r by auto
    have "below v (unat r) = length us"
      unfolding assms(2) using ge nx lt r by (intro below_split) (auto intro: order_le_less_trans order_trans)
    moreover have "?prev + 1 \<le> r" using lt(1) by (rule inc_le_word)
    ultimately show ?thesis
      using lt(2) r fm l(1,3) fill_rows_spec(2) [OF f1, of r "b_idx l"] by (auto simp: idx_def word_le_nat_alt)
  qed
  have e: "csr_step p l = l\<lparr> vertex_from := ?f, prev_vertex_from := ?f, b_idx := idx,
      b_dest := (b_dest l)[length us := snd p], b_count := of_nat (length us) + 1 \<rparr>"
    using l(3) assms(2,6) by (auto simp: csr_step_def Let_def idx_def unat_of_nat_u64)
  have "(b_dest l)[length us := snd p] = map snd (us @ [p]) @ replicate (length v - length (us @ [p])) 0"
    unfolding l(2) using assms(2) by (simp add: list_update_append)
  then show ?thesis using li ix by (simp add: e csr_built_def)
qed

lemma csr_fold_built:
  assumes "csr_built v max_vert us l" "v = us @ ws" "sorted (map fst v)" "\<forall>e \<in> set v. fst e \<le> max_vert"
    and "max_vert + 1 \<noteq> 0" "length v < 2 ^ 64"
  shows "csr_built v max_vert v (fold csr_step ws l)"
  using assms(1,2)
proof (induction ws arbitrary: us l)
  case (Cons p ws)
  have "csr_built v max_vert (us @ [p]) (csr_step p l)"
    by (rule csr_step_built [OF Cons.prems assms(3-6)])
  then show ?case using Cons.IH [of "us @ [p]" "csr_step p l"] Cons.prems(2) by simp
qed simp

text \<open>Row \<open>r\<close> of the finished index is the number of edges whose source is smaller.\<close>

lemma csr_finish:
  assumes "csr_built v max_vert v l" "sorted (map fst v)" "\<forall>e \<in> set v. fst e \<le> max_vert" "max_vert + 1 \<noteq> 0"
  shows "fill_rows (vertex_from l + 1) max_vert (of_nat (length v)) (b_idx l) =
    map (\<lambda>r. of_nat (below v r)) [0..<Suc (unat max_vert)]" (is "?idx = _")
proof -
  have l: "length (b_idx l) = Suc (unat max_vert)" "vertex_from l = (if v = [] then 0 else fst (last v))"
    "\<And>r. r \<le> vertex_from l \<Longrightarrow> b_idx l ! unat r = of_nat (below v (unat r))"
    using assms(1) by (auto simp: csr_built_def)
  have le: "\<forall>e \<in> set v. fst e \<le> vertex_from l"
  proof (cases v rule: rev_cases)
    case (snoc xs x)
    then show ?thesis using assms(2) l(2) by (auto simp: sorted_append)
  qed simp
  have vf: "vertex_from l \<le> max_vert" using l(2) assms(3) by (cases "v = []") auto
  have len: "length ?idx = Suc (unat max_vert)" using l(1) fill_rows_spec(1) [OF assms(4)] by simp
  have "?idx ! k = of_nat (below v k)" if k: "k < Suc (unat max_vert)" for k
  proof -
    define r where "r = (of_nat k :: u32)"
    have ur: "unat r = k" using k unat_u32_lt [of max_vert] unfolding r_def by (intro unat_of_nat_u32) linarith
    then have rm: "r \<le> max_vert" using k by (simp add: word_le_nat_alt)
    have nth: "?idx ! unat r = (if vertex_from l + 1 \<le> r then of_nat (length v) else b_idx l ! unat r)"
      using fill_rows_spec(2) [OF assms(4), of r "b_idx l"] l(1) rm ur k by simp
    show ?thesis
    proof (cases "r \<le> vertex_from l")
      case True
      have "\<not> vertex_from l + 1 \<le> r"
      proof (cases "vertex_from l = max_vert")
        case eq: True
        have "unat (max_vert + 1) = Suc (unat max_vert)" using unatSuc [of max_vert] assms(4) by (simp add: add.commute)
        then show ?thesis using eq rm by (simp add: word_le_nat_alt)
      next
        case False
        then have "unat (vertex_from l + 1) = Suc (unat (vertex_from l))"
          using vf by (intro unat_inc [of _ max_vert]) simp
        then show ?thesis using True by (simp add: word_le_nat_alt)
      qed
      then show ?thesis using nth l(3) [OF True] ur by (simp only: if_False)
    next
      case False
      then have lt: "vertex_from l < r" by simp
      then have "vertex_from l + 1 \<le> r" by (rule inc_le_word)
      moreover have "below v k = length v"
        using below_split [of v r "[]"] le lt ur by (auto intro: order_le_less_trans)
      ultimately show ?thesis using nth ur by simp
    qed
  qed
  then show ?thesis using len by (intro nth_equalityI) (simp_all del: upt_Suc)
qed

lemma csr_built_init:
  assumes "max_vert + 1 \<noteq> 0"
  shows "csr_built v max_vert [] \<lparr> b_idx = (replicate (unat (max_vert + 1)) c)[0 := 0],
           b_dest = replicate (length v) 0, prev_vertex_from = 0, b_count = 0, vertex_from = 0 \<rparr>"
  using unatSuc [of max_vert] assms by (simp add: csr_built_def add.commute below_def)

lemma edge_list_to_csr_spec:
  assumes "sorted (map fst v)" "\<forall>e \<in> set v. fst e \<le> max_vert" "max_vert + 1 \<noteq> 0" "length v < 2 ^ 64"
  shows "edge_list_to_csr v max_vert =
    Some \<lparr> csr_index = map (\<lambda>r. of_nat (below v r)) [0..<Suc (unat max_vert)], csr_dest = map snd v \<rparr>"
proof -
  let ?l = "fold csr_step v \<lparr> b_idx = (replicate (unat (max_vert + 1)) (of_nat (length v) - 1))[0 := 0],
                   b_dest = replicate (length v) 0, prev_vertex_from = 0, b_count = 0, vertex_from = 0 \<rparr>"
  have b: "csr_built v max_vert v ?l" by (rule csr_fold_built [OF csr_built_init]) (use assms in auto)
  moreover have "b_dest ?l = map snd v" using b by (simp add: csr_built_def)
  ultimately show ?thesis using csr_finish [OF b assms(1-3)] assms(3) by (simp add: edge_list_to_csr_def Let_def)
qed

abbreviation unweighted :: "u32 \<times> u32 \<times> u32 \<Rightarrow> u32 \<times> u32" where
  "unweighted p \<equiv> (fst p, fst (snd p))"

lemma truncate_w_step: "csr_locals.truncate (w_csr_step p l) = csr_step (unweighted p) (csr_locals.truncate l)"
  by (simp add: w_csr_step_def csr_step_def Let_def csr_locals.truncate_def)

lemma truncate_w_fold:
  "csr_locals.truncate (fold w_csr_step v l) = fold csr_step (map unweighted v) (csr_locals.truncate l)"
  by (induction v arbitrary: l) (simp_all add: truncate_w_step)

lemma w_fold_val:
  assumes "b_count l = of_nat (length us)" "b_val l = map (snd \<circ> snd) us @ replicate (length ws) 0"
    and "length us + length ws < 2 ^ 64"
  shows "b_val (fold w_csr_step ws l) = map (snd \<circ> snd) (us @ ws)"
  using assms
proof (induction ws arbitrary: us l)
  case (Cons p ws)
  have "b_count (w_csr_step p l) = of_nat (length (us @ [p]))"
    using Cons.prems(1) by (simp add: w_csr_step_def Let_def)
  moreover have "unat (b_count l) = length us" using Cons.prems(1,3) by (simp add: unat_of_nat_u64)
  then have "b_val (w_csr_step p l) = map (snd \<circ> snd) (us @ [p]) @ replicate (length ws) 0"
    using Cons.prems(2) by (simp add: w_csr_step_def Let_def list_update_append)
  ultimately show ?case using Cons.IH [of "w_csr_step p l" "us @ [p]"] Cons.prems(3) by simp
qed simp

lemma below_unweighted: "below (map unweighted v) r = below v r"
  by (simp add: below_def filter_map comp_def)

lemma edge_list_to_w_csr_spec:
  assumes "sorted (map fst v)" "\<forall>e \<in> set v. fst e \<le> max_vert" "max_vert + 1 \<noteq> 0" "length v < 2 ^ 64"
  shows "edge_list_to_w_csr v max_vert =
    Some \<lparr> csr_index = map (\<lambda>r. of_nat (below v r)) [0..<Suc (unat max_vert)],
           csr_dest = map (fst \<circ> snd) v, csr_val = map (snd \<circ> snd) v \<rparr>"
proof -
  let ?init = "\<lparr> b_idx = (replicate (unat (max_vert + 1)) (of_nat (length v)))[0 := 0], b_dest = replicate (length v) 0,
                   prev_vertex_from = 0, b_count = 0, vertex_from = 0, b_val = replicate (length v) 0 \<rparr>"
  let ?l = "fold w_csr_step v ?init"
  let ?u = "map unweighted v"
  let ?uinit = "\<lparr> b_idx = (replicate (unat (max_vert + 1)) (of_nat (length v)))[0 := 0],
                   b_dest = replicate (length ?u) 0, prev_vertex_from = 0, b_count = 0, vertex_from = 0 \<rparr>"
  have t: "csr_locals.truncate ?l = fold csr_step ?u ?uinit" unfolding truncate_w_fold by (simp add: csr_locals.truncate_def)
  have uo: "sorted (map fst ?u)" "\<forall>e \<in> set ?u. fst e \<le> max_vert" "length ?u < 2 ^ 64"
    using assms by (auto simp: comp_def)
  have b: "csr_built ?u max_vert ?u (csr_locals.truncate ?l)"
    unfolding t by (rule csr_fold_built [OF csr_built_init]) (use uo assms(3) in auto)
  have f: "fill_rows (vertex_from ?l + 1) max_vert (b_count ?l) (b_idx ?l) =
      map (\<lambda>r. of_nat (below v r)) [0..<Suc (unat max_vert)]"
    using csr_finish [OF b uo(1,2) assms(3)] b
    by (simp add: csr_built_def csr_locals.truncate_def below_unweighted del: upt_Suc)
  moreover have "b_dest ?l = map (fst \<circ> snd) v" using b by (simp add: csr_built_def csr_locals.truncate_def comp_def)
  moreover have "b_val ?l = map (snd \<circ> snd) v" using w_fold_val [of ?init "[]" v] assms(4) by simp
  ultimately show ?thesis using assms(3) by (simp add: edge_list_to_w_csr_def Let_def del: upt_Suc)
qed

subsection \<open>The graph in the files\<close>

definition stores_graph :: "(u32 \<times> 'e) list \<Rightarrow> vertex list \<Rightarrow> u32 \<Rightarrow> u64 \<Rightarrow> 'e list \<Rightarrow> bool" where
  "stores_graph edges table n m remote \<longleftrightarrow>
     csr_ok table n m \<and> off table m 0 = 0 \<and> length remote = unat m \<and> (\<forall>e \<in> set edges. fst e < n) \<and>
     (\<forall>v < n. mset (adj remote table m (unat v)) = mset (map snd (filter (\<lambda>e. fst e = v) edges)))"

lemma sorted_filter_less:
  fixes vs :: "(u32 \<times> 'e) list"
  assumes "sorted (map fst vs)"
  shows "filter (\<lambda>e. unat (fst e) < k) vs = take (below vs k) vs"
    and "filter (\<lambda>e. \<not> unat (fst e) < k) vs = drop (below vs k) vs"
proof -
  have "filter (\<lambda>e. unat (fst e) < k) vs = take (below vs k) vs \<and>
        filter (\<lambda>e. \<not> unat (fst e) < k) vs = drop (below vs k) vs"
    using assms
  proof (induction vs)
    case (Cons x vs)
    show ?case
    proof (cases "unat (fst x) < k")
      case False
      then have ge: "\<forall>e \<in> set vs. \<not> unat (fst e) < k" using Cons.prems by (auto simp: word_le_nat_alt)
      then have "filter (\<lambda>e. unat (fst e) < k) vs = []" by (simp add: filter_empty_conv)
      then have "below (x # vs) k = 0" using False by (simp add: below_def)
      then show ?thesis using ge False by simp
    qed (use Cons in \<open>auto simp: below_def\<close>)
  qed (simp add: below_def)
  then show "filter (\<lambda>e. unat (fst e) < k) vs = take (below vs k) vs"
    and "filter (\<lambda>e. \<not> unat (fst e) < k) vs = drop (below vs k) vs" by blast+
qed

lemma sorted_row:
  fixes vs :: "(u32 \<times> 'e) list"
  assumes "sorted (map fst vs)"
  shows "filter (\<lambda>e. fst e = r) vs = take (below vs (Suc (unat r)) - below vs (unat r)) (drop (below vs (unat r)) vs)"
proof -
  let ?us = "take (below vs (Suc (unat r))) vs"
  have us: "?us = filter (\<lambda>e. unat (fst e) < Suc (unat r)) vs"
    using sorted_filter_less(1) [OF assms, of "Suc (unat r)"] by simp
  have "filter (\<lambda>e. unat (fst e) < unat r) ?us = filter (\<lambda>e. unat (fst e) < unat r) vs"
    unfolding us filter_filter by (rule filter_cong) auto
  then have b: "below ?us (unat r) = below vs (unat r)" by (simp add: below_def)
  have "filter (\<lambda>e. fst e = r) vs = filter (\<lambda>e. \<not> unat (fst e) < unat r) ?us"
    unfolding us filter_filter by (rule filter_cong) (auto simp: word_unat_eq_iff)
  also have "\<dots> = drop (below vs (unat r)) ?us"
    using sorted_filter_less(2) [of ?us "unat r"] assms b by (simp add: take_map [symmetric] sorted_wrt_take)
  finally show ?thesis by (simp add: drop_take)
qed

lemma below_Suc: "below vs (Suc (unat r)) = below vs (unat r) + length (filter (\<lambda>e. fst e = r) vs)"
  by (induction vs) (auto simp: below_def less_Suc_eq word_unat_eq_iff)

lemma below_all: "\<forall>e \<in> set vs. unat (fst e) < k \<Longrightarrow> below vs k = length vs"
  by (induction vs) (auto simp: below_def)

lemma below_le: "below vs k \<le> length vs"
  by (simp add: below_def)

lemma index_stores_graph:
  fixes vs :: "(u32 \<times> 'e) list"
  assumes "sorted (map fst vs)" "\<forall>e \<in> set vs. fst e \<le> max_vert" "max_vert + 1 \<noteq> 0" "length vs < 2 ^ 64"
    and "\<forall>v. length (filter (\<lambda>e. fst e = v) vs) < 2 ^ 32"
  shows "stores_graph vs (map vertex.make (map (\<lambda>r. of_nat (below vs r)) [0..<Suc (unat max_vert)]))
           (max_vert + 1) (of_nat (length vs)) (map snd vs)"
proof -
  let ?t = "map vertex.make (map (\<lambda>r. of_nat (below vs r)) [0..<Suc (unat max_vert)])"
  let ?m = "of_nat (length vs) :: u64"
  have s: "unat (max_vert + 1) = Suc (unat max_vert)" using unatSuc [of max_vert] assms(3) by (simp add: add.commute)
  have n: "v < max_vert + 1 \<longleftrightarrow> v \<le> max_vert" for v
    using s by (simp add: word_less_nat_alt word_le_nat_alt less_Suc_eq_le)
  have lt: "length ?t = Suc (unat max_vert)" by (simp del: upt_Suc)
  have um: "unat ?m = length vs" using assms(4) by (rule unat_of_nat_u64)
  have o: "off ?t ?m k = below vs k" if "k \<le> Suc (unat max_vert)" for k
  proof (cases "k \<le> unat max_vert")
    case True
    have "unat (of_nat (below vs k) :: u64) = below vs k"
      using below_le [of vs k] assms(4) by (intro unat_of_nat_u64) linarith
    then show ?thesis using True lt by (simp add: off_def vertex.make_def del: upt_Suc)
  next
    case False
    then have "below vs k = length vs"
      using assms(2) that by (intro below_all) (auto simp: word_le_nat_alt)
    then show ?thesis using False lt um by (simp add: off_def del: upt_Suc)
  qed
  have d: "deg ?t ?m (unat v) = length (filter (\<lambda>e. fst e = v) vs)" if "v \<le> max_vert" for v
    using o [of "unat v"] o [of "Suc (unat v)"] below_Suc [of vs v] that
    by (simp add: deg_def word_le_nat_alt del: upt_Suc)
  have ok: "csr_ok ?t (max_vert + 1) ?m"
    unfolding csr_ok_def
  proof (intro conjI allI impI)
    fix k assume k: "k < length ?t"
    define v where "v = (of_nat k :: u32)"
    have kn: "k < Suc (unat max_vert)" using k lt by simp
    then have uv: "unat v = k" using unat_u32_lt [of max_vert] unfolding v_def by (intro unat_of_nat_u32) linarith
    then have vm: "v \<le> max_vert" using kn by (simp add: word_le_nat_alt)
    have "off ?t ?m k = below vs k" "off ?t ?m (Suc k) = below vs (Suc k)" using kn by (intro o, simp)+
    then show "off ?t ?m k \<le> off ?t ?m (Suc k)" using below_Suc [of vs v] uv by simp
    show "deg ?t ?m k < 2 ^ 32" using d [OF vm] assms(5) uv by (simp del: upt_Suc)
  qed (use lt s in simp)
  have a: "adj (map snd vs) ?t ?m (unat v) = map snd (filter (\<lambda>e. fst e = v) vs)" if "v \<le> max_vert" for v
  proof -
    have "off ?t ?m (unat v) = below vs (unat v)" using that by (intro o) (simp add: word_le_nat_alt)
    moreover have "deg ?t ?m (unat v) = below vs (Suc (unat v)) - below vs (unat v)"
      using d [OF that] below_Suc [of vs v] by linarith
    ultimately show ?thesis by (simp only: adj_def take_map drop_map sorted_row [OF assms(1)])
  qed
  have "off ?t ?m 0 = 0" using o [of 0] by (simp add: below_def)
  then show ?thesis unfolding stores_graph_def using ok a um assms(2) n by auto
qed

lemma stores_graph_mset:
  assumes "mset es = mset es'"
  shows "stores_graph es table n m remote = stores_graph es' table n m remote"
proof -
  have "mset (map snd (filter (\<lambda>e. fst e = v) es)) = mset (map snd (filter (\<lambda>e. fst e = v) es'))" for v
    using assms by (simp only: mset_map mset_filter)
  moreover have "set es = set es'" using assms by (rule mset_eq_setD)
  ultimately show ?thesis by (simp only: stores_graph_def)
qed

text \<open>The edges the tool is asked to store: the input, with every reverse edge if requested.\<close>

definition stored_edges :: "bool \<Rightarrow> (u32 \<times> u32) list \<Rightarrow> (u32 \<times> u32) list" where
  "stored_edges make_undirected input = input @ (if make_undirected then map prod.swap input else [])"

lemma read_edges_mset: "mset (fst (read_edges u input)) = mset (stored_edges u input)"
proof -
  have "mset (fst (fold (read_edge u) input (v, mv))) = mset v + mset (stored_edges u input)" for v mv
    by (induction input arbitrary: v mv)
      (auto simp: stored_edges_def read_edge_def Let_def split: prod.splits)
  then show ?thesis by (simp add: read_edges_def)
qed

lemma read_edges_max:
  "\<forall>e \<in> set input. fst e \<le> snd (read_edges u input) \<and> snd e \<le> snd (read_edges u input)"
  "snd (read_edges u input) \<in> insert 0 (fst ` set input \<union> snd ` set input)"
proof -
  have e: "snd (fold (read_edge u) input (v, mv)) = fold (\<lambda>p m. max m (max (fst p) (snd p))) input mv" for v mv
    by (induction input arbitrary: v mv) (auto simp: read_edge_def Let_def split: prod.splits)
  have "max (fst p) (snd p) \<le> snd (read_edges u input)" if "p \<in> set input" for p
    using fold_max_props(2) [OF that, of "\<lambda>p. max (fst p) (snd p)" 0] by (simp add: read_edges_def e)
  then show "\<forall>e \<in> set input. fst e \<le> snd (read_edges u input) \<and> snd e \<le> snd (read_edges u input)" by simp
  show "snd (read_edges u input) \<in> insert 0 (fst ` set input \<union> snd ` set input)"
    using fold_max_props(3) [of "\<lambda>p. max (fst p) (snd p)" input 0]
    by (auto simp: read_edges_def e max_def split: if_splits)
qed

lemma sorted_sort_fst: "sorted (map fst (sort (v :: (u32 \<times> u32) list)))"
proof -
  have "sorted_wrt (\<lambda>x y. fst x \<le> fst y) (sort v)"
    using sorted_sort [of v] by (rule sorted_wrt_mono_rel [rotated]) (auto simp: less_eq_prod_def)
  then show ?thesis by (simp add: sorted_map)
qed

text \<open>
  What the file format can hold: vertex numbers below \<open>2 ^ 32 - 1\<close>, offsets of 64 bits and
  fewer than \<open>2 ^ 32\<close> edges per vertex.
\<close>

definition edges_ok :: "('e \<Rightarrow> u32) \<Rightarrow> (u32 \<times> 'e) list \<Rightarrow> bool" where
  "edges_ok dest es \<longleftrightarrow> list_all (\<lambda>e. fst e \<noteq> - 1 \<and> dest (snd e) \<noteq> - 1) es \<and> length es < 2 ^ 64 \<and>
     list_all (\<lambda>e. length (filter (\<lambda>e'. fst e' = fst e) es) < 2 ^ 32) es"

lemma edges_ok_degree:
  assumes "edges_ok dest es"
  shows "\<forall>v. length (filter (\<lambda>e. fst e = v) es) < 2 ^ 32"
proof
  fix v
  show "length (filter (\<lambda>e. fst e = v) es) < 2 ^ 32"
  proof (cases "filter (\<lambda>e. fst e = v) es = []")
    case False
    then obtain e where "e \<in> set es" "fst e = v" by (auto simp: filter_empty_conv)
    then show ?thesis using assms by (auto simp: edges_ok_def list_all_iff)
  qed simp
qed

abbreviation file_of :: "u8 list \<Rightarrow> file_system" where
  "file_of bs \<equiv> (\<lambda>_. Some \<lparr> regular = True, opens = True, contents = bs \<rparr>)"

text \<open>
  What the client and the server make of the two files: the index read from one, the entries of
  the other decoded by \<open>decode\<close>, \<open>width\<close> bytes each, with the destination \<open>dest\<close>.
\<close>

definition readable_graph ::
    "(nat \<Rightarrow> u8 list \<Rightarrow> 'e list) \<Rightarrow> nat \<Rightarrow> ('e \<Rightarrow> u32) \<Rightarrow> (u32 \<times> 'e) list \<Rightarrow> u8 list \<Rightarrow> u8 list \<Rightarrow> u32 \<Rightarrow> bool" where
  "readable_graph decode width dest edges idx adj_bytes n \<longleftrightarrow>
     get_num_verts (file_of idx) ''.idx'' = Inr n \<and>
     (\<exists>table. get_vertex_table (file_of idx) () ''.idx'' (ucast n) = Inr (table, replicate (unat n) ()) \<and>
        stores_graph edges table n (of_nat (length adj_bytes div width)) (decode (length adj_bytes div width) adj_bytes)) \<and>
     list_all (\<lambda>e. dest e < n) (decode (length adj_bytes div width) adj_bytes)"

lemma word_inc_le: "b + 1 \<noteq> 0 \<Longrightarrow> a < b + 1 \<longleftrightarrow> a \<le> (b :: u32)"
  using unatSuc [of b] by (simp add: add.commute word_less_nat_alt word_le_nat_alt less_Suc_eq_le)

lemma written_graph_readable:
  assumes "sorted (map fst vs)" "\<forall>e \<in> set vs. fst e \<le> mv \<and> dest (snd e) \<le> mv" "mv \<noteq> - 1" "length vs < 2 ^ 64"
    and "\<forall>v. length (filter (\<lambda>e. fst e = v) edges) < 2 ^ 32" "mset vs = mset edges"
    and "length adj_bytes div width = length vs" "decode (length vs) adj_bytes = map snd vs"
  shows "readable_graph decode width dest edges
           (concat (map (le_bytes 8) (map (\<lambda>r. of_nat (below vs r) :: u64) [0..<Suc (unat mv)]))) adj_bytes (mv + 1)"
proof -
  let ?ix = "map (\<lambda>r. of_nat (below vs r)) [0..<Suc (unat mv)] :: u64 list"
  let ?idx = "concat (map (le_bytes 8) ?ix)"
  have n0: "mv + 1 \<noteq> 0" using assms(3) by (simp add: eq_neg_iff_add_eq_0)
  have dg: "\<forall>v. length (filter (\<lambda>e. fst e = v) vs) < 2 ^ 32"
    using assms(5,6) by (metis mset_filter size_mset)
  have s: "unat (mv + 1) = Suc (unat mv)" using unatSuc [of mv] n0 by (simp add: add.commute)
  have li: "length ?ix = unat (mv + 1)" by (simp add: s del: upt_Suc)
  then have lt: "length ?ix < 2 ^ 32" using unat_u32_lt [of "mv + 1"] by simp
  have on: "of_nat (length ?ix) = mv + 1" by (simp only: li) simp
  have "get_num_verts (file_of ?idx) ''.idx'' = Inr (mv + 1)"
    using get_num_verts_written [of "file_of ?idx" "''.idx''" ?ix] lt on by (simp only:) 
  moreover have "get_vertex_table (file_of ?idx) () ''.idx'' (ucast (mv + 1)) = Inr (map vertex.make ?ix, replicate (unat (mv + 1)) ())"
    using get_vertex_table_written [of "file_of ?idx" "''.idx''" ?ix "()"] lt on li by (simp only:)
  moreover have "stores_graph edges (map vertex.make ?ix) (mv + 1) (of_nat (length adj_bytes div width)) (decode (length adj_bytes div width) adj_bytes)"
    unfolding assms(7,8) stores_graph_mset [OF assms(6), symmetric]
    by (rule index_stores_graph [OF assms(1) _ n0 assms(4) dg]) (use assms(2) in blast)
  moreover have "list_all (\<lambda>e. dest e < mv + 1) (decode (length adj_bytes div width) adj_bytes)"
    unfolding assms(7,8) using assms(2) by (auto simp: list_all_iff word_inc_le [OF n0])
  ultimately show ?thesis unfolding readable_graph_def by blast
qed

lemma encode_unweighted_ok:
  assumes "edges_ok id (stored_edges u input)" "presorted \<longrightarrow> sorted (map fst (fst (read_edges u input)))"
  shows "\<exists>idx adj_bytes n. encode_unweighted u presorted input = Some (idx, adj_bytes) \<and>
           readable_graph (le_words 4) 4 id (stored_edges u input) idx adj_bytes n"
proof -
  define mv where "mv = snd (read_edges u input)"
  define vs where "vs = (if \<not> presorted then sort (fst (read_edges u input)) else fst (read_edges u input))"
  have ms: "mset vs = mset (stored_edges u input)" by (simp add: vs_def read_edges_mset)
  have st: "set vs = set (stored_edges u input)" using ms by (rule mset_eq_setD)
  have srt: "sorted (map fst vs)" using assms(2) sorted_sort_fst by (simp add: vs_def)
  have mx: "\<forall>e \<in> set vs. fst e \<le> mv \<and> snd e \<le> mv"
    using read_edges_max(1) [of input u] st by (auto simp: mv_def stored_edges_def split: if_splits)
  have "\<forall>e \<in> set input. fst e \<noteq> - 1 \<and> snd e \<noteq> - 1"
    using assms(1) by (simp add: edges_ok_def list_all_iff stored_edges_def)
  then have m1: "mv \<noteq> - 1" using read_edges_max(2) [of u input] by (auto simp: mv_def)
  then have n0: "mv + 1 \<noteq> 0" by (simp add: eq_neg_iff_add_eq_0)
  have len: "length vs < 2 ^ 64"
    using assms(1) mset_eq_length [OF ms] by (simp add: edges_ok_def)
  let ?idx = "concat (map (le_bytes 8) (map (\<lambda>r. of_nat (below vs r) :: u64) [0..<Suc (unat mv)]))"
  let ?adj = "concat (map (le_bytes 4) (map snd vs))"
  have enc: "encode_unweighted u presorted input = Some (?idx, ?adj)"
    using edge_list_to_csr_spec [OF srt _ n0 len] mx
    by (simp add: encode_unweighted_def Let_def split_beta mv_def [symmetric] vs_def [symmetric] write_csr_def del: upt_Suc)
  have "readable_graph (le_words 4) 4 id (stored_edges u input) ?idx ?adj (mv + 1)"
  proof (rule written_graph_readable [OF srt _ m1 len _ ms])
    show "\<forall>e \<in> set vs. fst e \<le> mv \<and> id (snd e) \<le> mv" using mx by simp
    show "\<forall>v. length (filter (\<lambda>e. fst e = v) (stored_edges u input)) < 2 ^ 32"
      by (rule edges_ok_degree [OF assms(1)])
    show "length ?adj div 4 = length vs" using length_concat_le_bytes [of 4 "map snd vs"] by simp
    show "le_words 4 (length vs) ?adj = map snd vs" using le_words_written [of 4 "map snd vs" "[]"] by simp
  qed
  with enc show ?thesis by blast
qed

lemma decsr_copies:
  "decsr_edge_list_to_csr v max_vert = edge_list_to_csr v max_vert"
  "decsr_edge_list_to_w_csr wv max_vert = edge_list_to_w_csr wv max_vert"
  unfolding decsr_edge_list_to_csr_def edge_list_to_csr_def decsr_edge_list_to_w_csr_def edge_list_to_w_csr_def by (rule refl)+

lemma decsr_swaps: "decsr_encode_unweighted u presorted input = encode_unweighted u presorted (map prod.swap input)"
proof -
  have "decsr_read_edges u input = read_edges u (map prod.swap input)"
    unfolding decsr_read_edges_def read_edges_def
    by (simp add: fold_map comp_def split_beta prod.swap_def cong: fold_cong)
  then show ?thesis by (simp add: decsr_encode_unweighted_def encode_unweighted_def decsr_copies)
qed

subsection \<open>The weighted files\<close>

definition w_stored_edges :: "bool \<Rightarrow> (u32 \<times> u32 \<times> u32) list \<Rightarrow> (u32 \<times> u32 \<times> u32) list" where
  "w_stored_edges make_undirected input = input @ (if make_undirected then map (\<lambda>(a, b, c). (b, a, c)) input else [])"

primrec weighted_entries :: "nat \<Rightarrow> u8 list \<Rightarrow> (u32 \<times> u32) list" where
  "weighted_entries 0 bs = []"
| "weighted_entries (Suc n) bs = (le_word (take 4 bs), le_word (take 4 (drop 4 bs))) # weighted_entries n (drop 8 bs)"

lemma weighted_entries_written:
  "weighted_entries (length es) (concat (map (\<lambda>e. le_bytes 4 (fst e) @ le_bytes 4 (snd e)) es)) = es"
  by (induction es) (simp_all add: le_word_le_bytes)

lemma length_weighted_written:
  "length (concat (map (\<lambda>e. le_bytes 4 (fst e :: u32) @ le_bytes 4 (snd e :: u32)) es)) = 8 * length es"
  by (induction es) simp_all

lemma w_read_mset: "mset (fst (fold (w_read_edge u) input ([], 0))) = mset (w_stored_edges u input)"
proof -
  have "mset (fst (fold (w_read_edge u) input (v, mv))) = mset v + mset (w_stored_edges u input)" for v mv
    by (induction input arbitrary: v mv)
      (auto simp: w_stored_edges_def w_read_edge_def Let_def split: prod.splits)
  then show ?thesis by simp
qed

lemma w_read_max: "snd (fold (w_read_edge u) input ([], 0)) = snd (read_edges u (map unweighted input))"
proof -
  have "snd (fold (w_read_edge u) input (v, mv)) = snd (fold (read_edge u) (map unweighted input) (v', mv))" for v v' mv
    by (induction input arbitrary: v v' mv) (auto simp: read_edge_def w_read_edge_def Let_def split: prod.splits)
  then show ?thesis by (simp add: read_edges_def)
qed

lemma write_w_csr_zip:
  "length ds = length ws \<Longrightarrow> concat (map (\<lambda>idx. le_bytes 4 (ds ! idx) @ le_bytes 4 (ws ! idx)) [0..<length ds]) =
     concat (map (\<lambda>e. le_bytes 4 (fst e) @ le_bytes 4 (snd e)) (zip ds ws))"
  by (intro arg_cong [of _ _ concat] nth_equalityI) simp_all

text \<open>What the sorting library promises: a permutation, ordered by source.\<close>

definition sorts :: "((u32 \<times> 'e) list \<Rightarrow> (u32 \<times> 'e) list) \<Rightarrow> bool" where
  "sorts sorter \<longleftrightarrow> (\<forall>es. mset (sorter es) = mset es \<and> sorted (map fst (sorter es)))"

lemma encode_weighted_ok:
  assumes "edges_ok fst (w_stored_edges u input)" "sorts sorter"
    and "presorted \<longrightarrow> sorted (map fst (fst (fold (w_read_edge u) input ([], 0))))"
  shows "\<exists>idx adj_bytes n. encode_weighted sorter u presorted input = Some (idx, adj_bytes) \<and>
           readable_graph weighted_entries 8 fst (w_stored_edges u input) idx adj_bytes n"
proof -
  define mv where "mv = snd (fold (w_read_edge u) input ([], 0))"
  define rd where "rd = fst (fold (w_read_edge u) input ([], 0))"
  define vs where "vs = (if \<not> presorted then sorter rd else rd)"
  have ms: "mset vs = mset (w_stored_edges u input)" using assms(2) by (simp add: vs_def rd_def w_read_mset sorts_def)
  have st: "set vs = set (w_stored_edges u input)" using ms by (rule mset_eq_setD)
  have srt: "sorted (map fst vs)" using assms(2,3) by (simp add: vs_def rd_def sorts_def)
  have mx: "\<forall>e \<in> set vs. fst e \<le> mv \<and> fst (snd e) \<le> mv"
    using read_edges_max(1) [of "map unweighted input" u] st
    by (fastforce simp: mv_def w_read_max w_stored_edges_def split: if_splits)
  have "\<forall>e \<in> set input. fst e \<noteq> - 1 \<and> fst (snd e) \<noteq> - 1"
    using assms(1) by (simp add: edges_ok_def list_all_iff w_stored_edges_def)
  then have m1: "mv \<noteq> - 1"
    using read_edges_max(2) [of u "map unweighted input"] by (auto simp: mv_def w_read_max)
  then have n0: "mv + 1 \<noteq> 0" by (simp add: eq_neg_iff_add_eq_0)
  have len: "length vs < 2 ^ 64" using assms(1) mset_eq_length [OF ms] by (simp add: edges_ok_def)
  let ?idx = "concat (map (le_bytes 8) (map (\<lambda>r. of_nat (below vs r) :: u64) [0..<Suc (unat mv)]))"
  let ?adj = "concat (map (\<lambda>e. le_bytes 4 (fst e) @ le_bytes 4 (snd e)) (map snd vs))"
  have z: "zip (map (fst \<circ> snd) vs) (map (snd \<circ> snd) vs) = map snd vs" by (induction vs) auto
  have "write_w_csr \<lparr> csr_index = map (\<lambda>r. of_nat (below vs r)) [0..<Suc (unat mv)],
           csr_dest = map (fst \<circ> snd) vs, csr_val = map (snd \<circ> snd) vs \<rparr> = (?idx, ?adj)"
    using write_w_csr_zip [of "map (fst \<circ> snd) vs" "map (snd \<circ> snd) vs"]
    by (simp only: write_w_csr_def csr_graph.simps w_csr_graph.simps z length_map)
  moreover have "encode_weighted sorter u presorted input = map_option write_w_csr (edge_list_to_w_csr vs mv)"
    by (simp only: encode_weighted_def Let_def split_beta mv_def rd_def vs_def)
  ultimately have enc: "encode_weighted sorter u presorted input = Some (?idx, ?adj)"
    using edge_list_to_w_csr_spec [OF srt _ n0 len] mx by (simp only: option.map) blast
  have "readable_graph weighted_entries 8 fst (w_stored_edges u input) ?idx ?adj (mv + 1)"
  proof (rule written_graph_readable [OF srt mx m1 len edges_ok_degree [OF assms(1)] ms])
    show "length ?adj div 8 = length vs" using length_weighted_written [of "map snd vs"] by simp
    show "weighted_entries (length vs) ?adj = map snd vs" using weighted_entries_written [of "map snd vs"] by simp
  qed
  with enc show ?thesis by blast
qed

lemma decsr_w_swaps:
  "decsr_encode_weighted sorter u presorted input = encode_weighted sorter u presorted (map (\<lambda>(a, b, c). (b, a, c)) input)"
  unfolding decsr_encode_weighted_def encode_weighted_def
  by (simp add: decsr_copies fold_map comp_def split_beta cong: fold_cong)

subsection \<open>Properties\<close>

text \<open>
  C19. From an edge list to the graph the kernels see. For an edge list that the format can hold
  \<open>edge_list_to_csr\<close> writes two files such that the client reads a well-formed index from the first
  one and, with the entries of the second one as the server's edge array, the adjacency list of
  every vertex holds exactly the destinations of its edges, with their multiplicities (and of the
  reversed edges when an undirected graph is requested); every destination is a vertex. Without
  \<open>--sorted\<close> the tool orders the list. With it the list the tool has stored must be ordered by source: this is the
  input, or, with \<open>--make-undirected\<close>, the input with the reverse of each edge inserted after it. The latter
  is not ordered for most inputs that are: \<open>--sorted\<close> together with \<open>--make-undirected\<close> is outside the theorem then.
\<close>

theorem csr_files_roundtrip:
  assumes "edges_ok id (stored_edges u input)" "presorted \<longrightarrow> sorted (map fst (fst (read_edges u input)))"
  shows "\<exists>idx adj_bytes n. encode_unweighted u presorted input = Some (idx, adj_bytes) \<and>
           readable_graph (le_words 4) 4 id (stored_edges u input) idx adj_bytes n"
  using assms by (rule encode_unweighted_ok)

theorem csr_files_roundtrip_witness:
  "\<exists>idx adj_bytes n. encode_unweighted True False [(2, 0), (0, 1), (0, 2)] = Some (idx, adj_bytes) \<and>
     readable_graph (le_words 4) 4 id [(2, 0), (0, 1), (0, 2), (0, 2), (1, 0), (2, 0)] idx adj_bytes n"
  using csr_files_roundtrip [of True "[(2, 0), (0, 1), (0, 2)]" False] by (simp add: edges_ok_def stored_edges_def)



text \<open>
  C36. The weighted tools: if the library's sort returns a permutation ordered by source, both
  tools write an index and a file of (destination, weight) entries in which row \<open>v\<close> holds exactly
  the destinations and weights of the edges of \<open>v\<close>, for the transposing tool of the reversed graph.
\<close>

theorem weighted_files_roundtrip:
  assumes "sorts sorter" "edges_ok fst (w_stored_edges u input)"
    and "edges_ok fst (w_stored_edges u (map (\<lambda>(a, b, c). (b, a, c)) input))"
  shows "(\<exists>idx adj_bytes n. encode_weighted sorter u False input = Some (idx, adj_bytes) \<and>
           readable_graph weighted_entries 8 fst (w_stored_edges u input) idx adj_bytes n) \<and>
         (\<exists>idx adj_bytes n. decsr_encode_weighted sorter u False input = Some (idx, adj_bytes) \<and>
           readable_graph weighted_entries 8 fst (w_stored_edges u (map (\<lambda>(a, b, c). (b, a, c)) input)) idx adj_bytes n)"
  unfolding decsr_w_swaps using assms by (intro conjI encode_weighted_ok) simp_all

theorem weighted_files_roundtrip_witness:
  "(\<exists>idx adj_bytes n. encode_weighted (sort_key fst) False False [(1, 0, 5), (0, 1, 7)] = Some (idx, adj_bytes) \<and>
      readable_graph weighted_entries 8 fst [(1, 0, 5), (0, 1, 7)] idx adj_bytes n) \<and>
   (\<exists>idx adj_bytes n. decsr_encode_weighted (sort_key fst) False False [(1, 0, 5), (0, 1, 7)] = Some (idx, adj_bytes) \<and>
      readable_graph weighted_entries 8 fst [(0, 1, 5), (1, 0, 7)] idx adj_bytes n)"
  using weighted_files_roundtrip [of "sort_key fst" False "[(1, 0, 5), (0, 1, 7)]"]
  by (simp add: sorts_def edges_ok_def w_stored_edges_def)

end
