(* ===== verification/Converter.thy ===== *)
theory Converter
  imports CSR_Utils
begin

text \<open>
  The conversion tools as programs: the extraction of numbers from the text of the input file, the
  names of the output files, the files written and the exit status, for
  \<open>src/util/edge_list_to_csr.cpp\<close>, \<open>edge_list_to_decsr.cpp\<close> and the older \<open>main.cpp\<close>, which no
  target builds. The conversion itself is in \<open>CSR_Utils\<close>.
\<close>

subsection \<open>Reading numbers from a stream\<close>

text \<open>
  \<open>ifs >> a\<close> for a 32-bit unsigned \<open>a\<close>, in the classic locale: white space is skipped, a sign is
  accepted (a negative number wraps), the longest run of digits is read; no digit at all or a number
  that does not fit makes the extraction fail.
\<close>

definition is_space :: "u8 \<Rightarrow> bool" where
  "is_space b \<longleftrightarrow> b = 32 \<or> 9 \<le> b \<and> b \<le> 13"

definition is_digit :: "u8 \<Rightarrow> bool" where
  "is_digit b \<longleftrightarrow> 48 \<le> b \<and> b \<le> 57"

definition digits_value :: "u8 list \<Rightarrow> nat" where
  "digits_value ds = fold (\<lambda>d n. 10 * n + unat (d - 48)) ds 0"

definition take_sign :: "u8 list \<Rightarrow> bool \<times> u8 list" where
  "take_sign bs =
     (case bs of
        [] \<Rightarrow> (False, [])
      | b # rest \<Rightarrow> if b = 45 then (True, rest) else if b = 43 then (False, rest) else (False, bs))"

definition extract_u32 :: "u8 list \<Rightarrow> (u32 \<times> u8 list) option" where
  "extract_u32 bs =
     (let (neg, s) = take_sign (dropWhile is_space bs);
          ds = takeWhile is_digit s;
          n = digits_value ds
      in if ds = [] \<or> 2 ^ 32 \<le> n then None
         else Some (if neg then - of_nat n else of_nat n, dropWhile is_digit s))"

lemma extract_shorter: "extract_u32 bs = Some (a, rest) \<Longrightarrow> length rest < length bs"
proof -
  assume e: "extract_u32 bs = Some (a, rest)"
  define s where "s = snd (take_sign (dropWhile is_space bs))"
  have "takeWhile is_digit s \<noteq> []" "rest = dropWhile is_digit s"
    using e by (auto simp: extract_u32_def Let_def split_beta s_def split: if_splits)
  then have "length rest < length s"
    using arg_cong [OF takeWhile_dropWhile_id [of is_digit s], of length] by (cases "takeWhile is_digit s") auto
  moreover have "length s \<le> length (dropWhile is_space bs)" by (auto simp: s_def take_sign_def split: list.splits)
  ultimately show ?thesis using length_dropWhile_le [of is_space bs] by linarith
qed

text \<open>\<open>while (ifs >> a >> b)\<close>\<close>

function extract_pairs :: "u8 list \<Rightarrow> (u32 \<times> u32) list" where
  "extract_pairs bs =
     (case extract_u32 bs of
        None \<Rightarrow> []
      | Some (a, r) \<Rightarrow>
          (case extract_u32 r of
             None \<Rightarrow> []
           | Some (b, r') \<Rightarrow> (a, b) # extract_pairs r'))"
  by pat_completeness auto
termination
  by (relation "measure length") (auto dest!: extract_shorter)

declare extract_pairs.simps [simp del]

text \<open>
  \<open>while (ifs >> a >> b >> c)\<close>; extracting a \<open>float\<close>, as its bit pattern, is a parameter. An
  iteration consumes at least one byte, so the length of the file is enough fuel.
\<close>

fun extract_triples ::
    "(u8 list \<Rightarrow> (u32 \<times> u8 list) option) \<Rightarrow> nat \<Rightarrow> u8 list \<Rightarrow> (u32 \<times> u32 \<times> u32) list" where
  "extract_triples extract_float 0 bs = []"
| "extract_triples extract_float (Suc fuel) bs =
     (case extract_u32 bs of
        None \<Rightarrow> []
      | Some (a, r) \<Rightarrow>
          (case extract_u32 r of
             None \<Rightarrow> []
           | Some (b, r') \<Rightarrow>
               (case extract_float r' of
                  None \<Rightarrow> []
                | Some (c, r'') \<Rightarrow> (a, b, c) # extract_triples extract_float fuel r'')))"

subsection \<open>Names of the output files\<close>

definition path_filename :: "string \<Rightarrow> string" where
  "path_filename p = rev (takeWhile (\<lambda>c. c \<noteq> CHR ''/'') (rev p))"

definition path_stem :: "string \<Rightarrow> string" where
  "path_stem p =
     (let f = path_filename p in
      if f = ''.'' \<or> f = ''..'' \<or> CHR ''.'' \<notin> set f then f
      else rev (tl (dropWhile (\<lambda>c. c \<noteq> CHR ''.'') (rev f))))"

definition replace_extension :: "string \<Rightarrow> string \<Rightarrow> string" where
  "replace_extension p ext = take (length p - length (path_filename p)) p @ path_stem p @ ext"

subsection \<open>The programs\<close>

record tool_options =
  t_infile :: "string option"
  t_outdir :: "string option"
  t_sorted :: bool
  t_weighted :: bool
  t_make_undirected :: bool

text \<open>
  What the tools use of the system: which files can be created (a stream that does not open drops
  what is written to it), the extraction of a \<open>float\<close> and the sort of weighted edges.
\<close>

record tool_env =
  te_creates :: "string \<Rightarrow> bool"
  te_float :: "u8 list \<Rightarrow> (u32 \<times> u8 list) option"
  te_sort :: "(u32 \<times> u32 \<times> u32) list \<Rightarrow> (u32 \<times> u32 \<times> u32) list"

text \<open>The exit status, an exception nobody catches, or an access outside an array.\<close>

datatype tool_exit = Exit_status nat | Terminated | Faulted

definition stream_text :: "file_entry \<Rightarrow> u8 list" where
  "stream_text f = (if opens f then contents f else [])"

definition write_file :: "tool_env \<Rightarrow> string \<Rightarrow> u8 list \<Rightarrow> file_system \<Rightarrow> file_system" where
  "write_file env path bs fs =
     (if te_creates env path then fs(path \<mapsto> \<lparr> regular = True, opens = True, contents = bs \<rparr>) else fs)"

definition write_files ::
    "tool_env \<Rightarrow> string \<Rightarrow> string \<Rightarrow> (u8 list \<times> u8 list) option \<Rightarrow> file_system \<Rightarrow> tool_exit \<times> file_system" where
  "write_files env index_path adj_path r fs =
     (case r of
        None \<Rightarrow> (Faulted, fs)
      | Some (i, a) \<Rightarrow> (Exit_status 0, write_file env adj_path a (write_file env index_path i fs)))"

text \<open>
  \<open>throw "Input file not found"\<close> throws a string, which the handler for \<open>std::exception\<close> does not
  catch; a missing option is caught and gives status 1.
\<close>

definition csr_main :: "tool_env \<Rightarrow> tool_options \<Rightarrow> file_system \<Rightarrow> tool_exit \<times> file_system" where
  "csr_main env vm fs =
     (case (t_infile vm, t_outdir vm) of
        (Some p, Some outdir) \<Rightarrow>
          let index_path = replace_extension (outdir @ ''csr'') ''.idx'';
              adj_path = replace_extension (outdir @ ''csr'') ''.adj''
          in (case fs p of
                Some f \<Rightarrow>
                  if regular f then
                    if t_weighted vm
                    then write_files env index_path adj_path (encode_weighted (te_sort env) (t_make_undirected vm) (t_sorted vm)
                           (extract_triples (te_float env) (length (stream_text f)) (stream_text f))) fs
                    else write_files env index_path adj_path (encode_unweighted (t_make_undirected vm) (t_sorted vm)
                           (extract_pairs (stream_text f))) fs
                  else (Terminated, fs)
              | None \<Rightarrow> (Terminated, fs))
      | _ \<Rightarrow> (Exit_status 1, fs))"

definition decsr_main :: "tool_env \<Rightarrow> tool_options \<Rightarrow> file_system \<Rightarrow> tool_exit \<times> file_system" where
  "decsr_main env vm fs =
     (case (t_infile vm, t_outdir vm) of
        (Some p, Some outdir) \<Rightarrow>
          let index_path = replace_extension (outdir @ ''decsr'') ''.idx'';
              adj_path = replace_extension (outdir @ ''decsr'') ''.adj''
          in (case fs p of
                Some f \<Rightarrow>
                  if regular f then
                    if t_weighted vm
                    then write_files env index_path adj_path (decsr_encode_weighted (te_sort env) (t_make_undirected vm) (t_sorted vm)
                           (extract_triples (te_float env) (length (stream_text f)) (stream_text f))) fs
                    else write_files env index_path adj_path (decsr_encode_unweighted (t_make_undirected vm) (t_sorted vm)
                           (extract_pairs (stream_text f))) fs
                  else (Terminated, fs)
              | None \<Rightarrow> (Terminated, fs))
      | _ \<Rightarrow> (Exit_status 1, fs))"

text \<open>The older converter: its functions are copies, its output files are named after the input file.\<close>

definition old_edge_list_to_csr :: "(u32 \<times> u32) list \<Rightarrow> u32 \<Rightarrow> csr_graph option" where
  "old_edge_list_to_csr v max_vert =
     (if max_vert + 1 = 0 then None
      else
        let size = of_nat (length v);
            l = fold csr_step v
                  \<lparr> b_idx = (replicate (unat (max_vert + 1)) (size - 1))[0 := 0], b_dest = replicate (length v) 0,
                    prev_vertex_from = 0, b_count = 0, vertex_from = 0 \<rparr>
        in Some \<lparr> csr_index = fill_rows (vertex_from l + 1) max_vert size (b_idx l), csr_dest = b_dest l \<rparr>)"

definition old_edge_list_to_w_csr :: "(u32 \<times> u32 \<times> u32) list \<Rightarrow> u32 \<Rightarrow> w_csr_graph option" where
  "old_edge_list_to_w_csr v max_vert =
     (if max_vert + 1 = 0 then None
      else
        let l = fold w_csr_step v
                  \<lparr> b_idx = (replicate (unat (max_vert + 1)) (of_nat (length v)))[0 := 0], b_dest = replicate (length v) 0,
                    prev_vertex_from = 0, b_count = 0, vertex_from = 0, b_val = replicate (length v) 0 \<rparr>
        in Some \<lparr> csr_index = fill_rows (vertex_from l + 1) max_vert (b_count l) (b_idx l),
                  csr_dest = b_dest l, csr_val = b_val l \<rparr>)"

definition old_encode_unweighted :: "bool \<Rightarrow> bool \<Rightarrow> (u32 \<times> u32) list \<Rightarrow> (u8 list \<times> u8 list) option" where
  "old_encode_unweighted make_undirected presorted input =
     (let (v, max_vert) = fold (read_edge make_undirected) input ([], 0);
          v = (if \<not> presorted then sort v else v)
      in map_option write_csr (old_edge_list_to_csr v max_vert))"

definition old_encode_weighted ::
    "((u32 \<times> u32 \<times> u32) list \<Rightarrow> (u32 \<times> u32 \<times> u32) list) \<Rightarrow> bool \<Rightarrow> bool \<Rightarrow> (u32 \<times> u32 \<times> u32) list \<Rightarrow>
       (u8 list \<times> u8 list) option" where
  "old_encode_weighted sorter make_undirected presorted input =
     (let (v, max_vert) = fold (w_read_edge make_undirected) input ([], 0);
          v = (if \<not> presorted then sorter v else v)
      in map_option write_w_csr (old_edge_list_to_w_csr v max_vert))"

definition old_main :: "tool_env \<Rightarrow> tool_options \<Rightarrow> file_system \<Rightarrow> tool_exit \<times> file_system" where
  "old_main env vm fs =
     (case (t_infile vm, t_outdir vm) of
        (Some p, Some outdir) \<Rightarrow>
          let index_path = replace_extension (outdir @ path_stem p) ''.idx'';
              adj_path = replace_extension (outdir @ path_stem p) ''.adj''
          in (case fs p of
                Some f \<Rightarrow>
                  if regular f then
                    if t_weighted vm
                    then write_files env index_path adj_path (old_encode_weighted (te_sort env) (t_make_undirected vm)
                           (t_sorted vm) (extract_triples (te_float env) (length (stream_text f)) (stream_text f))) fs
                    else write_files env index_path adj_path (old_encode_unweighted (t_make_undirected vm) (t_sorted vm)
                           (extract_pairs (stream_text f))) fs
                  else (Terminated, fs)
              | None \<Rightarrow> (Terminated, fs))
      | _ \<Rightarrow> (Exit_status 1, fs))"

subsection \<open>Text of an edge list\<close>

fun dec :: "nat \<Rightarrow> u8 list" where
  "dec n = (if n < 10 then [48 + of_nat n] else dec (n div 10) @ [48 + of_nat (n mod 10)])"

declare dec.simps [simp del]

definition edge_text :: "(u32 \<times> u32) list \<Rightarrow> u8 list" where
  "edge_text es = concat (map (\<lambda>(a, b). dec (unat a) @ [32] @ dec (unat b) @ [10]) es)"

lemma digit_unat: "k < 10 \<Longrightarrow> unat (48 + of_nat k :: u8) = 48 + k"
  by (simp add: unat_word_ariths unat_of_nat)

lemma digit_ok: "k < 10 \<Longrightarrow> is_digit (48 + of_nat k)"
  using digit_unat [of k] by (simp add: is_digit_def word_le_nat_alt)

lemma dec_digits: "\<forall>d \<in> set (dec n). is_digit d"
  by (induction n rule: dec.induct) (subst dec.simps, auto simp: digit_ok)

lemma dec_nonempty: "dec n \<noteq> []"
  by (subst dec.simps) simp

lemma digits_value_snoc: "digits_value (ds @ [d]) = 10 * digits_value ds + unat (d - 48)"
  by (simp add: digits_value_def)

lemma dec_value: "digits_value (dec n) = n"
proof (induction n rule: dec.induct)
  case (1 n)
  show ?case
  proof (cases "n < 10")
    case True
    then have "dec n = [] @ [48 + of_nat n]" by (subst dec.simps) simp
    then show ?thesis using True by (simp add: digits_value_snoc digits_value_def unat_of_nat)
  next
    case False
    then have "dec n = dec (n div 10) @ [48 + of_nat (n mod 10)]" by (subst dec.simps) simp
    then show ?thesis using False 1 by (simp add: digits_value_snoc unat_of_nat)
  qed
qed

lemma not_digits: "\<not> is_digit 32" "\<not> is_digit 10" "is_space 32" "is_space 10"
  by (simp_all add: is_digit_def is_space_def)

lemma digit_not_space: "is_digit d \<Longrightarrow> \<not> is_space d \<and> d \<noteq> 45 \<and> d \<noteq> 43"
  by (auto simp: is_digit_def is_space_def word_le_nat_alt)

lemma extract_dec:
  assumes "n < 2 ^ 32" "rest = [] \<or> \<not> is_digit (hd rest)" "\<forall>b \<in> set ws. is_space b"
  shows "extract_u32 (ws @ dec n @ rest) = Some (of_nat n, rest)"
proof -
  obtain d ds where d: "dec n = d # ds" using dec_nonempty [of n] by (cases "dec n") auto
  have dd: "is_digit d" using dec_digits [of n] d by simp
  have "dropWhile is_space (ws @ dec n @ rest) = dec n @ rest"
    using assms(3) digit_not_space [OF dd] d by (induction ws) auto
  moreover have "take_sign (dec n @ rest) = (False, dec n @ rest)"
    using digit_not_space [OF dd] d by (simp add: take_sign_def)
  moreover have "takeWhile is_digit (dec n @ rest) = dec n" "dropWhile is_digit (dec n @ rest) = rest"
    using dec_digits [of n] assms(2)
    by (cases rest; simp add: takeWhile_append dropWhile_append)+
  ultimately show ?thesis using dec_nonempty [of n] assms(1) by (simp add: extract_u32_def dec_value)
qed

lemma extract_pairs_text: "\<forall>b \<in> set ws. is_space b \<Longrightarrow> extract_pairs (ws @ edge_text es) = es"
proof (induction es arbitrary: ws)
  case Nil
  have d: "dropWhile is_space ws = []" using Nil by simp
  have "extract_u32 (ws @ edge_text []) = None"
    by (simp only: extract_u32_def edge_text_def list.map concat.simps append_Nil2 d) (simp add: take_sign_def)
  then show ?case by (subst extract_pairs.simps) simp
next
  case (Cons e es)
  obtain a b where e: "e = (a, b)" by (cases e)
  have t: "edge_text (e # es) = dec (unat a) @ [32] @ dec (unat b) @ [10] @ edge_text es" by (simp add: edge_text_def e)
  have 1: "extract_u32 (ws @ edge_text (e # es)) = Some (a, [32] @ dec (unat b) @ [10] @ edge_text es)"
    unfolding t using extract_dec [of "unat a" "[32] @ dec (unat b) @ [10] @ edge_text es" ws] Cons.prems unat_u32_lt [of a]
    by (simp add: not_digits)
  have 2: "extract_u32 ([32] @ dec (unat b) @ [10] @ edge_text es) = Some (b, [10] @ edge_text es)"
    using extract_dec [of "unat b" "[10] @ edge_text es" "[32]"] unat_u32_lt [of b] by (simp add: not_digits)
  have "extract_pairs ([10] @ edge_text es) = es" using not_digits by (intro Cons.IH) simp
  then show ?case using 1 2 e by (subst extract_pairs.simps) simp
qed

subsection \<open>The files written\<close>

lemma replace_extension_inj: "replace_extension p e = replace_extension p e' \<longleftrightarrow> e = e'"
  by (simp add: replace_extension_def)

lemma path_filename_slash: "path_filename (d @ CHR ''/'' # f) = (if CHR ''/'' \<in> set f then path_filename f else f)"
proof (cases "CHR ''/'' \<in> set f")
  case True
  then have "\<not> (\<forall>c \<in> set (rev f). c \<noteq> CHR ''/'')" by auto
  then show ?thesis using True unfolding path_filename_def by (simp only: rev_append rev.simps takeWhile_append append_assoc) simp
next
  case False
  then have "takeWhile (\<lambda>c. c \<noteq> CHR ''/'') (rev f) = rev f" by (auto simp: takeWhile_eq_all_conv)
  then show ?thesis using False by (simp add: path_filename_def takeWhile_append)
qed

text \<open>With a directory that ends in a slash the files are \<open>csr.idx\<close> and \<open>csr.adj\<close> in it.\<close>

lemma output_in_directory: "replace_extension (d @ ''/'' @ ''csr'') ext = d @ ''/csr'' @ ext"
  using path_filename_slash [of d "''csr''"] by (simp add: replace_extension_def path_stem_def Let_def)

text \<open>Without one they are siblings of the directory, named after it.\<close>

lemma output_beside_directory: "replace_extension (''/data/out'' @ ''csr'') ''.idx'' = ''/data/outcsr.idx''"
  by (simp add: replace_extension_def path_stem_def path_filename_def Let_def)

lemma old_graphs: "old_edge_list_to_csr = edge_list_to_csr" "old_edge_list_to_w_csr = edge_list_to_w_csr"
  by (intro ext, simp add: old_edge_list_to_csr_def edge_list_to_csr_def old_edge_list_to_w_csr_def edge_list_to_w_csr_def Let_def)+

lemma old_encoders: "old_encode_unweighted = encode_unweighted" "old_encode_weighted = encode_weighted"
  by (intro ext, simp add: old_encode_unweighted_def encode_unweighted_def old_encode_weighted_def encode_weighted_def
      read_edges_def old_graphs)+

lemma written_files:
  assumes "te_creates env index_path" "te_creates env adj_path" "index_path \<noteq> adj_path"
  shows "write_files env index_path adj_path (Some (i, a)) fs =
    (Exit_status 0, fs(index_path \<mapsto> \<lparr> regular = True, opens = True, contents = i \<rparr>,
                       adj_path \<mapsto> \<lparr> regular = True, opens = True, contents = a \<rparr>))"
  using assms by (simp add: write_files_def write_file_def)

lemma csr_tool_files:
  assumes "edges_ok id (stored_edges u es)"
    and "fs infile = Some \<lparr> regular = True, opens = True, contents = edge_text es \<rparr>"
    and "te_creates env (replace_extension (outdir @ ''csr'') ''.idx'')" "te_creates env (replace_extension (outdir @ ''csr'') ''.adj'')"
  obtains idx adj_bytes n where "encode_unweighted u False es = Some (idx, adj_bytes)"
    "csr_main env \<lparr> t_infile = Some infile, t_outdir = Some outdir, t_sorted = False, t_weighted = False,
                    t_make_undirected = u \<rparr> fs =
      (Exit_status 0, fs(replace_extension (outdir @ ''csr'') ''.idx'' \<mapsto> \<lparr> regular = True, opens = True, contents = idx \<rparr>,
                         replace_extension (outdir @ ''csr'') ''.adj'' \<mapsto> \<lparr> regular = True, opens = True, contents = adj_bytes \<rparr>))"
    "readable_graph (le_words 4) 4 id (stored_edges u es) idx adj_bytes n"
proof -
  obtain idx adj_bytes n where e: "encode_unweighted u False es = Some (idx, adj_bytes)"
    "readable_graph (le_words 4) 4 id (stored_edges u es) idx adj_bytes n"
    using encode_unweighted_ok [OF assms(1), of False] by blast
  have "extract_pairs (edge_text es) = es" using extract_pairs_text [of "[]" es] by simp
  then show thesis
    using that [OF e(1) _ e(2)] e assms(2) written_files [OF assms(3,4)] by (auto simp: csr_main_def stream_text_def replace_extension_inj)
qed

subsection \<open>Properties\<close>

text \<open>
  C18. From the text of an edge list to the files of the graph. Run on a text file with one edge per
  line, \<open>edge_list_to_csr\<close> reads back exactly the edges (numbers printed in decimal and extracted again
  do not change), exits with status 0 and writes two files, no other file changing; from them
  the client reads a well-formed index under which the adjacency lists are those of the edges, with
  the reversed edges if an undirected graph is requested.
\<close>

theorem csr_tool_converts_text:
  assumes "edges_ok id (stored_edges u es)"
    and "fs infile = Some \<lparr> regular = True, opens = True, contents = edge_text es \<rparr>"
    and "te_creates env (replace_extension (outdir @ ''csr'') ''.idx'')" "te_creates env (replace_extension (outdir @ ''csr'') ''.adj'')"
  shows "\<exists>idx adj_bytes n.
    csr_main env \<lparr> t_infile = Some infile, t_outdir = Some outdir, t_sorted = False, t_weighted = False,
                   t_make_undirected = u \<rparr> fs =
      (Exit_status 0, fs(replace_extension (outdir @ ''csr'') ''.idx'' \<mapsto> \<lparr> regular = True, opens = True, contents = idx \<rparr>,
                         replace_extension (outdir @ ''csr'') ''.adj'' \<mapsto> \<lparr> regular = True, opens = True, contents = adj_bytes \<rparr>)) \<and>
    readable_graph (le_words 4) 4 id (stored_edges u es) idx adj_bytes n"
  using csr_tool_files [OF assms(1), of fs infile env outdir, OF assms(2-4)] by metis

theorem csr_tool_converts_text_witness:
  "\<exists>idx adj_bytes n.
    csr_main \<lparr> te_creates = (\<lambda>_. True), te_float = (\<lambda>_. None), te_sort = (\<lambda>es. es) \<rparr>
      \<lparr> t_infile = Some ''g.txt'', t_outdir = Some ''d/'', t_sorted = False, t_weighted = False, t_make_undirected = True \<rparr>
      [''g.txt'' \<mapsto> \<lparr> regular = True, opens = True, contents = edge_text [(2, 0), (0, 1)] \<rparr>] =
      (Exit_status 0, [''g.txt'' \<mapsto> \<lparr> regular = True, opens = True, contents = edge_text [(2, 0), (0, 1)] \<rparr>,
                       ''d/csr.idx'' \<mapsto> \<lparr> regular = True, opens = True, contents = idx \<rparr>,
                       ''d/csr.adj'' \<mapsto> \<lparr> regular = True, opens = True, contents = adj_bytes \<rparr>]) \<and>
    readable_graph (le_words 4) 4 id [(2, 0), (0, 1), (0, 2), (1, 0)] idx adj_bytes n"
  using csr_tool_converts_text [of True "[(2, 0), (0, 1)]"
      "[''g.txt'' \<mapsto> \<lparr> regular = True, opens = True, contents = edge_text [(2, 0), (0, 1)] \<rparr>]" "''g.txt''"
      "\<lparr> te_creates = (\<lambda>_. True), te_float = (\<lambda>_. None), te_sort = (\<lambda>es. es) \<rparr>" "''d/''"]
    output_in_directory [of "''d''"]
  by (simp add: edges_ok_def stored_edges_def)

text \<open>
  The three converters agree: the transposing tool writes what \<open>edge_list_to_csr\<close> would write for the
  text with every edge reversed, and the older converter what it writes for the same text.
\<close>

lemma converters_agree:
  assumes "t_infile vm = Some p" "t_outdir vm = Some outdir" "fs p = Some f" "regular f" "\<not> t_weighted vm"
  shows "csr_main env vm fs =
      write_files env (replace_extension (outdir @ ''csr'') ''.idx'') (replace_extension (outdir @ ''csr'') ''.adj'')
        (encode_unweighted (t_make_undirected vm) (t_sorted vm) (extract_pairs (stream_text f))) fs"
    and "decsr_main env vm fs =
      write_files env (replace_extension (outdir @ ''decsr'') ''.idx'') (replace_extension (outdir @ ''decsr'') ''.adj'')
        (encode_unweighted (t_make_undirected vm) (t_sorted vm) (map prod.swap (extract_pairs (stream_text f)))) fs"
    and "old_main env vm fs =
      write_files env (replace_extension (outdir @ path_stem p) ''.idx'') (replace_extension (outdir @ path_stem p) ''.adj'')
        (encode_unweighted (t_make_undirected vm) (t_sorted vm) (extract_pairs (stream_text f))) fs"
  using assms by (simp_all add: csr_main_def decsr_main_def old_main_def old_encoders decsr_swaps)

end
