(* ===== verification/Graph_Tools.thy ===== *)
theory Graph_Tools
  imports Vertex_Table Converter
begin

text \<open>
  The remaining offline tools of \<open>src/util\<close>: \<open>maxd.cpp\<close> prints a maximum out-degree,
  \<open>fg2gr.cpp\<close> converts an index file and an edge file to the \<open>.gr\<close> format, \<open>compare_gr.cpp\<close>
  compares two such files. A file is its byte list, an exception or a trap is a value of
  \<open>tool_error\<close>; an exception that \<open>main\<close> catches is exit status 1. Paths name the same file only if they are
  equal. Progress output is not modelled.
\<close>

datatype tool_error =
    Caught string
  | Division_by_zero

subsection \<open>Reading\<close>

text \<open>\<open>read_one\<close> yields the object representation of one element and the rest of the stream.\<close>

definition read_one :: "nat \<Rightarrow> u8 list \<Rightarrow> tool_error + (u8 list \<times> u8 list)" where
  "read_one sz s = (if length (take sz s) \<noteq> sz then Inl (Caught ''can't read index data'')
                    else Inr (take sz s, drop sz s))"

definition validate_file :: "file_system \<Rightarrow> string \<Rightarrow> tool_error + file_entry" where
  "validate_file fs p =
     (case fs p of
        Some f \<Rightarrow> if regular f then Inr f else Inl (Caught ''file not found'')
      | None \<Rightarrow> Inl (Caught ''file not found''))"

definition open_file :: "file_entry \<Rightarrow> tool_error + u8 list" where
  "open_file f = (if opens f then Inr (contents f) else Inl (Caught ''Couldn't open file!''))"

subsection \<open>maxd.cpp\<close>

fun max_degree_loop :: "u64 \<Rightarrow> nat \<Rightarrow> u64 \<Rightarrow> u64 \<Rightarrow> u8 list \<Rightarrow> tool_error + u64" where
  "max_degree_loop num_vertices 0 prev_off mx s = Inr mx"
| "max_degree_loop num_vertices (Suc k) prev_off mx s =
     (case read_one 8 s of
        Inl e \<Rightarrow> Inl e
      | Inr (bs, s') \<Rightarrow>
          let off = le_word bs; edges = off - prev_off
          in if num_vertices div 100 = 0 then Inl Division_by_zero
             else max_degree_loop num_vertices k off (max edges mx) s')"

definition max_degree :: "file_entry \<Rightarrow> tool_error + u64" where
  "max_degree p =
     (let file_size = of_nat (length (contents p)); num_vertices = file_size div 8
      in if \<not> opens p then Inl (Caught ''Couldn't open .idx file'')
         else max_degree_loop num_vertices (unat num_vertices) 0 0 (contents p))"

definition maxd_main :: "file_system \<Rightarrow> string \<Rightarrow> tool_error + u64" where
  "maxd_main fs file =
     (case fs file of
        Some f \<Rightarrow> if regular f then max_degree f else Inl (Caught ''Input file not found'')
      | None \<Rightarrow> Inl (Caught ''Input file not found''))"

subsection \<open>fg2gr.cpp\<close>

definition num_elements :: "nat \<Rightarrow> file_entry \<Rightarrow> u64" where
  "num_elements sz f = of_nat (length (contents f)) div of_nat sz"

text \<open>The elements written so far are in the output also when a read fails.\<close>

fun write_as :: "nat \<Rightarrow> u8 list \<Rightarrow> u8 list \<Rightarrow> nat \<Rightarrow> (tool_error + u8 list) \<times> u8 list" where
  "write_as sz input os 0 = (Inr input, os)"
| "write_as sz input os (Suc n) =
     (case read_one sz input of
        Inl e \<Rightarrow> (Inl e, os)
      | Inr (x, input') \<Rightarrow> write_as sz input' (os @ x) n)"

definition write_header :: "u64 \<Rightarrow> u64 \<Rightarrow> u8 list" where
  "write_header n_v n_e =
     le_bytes 8 (1 :: u64) @ le_bytes 8 (0 :: u64) @ le_bytes 8 n_v @ le_bytes 8 n_e"

definition fg2gr_body :: "u64 \<Rightarrow> u64 \<Rightarrow> u8 list \<Rightarrow> u8 list \<Rightarrow> (tool_error + unit) \<times> u8 list" where
  "fg2gr_body verts edges idxstream adjstream =
     (let os = write_header verts edges
      in case read_one 8 idxstream of
           Inl e \<Rightarrow> (Inl e, os)
         | Inr (_, idxstream) \<Rightarrow>
             (case write_as 8 idxstream os (unat (verts - 1)) of
                (Inl e, os) \<Rightarrow> (Inl e, os)
              | (Inr _, os) \<Rightarrow>
                  (case write_as 4 adjstream (os @ le_bytes 8 edges) (unat edges) of
                     (Inl e, os) \<Rightarrow> (Inl e, os)
                   | (Inr _, os) \<Rightarrow> (Inr (), if edges AND 1 \<noteq> 0 then os @ le_bytes 4 (0 :: u32) else os))))"

record fg2gr_options =
  fg_idx :: "string option"
  fg_adj :: "string option"
  fg_symmetric :: bool

definition fg2gr_out :: "fg2gr_options \<Rightarrow> string \<Rightarrow> string" where
  "fg2gr_out vm f = (if fg_symmetric vm then replace_extension f ''.sgr'' else replace_extension f ''.gr'')"

text \<open>
  \<open>main\<close>. The output is opened, and with that truncated, before the sizes of the inputs are taken and the
  inputs are opened, so that an input with the name of the output is empty from then on. Whether the output could be
  opened is not tested: if not (\<open>creates\<close>), everything written is lost. The stream gets to the file at the latest
  when it is closed, also on the way to the handler of an exception. While the inputs are read, an input that is
  the output is read only while it is empty: the first read from it fails, or no element of it is read at all.
\<close>

definition fg2gr :: "(string \<Rightarrow> bool) \<Rightarrow> fg2gr_options \<Rightarrow> file_system \<Rightarrow> (tool_error + unit) \<times> file_system" where
  "fg2gr creates vm fs =
     (case (fg_idx vm, fg_adj vm) of
        (Some index, Some adj_path) \<Rightarrow>
          let out = fg2gr_out vm index;
              write = (\<lambda>os fs. if creates out then fs(out \<mapsto> \<lparr> regular = True, opens = True, contents = os \<rparr>) else fs)
          in (case validate_file fs index of Inl e \<Rightarrow> (Inl e, fs) | Inr _ \<Rightarrow>
             (case validate_file fs adj_path of Inl e \<Rightarrow> (Inl e, fs) | Inr _ \<Rightarrow>
              let fs = write [] fs; fi = the (fs index); fa = the (fs adj_path);
                  verts = num_elements 8 fi; edges = num_elements 4 fa
              in (case open_file fi of Inl e \<Rightarrow> (Inl e, fs) | Inr idxstream \<Rightarrow>
                 (case open_file fa of Inl e \<Rightarrow> (Inl e, fs) | Inr adjstream \<Rightarrow>
                  let (r, os) = fg2gr_body verts edges idxstream adjstream in (r, write os fs)))))
      | _ \<Rightarrow> (Inl (Caught ''boost::bad_any_cast''), fs))"

subsection \<open>compare_gr.cpp\<close>

text \<open>The values printed by \<open>compare_for\<close>: position and the two elements that differ.\<close>

fun compare_for ::
    "nat \<Rightarrow> nat \<Rightarrow> nat \<Rightarrow> u8 list \<Rightarrow> u8 list \<Rightarrow> tool_error + ((nat \<times> u64 \<times> u64) list \<times> u8 list \<times> u8 list)" where
  "compare_for sz i 0 streamA streamB = Inr ([], streamA, streamB)"
| "compare_for sz i (Suc n) streamA streamB =
     (case read_one sz streamA of
        Inl e \<Rightarrow> Inl e
      | Inr (a, streamA) \<Rightarrow>
          (case read_one sz streamB of
             Inl e \<Rightarrow> Inl e
           | Inr (b, streamB) \<Rightarrow>
               (case compare_for sz (Suc i) n streamA streamB of
                  Inl e \<Rightarrow> Inl e
                | Inr (ds, rest) \<Rightarrow> Inr (if a \<noteq> b then (i, le_word a, le_word b) # ds else ds, rest))))"

record gr_header =
  gr_version :: u64
  gr_weight :: u64
  gr_verts :: u64
  gr_edges :: u64

definition read_header :: "u8 list \<Rightarrow> tool_error + (gr_header \<times> u8 list)" where
  "read_header s =
     (case read_one 8 s of Inl e \<Rightarrow> Inl e | Inr (v, s) \<Rightarrow>
     (case read_one 8 s of Inl e \<Rightarrow> Inl e | Inr (weight, s) \<Rightarrow>
     (case read_one 8 s of Inl e \<Rightarrow> Inl e | Inr (verts, s) \<Rightarrow>
     (case read_one 8 s of Inl e \<Rightarrow> Inl e | Inr (edges, s) \<Rightarrow>
       Inr (\<lparr> gr_version = le_word v, gr_weight = le_word weight,
              gr_verts = le_word verts, gr_edges = le_word edges \<rparr>, s)))))"

definition headers_matched :: "gr_header \<Rightarrow> gr_header \<Rightarrow> bool" where
  "headers_matched a b \<longleftrightarrow> gr_version a = gr_version b \<or> gr_weight a = gr_weight b \<or>
     gr_verts a = gr_verts b \<or> gr_edges a = gr_edges b"

definition compare_headers ::
    "u8 list \<Rightarrow> u8 list \<Rightarrow> tool_error + ((bool \<times> u64 \<times> u64) \<times> u8 list \<times> u8 list)" where
  "compare_headers streamA streamB =
     (case read_header streamA of Inl e \<Rightarrow> Inl e | Inr (a, streamA) \<Rightarrow>
     (case read_header streamB of Inl e \<Rightarrow> Inl e | Inr (b, streamB) \<Rightarrow>
       Inr ((headers_matched a b, gr_verts a, gr_edges a), streamA, streamB)))"

datatype gr_report =
    Headers_do_not_match
  | Differences "(nat \<times> u64 \<times> u64) list" "(nat \<times> u64 \<times> u64) list"

definition compare_gr_body :: "u8 list \<Rightarrow> u8 list \<Rightarrow> tool_error + gr_report" where
  "compare_gr_body inputA inputB =
     (case compare_headers inputA inputB of Inl e \<Rightarrow> Inl e | Inr ((m, V, E), inputA, inputB) \<Rightarrow>
        if \<not> m then Inr Headers_do_not_match
        else
          (case compare_for 8 0 (unat V) inputA inputB of Inl e \<Rightarrow> Inl e | Inr (ds, inputA, inputB) \<Rightarrow>
          (case compare_for 4 0 (unat E) inputA inputB of Inl e \<Rightarrow> Inl e | Inr (es, _) \<Rightarrow>
             Inr (Differences ds es))))"

definition compare_gr :: "file_system \<Rightarrow> string \<Rightarrow> string \<Rightarrow> tool_error + gr_report" where
  "compare_gr fs f1 f2 =
     (case validate_file fs f1 of Inl e \<Rightarrow> Inl e | Inr fa \<Rightarrow>
     (case validate_file fs f2 of Inl e \<Rightarrow> Inl e | Inr fb \<Rightarrow>
     (case open_file fa of Inl e \<Rightarrow> Inl e | Inr inputA \<Rightarrow>
     (case open_file fb of Inl e \<Rightarrow> Inl e | Inr inputB \<Rightarrow> compare_gr_body inputA inputB))))"

subsection \<open>Streams of written elements\<close>

lemma read_one_written [simp]: "length x = sz \<Longrightarrow> read_one sz (x @ s) = Inr (x, s)"
  by (simp add: read_one_def)

lemma read_one_le_bytes [simp]: "read_one sz (le_bytes sz w @ s) = Inr (le_bytes sz w, s)"
  by simp

lemma le_word8 [simp]: "le_word (le_bytes 8 w) = (w :: u64)"
  by (simp add: le_word_le_bytes)

lemma write_as_exact: "length xs = sz * n \<Longrightarrow> write_as sz (xs @ s) os n = (Inr s, os @ xs)"
proof (induction n arbitrary: xs os)
  case (Suc n)
  have "read_one sz (xs @ s) = Inr (take sz xs, drop sz xs @ s)" using Suc.prems by (simp add: read_one_def)
  moreover have "length (drop sz xs) = sz * n" using Suc.prems by simp
  ultimately show ?case using Suc.IH [of "drop sz xs" "os @ take sz xs"] by simp
qed simp

text \<open>\<open>max_degree_loop\<close> over written offsets, with at least one hundred vertices.\<close>

lemma max_degree_loop_written:
  assumes "nv div 100 \<noteq> 0"
  shows "max_degree_loop nv (length ixs) prev mx (concat (map (le_bytes 8) ixs) @ s) =
           Inr (fold (\<lambda>d m. max m d) (map2 (-) ixs (prev # butlast ixs)) mx)"
proof (induction ixs arbitrary: prev mx)
  case (Cons x ixs)
  have "map2 (-) (x # ixs) (prev # butlast (x # ixs)) = (x - prev) # map2 (-) ixs (x # butlast ixs)"
    by (cases ixs) simp_all
  then show ?case using assms Cons.IH [of x "max (x - prev) mx"] by (simp add: max.commute)
qed simp

lemma max_degree_loop_small:
  "nv div 100 = 0 \<Longrightarrow> 8 \<le> length s \<Longrightarrow> max_degree_loop nv (Suc k) prev mx s = Inl Division_by_zero"
  by (simp add: read_one_def)

subsection \<open>The maximum that maxd.cpp prints\<close>

lemma fold_max_Max:
  fixes f :: "'a \<Rightarrow> 'b::linorder"
  shows "fold (\<lambda>x m. max m (f x)) xs a = Max (insert a (f ` set xs))"
proof (rule Max_eqI [symmetric])
  show "y \<le> fold (\<lambda>x m. max m (f x)) xs a" if "y \<in> insert a (f ` set xs)" for y
    using that fold_max_props(1) [of a f xs] fold_max_props(2) [of _ xs f a] by auto
  show "fold (\<lambda>x m. max m (f x)) xs a \<in> insert a (f ` set xs)"
    using fold_max_props(3) [of f xs a] by auto
qed simp

lemma unat_Max: "finite S \<Longrightarrow> S \<noteq> {} \<Longrightarrow> unat (Max S) = Max (unat ` (S :: 'a::len word set))"
  by (rule mono_Max_commute) (auto simp: mono_def word_le_nat_alt)

lemma max_out_degree_deg:
  assumes "csr_ok table n m"
  shows "unat (get_max_out_degree table n m) = Max (insert 0 (deg table m ` {..<unat n}))"
proof -
  have "unat ` insert 0 ((\<lambda>v. get_num_edges v table n m) ` {v. v < n}) = insert 0 ((\<lambda>v. deg table m (unat v)) ` {v. v < n})"
    using get_num_edges_deg [OF assms] by (auto simp: image_iff)
  also have "(\<lambda>v. deg table m (unat v)) ` {v. v < n} = deg table m ` unat ` set (u32_range 0 n)"
    by (simp add: image_image)
  also have "unat ` set (u32_range 0 n) = {..<unat n}"
    unfolding set_map [symmetric] map_unat_u32_range by (simp add: lessThan_atLeast0)
  finally show ?thesis by (simp add: get_max_out_degree_def fold_max_Max unat_Max)
qed

lemma offset_differences:
  assumes "csr_ok (map vertex.make ixs) n m" "hd ixs = 0" "ixs \<noteq> []"
  shows "unat ` set (map2 (-) ixs (0 # butlast ixs)) = insert 0 (deg (map vertex.make ixs) m ` {..<unat n - 1})"
proof -
  let ?t = "map vertex.make ixs"
  have n: "length ixs = unat n" using csr_ok_length [OF assms(1)] by simp
  have o: "off ?t m k = unat (ixs ! k)" if "k < unat n" for k
    using that n by (simp add: off_def vertex.make_def)
  have d: "unat (ixs ! Suc k - ixs ! k) = deg ?t m k" if "Suc k < unat n" for k
  proof -
    have "ixs ! k \<le> ixs ! Suc k"
      using off_mono [OF assms(1), of k "Suc k"] o [of k] o [of "Suc k"] that by (simp add: word_le_nat_alt)
    then show ?thesis using o [of k] o [of "Suc k"] that by (simp add: deg_def unat_sub_word)
  qed
  have nth: "map2 (-) ixs (0 # butlast ixs) ! k = (if k = 0 then 0 else ixs ! k - ixs ! (k - 1))" if "k < unat n" for k
    using that n assms(2,3) by (cases k) (simp_all add: nth_butlast hd_conv_nth)
  have "length (map2 (-) ixs (0 # butlast ixs)) = unat n" using n assms(3) by (cases ixs) simp_all
  then have "set (map2 (-) ixs (0 # butlast ixs)) = (\<lambda>k. map2 (-) ixs (0 # butlast ixs) ! k) ` {..<unat n}"
    by (metis atLeast0LessThan list.set_map map_nth set_upt)
  also have "\<dots> = (\<lambda>k. if k = 0 then 0 else ixs ! k - ixs ! (k - 1)) ` {..<unat n}"
    using nth by (intro image_cong) auto
  also have "{..<unat n} = insert 0 (Suc ` {..<unat n - 1})"
    using n assms(3) by (cases "unat n") (auto simp: lessThan_Suc_eq_insert_0)
  finally have "unat ` set (map2 (-) ixs (0 # butlast ixs)) =
      insert 0 ((\<lambda>k. unat (ixs ! Suc k - ixs ! k)) ` {..<unat n - 1})"
    by (simp only: image_insert image_image) simp
  also have "(\<lambda>k. unat (ixs ! Suc k - ixs ! k)) ` {..<unat n - 1} = deg ?t m ` {..<unat n - 1}"
    using d by (intro image_cong) auto
  finally show ?thesis .
qed

lemma max_degree_of_index:
  assumes "csr_ok (map vertex.make ixs) n m" "hd ixs = 0" "100 \<le> unat n"
  shows "\<exists>d. max_degree \<lparr> regular = True, opens = True, contents = concat (map (le_bytes 8) ixs) \<rparr> = Inr d \<and>
           unat d = Max (insert 0 (deg (map vertex.make ixs) m ` {..<unat n - 1}))"
proof -
  have n: "length ixs = unat n" using csr_ok_length [OF assms(1)] by simp
  have "unat (of_nat (8 * length ixs) :: u64) = 8 * length ixs"
    using n unat_u32_lt [of n] by (intro unat_of_nat_u64) simp
  then have nv: "unat ((of_nat (8 * length ixs) :: u64) div 8) = length ixs" by (simp add: unat_div_distrib)
  then have "unat ((of_nat (8 * length ixs) :: u64) div 8 div 100) = length ixs div 100"
    by (simp add: unat_div_distrib)
  then have "(of_nat (8 * length ixs) :: u64) div 8 div 100 \<noteq> 0" using n assms(3) by (auto simp: unat_eq_0)
  note L = max_degree_loop_written [OF this, of ixs 0 0 "[]", unfolded append_Nil2]
  let ?d = "Max (insert 0 (set (map2 (-) ixs (0 # butlast ixs))))"
  have "max_degree \<lparr> regular = True, opens = True, contents = concat (map (le_bytes 8) ixs) \<rparr> = Inr ?d"
    unfolding max_degree_def Let_def file_entry.select_convs length_concat_le_bytes nv L
      fold_max_Max [of "\<lambda>x. x"] image_ident by (rule if_not_P) simp
  moreover have "ixs \<noteq> []" using n assms(3) by auto
  then have i: "unat ` set (map2 (-) ixs (0 # butlast ixs)) = insert 0 (deg (map vertex.make ixs) m ` {..<unat n - 1})"
    by (rule offset_differences [OF assms(1,2)])
  have "unat ?d = Max (unat ` insert 0 (set (map2 (-) ixs (0 # butlast ixs))))" by (intro unat_Max) auto
  then have "unat ?d = Max (insert 0 (deg (map vertex.make ixs) m ` {..<unat n - 1}))"
    unfolding image_insert i by (simp only: unat_0 insert_absorb2)
  ultimately show ?thesis by blast
qed

subsection \<open>The .gr format\<close>

text \<open>
  A reader of the format: four header words, the end offset of every row, the destinations. Row
  \<open>v\<close> starts where the row before it ends.
\<close>

definition gr_row :: "u8 list \<Rightarrow> nat \<Rightarrow> u32 list" where
  "gr_row f v =
     (let n = unat (le_word (take 8 (drop 16 f)) :: u64); m = unat (le_word (take 8 (drop 24 f)) :: u64);
          ends = le_words 8 n (drop 32 f) :: u64 list; dests = le_words 4 m (drop (32 + 8 * n) f);
          start = (if v = 0 then 0 else unat (ends ! (v - 1)))
      in take (unat (ends ! v) - start) (drop start dests))"

definition gr_file :: "u64 list \<Rightarrow> u32 list \<Rightarrow> u8 list" where
  "gr_file ends ds = write_header (of_nat (length ends)) (of_nat (length ds)) @
     concat (map (le_bytes 8) ends) @ concat (map (le_bytes 4) ds) @ (if odd (length ds) then le_bytes 4 (0 :: u32) else [])"

abbreviation readable :: "u8 list \<Rightarrow> file_entry" where
  "readable bs \<equiv> \<lparr> regular = True, opens = True, contents = bs \<rparr>"

lemma length_write_header [simp]: "length (write_header a b) = 32"
  by (simp add: write_header_def)

lemma num_elements_written:
  assumes "sz * length ws < 2 ^ 64" "0 < sz"
  shows "num_elements sz (readable (concat (map (le_bytes sz) ws))) = of_nat (length ws)"
proof -
  have "unat (of_nat (sz * length ws) :: u64) = sz * length ws" using assms(1) by (rule unat_of_nat_u64)
  moreover have "unat (of_nat sz :: u64) = sz"
    if "ws \<noteq> []" using that assms by (intro unat_of_nat_u64) (cases ws, auto)
  ultimately have "unat (num_elements sz (readable (concat (map (le_bytes sz) ws)))) = length ws"
    using assms(2) by (cases "ws = []") (simp_all only: num_elements_def file_entry.select_convs length_concat_le_bytes unat_div_distrib, simp_all)
  then have "of_nat (unat (num_elements sz (readable (concat (map (le_bytes sz) ws))))) = (of_nat (length ws) :: u64)" by simp
  then show ?thesis by simp
qed

lemma fg2gr_body_written:
  assumes "ixs \<noteq> []" "8 * length ixs < 2 ^ 64" "4 * length ds < 2 ^ 64"
  shows "fg2gr_body (of_nat (length ixs)) (of_nat (length ds)) (concat (map (le_bytes 8) ixs)) (concat (map (le_bytes 4) ds)) =
         (Inr (), gr_file (tl ixs @ [of_nat (length ds)]) ds)"
proof -
  obtain i js where ixs: "ixs = i # js" using assms(1) by (cases ixs) auto
  have le: "length (tl ixs @ [of_nat (length ds) :: u64]) = length ixs" using ixs by simp
  have u: "unat (of_nat (length ixs) - 1 :: u64) = length js" "unat (of_nat (length ds) :: u64) = length ds"
    using assms(2,3) ixs by (simp_all add: unat_of_nat_u64)
  have r: "read_one 8 (concat (map (le_bytes 8) ixs)) = Inr (le_bytes 8 i, concat (map (le_bytes 8) js))"
    by (simp add: ixs)
  have o: "(of_nat (length ds) :: u64) AND 1 \<noteq> 0 \<longleftrightarrow> odd (length ds)"
    using u(2) by (simp add: and_one_eq word_unat_eq_iff unat_mod_distrib odd_iff_mod_2_eq_one)
  have w: "write_as 8 (concat (map (le_bytes 8) js)) os (length js) = (Inr [], os @ concat (map (le_bytes 8) js))"
    "write_as 4 (concat (map (le_bytes 4) ds)) os (length ds) = (Inr [], os @ concat (map (le_bytes 4) ds))" for os
    using write_as_exact [of "concat (map (le_bytes 8) js)" 8 "length js" "[]" os]
      write_as_exact [of "concat (map (le_bytes 4) ds)" 4 "length ds" "[]" os] by simp_all
  show ?thesis
    unfolding fg2gr_body_def Let_def r u sum.case prod.case w o gr_file_def le by (simp add: ixs)
qed

text \<open>An index file with the extension of the output is destroyed: only a header is left of it.\<close>

lemma fg2gr_overwrites_index:
  assumes "fg_idx vm = Some p" "fg_adj vm = Some a" "fg2gr_out vm p = p" "creates p" "a \<noteq> p"
    and "fs p = Some fi" "regular fi" "fs a = Some fa" "regular fa" "opens fa"
  shows "fg2gr creates vm fs = (Inl (Caught ''can't read index data''), fs(p \<mapsto> readable (write_header 0 (num_elements 4 fa))))"
  using assms by (simp add: fg2gr_def validate_file_def open_file_def fg2gr_body_def read_one_def num_elements_def Let_def)

lemma gr_row_file:
  assumes "length ends < 2 ^ 64" "length ds < 2 ^ 64"
  shows "gr_row (gr_file ends ds) v =
    (let start = (if v = 0 then 0 else unat (ends ! (v - 1))) in take (unat (ends ! v) - start) (drop start ds))"
proof -
  let ?pad = "if odd (length ds) then le_bytes 4 (0 :: u32) else []"
  have f: "drop 16 (gr_file ends ds) = le_bytes 8 (of_nat (length ends) :: u64) @ drop 24 (gr_file ends ds)"
    "drop 24 (gr_file ends ds) = le_bytes 8 (of_nat (length ds) :: u64) @ drop 32 (gr_file ends ds)"
    "drop 32 (gr_file ends ds) = concat (map (le_bytes 8) ends) @ concat (map (le_bytes 4) ds) @ ?pad"
    by (simp_all add: gr_file_def write_header_def)
  have h: "le_word (take 8 (drop 16 (gr_file ends ds))) = (of_nat (length ends) :: u64)"
    "le_word (take 8 (drop 24 (gr_file ends ds))) = (of_nat (length ds) :: u64)"
    by (simp_all add: f(1)) (simp add: f(2))
  have d: "drop (32 + 8 * length ends) (gr_file ends ds) = concat (map (le_bytes 4) ds) @ ?pad"
    using f(3) by (simp add: add.commute [of 32] flip: drop_drop)
  have w: "le_words 8 (length ends) (drop 32 (gr_file ends ds)) = ends"
    "le_words 4 (length ds) (drop (32 + 8 * length ends) (gr_file ends ds)) = ds"
    unfolding f(3) d by (simp_all add: le_words_written)
  have u: "unat (of_nat (length ends) :: u64) = length ends" "unat (of_nat (length ds) :: u64) = length ds"
    using assms by (auto intro: unat_of_nat_u64)
  show ?thesis by (simp only: gr_row_def h u w Let_def)
qed

lemma gr_rows_adjacency:
  assumes "csr_ok (map vertex.make ixs) n (of_nat (length ds))" "hd ixs = 0" "length ds < 2 ^ 64" "v < unat n"
  shows "gr_row (gr_file (tl ixs @ [of_nat (length ds)]) ds) v = adj ds (map vertex.make ixs) (of_nat (length ds)) v"
proof -
  let ?t = "map vertex.make ixs" and ?m = "of_nat (length ds) :: u64"
  let ?ends = "tl ixs @ [?m]"
  have n: "length ixs = unat n" using csr_ok_length [OF assms(1)] by simp
  then have ne: "ixs \<noteq> []" using assms(4) by auto
  have le: "length ?ends = unat n" using n assms(4) by simp
  have "length ?ends < 2 ^ 64" using le unat_u32_lt [of n] by simp
  then have g: "gr_row (gr_file ?ends ds) v =
      (let start = (if v = 0 then 0 else unat (?ends ! (v - 1))) in take (unat (?ends ! v) - start) (drop start ds))"
    by (rule gr_row_file) (use assms(3) in simp)
  have e: "unat (?ends ! k) = off ?t ?m (Suc k)" if "k < unat n" for k
    using that n ne by (cases ixs) (auto simp: off_def nth_append vertex.make_def less_Suc_eq)
  have "(if v = 0 then 0 else unat (?ends ! (v - 1))) = off ?t ?m v"
    using assms(2,4) e [of "v - 1"] n ne by (cases v) (auto simp: off_def hd_conv_nth vertex.make_def)
  then show ?thesis using e [OF assms(4)] by (simp only: g Let_def adj_def deg_def)
qed

lemma length_gr_file: "8 dvd length (gr_file ends ds)"
proof (cases "odd (length ds)")
  case True
  then obtain k where "length ds = 2 * k + 1" by (elim oddE)
  then have "length (gr_file ends ds) = 8 * (5 + length ends + k)" by (simp add: gr_file_def)
  then show ?thesis by (metis dvd_triv_left)
next
  case False
  then obtain k where "length ds = 2 * k" by (auto elim: evenE)
  then have "length (gr_file ends ds) = 8 * (4 + length ends + k)" by (simp add: gr_file_def)
  then show ?thesis by (metis dvd_triv_left)
qed

subsection \<open>Comparison\<close>

lemma compare_for_spec:
  assumes "sz * n \<le> length a" "sz * n \<le> length b"
  shows "\<exists>ds. compare_for sz i n a b = Inr (ds, drop (sz * n) a, drop (sz * n) b) \<and>
           (ds = [] \<longleftrightarrow> take (sz * n) a = take (sz * n) b)"
  using assms
proof (induction n arbitrary: i a b)
  case (Suc n)
  have l: "sz \<le> length a" "sz \<le> length b" "sz * n \<le> length (drop sz a)" "sz * n \<le> length (drop sz b)"
    using Suc.prems by auto
  obtain ds where ds: "compare_for sz (Suc i) n (drop sz a) (drop sz b) = Inr (ds, drop (sz * n) (drop sz a), drop (sz * n) (drop sz b))"
      "ds = [] \<longleftrightarrow> take (sz * n) (drop sz a) = take (sz * n) (drop sz b)"
    using Suc.IH [OF l(3,4)] by blast
  have t: "take (sz * Suc n) xs = take sz xs @ take (sz * n) (drop sz xs)" for xs :: "u8 list" by (simp add: take_add)
  have "length (take sz a) = length (take sz b)" using l by simp
  then have "take (sz * Suc n) a = take (sz * Suc n) b \<longleftrightarrow>
      take sz a = take sz b \<and> take (sz * n) (drop sz a) = take (sz * n) (drop sz b)"
    unfolding t by (rule append_eq_append_conv [OF disjI1])
  then show ?case using ds l by (simp add: read_one_def add.commute)
qed simp

subsection \<open>Properties\<close>

text \<open>
  C37. \<open>fg2gr\<close> keeps the graph. For the two files of a well-formed graph with at least one vertex,
  neither of which has the name of the output, and if the output can be created, the tool exits with
  status 0 and changes only the output file: its length is a multiple of eight, and a reader of the
  \<open>.gr\<close> format finds in it the same adjacency list for every vertex.
\<close>

theorem fg2gr_keeps_graph:
  assumes "fg_idx vm = Some idx_path" "fg_adj vm = Some adj_path"
    and "fs idx_path = Some (readable (concat (map (le_bytes 8) ixs)))"
    and "fs adj_path = Some (readable (concat (map (le_bytes 4) ds)))"
    and "csr_ok (map vertex.make ixs) n (of_nat (length ds))" "hd ixs = 0" "0 < n" "4 * length ds < 2 ^ 64"
    and "creates (fg2gr_out vm idx_path)" "fg2gr_out vm idx_path \<noteq> idx_path" "fg2gr_out vm idx_path \<noteq> adj_path"
  shows "\<exists>gr. fg2gr creates vm fs = (Inr (), fs(fg2gr_out vm idx_path \<mapsto> readable gr)) \<and> 8 dvd length gr \<and>
           map (gr_row gr) [0..<unat n] = map (adj ds (map vertex.make ixs) (of_nat (length ds))) [0..<unat n]"
proof -
  have n: "length ixs = unat n" using csr_ok_length [OF assms(5)] by simp
  then have i: "ixs \<noteq> []" "8 * length ixs < 2 ^ 64"
    using assms(7) unat_u32_lt [of n] by (auto simp: word_gt_0 unat_eq_0)
  have ne: "num_elements 8 (readable (concat (map (le_bytes 8) ixs))) = of_nat (length ixs)"
    "num_elements 4 (readable (concat (map (le_bytes 4) ds))) = of_nat (length ds)"
    using i assms(8) by (auto intro!: num_elements_written)
  have "fg2gr creates vm fs = (Inr (), fs(fg2gr_out vm idx_path \<mapsto> readable (gr_file (tl ixs @ [of_nat (length ds)]) ds)))"
    using assms(1-4,9-11) fg2gr_body_written [OF i assms(8)] ne
    by (simp add: fg2gr_def validate_file_def open_file_def Let_def del: map_concat)
  moreover have "map (gr_row (gr_file (tl ixs @ [of_nat (length ds)]) ds)) [0..<unat n] =
      map (adj ds (map vertex.make ixs) (of_nat (length ds))) [0..<unat n]"
    using gr_rows_adjacency [OF assms(5,6)] assms(8) by (intro map_cong) auto
  ultimately show ?thesis using length_gr_file by blast
qed

theorem fg2gr_keeps_graph_witness:
  "\<exists>gr. fg2gr (\<lambda>_. True) \<lparr> fg_idx = Some ''g.idx'', fg_adj = Some ''g.adj'', fg_symmetric = False \<rparr>
       [''g.idx'' \<mapsto> readable (concat (map (le_bytes 8) [0, 2 :: u64])), ''g.adj'' \<mapsto> readable (concat (map (le_bytes 4) [1, 1, 0 :: u32]))] =
     (Inr (), [''g.idx'' \<mapsto> readable (concat (map (le_bytes 8) [0, 2 :: u64])),
               ''g.adj'' \<mapsto> readable (concat (map (le_bytes 4) [1, 1, 0 :: u32])), ''g.gr'' \<mapsto> readable gr]) \<and>
     8 dvd length gr \<and> map (gr_row gr) [0..<2] = [[1, 1], [0]]"
proof -
  let ?vm = "\<lparr> fg_idx = Some ''g.idx'', fg_adj = Some ''g.adj'', fg_symmetric = False \<rparr>"
  let ?fs = "[''g.idx'' \<mapsto> readable (concat (map (le_bytes 8) [0, 2 :: u64])), ''g.adj'' \<mapsto> readable (concat (map (le_bytes 4) [1, 1, 0 :: u32]))]"
  have ok: "csr_ok (map vertex.make [0, 2]) 2 (of_nat (length [1, 1, 0 :: u32]))"
    by (auto simp: csr_ok_def off_def deg_def vertex.make_def less_Suc_eq)
  have o: "fg2gr_out ?vm ''g.idx'' = ''g.gr''" by (simp add: fg2gr_out_def replace_extension_def path_stem_def path_filename_def Let_def)
  have a: "map (adj [1, 1, 0 :: u32] (map vertex.make [0, 2]) (of_nat (length [1, 1, 0 :: u32]))) [0..<unat (2 :: u32)] = [[1, 1], [0]]"
    by (simp add: adj_def off_def deg_def vertex.make_def upt_rec)
  have f: "?fs ''g.idx'' = Some (readable (concat (map (le_bytes 8) [0, 2 :: u64])))"
    "?fs ''g.adj'' = Some (readable (concat (map (le_bytes 4) [1, 1, 0 :: u32])))" by simp_all
  from fg2gr_keeps_graph [of ?vm "''g.idx''" "''g.adj''" ?fs "[0, 2]" "[1, 1, 0]" 2 "\<lambda>_. True", OF _ _ f ok] show ?thesis
    unfolding a o by simp
qed

text \<open>
  \<open>compare_gr\<close> on two files with equal headers that are long enough for them reports the
  elements that differ: the report is empty exactly if the index words and destinations agree.
\<close>

lemma compare_gr_exact:
  assumes "fs f1 = Some (readable a)" "fs f2 = Some (readable b)"
    and "read_header a = Inr (h, ra)" "read_header b = Inr (h, rb)"
    and "8 * unat (gr_verts h) + 4 * unat (gr_edges h) \<le> length ra"
    and "8 * unat (gr_verts h) + 4 * unat (gr_edges h) \<le> length rb"
  shows "\<exists>ds es. compare_gr fs f1 f2 = Inr (Differences ds es) \<and>
           ((ds = [] \<and> es = []) = (take (8 * unat (gr_verts h) + 4 * unat (gr_edges h)) ra =
                                  take (8 * unat (gr_verts h) + 4 * unat (gr_edges h)) rb))"
proof -
  let ?V = "8 * unat (gr_verts h)" and ?E = "4 * unat (gr_edges h)"
  obtain ds where ds: "compare_for 8 0 (unat (gr_verts h)) ra rb = Inr (ds, drop ?V ra, drop ?V rb)"
      "ds = [] \<longleftrightarrow> take ?V ra = take ?V rb"
    using compare_for_spec [of 8 "unat (gr_verts h)" ra rb 0] assms(5,6) by auto
  have l: "?E \<le> length (drop ?V ra)" "?E \<le> length (drop ?V rb)" using assms(5,6) by auto
  obtain es where es: "compare_for 4 0 (unat (gr_edges h)) (drop ?V ra) (drop ?V rb) =
        Inr (es, drop ?E (drop ?V ra), drop ?E (drop ?V rb))"
      "es = [] \<longleftrightarrow> take ?E (drop ?V ra) = take ?E (drop ?V rb)"
    using compare_for_spec [OF l, of 0] by blast
  have "compare_gr fs f1 f2 = Inr (Differences ds es)"
    using assms(1-4) ds(1) es(1)
    by (simp add: compare_gr_def validate_file_def open_file_def compare_gr_body_def compare_headers_def headers_matched_def)
  moreover have "(ds = [] \<and> es = []) = (take (?V + ?E) ra = take (?V + ?E) rb)"
    unfolding ds(2) es(2) take_add using assms(5,6) by (simp add: append_eq_append_conv)
  ultimately show ?thesis by blast
qed

lemma compare_gr_exact_witness:
  "\<exists>ds es. compare_gr (\<lambda>_. Some (readable (gr_file [1] [0]))) ''a'' ''b'' = Inr (Differences ds es) \<and> ds = [] \<and> es = []"
proof -
  have "read_header (gr_file [1] [0]) = Inr (\<lparr> gr_version = 1, gr_weight = 0, gr_verts = 1, gr_edges = 1 \<rparr>, drop 32 (gr_file [1] [0]))"
    by (simp add: gr_file_def read_header_def write_header_def)
  then show ?thesis
    using compare_gr_exact [of "\<lambda>_. Some (readable (gr_file [1] [0]))" "''a''" "gr_file [1] [0]" "''b''"]
    by (auto simp: gr_file_def)
qed

text \<open>
  The header test of \<open>compare_gr\<close> does not reject graphs of different size: any two headers
  that \<open>fg2gr\<close> writes match, whatever their vertex and edge counts, and the counts of the first
  file are used for both.
\<close>

lemma compare_headers_ignores_counts:
  "compare_headers (write_header n m @ ra) (write_header n' m' @ rb) = Inr ((True, n, m), ra, rb)"
  by (simp add: compare_headers_def read_header_def write_header_def headers_matched_def)

text \<open>
  What \<open>maxd\<close> prints for the index of a graph with at least one hundred vertices: the maximum
  of the out-degrees of all vertices but the last one, which has no next offset in the file. The
  true maximum is the larger of this number and the out-degree of the last vertex.
\<close>

lemma maxd_misses_last_vertex:
  assumes "fs file = Some (readable (concat (map (le_bytes 8) ixs)))"
    and "csr_ok (map vertex.make ixs) n m" "hd ixs = 0" "100 \<le> unat n"
  shows "\<exists>d. maxd_main fs file = Inr d \<and> unat d = Max (insert 0 (deg (map vertex.make ixs) m ` {..<unat n - 1})) \<and>
           unat (get_max_out_degree (map vertex.make ixs) n m) = max (unat d) (deg (map vertex.make ixs) m (unat n - 1))"
proof -
  let ?D = "deg (map vertex.make ixs) m"
  obtain d where d: "max_degree (readable (concat (map (le_bytes 8) ixs))) = Inr d" "unat d = Max (insert 0 (?D ` {..<unat n - 1}))"
    using max_degree_of_index [OF assms(2-4)] by blast
  have "{..<unat n} = insert (unat n - 1) {..<unat n - 1}" using assms(4) by auto
  then have "insert 0 (?D ` {..<unat n}) = insert (?D (unat n - 1)) (insert 0 (?D ` {..<unat n - 1}))"
    by (simp only: image_insert insert_commute)
  then have "unat (get_max_out_degree (map vertex.make ixs) n m) = max (unat d) (?D (unat n - 1))"
    using max_out_degree_deg [OF assms(2)] d(2) by (simp add: max.commute)
  with d assms(1) show ?thesis by (simp add: maxd_main_def)
qed

lemma csr_ok_single_row:
  "csr_ok (map vertex.make (replicate 100 0)) 100 3"
proof -
  have o: "off (map vertex.make (replicate 100 0)) 3 k = (if k < 100 then 0 else 3)" for k
    by (simp add: off_def vertex.make_def)
  show ?thesis unfolding csr_ok_def deg_def o by simp
qed

lemma maxd_misses_last_vertex_witness:
  "\<exists>d. maxd_main (\<lambda>_. Some (readable (concat (map (le_bytes 8) (replicate 100 (0 :: u64)))))) ''g.idx'' = Inr d \<and>
     unat d = 0 \<and> unat (get_max_out_degree (map vertex.make (replicate 100 0)) 100 3) = 3"
proof -
  have g: "deg (map vertex.make (replicate 100 0)) 3 k = (if k = 99 then 3 else 0)" for k
    by (auto simp: off_def deg_def vertex.make_def)
  have "deg (map vertex.make (replicate 100 0)) 3 ` {..<99} = (\<lambda>k. 0) ` {..<99 :: nat}"
    by (intro image_cong refl) (simp only: g lessThan_iff, simp)
  also have "\<dots> = {0}" by (rule image_constant [of 0]) simp
  finally have i: "deg (map vertex.make (replicate 100 0)) 3 ` {..<99} = {0}" .
  show ?thesis
    using maxd_misses_last_vertex [OF refl csr_ok_single_row, of "''g.idx''"] i g [of 99] by fastforce
qed

text \<open>
  On the index of a graph with fewer than one hundred vertices (and at least one), the
  tool \<open>maxd\<close> divides by zero in the computation of its progress output.
\<close>

lemma maxd_small_graph_traps:
  assumes "fs file = Some (readable (concat (map (le_bytes 8) (ixs :: u64 list))))" "ixs \<noteq> []" "length ixs < 100"
  shows "maxd_main fs file = Inl Division_by_zero"
proof -
  have l: "unat (of_nat (8 * length ixs) :: u64) = 8 * length ixs" using assms(3) by (intro unat_of_nat_u64) simp
  then have nv: "unat ((of_nat (8 * length ixs) :: u64) div 8) = length ixs" by (simp add: unat_div_distrib)
  then have "unat ((of_nat (8 * length ixs) :: u64) div 8 div 100) = 0"
    using assms(3) by (simp add: unat_div_distrib)
  then have "(of_nat (8 * length ixs) :: u64) div 8 div 100 = 0" by (simp only: unat_eq_0)
  moreover obtain k where "length ixs = Suc k" using assms(2) by (cases ixs) auto
  ultimately show ?thesis
    using assms(1) nv max_degree_loop_small [of "of_nat (8 * length ixs) div 8" "concat (map (le_bytes 8) ixs)" k 0 0]
    by (simp only: maxd_main_def max_degree_def Let_def option.case file_entry.select_convs length_concat_le_bytes) simp
qed

lemma maxd_small_graph_traps_witness:
  "maxd_main (\<lambda>_. Some (readable (concat (map (le_bytes 8) [0 :: u64])))) ''g.idx'' = Inl Division_by_zero"
  by (rule maxd_small_graph_traps [OF refl]) simp_all

end
