(* ===== verification/Connection.thy ===== *)
theory Connection
  imports FAM_Prelude
begin

text \<open>
  The connection manager loops of \<open>src/src/connection_utils.cpp\<close> (used by the client, with
  callbacks) and \<open>src/src/AbstractServer.cpp\<close> (used by the server, with virtual methods): the
  global context built on the first connection, the four latches, and the handler of every event.
  The RDMA libraries are a parameter that says which calls succeed; the calls made are recorded in
  order. The state \<open>'s\<close> of the callbacks is arbitrary; what callbacks keep, the loop keeps (locale
  \<open>cm_handlers\<close>).
\<close>

subsection \<open>Events, calls and errors\<close>

datatype rdma_cm_event_type =
    RDMA_CM_EVENT_ADDR_RESOLVED
  | RDMA_CM_EVENT_ADDR_ERROR
  | RDMA_CM_EVENT_ROUTE_RESOLVED
  | RDMA_CM_EVENT_ROUTE_ERROR
  | RDMA_CM_EVENT_CONNECT_REQUEST
  | RDMA_CM_EVENT_CONNECT_RESPONSE
  | RDMA_CM_EVENT_CONNECT_ERROR
  | RDMA_CM_EVENT_UNREACHABLE
  | RDMA_CM_EVENT_REJECTED
  | RDMA_CM_EVENT_ESTABLISHED
  | RDMA_CM_EVENT_DISCONNECTED
  | RDMA_CM_EVENT_DEVICE_REMOVAL
  | RDMA_CM_EVENT_MULTICAST_JOIN
  | RDMA_CM_EVENT_MULTICAST_ERROR
  | RDMA_CM_EVENT_ADDR_CHANGE
  | RDMA_CM_EVENT_TIMEWAIT_EXIT

fun cm_event_to_string :: "rdma_cm_event_type \<Rightarrow> string" where
  "cm_event_to_string RDMA_CM_EVENT_ADDR_RESOLVED = ''RDMA_CM_EVENT_ADDR_RESOLVED''"
| "cm_event_to_string RDMA_CM_EVENT_ADDR_ERROR = ''RDMA_CM_EVENT_ADDR_ERROR''"
| "cm_event_to_string RDMA_CM_EVENT_ROUTE_RESOLVED = ''RDMA_CM_EVENT_ROUTE_RESOLVED''"
| "cm_event_to_string RDMA_CM_EVENT_ROUTE_ERROR = ''RDMA_CM_EVENT_ROUTE_ERROR''"
| "cm_event_to_string RDMA_CM_EVENT_CONNECT_REQUEST = ''RDMA_CM_EVENT_CONNECT_REQUEST''"
| "cm_event_to_string RDMA_CM_EVENT_CONNECT_RESPONSE = ''RDMA_CM_EVENT_CONNECT_RESPONSE''"
| "cm_event_to_string RDMA_CM_EVENT_CONNECT_ERROR = ''RDMA_CM_EVENT_CONNECT_ERROR''"
| "cm_event_to_string RDMA_CM_EVENT_UNREACHABLE = ''RDMA_CM_EVENT_UNREACHABLE''"
| "cm_event_to_string RDMA_CM_EVENT_REJECTED = ''RDMA_CM_EVENT_REJECTED''"
| "cm_event_to_string RDMA_CM_EVENT_ESTABLISHED = ''RDMA_CM_EVENT_ESTABLISHED''"
| "cm_event_to_string RDMA_CM_EVENT_DISCONNECTED = ''RDMA_CM_EVENT_DISCONNECTED''"
| "cm_event_to_string RDMA_CM_EVENT_DEVICE_REMOVAL = ''RDMA_CM_EVENT_DEVICE_REMOVAL''"
| "cm_event_to_string RDMA_CM_EVENT_MULTICAST_JOIN = ''RDMA_CM_EVENT_MULTICAST_JOIN''"
| "cm_event_to_string RDMA_CM_EVENT_MULTICAST_ERROR = ''RDMA_CM_EVENT_MULTICAST_ERROR''"
| "cm_event_to_string RDMA_CM_EVENT_ADDR_CHANGE = ''RDMA_CM_EVENT_ADDR_CHANGE''"
| "cm_event_to_string RDMA_CM_EVENT_TIMEWAIT_EXIT = ''RDMA_CM_EVENT_TIMEWAIT_EXIT''"

text \<open>An identifier and a device context are numbers; \<open>ev_verbs\<close> is \<open>id->verbs\<close>.\<close>

type_synonym cm_id = nat

record cm_event =
  ev_type :: rdma_cm_event_type
  ev_id :: cm_id
  ev_verbs :: nat

text \<open>How a process ends early: \<open>rc_die\<close>, an exception (with what was
  logged), a fault, or a loop that does not end.\<close>

datatype rc_error =
    Exit_failure
  | Throw string
  | Event_not_handled string
  | Null_dereference
  | Memory_fault
  | Arithmetic_fault
  | Diverges

record qp_init_attr =
  shares_ctx_cq :: bool
  max_send_wr :: nat
  max_recv_wr :: nat
  max_send_sge :: nat
  max_recv_sge :: nat
  sq_sig_all :: bool

record rdma_conn_param =
  responder_resources :: u8
  initiator_depth :: u8
  flow_control :: u8
  retry_count :: u8
  rnr_retry_count :: u8

datatype cm_call =
    Alloc_pd nat
  | Create_comp_channel nat
  | Create_cq nat
  | Req_notify_cq
  | Start_poll_cq
  | Create_qp cm_id qp_init_attr
  | Resolve_route cm_id
  | Connect cm_id rdma_conn_param
  | Accept cm_id rdma_conn_param
  | Destroy_qp cm_id
  | Destroy_id cm_id

record ib_context =
  ibc_ctx :: nat
  connections :: u64

record 's rc_state =
  s_ctx :: "ib_context option"
  latch0 :: bool
  latch2 :: bool
  latch3 :: bool
  latch4 :: bool
  calls :: "cm_call list"
  user :: 's

abbreviation bind_rc :: "rc_error + 'a \<Rightarrow> ('a \<Rightarrow> rc_error + 'b) \<Rightarrow> rc_error + 'b" where
  "bind_rc m f \<equiv> (case m of Inl e \<Rightarrow> Inl e | Inr x \<Rightarrow> f x)"

subsection \<open>Building a connection\<close>

text \<open>\<open>TEST_NZ\<close> and \<open>TEST_Z\<close> around a library call: the process ends if it fails.\<close>

definition test_call :: "(cm_call \<Rightarrow> bool) \<Rightarrow> cm_call \<Rightarrow> 's rc_state \<Rightarrow> rc_error + 's rc_state" where
  "test_call lib c s = (if lib c then Inr (s\<lparr> calls := calls s @ [c] \<rparr>) else Inl Exit_failure)"

definition build_context :: "(cm_call \<Rightarrow> bool) \<Rightarrow> nat \<Rightarrow> 's rc_state \<Rightarrow> rc_error + 's rc_state" where
  "build_context lib verbs s =
     (case s_ctx s of
        Some c \<Rightarrow> if ibc_ctx c \<noteq> verbs then Inl Exit_failure else Inr s
      | None \<Rightarrow>
          bind_rc (test_call lib (Alloc_pd verbs) (s\<lparr> s_ctx := Some \<lparr> ibc_ctx = verbs, connections = 0 \<rparr> \<rparr>)) (\<lambda>s.
          bind_rc (test_call lib (Create_comp_channel verbs) s) (\<lambda>s.
          bind_rc (test_call lib (Create_cq verbs) s) (\<lambda>s.
          bind_rc (test_call lib Req_notify_cq s) (test_call lib Start_poll_cq)))))"

definition build_qp_attr :: "bool \<Rightarrow> qp_init_attr" where
  "build_qp_attr is_qp0 = \<lparr> shares_ctx_cq = is_qp0, max_send_wr = 40, max_recv_wr = 1600,
     max_send_sge = 1, max_recv_sge = 1, sq_sig_all = False \<rparr>"

definition build_params :: rdma_conn_param where
  "build_params = \<lparr> responder_resources = 1, initiator_depth = 1, flow_control = 0, retry_count = 0, rnr_retry_count = 7 \<rparr>"

definition build_connection :: "(cm_call \<Rightarrow> bool) \<Rightarrow> cm_event \<Rightarrow> bool \<Rightarrow> 's rc_state \<Rightarrow> rc_error + 's rc_state" where
  "build_connection lib ev is_qp0 s =
     bind_rc (build_context lib (ev_verbs ev) s) (test_call lib (Create_qp (ev_id ev) (build_qp_attr is_qp0)))"

subsection \<open>The loop of connection_utils.cpp\<close>

record 's rc_callbacks =
  s_on_pre_conn_cb :: "(cm_id \<Rightarrow> 's \<Rightarrow> rc_error + 's) option"
  s_on_connect_cb :: "(cm_id \<Rightarrow> 's \<Rightarrow> rc_error + 's) option"
  s_on_disconnect_cb :: "(cm_id \<Rightarrow> 's \<Rightarrow> rc_error + 's) option"

definition run_callback ::
    "(cm_id \<Rightarrow> 's \<Rightarrow> rc_error + 's) option \<Rightarrow> bool \<Rightarrow> cm_id \<Rightarrow> 's rc_state \<Rightarrow> rc_error + 's rc_state" where
  "run_callback cb latched i s =
     (case cb of
        Some f \<Rightarrow> if \<not> latched then bind_rc (f i (user s)) (\<lambda>u. Inr (s\<lparr> user := u \<rparr>)) else Inr s
      | None \<Rightarrow> Inr s)"

definition count_connection :: "'s rc_state \<Rightarrow> rc_error + 's rc_state" where
  "count_connection s =
     (case s_ctx s of
        Some c \<Rightarrow> Inr (s\<lparr> s_ctx := Some (c\<lparr> connections := connections c + 1 \<rparr>) \<rparr>)
      | None \<Rightarrow> Inl Null_dereference)"

text \<open>One iteration; the flag says whether the loop is left.\<close>

definition cm_step ::
    "(cm_call \<Rightarrow> bool) \<Rightarrow> 's rc_callbacks \<Rightarrow> bool \<Rightarrow> cm_event \<Rightarrow> 's rc_state \<Rightarrow> rc_error + (bool \<times> 's rc_state)" where
  "cm_step lib cbs exit_on_disconnect ev s =
     (let i = ev_id ev in
      if ev_type ev = RDMA_CM_EVENT_ADDR_RESOLVED then
        bind_rc (build_connection lib ev (\<not> latch0 s) s) (\<lambda>s.
        bind_rc (run_callback (s_on_pre_conn_cb cbs) (latch0 s) i s) (\<lambda>s.
        bind_rc (test_call lib (Resolve_route i) s) (\<lambda>s. Inr (False, s\<lparr> latch0 := True \<rparr>))))
      else if ev_type ev = RDMA_CM_EVENT_ROUTE_RESOLVED then
        bind_rc (test_call lib (Connect i build_params) s) (\<lambda>s. Inr (False, s))
      else if ev_type ev = RDMA_CM_EVENT_CONNECT_REQUEST then
        bind_rc (build_connection lib ev (\<not> latch2 s) s) (\<lambda>s.
        bind_rc (run_callback (s_on_pre_conn_cb cbs) (latch2 s) i s) (\<lambda>s.
        bind_rc (test_call lib (Accept i build_params) s) (\<lambda>s. Inr (False, s\<lparr> latch2 := True \<rparr>))))
      else if ev_type ev = RDMA_CM_EVENT_ESTABLISHED then
        bind_rc (run_callback (s_on_connect_cb cbs) (latch3 s) i s) (\<lambda>s.
        bind_rc (count_connection (s\<lparr> latch3 := True \<rparr>)) (\<lambda>s. Inr (False, s)))
      else if ev_type ev = RDMA_CM_EVENT_DISCONNECTED then
        bind_rc (run_callback (s_on_disconnect_cb cbs) (latch4 s) i (s\<lparr> calls := calls s @ [Destroy_qp i] \<rparr>)) (\<lambda>s.
        let s = s\<lparr> calls := calls s @ [Destroy_id i] \<rparr>
        in if exit_on_disconnect then Inr (True, s) else Inr (False, s\<lparr> latch4 := True \<rparr>))
      else Inl (Event_not_handled (cm_event_to_string (ev_type ev))))"

text \<open>The events are those that \<open>rdma_get_cm_event\<close> returns before it fails.\<close>

fun event_loop ::
    "(cm_call \<Rightarrow> bool) \<Rightarrow> 's rc_callbacks \<Rightarrow> bool \<Rightarrow> cm_event list \<Rightarrow> 's rc_state \<Rightarrow> rc_error + 's rc_state" where
  "event_loop lib cbs ex [] s = Inr s"
| "event_loop lib cbs ex (ev # evs) s =
     bind_rc (cm_step lib cbs ex ev s) (\<lambda>(stop, s). if stop then Inr s else event_loop lib cbs ex evs s)"

definition rc_start :: "'s \<Rightarrow> 's rc_state" where
  "rc_start u = \<lparr> s_ctx = None, latch0 = False, latch2 = False, latch3 = False, latch4 = False, calls = [], user = u \<rparr>"

text \<open>
  The start of a client: its address, the event channel, the identifier of the base connection
  (number 0, whose address is resolved) and one identifier per further connection.
\<close>

datatype setup_call =
    Getaddrinfo string string
  | Create_event_channel
  | Create_id cm_id
  | Resolve_addr cm_id

definition rc_client_loop ::
    "(setup_call \<Rightarrow> bool) \<Rightarrow> (cm_call \<Rightarrow> bool) \<Rightarrow> 's rc_callbacks \<Rightarrow> string \<Rightarrow> string \<Rightarrow> cm_id list \<Rightarrow> 's \<Rightarrow>
       cm_event list \<Rightarrow> rc_error + 's rc_state" where
  "rc_client_loop setup lib cbs host port cm_ids ctx evs =
     (if \<not> setup (Getaddrinfo host port) then Inl Exit_failure
      else if \<not> setup Create_event_channel then Inl Exit_failure
      else if \<not> setup (Create_id 0) then Inl Exit_failure
      else if \<not> setup (Resolve_addr 0) then Inl Exit_failure
      else if \<not> list_all (\<lambda>i. setup (Create_id i)) cm_ids then Inl Exit_failure
      else event_loop lib cbs True evs (rc_start ctx))"

definition rc_get_num_connections :: "'s rc_state \<Rightarrow> rc_error + u64" where
  "rc_get_num_connections s = (case s_ctx s of None \<Rightarrow> Inl Null_dereference | Some c \<Rightarrow> Inr (connections c))"

subsection \<open>The loop of AbstractServer.cpp\<close>

text \<open>The copies of the helpers that \<open>AbstractServer.cpp\<close> has.\<close>

definition AbstractServer_build_params :: rdma_conn_param where
  "AbstractServer_build_params =
     \<lparr> responder_resources = 1, initiator_depth = 1, flow_control = 0, retry_count = 0, rnr_retry_count = 7 \<rparr>"

definition AbstractServer_build_qp_attr :: "bool \<Rightarrow> qp_init_attr" where
  "AbstractServer_build_qp_attr is_qp0 = \<lparr> shares_ctx_cq = is_qp0, max_send_wr = 40, max_recv_wr = 1600,
     max_send_sge = 1, max_recv_sge = 1, sq_sig_all = False \<rparr>"

definition AbstractServer_build_context :: "(cm_call \<Rightarrow> bool) \<Rightarrow> nat \<Rightarrow> 's rc_state \<Rightarrow> rc_error + 's rc_state" where
  "AbstractServer_build_context lib verbs s =
     (case s_ctx s of
        Some c \<Rightarrow> if ibc_ctx c \<noteq> verbs then Inl Exit_failure else Inr s
      | None \<Rightarrow>
          bind_rc (test_call lib (Alloc_pd verbs) (s\<lparr> s_ctx := Some \<lparr> ibc_ctx = verbs, connections = 0 \<rparr> \<rparr>)) (\<lambda>s.
          bind_rc (test_call lib (Create_comp_channel verbs) s) (\<lambda>s.
          bind_rc (test_call lib (Create_cq verbs) s) (\<lambda>s.
          bind_rc (test_call lib Req_notify_cq s) (test_call lib Start_poll_cq)))))"

definition AbstractServer_build_connection ::
    "(cm_call \<Rightarrow> bool) \<Rightarrow> cm_event \<Rightarrow> bool \<Rightarrow> 's rc_state \<Rightarrow> rc_error + 's rc_state" where
  "AbstractServer_build_connection lib ev is_qp0 s =
     bind_rc (AbstractServer_build_context lib (ev_verbs ev) s)
       (test_call lib (Create_qp (ev_id ev) (AbstractServer_build_qp_attr is_qp0)))"

fun AbstractServer_cm_event_to_string :: "rdma_cm_event_type \<Rightarrow> string" where
  "AbstractServer_cm_event_to_string RDMA_CM_EVENT_ADDR_RESOLVED = ''RDMA_CM_EVENT_ADDR_RESOLVED''"
| "AbstractServer_cm_event_to_string RDMA_CM_EVENT_ADDR_ERROR = ''RDMA_CM_EVENT_ADDR_ERROR''"
| "AbstractServer_cm_event_to_string RDMA_CM_EVENT_ROUTE_RESOLVED = ''RDMA_CM_EVENT_ROUTE_RESOLVED''"
| "AbstractServer_cm_event_to_string RDMA_CM_EVENT_ROUTE_ERROR = ''RDMA_CM_EVENT_ROUTE_ERROR''"
| "AbstractServer_cm_event_to_string RDMA_CM_EVENT_CONNECT_REQUEST = ''RDMA_CM_EVENT_CONNECT_REQUEST''"
| "AbstractServer_cm_event_to_string RDMA_CM_EVENT_CONNECT_RESPONSE = ''RDMA_CM_EVENT_CONNECT_RESPONSE''"
| "AbstractServer_cm_event_to_string RDMA_CM_EVENT_CONNECT_ERROR = ''RDMA_CM_EVENT_CONNECT_ERROR''"
| "AbstractServer_cm_event_to_string RDMA_CM_EVENT_UNREACHABLE = ''RDMA_CM_EVENT_UNREACHABLE''"
| "AbstractServer_cm_event_to_string RDMA_CM_EVENT_REJECTED = ''RDMA_CM_EVENT_REJECTED''"
| "AbstractServer_cm_event_to_string RDMA_CM_EVENT_ESTABLISHED = ''RDMA_CM_EVENT_ESTABLISHED''"
| "AbstractServer_cm_event_to_string RDMA_CM_EVENT_DISCONNECTED = ''RDMA_CM_EVENT_DISCONNECTED''"
| "AbstractServer_cm_event_to_string RDMA_CM_EVENT_DEVICE_REMOVAL = ''RDMA_CM_EVENT_DEVICE_REMOVAL''"
| "AbstractServer_cm_event_to_string RDMA_CM_EVENT_MULTICAST_JOIN = ''RDMA_CM_EVENT_MULTICAST_JOIN''"
| "AbstractServer_cm_event_to_string RDMA_CM_EVENT_MULTICAST_ERROR = ''RDMA_CM_EVENT_MULTICAST_ERROR''"
| "AbstractServer_cm_event_to_string RDMA_CM_EVENT_ADDR_CHANGE = ''RDMA_CM_EVENT_ADDR_CHANGE''"
| "AbstractServer_cm_event_to_string RDMA_CM_EVENT_TIMEWAIT_EXIT = ''RDMA_CM_EVENT_TIMEWAIT_EXIT''"

text \<open>The virtual methods, and the loop that calls them without a test for null.\<close>

record 's abstract_server =
  on_pre_conn :: "cm_id \<Rightarrow> 's \<Rightarrow> rc_error + 's"
  on_connection :: "cm_id \<Rightarrow> 's \<Rightarrow> rc_error + 's"
  on_disconnect :: "cm_id \<Rightarrow> 's \<Rightarrow> rc_error + 's"

definition call_method :: "(cm_id \<Rightarrow> 's \<Rightarrow> rc_error + 's) \<Rightarrow> cm_id \<Rightarrow> 's rc_state \<Rightarrow> rc_error + 's rc_state" where
  "call_method f i s = bind_rc (f i (user s)) (\<lambda>u. Inr (s\<lparr> user := u \<rparr>))"

definition AbstractServer_step ::
    "(cm_call \<Rightarrow> bool) \<Rightarrow> 's abstract_server \<Rightarrow> bool \<Rightarrow> cm_event \<Rightarrow> 's rc_state \<Rightarrow> rc_error + (bool \<times> 's rc_state)" where
  "AbstractServer_step lib this exit_on_disconnect ev s =
     (case ev_type ev of
        RDMA_CM_EVENT_ADDR_RESOLVED \<Rightarrow>
          bind_rc (AbstractServer_build_connection lib ev (\<not> latch0 s) s) (\<lambda>s.
          bind_rc (if \<not> latch0 s then call_method (on_pre_conn this) (ev_id ev) s else Inr s) (\<lambda>s.
          bind_rc (test_call lib (Resolve_route (ev_id ev)) s) (\<lambda>s. Inr (False, s\<lparr> latch0 := True \<rparr>))))
      | RDMA_CM_EVENT_ROUTE_RESOLVED \<Rightarrow>
          bind_rc (test_call lib (Connect (ev_id ev) AbstractServer_build_params) s) (\<lambda>s. Inr (False, s))
      | RDMA_CM_EVENT_CONNECT_REQUEST \<Rightarrow>
          bind_rc (AbstractServer_build_connection lib ev (\<not> latch2 s) s) (\<lambda>s.
          bind_rc (if \<not> latch2 s then call_method (on_pre_conn this) (ev_id ev) s else Inr s) (\<lambda>s.
          bind_rc (test_call lib (Accept (ev_id ev) AbstractServer_build_params) s) (\<lambda>s. Inr (False, s\<lparr> latch2 := True \<rparr>))))
      | RDMA_CM_EVENT_ESTABLISHED \<Rightarrow>
          bind_rc (if \<not> latch3 s then call_method (on_connection this) (ev_id ev) s else Inr s) (\<lambda>s.
          bind_rc (count_connection (s\<lparr> latch3 := True \<rparr>)) (\<lambda>s. Inr (False, s)))
      | RDMA_CM_EVENT_DISCONNECTED \<Rightarrow>
          (let s = s\<lparr> calls := calls s @ [Destroy_qp (ev_id ev)] \<rparr> in
           bind_rc (if \<not> latch4 s then call_method (on_disconnect this) (ev_id ev) s else Inr s) (\<lambda>s.
           let s = s\<lparr> calls := calls s @ [Destroy_id (ev_id ev)] \<rparr>
           in if exit_on_disconnect then Inr (True, s) else Inr (False, s\<lparr> latch4 := True \<rparr>)))
      | e \<Rightarrow> Inl (Event_not_handled (AbstractServer_cm_event_to_string e)))"

fun AbstractServer_event_loop ::
    "(cm_call \<Rightarrow> bool) \<Rightarrow> 's abstract_server \<Rightarrow> bool \<Rightarrow> cm_event list \<Rightarrow> 's rc_state \<Rightarrow> rc_error + 's rc_state" where
  "AbstractServer_event_loop lib this ex [] s = Inr s"
| "AbstractServer_event_loop lib this ex (ev # evs) s =
     bind_rc (AbstractServer_step lib this ex ev s)
       (\<lambda>(stop, s). if stop then Inr s else AbstractServer_event_loop lib this ex evs s)"

subsection \<open>What the loop keeps\<close>

lemma test_call_Inr: "test_call lib c s = Inr s' \<longleftrightarrow> lib c \<and> s' = s\<lparr> calls := calls s @ [c] \<rparr>"
  by (auto simp: test_call_def)

definition same_control :: "'s rc_state \<Rightarrow> 's rc_state \<Rightarrow> bool" where
  "same_control s s' \<longleftrightarrow> user s' = user s \<and> latch0 s' = latch0 s \<and> latch2 s' = latch2 s \<and>
     latch3 s' = latch3 s \<and> latch4 s' = latch4 s"

lemma build_connection_keeps:
  assumes "build_connection lib ev q s = Inr s'"
  shows "same_control s s'" "s_ctx s' = (case s_ctx s of None \<Rightarrow> Some \<lparr> ibc_ctx = ev_verbs ev, connections = 0 \<rparr> | Some c \<Rightarrow> Some c)"
  using assms
  by (auto simp: build_connection_def build_context_def test_call_def same_control_def split: option.splits sum.splits if_splits)

lemma run_callback_keeps:
  "run_callback cb l i s = Inr s' \<Longrightarrow> s' = s\<lparr> user := user s' \<rparr> \<and> (l \<longrightarrow> s' = s) \<and> (cb = None \<longrightarrow> s' = s)"
  by (auto simp: run_callback_def split: option.splits sum.splits if_splits)

lemma run_callback_user:
  assumes "run_callback cb l i s = Inr s'"
  shows "user s' = user s \<or> (\<exists>f. cb = Some f \<and> f i (user s) = Inr (user s'))"
  using assms by (auto simp: run_callback_def split: option.splits sum.splits if_splits)

lemma run_callback_ctx:
  assumes "run_callback cb l i s = Inr s'"
  shows "s_ctx s' = s_ctx s" "latch0 s' = latch0 s" "latch2 s' = latch2 s" "latch3 s' = latch3 s" "latch4 s' = latch4 s"
  using assms by (auto simp: run_callback_def split: option.splits sum.splits if_splits)

lemma bind_rc_Inr: "bind_rc m f = Inr y \<longleftrightarrow> (\<exists>x. m = Inr x \<and> f x = Inr y)"
  by (cases m) auto

definition counted :: "ib_context option \<Rightarrow> u64" where
  "counted c = (case c of None \<Rightarrow> 0 | Some c \<Rightarrow> connections c)"

lemma build_connection_counted: "build_connection lib ev q s = Inr t \<Longrightarrow> counted (s_ctx t) = counted (s_ctx s)"
  by (drule build_connection_keeps(2)) (auto simp: counted_def split: option.splits)

text \<open>An iteration runs at most one callback, on the state and with the latch of the event.\<close>

definition event_callback :: "'s rc_callbacks \<Rightarrow> 's rc_state \<Rightarrow> rdma_cm_event_type \<Rightarrow> (cm_id \<Rightarrow> 's \<Rightarrow> rc_error + 's) option \<times> bool" where
  "event_callback cbs s e =
     (if e = RDMA_CM_EVENT_ADDR_RESOLVED then (s_on_pre_conn_cb cbs, latch0 s)
      else if e = RDMA_CM_EVENT_CONNECT_REQUEST then (s_on_pre_conn_cb cbs, latch2 s)
      else if e = RDMA_CM_EVENT_ESTABLISHED then (s_on_connect_cb cbs, latch3 s)
      else if e = RDMA_CM_EVENT_DISCONNECTED then (s_on_disconnect_cb cbs, latch4 s) else (None, False))"

definition latches_kept :: "'s rc_state \<Rightarrow> 's rc_state \<Rightarrow> bool" where
  "latches_kept s s' \<longleftrightarrow> (latch0 s \<longrightarrow> latch0 s') \<and> (latch2 s \<longrightarrow> latch2 s') \<and> (latch3 s \<longrightarrow> latch3 s') \<and> (latch4 s \<longrightarrow> latch4 s')"

lemma cm_step_shape:
  assumes "cm_step lib cbs ex ev s = Inr (stop, s')"
  shows "\<exists>t t'. same_control s t \<and> counted (s_ctx t) = counted (s_ctx s) \<and>
           run_callback (fst (event_callback cbs s (ev_type ev))) (snd (event_callback cbs s (ev_type ev))) (ev_id ev) t = Inr t' \<and>
           user s' = user t' \<and> latches_kept t' s' \<and>
           counted (s_ctx s') = counted (s_ctx t') + (if ev_type ev = RDMA_CM_EVENT_ESTABLISHED then 1 else 0)"
proof (cases "ev_type ev")
  case RDMA_CM_EVENT_ADDR_RESOLVED
  then obtain t t' where t: "build_connection lib ev (\<not> latch0 s) s = Inr t"
      "run_callback (s_on_pre_conn_cb cbs) (latch0 t) (ev_id ev) t = Inr t'"
      "s' = t'\<lparr> calls := calls t' @ [Resolve_route (ev_id ev)], latch0 := True \<rparr>"
    using assms by (auto simp: cm_step_def Let_def bind_rc_Inr test_call_Inr)
  have "same_control s t" using build_connection_keeps(1) [OF t(1)] .
  with t build_connection_counted [OF t(1)] RDMA_CM_EVENT_ADDR_RESOLVED show ?thesis
    by (intro exI [of _ t] exI [of _ t']) (simp add: event_callback_def latches_kept_def same_control_def)
next
  case RDMA_CM_EVENT_ROUTE_RESOLVED
  then show ?thesis using assms
    by (intro exI [of _ s]) (auto simp: cm_step_def Let_def bind_rc_Inr test_call_Inr event_callback_def run_callback_def
      same_control_def latches_kept_def)
next
  case RDMA_CM_EVENT_CONNECT_REQUEST
  then obtain t t' where t: "build_connection lib ev (\<not> latch2 s) s = Inr t"
      "run_callback (s_on_pre_conn_cb cbs) (latch2 t) (ev_id ev) t = Inr t'"
      "s' = t'\<lparr> calls := calls t' @ [Accept (ev_id ev) build_params], latch2 := True \<rparr>"
    using assms by (auto simp: cm_step_def Let_def bind_rc_Inr test_call_Inr)
  have "same_control s t" using build_connection_keeps(1) [OF t(1)] .
  with t build_connection_counted [OF t(1)] RDMA_CM_EVENT_CONNECT_REQUEST show ?thesis
    by (intro exI [of _ t] exI [of _ t']) (simp add: event_callback_def latches_kept_def same_control_def)
next
  case RDMA_CM_EVENT_ESTABLISHED
  then obtain t' where t: "run_callback (s_on_connect_cb cbs) (latch3 s) (ev_id ev) s = Inr t'"
      "count_connection (t'\<lparr> latch3 := True \<rparr>) = Inr s'"
    using assms by (auto simp: cm_step_def Let_def bind_rc_Inr)
  then show ?thesis
    using RDMA_CM_EVENT_ESTABLISHED by (intro exI [of _ s] exI [of _ t'])
      (auto simp: event_callback_def latches_kept_def same_control_def count_connection_def counted_def split: option.splits)
next
  case RDMA_CM_EVENT_DISCONNECTED
  then obtain t' where t: "run_callback (s_on_disconnect_cb cbs) (latch4 s) (ev_id ev) (s\<lparr> calls := calls s @ [Destroy_qp (ev_id ev)] \<rparr>) = Inr t'"
      "s' = t'\<lparr> calls := calls t' @ [Destroy_id (ev_id ev)] \<rparr> \<or> s' = t'\<lparr> calls := calls t' @ [Destroy_id (ev_id ev)], latch4 := True \<rparr>"
    using assms by (auto simp: cm_step_def Let_def bind_rc_Inr split: if_splits)
  then show ?thesis
    using RDMA_CM_EVENT_DISCONNECTED
    by (intro exI [of _ "s\<lparr> calls := calls s @ [Destroy_qp (ev_id ev)] \<rparr>"] exI [of _ t'])
      (auto simp: event_callback_def latches_kept_def same_control_def)
qed (use assms in \<open>simp_all add: cm_step_def Let_def\<close>)

lemma cm_step_user:
  assumes "cm_step lib cbs ex ev s = Inr (stop, s')"
  shows "user s' = user s \<or> (\<exists>f. event_callback cbs s (ev_type ev) = (Some f, False) \<and> f (ev_id ev) (user s) = Inr (user s'))"
proof -
  obtain t t' where t: "same_control s t" "user s' = user t'"
      "run_callback (fst (event_callback cbs s (ev_type ev))) (snd (event_callback cbs s (ev_type ev))) (ev_id ev) t = Inr t'"
    using cm_step_shape [OF assms] by blast
  then show ?thesis
    by (cases "event_callback cbs s (ev_type ev)")
      (auto simp: run_callback_def same_control_def split: option.splits sum.splits if_splits)
qed

lemma cm_step_counts:
  assumes "cm_step lib cbs ex ev s = Inr (stop, s')"
  shows "counted (s_ctx s') = counted (s_ctx s) + (if ev_type ev = RDMA_CM_EVENT_ESTABLISHED then 1 else 0)"
  using cm_step_shape [OF assms] run_callback_ctx(1) by metis

lemma cm_step_latches:
  assumes "cm_step lib cbs ex ev s = Inr (stop, s')"
  shows "latches_kept s s'"
proof -
  obtain t t' where t: "same_control s t" "latches_kept t' s'"
      "run_callback (fst (event_callback cbs s (ev_type ev))) (snd (event_callback cbs s (ev_type ev))) (ev_id ev) t = Inr t'"
    using cm_step_shape [OF assms] by blast
  then show ?thesis using run_callback_ctx(2-5) [OF t(3)] by (simp add: latches_kept_def same_control_def)
qed

lemma cm_step_stop:
  "cm_step lib cbs ex ev s = Inr (stop, s') \<Longrightarrow> stop \<longleftrightarrow> ex \<and> ev_type ev = RDMA_CM_EVENT_DISCONNECTED"
  by (auto simp: cm_step_def Let_def bind_rc_Inr split: if_splits)

lemma event_loop_Cons:
  "event_loop lib cbs ex (ev # evs) s = Inr s' \<longleftrightarrow>
     (\<exists>stop t. cm_step lib cbs ex ev s = Inr (stop, t) \<and> (if stop then s' = t else event_loop lib cbs ex evs t = Inr s'))"
  by (auto simp: bind_rc_Inr split: if_splits)

text \<open>
  The interface between the loop and the state of the application: an invariant that every
  callback keeps, whatever connection it is called for, holds after any sequence of events.
\<close>

locale cm_handlers =
  fixes cbs :: "'s rc_callbacks" and inv :: "'s \<Rightarrow> bool"
  assumes pre_conn_keeps: "s_on_pre_conn_cb cbs = Some f \<Longrightarrow> inv u \<Longrightarrow> f i u = Inr u' \<Longrightarrow> inv u'"
    and connect_keeps: "s_on_connect_cb cbs = Some f \<Longrightarrow> inv u \<Longrightarrow> f i u = Inr u' \<Longrightarrow> inv u'"
    and disconnect_keeps: "s_on_disconnect_cb cbs = Some f \<Longrightarrow> inv u \<Longrightarrow> f i u = Inr u' \<Longrightarrow> inv u'"
begin

lemma step_keeps:
  assumes "cm_step lib cbs ex ev s = Inr (stop, s')" "inv (user s)"
  shows "inv (user s')"
proof -
  consider "user s' = user s"
    | f where "event_callback cbs s (ev_type ev) = (Some f, False)" "f (ev_id ev) (user s) = Inr (user s')"
    using cm_step_user [OF assms(1)] by blast
  then show ?thesis
  proof cases
    case 2
    then have "s_on_pre_conn_cb cbs = Some f \<or> s_on_connect_cb cbs = Some f \<or> s_on_disconnect_cb cbs = Some f"
      by (auto simp: event_callback_def split: if_splits)
    then show ?thesis
      using pre_conn_keeps connect_keeps disconnect_keeps assms(2) 2(2) by blast
  qed (use assms(2) in simp)
qed

lemma loop_keeps: "event_loop lib cbs ex evs s = Inr s' \<Longrightarrow> inv (user s) \<Longrightarrow> inv (user s')"
proof (induction evs arbitrary: s)
  case (Cons ev evs)
  then obtain stop t where t: "cm_step lib cbs ex ev s = Inr (stop, t)" "if stop then s' = t else event_loop lib cbs ex evs t = Inr s'"
    unfolding event_loop_Cons by blast
  then show ?case using step_keeps [OF t(1) Cons.prems(2)] Cons.IH [of t] by (cases stop) auto
qed simp

end

subsection \<open>Equality of the two loops\<close>

definition as_callbacks :: "'s abstract_server \<Rightarrow> 's rc_callbacks" where
  "as_callbacks this = \<lparr> s_on_pre_conn_cb = Some (on_pre_conn this), s_on_connect_cb = Some (on_connection this),
     s_on_disconnect_cb = Some (on_disconnect this) \<rparr>"

lemma call_method_callback:
  "(if \<not> l then call_method f i s else Inr s) = run_callback (Some f) l i s"
  by (simp add: run_callback_def call_method_def)

lemma latch4_calls: "latch4 (s\<lparr> calls := c \<rparr>) = latch4 s"
  by simp

lemma helpers_agree:
  "AbstractServer_build_params = build_params"
  "AbstractServer_build_connection lib ev q s = build_connection lib ev q s"
  "AbstractServer_cm_event_to_string e = cm_event_to_string e"
proof -
  have "AbstractServer_build_context lib v s = build_context lib v s" for v
    by (simp only: AbstractServer_build_context_def build_context_def)
  then show "AbstractServer_build_connection lib ev q s = build_connection lib ev q s"
    by (simp only: AbstractServer_build_connection_def build_connection_def AbstractServer_build_qp_attr_def build_qp_attr_def)
  show "AbstractServer_cm_event_to_string e = cm_event_to_string e" by (cases e) simp_all
qed (simp add: AbstractServer_build_params_def build_params_def)

lemma AbstractServer_step_eq: "AbstractServer_step lib this ex ev s = cm_step lib (as_callbacks this) ex ev s"
  by (cases "ev_type ev")
    (simp_all only: AbstractServer_step_def cm_step_def Let_def call_method_callback as_callbacks_def helpers_agree
      rc_callbacks.select_convs rdma_cm_event_type.simps simp_thms if_True if_False latch4_calls)

lemma AbstractServer_loop_eq:
  "AbstractServer_event_loop lib this ex evs s = event_loop lib (as_callbacks this) ex evs s"
  by (induction evs arbitrary: s) (simp_all add: AbstractServer_step_eq split: sum.splits)

subsection \<open>Properties\<close>

definition consumed :: "bool \<Rightarrow> cm_event list \<Rightarrow> cm_event list" where
  "consumed ex evs = (if ex then takeWhile (\<lambda>ev. ev_type ev \<noteq> RDMA_CM_EVENT_DISCONNECTED) evs else evs)"

definition established :: "cm_event list \<Rightarrow> nat" where
  "established evs = length (filter (\<lambda>ev. ev_type ev = RDMA_CM_EVENT_ESTABLISHED) evs)"

lemma event_loop_counts:
  "event_loop lib cbs ex evs s = Inr s' \<Longrightarrow> counted (s_ctx s') = counted (s_ctx s) + of_nat (established (consumed ex evs))"
proof (induction evs arbitrary: s)
  case (Cons ev evs)
  then obtain stop t where t: "cm_step lib cbs ex ev s = Inr (stop, t)" "if stop then s' = t else event_loop lib cbs ex evs t = Inr s'"
    unfolding event_loop_Cons by blast
  have c: "counted (s_ctx t) = counted (s_ctx s) + (if ev_type ev = RDMA_CM_EVENT_ESTABLISHED then 1 else 0)"
    by (rule cm_step_counts [OF t(1)])
  show ?case
  proof (cases stop)
    case True
    then have "ex" "ev_type ev = RDMA_CM_EVENT_DISCONNECTED" using cm_step_stop [OF t(1)] by auto
    then show ?thesis using True t(2) c by (simp add: consumed_def established_def)
  next
    case False
    then have "\<not> (ex \<and> ev_type ev = RDMA_CM_EVENT_DISCONNECTED)" using cm_step_stop [OF t(1)] by auto
    then show ?thesis using Cons.IH [of t] False t(2) c by (auto simp: consumed_def established_def)
  qed
qed (simp add: consumed_def established_def)

text \<open>
  C24. The two copies of the event loop agree: the loop of \<open>AbstractServer\<close> behaves on every
  sequence of events and every state as the loop of \<open>connection_utils.cpp\<close> with all callbacks
  registered, in its result, its library calls and its errors.
\<close>

theorem event_loops_agree:
  "AbstractServer_event_loop lib this ex evs s = event_loop lib (as_callbacks this) ex evs s"
  by (rule AbstractServer_loop_eq)

text \<open>
  The number that \<open>rc_get_num_connections\<close> returns is exact: whenever the loop has processed a
  sequence of events without an error, the counter is the number of \<open>ESTABLISHED\<close> events it has
  seen (up to the first disconnect, where a client leaves the loop).
\<close>

lemma connections_counted:
  assumes "event_loop lib cbs ex evs (rc_start u) = Inr s'"
  shows "counted (s_ctx s') = of_nat (established (consumed ex evs))"
  using event_loop_counts [OF assms] by (simp add: rc_start_def counted_def)

definition demo_cbs :: "nat rc_callbacks" where
  "demo_cbs = \<lparr> s_on_pre_conn_cb = Some (\<lambda>i u. Inr (u + 1)), s_on_connect_cb = None, s_on_disconnect_cb = None \<rparr>"

definition demo_event :: "rdma_cm_event_type \<Rightarrow> cm_id \<Rightarrow> cm_event" where
  "demo_event e i = \<lparr> ev_type = e, ev_id = i, ev_verbs = 7 \<rparr>"

lemmas loop_eval = cm_step_def build_connection_def build_context_def test_call_def run_callback_def count_connection_def
  Let_def rc_start_def demo_event_def

lemma connections_counted_witness:
  "\<exists>s'. event_loop (\<lambda>_. True) demo_cbs True
     [demo_event RDMA_CM_EVENT_ADDR_RESOLVED 0, demo_event RDMA_CM_EVENT_ROUTE_RESOLVED 0,
      demo_event RDMA_CM_EVENT_ESTABLISHED 0, demo_event RDMA_CM_EVENT_ADDR_RESOLVED 1,
      demo_event RDMA_CM_EVENT_ESTABLISHED 1, demo_event RDMA_CM_EVENT_DISCONNECTED 0,
      demo_event RDMA_CM_EVENT_ESTABLISHED 2] (rc_start 0) = Inr s' \<and> counted (s_ctx s') = 2"
proof -
  let ?evs = "[demo_event RDMA_CM_EVENT_ADDR_RESOLVED 0, demo_event RDMA_CM_EVENT_ROUTE_RESOLVED 0,
      demo_event RDMA_CM_EVENT_ESTABLISHED 0, demo_event RDMA_CM_EVENT_ADDR_RESOLVED 1,
      demo_event RDMA_CM_EVENT_ESTABLISHED 1, demo_event RDMA_CM_EVENT_DISCONNECTED 0,
      demo_event RDMA_CM_EVENT_ESTABLISHED 2]"
  obtain s' where s': "event_loop (\<lambda>_. True) demo_cbs True ?evs (rc_start 0) = Inr s'"
    by (simp add: loop_eval demo_cbs_def)
  have "established (consumed True ?evs) = 2" by (simp add: established_def consumed_def demo_event_def)
  with connections_counted [OF s'] s' show ?thesis by auto
qed

text \<open>
  C39. A server whose first client has connected and disconnected does nothing for later ones: with
  the latches set, no event that reaches a server changes the state of the application, so no
  receive is posted, no edge list is loaded and no memory region is announced for a second client.
\<close>

theorem later_clients_ignored:
  assumes "AbstractServer_event_loop lib this False evs s = Inr s'" "latch2 s" "latch3 s" "latch4 s"
    and "list_all (\<lambda>ev. ev_type ev \<noteq> RDMA_CM_EVENT_ADDR_RESOLVED) evs"
  shows "user s' = user s"
  using assms unfolding AbstractServer_loop_eq
proof (induction evs arbitrary: s)
  case (Cons ev evs)
  then obtain stop t where t: "cm_step lib (as_callbacks this) False ev s = Inr (stop, t)"
      "if stop then s' = t else event_loop lib (as_callbacks this) False evs t = Inr s'"
    unfolding event_loop_Cons by blast
  have "user t = user s"
    using cm_step_user [OF t(1)] Cons.prems by (auto simp: event_callback_def split: if_splits)
  moreover have "latch2 t" "latch3 t" "latch4 t"
    using cm_step_latches [OF t(1)] Cons.prems by (auto simp: latches_kept_def)
  ultimately show ?case using Cons.IH [of t] t(2) Cons.prems(5) by (auto split: if_splits)
qed simp

definition demo_server :: "nat abstract_server" where
  "demo_server = \<lparr> on_pre_conn = (\<lambda>i u. Inr (u + 1)), on_connection = (\<lambda>i u. Inr (u + 10)), on_disconnect = (\<lambda>i u. Inr (u + 100)) \<rparr>"

theorem later_clients_ignored_witness:
  "\<exists>s'. AbstractServer_event_loop (\<lambda>_. True) demo_server False
     [demo_event RDMA_CM_EVENT_CONNECT_REQUEST 5, demo_event RDMA_CM_EVENT_ESTABLISHED 5]
     ((rc_start 111)\<lparr> latch2 := True, latch3 := True, latch4 := True \<rparr>) = Inr s' \<and> user s' = 111"
proof -
  let ?s = "(rc_start 111)\<lparr> latch2 := True, latch3 := True, latch4 := True \<rparr>"
  obtain s' where s': "AbstractServer_event_loop (\<lambda>_. True) demo_server False
      [demo_event RDMA_CM_EVENT_CONNECT_REQUEST 5, demo_event RDMA_CM_EVENT_ESTABLISHED 5] ?s = Inr s'"
    unfolding AbstractServer_loop_eq by (simp add: loop_eval as_callbacks_def)
  have "user s' = user ?s"
    by (rule later_clients_ignored [OF s']) (simp_all add: demo_event_def)
  with s' show ?thesis by (auto simp: rc_start_def)
qed

end
