(* ===== verification/Server.thy ===== *)
theory Server
  imports Connection Vertex_Table Bitmap
begin

text \<open>
  The server, \<open>src/src/FAMServer.cpp\<close>: it maps the edge file chunk by chunk, copies it into memory
  registered for remote reads (\<open>src/src/mmap_util.hpp\<close>), announces address, key and number of edges
  to the client, and answers the client's last message. The messages are those of
  \<open>src/include/messages.hpp\<close>. The operating system and the RDMA libraries are the parameters of the
  record \<open>server_os\<close>; a message is read from its buffer when it is posted.
\<close>

subsection \<open>Messages and endpoints\<close>

definition MSG_INVALID :: int where "MSG_INVALID = 0"
definition MSG_MR :: int where "MSG_MR = 1"
definition MSG_READY :: int where "MSG_READY = 2"
definition MSG_DONE :: int where "MSG_DONE = 3"

lemmas msg_ids = MSG_INVALID_def MSG_MR_def MSG_READY_def MSG_DONE_def

record message =
  msg_id :: int
  mr_addr :: u64
  mr_rkey :: u32
  mr_total_edges :: u64

text \<open>
  What client and server contexts share: the two message buffers (absent before they are allocated
  and after they are freed), the number of posted receives and the messages posted for sending.
\<close>

record endpoint =
  tx_msg :: "message option"
  rx_msg :: "message option"
  posted :: nat
  sent :: "message list"

record verbs_env =
  memalign :: "message option"
  reg_msg_mr :: bool
  post_recv_ok :: bool
  post_send_ok :: bool

definition post_receive :: "verbs_env \<Rightarrow> 'a endpoint_scheme \<Rightarrow> rc_error + 'a endpoint_scheme" where
  "post_receive env ctx =
     (case rx_msg ctx of
        None \<Rightarrow> Inl Null_dereference
      | Some _ \<Rightarrow> if post_recv_ok env then Inr (ctx\<lparr> posted := Suc (posted ctx) \<rparr>) else Inl Exit_failure)"

definition send_message :: "verbs_env \<Rightarrow> 'a endpoint_scheme \<Rightarrow> rc_error + 'a endpoint_scheme" where
  "send_message env ctx =
     (case tx_msg ctx of
        None \<Rightarrow> Inl Null_dereference
      | Some m \<Rightarrow> if post_send_ok env then Inr (ctx\<lparr> sent := sent ctx @ [m] \<rparr>) else Inl Exit_failure)"

text \<open>The two allocations and registrations of \<open>on_pre_conn\<close>; fresh memory holds anything.\<close>

definition alloc_buffers :: "verbs_env \<Rightarrow> 'a endpoint_scheme \<Rightarrow> rc_error + 'a endpoint_scheme" where
  "alloc_buffers env ctx =
     (case memalign env of
        None \<Rightarrow> Inl (Throw ''posix memalign failed'')
      | Some garbage \<Rightarrow>
          if reg_msg_mr env then Inr (ctx\<lparr> tx_msg := Some garbage, rx_msg := Some garbage \<rparr>) else Inl Exit_failure)"

text \<open>The receive bit of a completion's opcode.\<close>

definition IBV_WC_RECV :: u32 where "IBV_WC_RECV = 128"

definition is_recv :: "u32 \<Rightarrow> bool" where
  "is_recv opcode \<longleftrightarrow> opcode AND IBV_WC_RECV \<noteq> 0"

subsection \<open>Memory for remote reads\<close>

record server_os = verbs_env +
  os_align_up :: "u64 \<Rightarrow> u64 \<Rightarrow> u64"
  os_mmap :: "u64 \<Rightarrow> u64"
  os_reg_mr :: "u64 \<Rightarrow> u64 \<Rightarrow> u32 option"
  os_map_file :: "string \<Rightarrow> bool \<Rightarrow> u64 \<Rightarrow> u64 \<Rightarrow> u8 list option"
  os_fs :: file_system

record region =
  r_addr :: u64
  r_rkey :: u32
  r_mem :: "u8 list"

definition RDMA_mmap_unique :: "server_os \<Rightarrow> u64 \<Rightarrow> bool \<Rightarrow> rc_error + region" where
  "RDMA_mmap_unique os array_size use_HP =
     (let req_size = 4 * array_size;
          aligned_size = (if use_HP then os_align_up os req_size HP_align else req_size);
          ptr = os_mmap os aligned_size
      in if ptr \<noteq> 0 then
           case os_reg_mr os ptr aligned_size of
             None \<Rightarrow> Inl (Throw ''ibv_reg_mr failed'')
           | Some rkey \<Rightarrow> Inr \<lparr> r_addr = ptr, r_rkey = rkey, r_mem = replicate (unat aligned_size) 0 \<rparr>
         else Inl (Throw ''std::bad_alloc''))"

subsection \<open>Loading the edge file\<close>

definition default_chunk :: u64 where
  "default_chunk = 30 * 2 ^ 30"

definition memcpy :: "u8 list \<Rightarrow> nat \<Rightarrow> u8 list \<Rightarrow> u8 list" where
  "memcpy mem pos bs = take pos mem @ bs @ drop (pos + length bs) mem"

record file_mapper =
  fm_file :: string
  fm_chunk_size :: u64
  fm_offset :: u64
  fm_filesize :: u64
  fm_use_HP :: bool

definition has_next :: "file_mapper \<Rightarrow> bool" where
  "has_next fm \<longleftrightarrow> fm_offset fm < fm_filesize fm"

text \<open>\<open>operator()\<close>: the mapped bytes, if the mapping can be read, the length, the advanced mapper.\<close>

definition map_chunk :: "server_os \<Rightarrow> file_mapper \<Rightarrow> u8 list option \<times> u64 \<times> file_mapper" where
  "map_chunk os fm =
     (let len = min (fm_chunk_size fm) (fm_filesize fm - fm_offset fm);
          len = (if fm_use_HP fm then os_align_up os len HP_align else len);
          ptr = os_map_file os (fm_file fm) (fm_use_HP fm) (fm_offset fm) len
      in (ptr, len, fm\<lparr> fm_offset := fm_offset fm + len \<rparr>))"

text \<open>
  The copy loop. \<open>array\<close> is the position in the region. Every chunk has at least one byte, so one
  more iteration than the file has bytes is enough fuel.
\<close>

fun copy_chunks :: "nat \<Rightarrow> server_os \<Rightarrow> file_mapper \<Rightarrow> u64 \<Rightarrow> u8 list \<Rightarrow> rc_error + u8 list" where
  "copy_chunks 0 os fm array mem = Inl Diverges"
| "copy_chunks (Suc fuel) os fm array mem =
     (if has_next fm then
        (case map_chunk os fm of
           (None, _) \<Rightarrow> Inl Memory_fault
         | (Some bs, len, fm) \<Rightarrow>
             if length bs = unat len \<and> unat array + unat len \<le> length mem
             then copy_chunks fuel os fm (array + len) (memcpy mem (unat array) bs)
             else Inl Memory_fault)
      else Inr mem)"

definition server_num_elements :: "file_entry \<Rightarrow> u64" where
  "server_num_elements f = of_nat (length (contents f)) div 4"

definition get_edge_list :: "server_os \<Rightarrow> string \<Rightarrow> bool \<Rightarrow> rc_error + (region \<times> u64)" where
  "get_edge_list os adj_file use_HP =
     (case os_fs os adj_file of
        None \<Rightarrow> Inl (Throw ''.adj file not found'')
      | Some f \<Rightarrow>
          if \<not> regular f then Inl (Throw ''.adj file not found'')
          else
            let edges_count = server_num_elements f in
            bind_rc (RDMA_mmap_unique os edges_count use_HP) (\<lambda>r.
              if \<not> opens f then Inl (Throw ''open() failed on .adj file'')
              else
                let filesize = edges_count * 4;
                    fm = \<lparr> fm_file = adj_file, fm_chunk_size = default_chunk, fm_offset = 0,
                           fm_filesize = filesize, fm_use_HP = use_HP \<rparr>
                in bind_rc (copy_chunks (Suc (unat filesize)) os fm 0 (r_mem r)) (\<lambda>mem.
                   Inr (r\<lparr> r_mem := mem \<rparr>, edges_count))))"

subsection \<open>The handlers\<close>

record server_context = endpoint +
  adj_filename :: string
  held :: "(region \<times> u64) list"
  use_hp :: bool
  fam_thp_flag :: u32
  ctx_ids :: "cm_id list"

definition FAMServer_on_pre_conn :: "server_os \<Rightarrow> cm_id \<Rightarrow> server_context \<Rightarrow> rc_error + server_context" where
  "FAMServer_on_pre_conn os i ctx =
     bind_rc (alloc_buffers (verbs_env.truncate os) (ctx\<lparr> ctx_ids := i # ctx_ids ctx \<rparr>))
       (post_receive (verbs_env.truncate os))"

definition FAMServer_on_connection :: "server_os \<Rightarrow> cm_id \<Rightarrow> server_context \<Rightarrow> rc_error + server_context" where
  "FAMServer_on_connection os i ctx =
     (if i \<notin> set (ctx_ids ctx) then Inl Null_dereference
      else
        bind_rc (get_edge_list os (adj_filename ctx) (use_hp ctx)) (\<lambda>(mr, edges).
        if tx_msg ctx = None then Inl Null_dereference
        else send_message (verbs_env.truncate os)
          (ctx\<lparr> held := held ctx @ [(mr, edges)],
                tx_msg := Some \<lparr> msg_id = MSG_MR, mr_addr = r_addr mr, mr_rkey = r_rkey mr, mr_total_edges = edges \<rparr> \<rparr>)))"

definition reply_done :: "verbs_env \<Rightarrow> server_context \<Rightarrow> rc_error + server_context" where
  "reply_done env ctx =
     bind_rc (post_receive env ctx) (\<lambda>ctx.
     send_message env (ctx\<lparr> tx_msg := map_option (\<lambda>m. m\<lparr> msg_id := MSG_DONE \<rparr>) (tx_msg ctx) \<rparr>))"

definition FAMServer_on_completion :: "server_os \<Rightarrow> u32 \<Rightarrow> server_context \<Rightarrow> rc_error + server_context" where
  "FAMServer_on_completion os opcode ctx =
     (if is_recv opcode then
        (case rx_msg ctx of
           None \<Rightarrow> Inl Null_dereference
         | Some m \<Rightarrow>
             if msg_id m = MSG_READY then reply_done (verbs_env.truncate os) ctx
             else if msg_id m = MSG_DONE then reply_done (verbs_env.truncate os) ctx
             else Inr ctx)
      else Inr ctx)"

definition FAMServer_on_disconnect :: "cm_id \<Rightarrow> server_context \<Rightarrow> rc_error + server_context" where
  "FAMServer_on_disconnect i ctx =
     (if i \<notin> set (ctx_ids ctx) then Inl Null_dereference else Inr (ctx\<lparr> rx_msg := None, tx_msg := None \<rparr>))"

definition FAMServer :: "server_os \<Rightarrow> server_context abstract_server" where
  "FAMServer os = \<lparr> on_pre_conn = FAMServer_on_pre_conn os, on_connection = FAMServer_on_connection os,
     on_disconnect = FAMServer_on_disconnect \<rparr>"

record server_options =
  so_server_addr :: "string option"
  so_port :: "string option"
  so_edgefile :: "string option"
  so_hp :: bool
  so_madvise_thp :: u32

definition FAMServer_validate_params :: "server_options \<Rightarrow> rc_error + string" where
  "FAMServer_validate_params vm =
     (if so_server_addr vm = None then Inl (Throw ''server-addr'')
      else if so_port vm = None then Inl (Throw ''port'')
      else case so_edgefile vm of None \<Rightarrow> Inl (Throw ''edgefile'') | Some file \<Rightarrow> Inr file)"

definition new_server_context :: "string \<Rightarrow> bool \<Rightarrow> u32 \<Rightarrow> server_context" where
  "new_server_context file hp thp =
     \<lparr> tx_msg = None, rx_msg = None, posted = 0, sent = [], adj_filename = file, held = [], use_hp = hp,
       fam_thp_flag = thp, ctx_ids = [] \<rparr>"

text \<open>\<open>listen_ok\<close>: creating the channel and the listener, binding and listening succeed.\<close>

definition FAMServer_run ::
    "server_os \<Rightarrow> (cm_call \<Rightarrow> bool) \<Rightarrow> bool \<Rightarrow> server_options \<Rightarrow> cm_event list \<Rightarrow> rc_error + server_context rc_state" where
  "FAMServer_run os lib listen_ok vm evs =
     bind_rc (FAMServer_validate_params vm) (\<lambda>file.
     if \<not> listen_ok then Inl Exit_failure
     else AbstractServer_event_loop lib (FAMServer os) False evs
            (rc_start (new_server_context file (so_hp vm) (so_madvise_thp vm))))"

subsection \<open>The loaded edges are those of the file\<close>

text \<open>What a readable private mapping of a file shows: the bytes of the file.\<close>

definition maps_file :: "server_os \<Rightarrow> string \<Rightarrow> u8 list \<Rightarrow> bool" where
  "maps_file os file bytes \<longleftrightarrow> os_fs os file = Some \<lparr> regular = True, opens = True, contents = bytes \<rparr> \<and>
     length bytes < 2 ^ 64 \<and>
     (\<forall>off len. unat off + unat len \<le> length bytes \<longrightarrow>
        os_map_file os file False off len = Some (take (unat len) (drop (unat off) bytes)))"

lemma memcpy_extends:
  assumes "take a mem = take a bytes" "a + l \<le> length mem" "a + l \<le> length bytes"
  shows "take (a + l) (memcpy mem a (take l (drop a bytes))) = take (a + l) bytes"
    and "length (memcpy mem a (take l (drop a bytes))) = length mem"
proof -
  have "length (take l (drop a bytes)) = l" using assms(3) by simp
  then show "take (a + l) (memcpy mem a (take l (drop a bytes))) = take (a + l) bytes"
    using assms by (simp add: memcpy_def take_add)
  show "length (memcpy mem a (take l (drop a bytes))) = length mem"
    using assms by (simp add: memcpy_def)
qed

lemma copy_chunks_complete:
  assumes "maps_file os (fm_file fm) bytes" "\<not> fm_use_HP fm" "0 < fm_chunk_size fm"
    and "unat (fm_filesize fm) \<le> length bytes" "length mem = unat (fm_filesize fm)"
    and "fm_offset fm \<le> fm_filesize fm" "take (unat (fm_offset fm)) mem = take (unat (fm_offset fm)) bytes"
    and "unat (fm_filesize fm) - unat (fm_offset fm) < fuel"
  shows "copy_chunks fuel os fm (fm_offset fm) mem = Inr (take (unat (fm_filesize fm)) bytes)"
  using assms
proof (induction fuel arbitrary: fm mem)
  case (Suc fuel)
  let ?o = "fm_offset fm" and ?n = "fm_filesize fm"
  show ?case
  proof (cases "?o < ?n")
    case True
    define len where "len = min (fm_chunk_size fm) (?n - ?o)"
    have l0: "0 < len" using True Suc.prems(3) by (auto simp: len_def word_gt_0 min_def)
    have "len \<le> ?n - ?o" by (simp add: len_def)
    then have l: "unat len \<le> unat ?n - unat ?o" using unat_sub_word [OF Suc.prems(6)] by (simp add: word_le_nat_alt)
    have on: "unat ?o < unat ?n" using True by (simp add: word_less_nat_alt)
    have uo: "unat (?o + len) = unat ?o + unat len"
      using l on unat_u64_lt [of ?n] by (simp add: unat_word_ariths)
    have fits: "unat ?o + unat len \<le> length bytes" using l on Suc.prems(4) by linarith
    have mc: "map_chunk os fm = (Some (take (unat len) (drop (unat ?o) bytes)), len, fm\<lparr> fm_offset := ?o + len \<rparr>)"
      using Suc.prems(1,2) fits by (simp add: map_chunk_def Let_def len_def maps_file_def)
    let ?fm = "fm\<lparr> fm_offset := ?o + len \<rparr>" and ?mem = "memcpy mem (unat ?o) (take (unat len) (drop (unat ?o) bytes))"
    have fm2: "unat ?o + unat len \<le> length mem" using l on Suc.prems(5) by linarith
    have "copy_chunks fuel os ?fm (fm_offset ?fm) ?mem = Inr (take (unat (fm_filesize ?fm)) bytes)"
    proof (rule Suc.IH)
      show "fm_offset ?fm \<le> fm_filesize ?fm" using uo l on by (simp add: word_le_nat_alt)
      show "take (unat (fm_offset ?fm)) ?mem = take (unat (fm_offset ?fm)) bytes"
        using memcpy_extends(1) [OF Suc.prems(7) fm2 fits] uo by simp
      show "length ?mem = unat (fm_filesize ?fm)"
        using memcpy_extends(2) [OF Suc.prems(7) fm2 fits] Suc.prems(5) by simp
      have "0 < unat len" using l0 by (simp add: word_less_nat_alt)
      then show "unat (fm_filesize ?fm) - unat (fm_offset ?fm) < fuel" using Suc.prems(8) uo l on by simp
    qed (use Suc.prems in simp_all)
    then show ?thesis using True mc fits fm2 by (simp add: has_next_def)
  next
    case False
    then have "?o = ?n" using Suc.prems(6) by simp
    then show ?thesis using Suc.prems(5,7) by (simp add: has_next_def)
  qed
qed simp

lemma edges_of_file:
  assumes "length bytes < 2 ^ 64"
  shows "unat (of_nat (length bytes) div 4 :: u64) = length bytes div 4"
    and "unat (of_nat (length bytes) div 4 * 4 :: u64) = 4 * (length bytes div 4)"
proof -
  have "unat (of_nat (length bytes) :: u64) = length bytes" using assms by (rule unat_of_nat_u64)
  then show u: "unat (of_nat (length bytes) div 4 :: u64) = length bytes div 4" by (simp add: unat_div_distrib)
  have "length bytes div 4 * 4 < 2 ^ 64" using assms by linarith
  then show "unat (of_nat (length bytes) div 4 * 4 :: u64) = 4 * (length bytes div 4)"
    using u by (simp add: unat_word_ariths)
qed

lemma RDMA_mmap_mem:
  assumes "RDMA_mmap_unique os n False = Inr r"
  shows "length (r_mem r) = unat (4 * n)"
  using assms by (auto simp: RDMA_mmap_unique_def Let_def split: if_splits option.splits)

lemma get_edge_list_eq:
  assumes "maps_file os file bytes"
  shows "get_edge_list os file False =
    bind_rc (RDMA_mmap_unique os (of_nat (length bytes) div 4) False)
      (\<lambda>r. Inr (r\<lparr> r_mem := take (4 * (length bytes div 4)) bytes \<rparr>, of_nat (length bytes) div 4))"
proof (cases "RDMA_mmap_unique os (of_nat (length bytes) div 4) False")
  case (Inr r)
  have fs: "os_fs os file = Some \<lparr> regular = True, opens = True, contents = bytes \<rparr>" and lt: "length bytes < 2 ^ 64"
    using assms by (auto simp: maps_file_def)
  let ?n = "of_nat (length bytes) div 4 * 4 :: u64"
  let ?fm = "\<lparr> fm_file = file, fm_chunk_size = default_chunk, fm_offset = 0, fm_filesize = ?n, fm_use_HP = False \<rparr>"
  note u = edges_of_file [OF lt]
  have "copy_chunks (Suc (unat ?n)) os ?fm (fm_offset ?fm) (r_mem r) = Inr (take (unat (fm_filesize ?fm)) bytes)"
  proof (rule copy_chunks_complete)
    show "length (r_mem r) = unat (fm_filesize ?fm)" using RDMA_mmap_mem [OF Inr] by (simp add: mult.commute)
    show "unat (fm_filesize ?fm) \<le> length bytes" using u(2) by simp
  qed (use assms in \<open>simp_all add: default_chunk_def\<close>)
  then have "copy_chunks (Suc (unat ?n)) os ?fm 0 (r_mem r) = Inr (take (4 * (length bytes div 4)) bytes)"
    using u(2) by simp
  then show ?thesis using fs Inr by (simp add: get_edge_list_def Let_def server_num_elements_def del: copy_chunks.simps)
next
  case (Inl e)
  then show ?thesis using assms by (simp add: get_edge_list_def maps_file_def Let_def server_num_elements_def)
qed

subsection \<open>What the server announces\<close>

definition holds_file :: "u8 list \<Rightarrow> region \<times> u64 \<Rightarrow> bool" where
  "holds_file bytes re \<longleftrightarrow> snd re = of_nat (length bytes) div 4 \<and> r_mem (fst re) = take (4 * (length bytes div 4)) bytes"

definition announces :: "server_context \<Rightarrow> message \<Rightarrow> region \<times> u64 \<Rightarrow> bool" where
  "announces ctx m re \<longleftrightarrow> re \<in> set (held ctx) \<and> mr_addr m = r_addr (fst re) \<and> mr_rkey m = r_rkey (fst re) \<and>
     mr_total_edges m = snd re"

text \<open>
  The invariant of the server for the edge file \<open>bytes\<close>: every region it holds has the edges of the
  file, and every announcement it has sent names such a region.
\<close>

definition server_inv :: "string \<Rightarrow> u8 list \<Rightarrow> server_context \<Rightarrow> bool" where
  "server_inv file bytes ctx \<longleftrightarrow> adj_filename ctx = file \<and> \<not> use_hp ctx \<and>
     (\<forall>re \<in> set (held ctx). holds_file bytes re) \<and>
     (\<forall>m \<in> set (sent ctx). msg_id m = MSG_MR \<longrightarrow> (\<exists>re. announces ctx m re))"

lemma server_inv_frame:
  assumes "server_inv file bytes ctx" "adj_filename ctx' = adj_filename ctx" "use_hp ctx' = use_hp ctx"
    and "held ctx' = held ctx" "\<forall>m \<in> set (sent ctx'). msg_id m = MSG_MR \<longrightarrow> m \<in> set (sent ctx)"
  shows "server_inv file bytes ctx'"
  using assms by (auto simp: server_inv_def announces_def)

lemma pre_conn_inv: "FAMServer_on_pre_conn os i ctx = Inr ctx' \<Longrightarrow> server_inv file bytes ctx \<Longrightarrow> server_inv file bytes ctx'"
  by (erule server_inv_frame)
    (auto simp: FAMServer_on_pre_conn_def alloc_buffers_def post_receive_def split: option.splits if_splits sum.splits)

lemma disconnect_inv: "FAMServer_on_disconnect i ctx = Inr ctx' \<Longrightarrow> server_inv file bytes ctx \<Longrightarrow> server_inv file bytes ctx'"
  by (erule server_inv_frame) (auto simp: FAMServer_on_disconnect_def split: if_splits)

lemma reply_done_inv: "reply_done env ctx = Inr ctx' \<Longrightarrow> server_inv file bytes ctx \<Longrightarrow> server_inv file bytes ctx'"
  by (erule server_inv_frame)
    (auto simp: reply_done_def post_receive_def send_message_def msg_ids split: option.splits if_splits sum.splits)

lemma completion_inv:
  "FAMServer_on_completion os opcode ctx = Inr ctx' \<Longrightarrow> server_inv file bytes ctx \<Longrightarrow> server_inv file bytes ctx'"
  by (auto simp: FAMServer_on_completion_def intro: reply_done_inv split: option.splits if_splits)

lemma connection_inv:
  assumes "maps_file os file bytes" "FAMServer_on_connection os i ctx = Inr ctx'" "server_inv file bytes ctx"
  shows "server_inv file bytes ctx'"
proof -
  obtain r where r: "RDMA_mmap_unique os (of_nat (length bytes) div 4) False = Inr r"
    using assms by (auto simp: FAMServer_on_connection_def server_inv_def get_edge_list_eq split: if_splits sum.splits)
  let ?re = "(r\<lparr> r_mem := take (4 * (length bytes div 4)) bytes \<rparr>, of_nat (length bytes) div 4 :: u64)"
  let ?m = "\<lparr> msg_id = MSG_MR, mr_addr = r_addr r, mr_rkey = r_rkey r, mr_total_edges = of_nat (length bytes) div 4 \<rparr>"
  have "ctx' = ctx\<lparr> held := held ctx @ [?re], tx_msg := Some ?m, sent := sent ctx @ [?m] \<rparr>"
    using assms r by (auto simp: FAMServer_on_connection_def server_inv_def get_edge_list_eq send_message_def split: if_splits)
  moreover have "announces (ctx\<lparr> held := held ctx @ [?re], tx_msg := Some ?m, sent := sent ctx @ [?m] \<rparr>) ?m ?re"
    by (simp add: announces_def)
  ultimately show ?thesis
    using assms(3) by (auto simp: server_inv_def announces_def holds_file_def)
qed

text \<open>The server's handlers meet the contract of the event loop, if the system maps files correctly.\<close>

interpretation fam_server: cm_handlers "as_callbacks (FAMServer os)" "\<lambda>ctx. maps_file os path bytes \<longrightarrow> server_inv path bytes ctx"
  for os path bytes
  by unfold_locales (auto simp: as_callbacks_def FAMServer_def intro: pre_conn_inv connection_inv disconnect_inv)

lemma new_server_inv: "server_inv file bytes (new_server_context file False thp)"
  by (simp add: server_inv_def new_server_context_def)

subsection \<open>Properties\<close>

text \<open>
  C23. The server loads the whole edge file: if the mappings of the system show the bytes of the
  file, the loop over the chunks ends, the number of edges is the file size over four, and the
  registered memory, read as 32-bit words, is the sequence of edges in the file. The region is the
  one that \<open>RDMA_mmap_unique\<close> registered.
\<close>

theorem edge_file_loaded:
  assumes "maps_file os file bytes" "RDMA_mmap_unique os (of_nat (length bytes) div 4) False = Inr r"
  shows "\<exists>mem. get_edge_list os file False = Inr (r\<lparr> r_mem := mem \<rparr>, of_nat (length bytes div 4)) \<and>
           le_words 4 (length bytes div 4) mem = (le_words 4 (length bytes div 4) bytes :: u32 list) \<and>
           length mem = 4 * (length bytes div 4)"
proof -
  have "of_nat (length bytes) div 4 = (of_nat (length bytes div 4) :: u64)"
    using edges_of_file(1) [of bytes] assms(1) by (metis maps_file_def of_nat_unat ucast_id)
  moreover have "le_words 4 n (take (4 * n) xs) = (le_words 4 n xs :: u32 list)" for n and xs :: "u8 list"
    by (induction n arbitrary: xs) (simp_all add: drop_take min_def)
  ultimately show ?thesis
    using get_edge_list_eq [OF assms(1)] assms(2)
    by (intro exI [of _ "take (4 * (length bytes div 4)) bytes"]) simp
qed

definition demo_os :: "u8 list \<Rightarrow> server_os" where
  "demo_os bytes = \<lparr> memalign = Some \<lparr> msg_id = 9, mr_addr = 9, mr_rkey = 9, mr_total_edges = 9 \<rparr>, reg_msg_mr = True,
     post_recv_ok = True, post_send_ok = True, os_align_up = (\<lambda>a b. a), os_mmap = (\<lambda>_. 4096), os_reg_mr = (\<lambda>_ _. Some 5),
     os_map_file = (\<lambda>_ _ off len. Some (take (unat len) (drop (unat off) bytes))),
     os_fs = (\<lambda>_. Some \<lparr> regular = True, opens = True, contents = bytes \<rparr>) \<rparr>"

lemma demo_verbs: "verbs_env.truncate (demo_os bytes) = \<lparr> memalign = Some \<lparr> msg_id = 9, mr_addr = 9, mr_rkey = 9, mr_total_edges = 9 \<rparr>,
     reg_msg_mr = True, post_recv_ok = True, post_send_ok = True \<rparr>"
  by (simp add: verbs_env.truncate_def demo_os_def)

lemma demo_maps_file: "length bytes < 2 ^ 64 \<Longrightarrow> maps_file (demo_os bytes) file bytes"
  by (simp add: maps_file_def demo_os_def)

theorem edge_file_loaded_witness:
  "\<exists>mem. get_edge_list (demo_os [1, 0, 0, 0, 2, 1, 0, 0, 77]) ''g.adj'' False =
      Inr (\<lparr> r_addr = 4096, r_rkey = 5, r_mem = mem \<rparr>, 2) \<and> le_words 4 2 mem = [1, 258 :: u32] \<and> length mem = 8"
proof -
  let ?b = "[1, 0, 0, 0, 2, 1, 0, 0, 77] :: u8 list"
  have m: "maps_file (demo_os ?b) ''g.adj'' ?b" by (rule demo_maps_file) simp
  have r: "RDMA_mmap_unique (demo_os ?b) (of_nat (length ?b) div 4) False = Inr \<lparr> r_addr = 4096, r_rkey = 5, r_mem = replicate 8 0 \<rparr>"
    by (simp add: RDMA_mmap_unique_def demo_os_def)
  have "le_words 4 2 ?b = [1, 258 :: u32]" unfolding numeral_2_eq_2 le_words.simps by simp
  then show ?thesis using edge_file_loaded [OF m r] by simp
qed

text \<open>
  Whatever connection events reach the server and in whatever order, every region it then
  holds has the edges of the edge file and every announcement it has posted names one of these
  regions, with its address, its key and the number of edges.
\<close>

lemma server_announces_file:
  assumes "maps_file os file bytes" "so_edgefile vm = Some file" "\<not> so_hp vm"
    and "FAMServer_run os lib listen_ok vm evs = Inr s"
  shows "server_inv file bytes (user s)"
proof -
  let ?u = "new_server_context file (so_hp vm) (so_madvise_thp vm)"
  have "AbstractServer_event_loop lib (FAMServer os) False evs (rc_start ?u) = Inr s"
    using assms(2,4) by (auto simp: FAMServer_run_def FAMServer_validate_params_def split: if_splits)
  then have "event_loop lib (as_callbacks (FAMServer os)) False evs (rc_start ?u) = Inr s"
    by (simp only: AbstractServer_loop_eq)
  moreover have "maps_file os file bytes \<longrightarrow> server_inv file bytes (user (rc_start ?u))"
    using assms(3) by (simp add: rc_start_def new_server_inv)
  ultimately show ?thesis using fam_server.loop_keeps assms(1) by blast
qed

lemma server_announces_file_witness:
  "\<exists>s. FAMServer_run (demo_os [1, 0, 0, 0]) (\<lambda>_. True) True
     \<lparr> so_server_addr = Some ''a'', so_port = Some ''1'', so_edgefile = Some ''g.adj'', so_hp = False, so_madvise_thp = 0 \<rparr>
     [demo_event RDMA_CM_EVENT_CONNECT_REQUEST 0, demo_event RDMA_CM_EVENT_ESTABLISHED 0,
      demo_event RDMA_CM_EVENT_CONNECT_REQUEST 1] = Inr s \<and>
   server_inv ''g.adj'' [1, 0, 0, 0] (user s) \<and>
   sent (user s) = [\<lparr> msg_id = 1, mr_addr = 4096, mr_rkey = 5, mr_total_edges = 1 \<rparr>]"
proof -
  let ?os = "demo_os [1, 0, 0, 0]"
  let ?vm = "\<lparr> so_server_addr = Some ''a'', so_port = Some ''1'', so_edgefile = Some ''g.adj'', so_hp = False, so_madvise_thp = 0 \<rparr>"
  let ?evs = "[demo_event RDMA_CM_EVENT_CONNECT_REQUEST 0, demo_event RDMA_CM_EVENT_ESTABLISHED 0, demo_event RDMA_CM_EVENT_CONNECT_REQUEST 1]"
  have m: "maps_file ?os ''g.adj'' [1, 0, 0, 0]" by (rule demo_maps_file) simp
  have g: "get_edge_list ?os ''g.adj'' False = Inr (\<lparr> r_addr = 4096, r_rkey = 5, r_mem = [1, 0, 0, 0] \<rparr>, 1)"
    unfolding get_edge_list_eq [OF m] by (simp add: RDMA_mmap_unique_def demo_os_def)
  have "\<exists>s. FAMServer_run ?os (\<lambda>_. True) True ?vm ?evs = Inr s \<and> sent (user s) = [\<lparr> msg_id = 1, mr_addr = 4096, mr_rkey = 5, mr_total_edges = 1 \<rparr>]"
    unfolding FAMServer_run_def AbstractServer_loop_eq
    by (simp add: FAMServer_validate_params_def loop_eval as_callbacks_def FAMServer_def FAMServer_on_pre_conn_def new_server_context_def
      FAMServer_on_connection_def g alloc_buffers_def post_receive_def send_message_def demo_verbs msg_ids)
  then obtain s where s: "FAMServer_run ?os (\<lambda>_. True) True ?vm ?evs = Inr s"
      "sent (user s) = [\<lparr> msg_id = 1, mr_addr = 4096, mr_rkey = 5, mr_total_edges = 1 \<rparr>]" by blast
  have "server_inv ''g.adj'' [1, 0, 0, 0] (user s)"
    by (rule server_announces_file [OF m _ _ s(1)]) simp_all
  with s show ?thesis by blast
qed

end
