(* ===== verification/Client.thy ===== *)
theory Client
  imports Server Complex_Main
begin

text \<open>
  The client process: \<open>src/src/client_runtime.cpp\<close>, the part of \<open>src/include/client_runtime.hpp\<close>
  that the session uses, and \<open>src/src/main.cpp\<close>. The handler of the server's announcement contains
  a wait for the other connections; it is split there, at \<open>client_on_mr\<close> (before the wait) and
  \<open>client_start_kernel\<close> (after it). Kernels themselves are modelled in their own theories.
\<close>

subsection \<open>Contexts and options\<close>

record application =
  app_num_vertices :: u32
  app_num_edges :: u64
  should_stop :: bool

datatype cache_pointer = Uninitialised | Nullptr | Loaded string

datatype kernel = Bfs | Pagerank_delta | Connected_components | Kcore | Mis

record client_options =
  co_server_addr :: "string option"
  co_port :: "string option"
  co_indexfile :: "string option"
  co_kernel :: string
  co_threads :: u64
  co_cache_ratio :: rat
  co_cache_file_path :: "string option"
  co_double_buffer :: bool
  co_numa_bind :: bool

record client_session = endpoint +
  cs_peer_addr :: u64
  cs_peer_rkey :: u32
  cs_num_edges :: u64
  cs_pd :: bool
  cs_index_file :: string
  cs_kernel :: string
  cs_connections :: u64
  cs_cm_ids :: "cm_id list"
  cs_resolving :: "cm_id list"
  cs_cache_ratio :: rat
  cs_cacheMap :: cache_pointer
  cs_cacheManager :: cache_pointer
  cs_app :: "application option"
  cs_comm_threads :: nat
  cs_app_thread :: "kernel option"
  cs_waiting :: bool
  cs_disconnecting :: bool

definition endsWith :: "string \<Rightarrow> string \<Rightarrow> bool" where
  "endsWith str suffix =
     (if length suffix > length str then False else drop (length str - length suffix) str = suffix)"

definition validate_params :: "client_options \<Rightarrow> rc_error + string" where
  "validate_params vm =
     (if co_server_addr vm = None then Inl (Throw ''server-addr'')
      else if co_port vm = None then Inl (Throw ''port'')
      else case co_indexfile vm of None \<Rightarrow> Inl (Throw ''index file'') | Some ifile \<Rightarrow> Inr ifile)"

subsection \<open>Handlers\<close>

record client_env = verbs_env +
  ce_fs :: file_system
  ce_resolve_addr :: "cm_id \<Rightarrow> bool"

text \<open>The client's copies of \<open>post_receive\<close> and \<open>send_message\<close>, which also print the error.\<close>

definition client_post_receive :: "verbs_env \<Rightarrow> client_session \<Rightarrow> rc_error + client_session" where
  "client_post_receive env ctx =
     (case rx_msg ctx of
        None \<Rightarrow> Inl Null_dereference
      | Some _ \<Rightarrow> if post_recv_ok env then Inr (ctx\<lparr> posted := Suc (posted ctx) \<rparr>) else Inl Exit_failure)"

definition client_send_message :: "verbs_env \<Rightarrow> client_session \<Rightarrow> rc_error + client_session" where
  "client_send_message env ctx =
     (case tx_msg ctx of
        None \<Rightarrow> Inl Null_dereference
      | Some m \<Rightarrow> if post_send_ok env then Inr (ctx\<lparr> sent := sent ctx @ [m] \<rparr>) else Inl Exit_failure)"

lemma client_copies [simp]:
  "client_post_receive env = post_receive env" "client_send_message env = send_message env"
  by (intro ext; simp only: client_post_receive_def client_send_message_def post_receive_def send_message_def)+

definition client_on_pre_conn :: "client_env \<Rightarrow> cm_id \<Rightarrow> client_session \<Rightarrow> rc_error + client_session" where
  "client_on_pre_conn env i ctx =
     bind_rc (alloc_buffers (verbs_env.truncate env) ctx) (client_post_receive (verbs_env.truncate env))"

definition client_on_disconnect :: "cm_id \<Rightarrow> client_session \<Rightarrow> rc_error + client_session" where
  "client_on_disconnect i ctx = Inr (ctx\<lparr> rx_msg := None, tx_msg := None \<rparr>)"

text \<open>The announcement, up to the wait for the other connections.\<close>

definition client_on_mr :: "client_env \<Rightarrow> message \<Rightarrow> client_session \<Rightarrow> rc_error + client_session" where
  "client_on_mr env m ctx =
     (let ctx = ctx\<lparr> cs_peer_addr := mr_addr m, cs_peer_rkey := mr_rkey m, cs_num_edges := mr_total_edges m \<rparr> in
      bind_rc (client_post_receive (verbs_env.truncate env) ctx) (\<lambda>ctx.
      let ctx = ctx\<lparr> cs_pd := True \<rparr> in
      case get_num_verts (ce_fs env) (cs_index_file ctx) of
        Inl _ \<Rightarrow> Inl (Throw ''get_num_verts'')
      | Inr n \<Rightarrow>
          let ctx = ctx\<lparr> cs_app := Some \<lparr> app_num_vertices = n, app_num_edges = mr_total_edges m, should_stop = False \<rparr> \<rparr>
          in if list_all (ce_resolve_addr env) (cs_cm_ids ctx)
             then Inr (ctx\<lparr> cs_resolving := cs_resolving ctx @ cs_cm_ids ctx, cs_waiting := True \<rparr>)
             else Inl Exit_failure))"

definition select_cache :: "client_options \<Rightarrow> client_session \<Rightarrow> rc_error + client_session" where
  "select_cache vm ctx =
     (if cs_cache_ratio ctx \<noteq> 0 then
        case co_cache_file_path vm of
          None \<Rightarrow> Inl (Throw ''Not providing cache file path!'')
        | Some cache_file_path \<Rightarrow>
            if endsWith cache_file_path ''.bin_cache''
            then Inr (ctx\<lparr> cs_cacheMap := Loaded cache_file_path, cs_cacheManager := Nullptr \<rparr>)
            else if endsWith cache_file_path ''.cache''
            then Inr (ctx\<lparr> cs_cacheMap := Nullptr, cs_cacheManager := Loaded cache_file_path \<rparr>)
            else Inr ctx
      else Inr (ctx\<lparr> cs_cacheMap := Nullptr, cs_cacheManager := Nullptr \<rparr>))"

definition dispatch_kernel :: "client_session \<Rightarrow> rc_error + client_session" where
  "dispatch_kernel ctx =
     (if cs_kernel ctx = ''bfs'' then Inr (ctx\<lparr> cs_app_thread := Some Bfs \<rparr>)
      else if cs_kernel ctx = ''pagerank_delta'' then Inr (ctx\<lparr> cs_app_thread := Some Pagerank_delta \<rparr>)
      else if cs_kernel ctx = ''CC'' then Inr (ctx\<lparr> cs_app_thread := Some Connected_components \<rparr>)
      else if cs_kernel ctx = ''kcore'' then Inr (ctx\<lparr> cs_app_thread := Some Kcore \<rparr>)
      else if cs_kernel ctx = ''MIS'' then Inr (ctx\<lparr> cs_app_thread := Some Mis \<rparr>)
      else Inl (Throw ''Unrecognized Kernel''))"

text \<open>The rest of the handler, once the loop \<open>rc_get_num_connections() < connections + 1\<close> has ended.\<close>

definition client_start_kernel :: "client_options \<Rightarrow> client_session \<Rightarrow> rc_error + client_session" where
  "client_start_kernel vm ctx =
     (let ctx = ctx\<lparr> cs_waiting := False, cs_comm_threads := Suc (cs_comm_threads ctx) \<rparr>
      in if co_double_buffer vm then Inl (Throw ''double buffering deprecated'')
         else bind_rc (select_cache vm ctx) dispatch_kernel)"

text \<open>Joining a thread that was never started raises an error.\<close>

definition client_on_done :: "client_session \<Rightarrow> rc_error + client_session" where
  "client_on_done ctx =
     (if cs_app_thread ctx = None then Inl (Throw ''std::system_error'')
      else Inr (ctx\<lparr> cs_disconnecting := True \<rparr>))"

definition client_on_completion :: "client_env \<Rightarrow> u32 \<Rightarrow> client_session \<Rightarrow> rc_error + client_session" where
  "client_on_completion env opcode ctx =
     (if is_recv opcode then
        (case rx_msg ctx of
           None \<Rightarrow> Inl Null_dereference
         | Some m \<Rightarrow>
             if msg_id m = MSG_MR then client_on_mr env m ctx
             else if msg_id m = MSG_READY then client_post_receive (verbs_env.truncate env) ctx
             else if msg_id m = MSG_DONE then client_on_done ctx
             else Inr ctx)
      else Inr ctx)"

definition finish_application :: "client_env \<Rightarrow> client_session \<Rightarrow> rc_error + client_session" where
  "finish_application env ctx =
     (case cs_app ctx of
        None \<Rightarrow> Inl Null_dereference
      | Some a \<Rightarrow>
          client_send_message (verbs_env.truncate env)
            (ctx\<lparr> cs_app := Some (a\<lparr> should_stop := True \<rparr>),
                  tx_msg := map_option (\<lambda>m. m\<lparr> msg_id := MSG_READY \<rparr>) (tx_msg ctx) \<rparr>))"

definition client_callbacks :: "client_env \<Rightarrow> client_session rc_callbacks" where
  "client_callbacks env = \<lparr> s_on_pre_conn_cb = Some (client_on_pre_conn env), s_on_connect_cb = None,
     s_on_disconnect_cb = Some client_on_disconnect \<rparr>"

subsection \<open>Start of the client\<close>

text \<open>The library \<open>numa\<close>: whether it is available, which calls succeed, the number of processors and of nodes.\<close>

record numa_lib =
  numa_available :: bool
  numa_allocate_nodemask :: bool
  set_mempolicy :: bool
  numa_num_configured_cpus :: nat
  numa_num_configured_nodes :: nat

definition use_cpus :: "numa_lib \<Rightarrow> nat \<Rightarrow> nat" where
  "use_cpus lib threads =
     (if threads > numa_num_configured_cpus lib then numa_num_configured_cpus lib else threads)"

text \<open>The nodes over which memory is interleaved and to which the process is bound.\<close>

datatype numa_result = Numa_unsupported | Numa_nodes "nat list"

definition do_numa_map :: "numa_lib \<Rightarrow> nat \<Rightarrow> rc_error + numa_result" where
  "do_numa_map lib threads =
     (if \<not> numa_available lib then Inr Numa_unsupported
      else if numa_num_configured_nodes lib = 0 then Inl Arithmetic_fault
      else
        let cpus_per_node = numa_num_configured_cpus lib div numa_num_configured_nodes lib
        in if cpus_per_node = 0 then Inl Arithmetic_fault
           else
             let use_nodes = (use_cpus lib threads + cpus_per_node - 1) div cpus_per_node
             in if \<not> numa_allocate_nodemask lib then Inl (Throw ''numa alloc'')
                else if \<not> set_mempolicy lib then Inl (Throw ''set_mempolicy() failed'')
                else Inr (Numa_nodes [0..<use_nodes]))"

definition num_connections :: "u64 \<Rightarrow> u64 \<Rightarrow> u64" where
  "num_connections threads max_cores = (if threads = 0 \<or> threads > max_cores then max_cores else threads)"

text \<open>The constructor of \<open>client_context\<close>: both cache pointers are left as they are in memory.\<close>

definition new_client_session :: "client_options \<Rightarrow> string \<Rightarrow> u64 \<Rightarrow> cm_id list \<Rightarrow> client_session" where
  "new_client_session vm ifile n ids =
     \<lparr> tx_msg = None, rx_msg = None, posted = 0, sent = [], cs_peer_addr = 0, cs_peer_rkey = 0, cs_num_edges = 0,
       cs_pd = False, cs_index_file = ifile, cs_kernel = co_kernel vm, cs_connections = n, cs_cm_ids = ids,
       cs_resolving = [], cs_cache_ratio = co_cache_ratio vm, cs_cacheMap = Uninitialised,
       cs_cacheManager = Uninitialised, cs_app = None, cs_comm_threads = 0, cs_app_thread = None,
       cs_waiting = False, cs_disconnecting = False \<rparr>"

definition run_client ::
    "client_env \<Rightarrow> (setup_call \<Rightarrow> bool) \<Rightarrow> (cm_call \<Rightarrow> bool) \<Rightarrow> numa_lib \<Rightarrow> u64 \<Rightarrow> client_options \<Rightarrow> cm_event list \<Rightarrow>
       rc_error + client_session rc_state" where
  "run_client env setup lib numa max_cores vm evs =
     bind_rc (validate_params vm) (\<lambda>ifile.
     let n = num_connections (co_threads vm) max_cores in
     bind_rc (if co_numa_bind vm then do_numa_map numa (unat n) else Inr Numa_unsupported) (\<lambda>_.
     let cm_ids = [1..<Suc (unat n)]
     in rc_client_loop setup lib (client_callbacks env) (the (co_server_addr vm)) (the (co_port vm)) cm_ids
          (new_client_session vm ifile n cm_ids) evs))"

subsection \<open>main.cpp\<close>

datatype mode_run = Run_client | Run_server

definition main_mode :: "string option \<Rightarrow> rat \<Rightarrow> string option \<Rightarrow> rc_error + mode_run" where
  "main_mode md cache_ratio cache_file_path =
     (case md of
        None \<Rightarrow> Inl (Throw ''boost::bad_any_cast'')
      | Some m \<Rightarrow>
          if cache_ratio > 1 / 1000000 \<and> cache_file_path = None then Inl (Throw ''cache_file_path'')
          else if m = ''client'' then Inr Run_client else Inr Run_server)"

subsection \<open>Properties\<close>

text \<open>
  C40. The cache pointers of a started kernel. From a fresh context, starting the kernel leaves the
  cache pointers initialised exactly if the cache ratio is zero or the cache file has one of the two
  known extensions; with any other file name the kernel runs with the pointers uninitialised.
\<close>

theorem cache_pointers_initialised:
  assumes "client_start_kernel vm ctx = Inr ctx'" "cs_cacheMap ctx = Uninitialised" "cs_cacheManager ctx = Uninitialised"
  shows "(cs_cacheMap ctx' \<noteq> Uninitialised \<and> cs_cacheManager ctx' \<noteq> Uninitialised) =
    (cs_cache_ratio ctx = 0 \<or> (\<exists>p. co_cache_file_path vm = Some p \<and> (endsWith p ''.bin_cache'' \<or> endsWith p ''.cache'')))"
  using assms by (auto simp: client_start_kernel_def select_cache_def dispatch_kernel_def bind_rc_Inr split: option.splits if_splits)

theorem cache_pointers_initialised_witness:
  "\<exists>vm ctx ctx'. client_start_kernel vm ctx = Inr ctx' \<and> co_cache_file_path vm = Some ''x.dat'' \<and>
     \<not> (cs_cacheMap ctx' \<noteq> Uninitialised \<and> cs_cacheManager ctx' \<noteq> Uninitialised)"
proof -
  define vm where "vm = \<lparr> co_server_addr = None, co_port = None, co_indexfile = None, co_kernel = ''bfs'', co_threads = 1,
    co_cache_ratio = 1, co_cache_file_path = Some ''x.dat'', co_double_buffer = False, co_numa_bind = False \<rparr>"
  define ctx where "ctx = new_client_session vm ''g.idx'' 1 [1]"
  obtain ctx' where c: "client_start_kernel vm ctx = Inr ctx'"
    by (simp add: client_start_kernel_def select_cache_def dispatch_kernel_def vm_def ctx_def new_client_session_def endsWith_def)
  have "(cs_cacheMap ctx' \<noteq> Uninitialised \<and> cs_cacheManager ctx' \<noteq> Uninitialised) =
    (cs_cache_ratio ctx = 0 \<or> (\<exists>p. co_cache_file_path vm = Some p \<and> (endsWith p ''.bin_cache'' \<or> endsWith p ''.cache'')))"
    by (rule cache_pointers_initialised [OF c]) (simp_all add: ctx_def new_client_session_def)
  then have "\<not> (cs_cacheMap ctx' \<noteq> Uninitialised \<and> cs_cacheManager ctx' \<noteq> Uninitialised)"
    by (simp add: vm_def ctx_def new_client_session_def endsWith_def)
  with c show ?thesis by (intro exI [of _ vm] exI [of _ ctx] exI [of _ ctx']) (simp add: vm_def)
qed

text \<open>
  The nodes over which the client interleaves its memory. If every node has the same number
  of processors, at least one, the nodes chosen exist, their processors are enough for the threads,
  and with one node less they would not be.
\<close>

lemma numa_nodes_exact:
  assumes "numa_available lib" "numa_allocate_nodemask lib" "set_mempolicy lib" "numa_num_configured_cpus lib = numa_num_configured_nodes lib * c" "0 < c"
    and "0 < numa_num_configured_nodes lib"
  shows "\<exists>k. do_numa_map lib threads = Inr (Numa_nodes [0..<k]) \<and> k \<le> numa_num_configured_nodes lib \<and>
           use_cpus lib threads \<le> k * c \<and> (k = 0 \<or> (k - 1) * c < use_cpus lib threads)"
proof -
  let ?u = "use_cpus lib threads"
  let ?k = "(?u + c - 1) div c"
  have "numa_num_configured_cpus lib div numa_num_configured_nodes lib = c" using assms(4,6) by simp
  then have "do_numa_map lib threads = Inr (Numa_nodes [0..<?k])"
    using assms(1-3,5,6) by (simp add: do_numa_map_def Let_def)
  moreover have "?u \<le> numa_num_configured_nodes lib * c" using assms(4) by (simp add: use_cpus_def)
  then have "?u + c - 1 < (numa_num_configured_nodes lib + 1) * c" using assms(5) by simp
  then have "?k < numa_num_configured_nodes lib + 1" by (rule less_mult_imp_div_less)
  then have "?k \<le> numa_num_configured_nodes lib" by simp
  moreover have m: "c * ?k + (?u + c - 1) mod c = ?u + c - 1" by simp
  have "(?u + c - 1) mod c < c" using assms(5) by simp
  then have "?u \<le> ?k * c" using m unfolding mult.commute [of c] by linarith
  moreover have "?k = 0 \<or> (?k - 1) * c < ?u"
  proof (cases ?k)
    case (Suc j)
    then have "c * Suc j \<le> ?u + c - 1" using m by (metis le_add1)
    then have "c * j < ?u" using assms(5) by simp
    then show ?thesis using Suc by (simp add: mult.commute)
  qed simp
  ultimately show ?thesis by blast
qed

lemma numa_nodes_exact_witness:
  "\<exists>k. do_numa_map \<lparr> numa_available = True, numa_allocate_nodemask = True, set_mempolicy = True, numa_num_configured_cpus = 8, numa_num_configured_nodes = 2 \<rparr> 5 = Inr (Numa_nodes [0..<k]) \<and>
     k \<le> 2 \<and> 5 \<le> k * 4 \<and> (k = 0 \<or> (k - 1) * 4 < 5)"
  using numa_nodes_exact [of "\<lparr> numa_available = True, numa_allocate_nodemask = True, set_mempolicy = True, numa_num_configured_cpus = 8, numa_num_configured_nodes = 2 \<rparr>" 4 5]
  by (simp add: use_cpus_def)

end
