(* ===== verification/Session.thy ===== *)
theory Session
  imports Client
begin

text \<open>
  One client and one server together: the two event loops, the two completion threads and the
  application thread of the client interleave as steps of one relation. Connection events arrive in
  any order; a message is delivered only if it was posted by the peer, in posting order, and into a
  posted receive (the reliable connection). Delivery and the handler that reads the buffer are
  separate steps. A process that ends with an error takes no further step.
\<close>

record session =
  sv :: "server_context rc_state"
  cl :: "client_session rc_state"
  sv_cq :: nat
  cl_cq :: nat
  sv_got :: nat
  cl_got :: nat
  cl_left :: bool

text \<open>The start: a server without the option \<open>--hp\<close> (the contract of mapped files is for ordinary pages), and a client.\<close>

definition init_session :: "string \<Rightarrow> client_options \<Rightarrow> string \<Rightarrow> u64 \<Rightarrow> session" where
  "init_session adj_file vm ifile n =
     \<lparr> sv = rc_start (new_server_context adj_file False 0),
       cl = rc_start (new_client_session vm ifile n [1..<Suc (unat n)]),
       sv_cq = 0, cl_cq = 0, sv_got = 0, cl_got = 0, cl_left = False \<rparr>"

text \<open>The message that the device writes into the posted buffer.\<close>

definition receive :: "message \<Rightarrow> 'a endpoint_scheme \<Rightarrow> 'a endpoint_scheme" where
  "receive m ctx = ctx\<lparr> rx_msg := Some m, posted := posted ctx - 1 \<rparr>"

definition can_receive :: "'a endpoint_scheme \<Rightarrow> bool" where
  "can_receive ctx \<longleftrightarrow> 0 < posted ctx \<and> rx_msg ctx \<noteq> None"

inductive session_step ::
    "server_os \<Rightarrow> client_env \<Rightarrow> (cm_call \<Rightarrow> bool) \<Rightarrow> client_options \<Rightarrow> session \<Rightarrow> session \<Rightarrow> bool"
  for os :: server_os and env :: client_env and lib :: "cm_call \<Rightarrow> bool" and vm :: client_options
where
  server_event:
    "ev_type ev \<noteq> RDMA_CM_EVENT_ADDR_RESOLVED \<Longrightarrow> AbstractServer_step lib (FAMServer os) False ev (sv s) = Inr (stop, t) \<Longrightarrow>
     session_step os env lib vm s (s\<lparr> sv := t \<rparr>)"
| client_event:
    "\<not> cl_left s \<Longrightarrow> ev_type ev \<noteq> RDMA_CM_EVENT_CONNECT_REQUEST \<Longrightarrow>
     cm_step lib (client_callbacks env) True ev (cl s) = Inr (stop, t) \<Longrightarrow>
     session_step os env lib vm s (s\<lparr> cl := t, cl_left := stop \<rparr>)"
| deliver_to_client:
    "cl_got s < length (sent (user (sv s))) \<Longrightarrow> can_receive (user (cl s)) \<Longrightarrow>
     session_step os env lib vm s
       (s\<lparr> cl := (cl s)\<lparr> user := receive (sent (user (sv s)) ! cl_got s) (user (cl s)) \<rparr>,
           cl_got := Suc (cl_got s), cl_cq := Suc (cl_cq s) \<rparr>)"
| deliver_to_server:
    "sv_got s < length (sent (user (cl s))) \<Longrightarrow> can_receive (user (sv s)) \<Longrightarrow>
     session_step os env lib vm s
       (s\<lparr> sv := (sv s)\<lparr> user := receive (sent (user (cl s)) ! sv_got s) (user (sv s)) \<rparr>,
           sv_got := Suc (sv_got s), sv_cq := Suc (sv_cq s) \<rparr>)"
| server_completion:
    "sv_cq s = Suc k \<Longrightarrow> FAMServer_on_completion os IBV_WC_RECV (user (sv s)) = Inr u \<Longrightarrow>
     session_step os env lib vm s (s\<lparr> sv := (sv s)\<lparr> user := u \<rparr>, sv_cq := k \<rparr>)"
| client_completion:
    "cl_cq s = Suc k \<Longrightarrow> \<not> cs_waiting (user (cl s)) \<Longrightarrow> client_on_completion env IBV_WC_RECV (user (cl s)) = Inr u \<Longrightarrow>
     session_step os env lib vm s (s\<lparr> cl := (cl s)\<lparr> user := u \<rparr>, cl_cq := k \<rparr>)"
| client_connected:
    "cs_waiting (user (cl s)) \<Longrightarrow> cs_connections (user (cl s)) + 1 \<le> counted (s_ctx (cl s)) \<Longrightarrow>
     client_start_kernel vm (user (cl s)) = Inr u \<Longrightarrow>
     session_step os env lib vm s (s\<lparr> cl := (cl s)\<lparr> user := u \<rparr> \<rparr>)"
| kernel_finished:
    "cs_app_thread (user (cl s)) \<noteq> None \<Longrightarrow> finish_application env (user (cl s)) = Inr u \<Longrightarrow>
     session_step os env lib vm s (s\<lparr> cl := (cl s)\<lparr> user := u \<rparr> \<rparr>)"

inductive session_reach ::
    "server_os \<Rightarrow> client_env \<Rightarrow> (cm_call \<Rightarrow> bool) \<Rightarrow> client_options \<Rightarrow> session \<Rightarrow> session \<Rightarrow> bool"
  for os :: server_os and env :: client_env and lib :: "cm_call \<Rightarrow> bool" and vm :: client_options and s0 :: session
where
  reach_init: "session_reach os env lib vm s0 s0"
| reach_step: "session_reach os env lib vm s0 s \<Longrightarrow> session_step os env lib vm s t \<Longrightarrow> session_reach os env lib vm s0 t"

subsection \<open>Invariants\<close>

text \<open>What the client has learnt is what the server announced for a region it holds.\<close>

definition client_inv :: "server_context \<Rightarrow> client_env \<Rightarrow> string \<Rightarrow> client_session \<Rightarrow> bool" where
  "client_inv ctx env ifile c \<longleftrightarrow> cs_index_file c = ifile \<and>
     (\<forall>a. cs_app c = Some a \<longrightarrow> get_num_verts (ce_fs env) ifile = Inr (app_num_vertices a) \<and>
        app_num_edges a = cs_num_edges c \<and>
        (\<exists>re \<in> set (held ctx). cs_peer_addr c = r_addr (fst re) \<and> cs_peer_rkey c = r_rkey (fst re) \<and> cs_num_edges c = snd re)) \<and>
     (cs_waiting c \<longrightarrow> cs_app c \<noteq> None) \<and> (cs_app_thread c \<noteq> None \<longrightarrow> cs_app c \<noteq> None) \<and>
     (\<forall>m \<in> set (sent c). msg_id m = MSG_READY \<and> cs_app_thread c \<noteq> None) \<and>
     (cs_disconnecting c \<longrightarrow> sent c \<noteq> [])"

definition wires_ok :: "session \<Rightarrow> bool" where
  "wires_ok s \<longleftrightarrow>
     (0 < cl_cq s \<longrightarrow> rx_msg (user (cl s)) = None \<or> the (rx_msg (user (cl s))) \<in> set (sent (user (sv s)))) \<and>
     (0 < sv_cq s \<longrightarrow> rx_msg (user (sv s)) = None \<or> the (rx_msg (user (sv s))) \<in> set (sent (user (cl s)))) \<and>
     (\<forall>m \<in> set (sent (user (sv s))). msg_id m = MSG_MR \<or> msg_id m = MSG_DONE \<and> sent (user (cl s)) \<noteq> [])"

text \<open>At most one receive is posted or waits for its handler, and none before the buffers exist.\<close>

definition buffers_ok :: "session \<Rightarrow> bool" where
  "buffers_ok s \<longleftrightarrow> posted (user (sv s)) + sv_cq s \<le> 1 \<and> posted (user (cl s)) + cl_cq s \<le> 1 \<and>
     (\<not> latch2 (sv s) \<longrightarrow> posted (user (sv s)) + sv_cq s = 0) \<and>
     (\<not> latch0 (cl s) \<longrightarrow> posted (user (cl s)) + cl_cq s = 0)"

subsection \<open>Effects of the handlers\<close>

lemmas handler_defs = alloc_buffers_def post_receive_def send_message_def bind_rc_Inr

lemma server_pre_conn_effect:
  "FAMServer_on_pre_conn os i c = Inr c' \<Longrightarrow> posted c' = Suc (posted c) \<and> sent c' = sent c \<and> held c' = held c"
  by (auto simp: FAMServer_on_pre_conn_def handler_defs split: option.splits if_splits)

lemma server_connection_effect:
  "FAMServer_on_connection os i c = Inr c' \<Longrightarrow>
     posted c' = posted c \<and> rx_msg c' = rx_msg c \<and> set (held c) \<subseteq> set (held c') \<and>
     (\<exists>m. sent c' = sent c @ [m] \<and> msg_id m = MSG_MR)"
  by (auto simp: FAMServer_on_connection_def handler_defs split: option.splits if_splits prod.splits)

lemma server_disconnect_effect:
  "FAMServer_on_disconnect i c = Inr c' \<Longrightarrow> posted c' = posted c \<and> rx_msg c' = None \<and> sent c' = sent c \<and> held c' = held c"
  by (auto simp: FAMServer_on_disconnect_def split: if_splits)

lemma server_completion_effect:
  assumes "FAMServer_on_completion os op c = Inr c'"
  shows "posted c' \<le> Suc (posted c) \<and> rx_msg c' = rx_msg c \<and> held c' = held c \<and> (\<exists>m. rx_msg c = Some m \<or> \<not> is_recv op) \<and>
     (sent c' = sent c \<or> (\<exists>m. sent c' = sent c @ [m] \<and> msg_id m = MSG_DONE))"
  using assms
  by (auto simp: FAMServer_on_completion_def reply_done_def handler_defs split: option.splits if_splits)

lemma client_pre_conn_effect:
  "client_on_pre_conn env i c = Inr c' \<Longrightarrow>
     posted c' = Suc (posted c) \<and> c' = c\<lparr> tx_msg := tx_msg c', rx_msg := rx_msg c', posted := posted c' \<rparr>"
  by (auto simp: client_on_pre_conn_def handler_defs split: option.splits if_splits)

lemma client_disconnect_effect:
  "client_on_disconnect i c = Inr c' \<Longrightarrow> c' = c\<lparr> rx_msg := None, tx_msg := None \<rparr>"
  by (auto simp: client_on_disconnect_def)

lemma client_on_mr_effect:
  "client_on_mr env m c = Inr c' \<Longrightarrow> \<exists>n. get_num_verts (ce_fs env) (cs_index_file c) = Inr n \<and>
     c' = c\<lparr> cs_peer_addr := mr_addr m, cs_peer_rkey := mr_rkey m, cs_num_edges := mr_total_edges m, posted := Suc (posted c),
       cs_pd := True, cs_app := Some \<lparr> app_num_vertices = n, app_num_edges = mr_total_edges m, should_stop = False \<rparr>,
       cs_resolving := cs_resolving c @ cs_cm_ids c, cs_waiting := True \<rparr>"
  by (auto simp: client_on_mr_def handler_defs Let_def split: option.splits if_splits sum.splits)

lemma start_kernel_effect:
  assumes "client_start_kernel vm c = Inr c'"
  obtains n a b k where "c' = c\<lparr> cs_waiting := False, cs_comm_threads := n, cs_cacheMap := a, cs_cacheManager := b,
    cs_app_thread := Some k \<rparr>"
proof -
  have "\<exists>a b. d' = d\<lparr> cs_cacheMap := a, cs_cacheManager := b \<rparr>" if "select_cache vm d = Inr d'" for d d' :: client_session
  proof -
    consider "d' = d\<lparr> cs_cacheMap := cs_cacheMap d, cs_cacheManager := cs_cacheManager d \<rparr>"
      | a b where "d' = d\<lparr> cs_cacheMap := a, cs_cacheManager := b \<rparr>"
      using \<open>select_cache vm d = Inr d'\<close> by (auto simp: select_cache_def split: option.splits if_splits)
    then show ?thesis by cases blast+
  qed
  moreover have "\<exists>k. d' = d\<lparr> cs_app_thread := Some k \<rparr>" if "dispatch_kernel d = Inr d'" for d d'
    using that by (auto simp: dispatch_kernel_def split: if_splits)
  moreover obtain d where "select_cache vm (c\<lparr> cs_waiting := False, cs_comm_threads := Suc (cs_comm_threads c) \<rparr>) = Inr d"
      "dispatch_kernel d = Inr c'"
    using assms by (auto simp: client_start_kernel_def bind_rc_Inr split: if_splits)
  ultimately show thesis using that by blast
qed

lemma finish_effect:
  "finish_application env c = Inr c' \<Longrightarrow> \<exists>a. cs_app c = Some a \<and>
     c' = c\<lparr> cs_app := Some (a\<lparr> should_stop := True \<rparr>), tx_msg := Some ((the (tx_msg c))\<lparr> msg_id := MSG_READY \<rparr>),
            sent := sent c @ [(the (tx_msg c))\<lparr> msg_id := MSG_READY \<rparr>] \<rparr>"
  by (auto simp: finish_application_def handler_defs split: option.splits if_splits)

lemma cm_step_latch_set:
  assumes "cm_step lib cbs ex ev s = Inr (stop, s')"
  shows "(ev_type ev = RDMA_CM_EVENT_CONNECT_REQUEST \<longrightarrow> latch2 s') \<and> (ev_type ev = RDMA_CM_EVENT_ADDR_RESOLVED \<longrightarrow> latch0 s')"
  using assms by (auto simp: cm_step_def Let_def bind_rc_Inr)

text \<open>The ways in which an event changes the state of the server and of the client.\<close>

lemma server_event_cases:
  assumes "AbstractServer_step lib (FAMServer os) False ev S = Inr (stop, T)" "ev_type ev \<noteq> RDMA_CM_EVENT_ADDR_RESOLVED"
  obtains (same) "user T = user S" "latch2 S \<longrightarrow> latch2 T"
  | (pre) "\<not> latch2 S" "latch2 T" "FAMServer_on_pre_conn os (ev_id ev) (user S) = Inr (user T)"
  | (conn) "FAMServer_on_connection os (ev_id ev) (user S) = Inr (user T)" "latch2 S \<longrightarrow> latch2 T"
  | (disc) "FAMServer_on_disconnect (ev_id ev) (user S) = Inr (user T)" "latch2 S \<longrightarrow> latch2 T"
proof -
  have c: "cm_step lib (as_callbacks (FAMServer os)) False ev S = Inr (stop, T)"
    using assms(1) by (simp only: AbstractServer_step_eq)
  have l: "latch2 S \<longrightarrow> latch2 T" using cm_step_latches [OF c] by (simp add: latches_kept_def)
  consider "user T = user S"
    | f where "event_callback (as_callbacks (FAMServer os)) S (ev_type ev) = (Some f, False)" "f (ev_id ev) (user S) = Inr (user T)"
    using cm_step_user [OF c] by blast
  then show thesis
  proof cases
    case 1
    then show ?thesis using l by (rule same)
  next
    case 2
    then show ?thesis
      using assms(2) cm_step_latch_set [OF c] l pre conn disc
      by (auto simp: event_callback_def as_callbacks_def FAMServer_def split: if_splits)
  qed
qed

lemma client_event_cases:
  assumes "cm_step lib (client_callbacks env) True ev S = Inr (stop, T)" "ev_type ev \<noteq> RDMA_CM_EVENT_CONNECT_REQUEST"
  obtains (same) "user T = user S" "latch0 S \<longrightarrow> latch0 T"
  | (pre) "\<not> latch0 S" "latch0 T" "client_on_pre_conn env (ev_id ev) (user S) = Inr (user T)"
  | (disc) "client_on_disconnect (ev_id ev) (user S) = Inr (user T)" "latch0 S \<longrightarrow> latch0 T"
proof -
  have l: "latch0 S \<longrightarrow> latch0 T" using cm_step_latches [OF assms(1)] by (simp add: latches_kept_def)
  consider "user T = user S"
    | f where "event_callback (client_callbacks env) S (ev_type ev) = (Some f, False)" "f (ev_id ev) (user S) = Inr (user T)"
    using cm_step_user [OF assms(1)] by blast
  then show thesis
  proof cases
    case 1
    then show ?thesis using l by (rule same)
  next
    case 2
    then show ?thesis
      using assms(2) cm_step_latch_set [OF assms(1)] l pre disc
      by (auto simp: event_callback_def client_callbacks_def split: if_splits)
  qed
qed

subsection \<open>Every step keeps the invariants\<close>

lemma server_inv_step:
  assumes "session_step os env lib vm s t" "maps_file os file bytes" "server_inv file bytes (user (sv s))"
  shows "server_inv file bytes (user (sv t))"
  using assms(1)
proof cases
  case (server_event ev stop T)
  have "cm_step lib (as_callbacks (FAMServer os)) False ev (sv s) = Inr (stop, T)"
    using server_event(3) by (simp only: AbstractServer_step_eq)
  then have "maps_file os file bytes \<longrightarrow> server_inv file bytes (user T)"
    by (rule fam_server.step_keeps [where path = "file" and bytes = bytes]) (use assms(3) in simp)
  then show ?thesis using server_event(1) assms(2) by simp
next
  case deliver_to_server
  have "server_inv file bytes (receive m (user (sv s)))" for m
    by (rule server_inv_frame [OF assms(3)]) (simp_all add: receive_def)
  then show ?thesis using deliver_to_server(1) by simp
next
  case (server_completion k u)
  then show ?thesis using completion_inv assms(3) by simp
qed (use assms(3) in simp_all)

text \<open>The server's records only grow.\<close>

lemma server_grows:
  assumes "session_step os env lib vm s t"
  shows "set (held (user (sv s))) \<subseteq> set (held (user (sv t)))" "\<exists>ms. sent (user (sv t)) = sent (user (sv s)) @ ms"
proof -
  have "set (held (user (sv s))) \<subseteq> set (held (user (sv t))) \<and> (\<exists>ms. sent (user (sv t)) = sent (user (sv s)) @ ms)"
    using assms
  proof cases
    case (server_event ev stop T)
    from server_event(3,2) show ?thesis
      by (cases rule: server_event_cases)
        (auto simp: server_event(1) dest!: server_pre_conn_effect server_connection_effect server_disconnect_effect)
  next
    case (server_completion k u)
    then show ?thesis using server_completion_effect [of os IBV_WC_RECV "user (sv s)" u] by auto
  qed (simp_all add: receive_def)
  then show "set (held (user (sv s))) \<subseteq> set (held (user (sv t)))" "\<exists>ms. sent (user (sv t)) = sent (user (sv s)) @ ms" by blast+
qed

lemma client_inv_mono:
  "client_inv c env ifile x \<Longrightarrow> set (held c) \<subseteq> set (held c') \<Longrightarrow> client_inv c' env ifile x"
  unfolding client_inv_def by blast

lemma client_inv_buffers:
  "client_inv c env ifile x \<Longrightarrow> client_inv c env ifile (x\<lparr> tx_msg := a, rx_msg := b, posted := p \<rparr>)"
  by (simp add: client_inv_def)

lemma client_inv_step:
  assumes "session_step os env lib vm s t" "server_inv file bytes (user (sv s))" "wires_ok s"
    and inv: "client_inv (user (sv s)) env ifile (user (cl s))"
  shows "client_inv (user (sv t)) env ifile (user (cl t))"
proof (rule client_inv_mono [OF _ server_grows(1) [OF assms(1)]])
  show "client_inv (user (sv s)) env ifile (user (cl t))"
    using assms(1)
  proof cases
    case (client_event ev stop T)
    from client_event(4,3) show ?thesis
    proof (cases rule: client_event_cases)
      case pre
      then show ?thesis
        using client_pre_conn_effect [OF pre(3)] client_inv_buffers [OF inv] client_event(1) by simp metis
    next
      case disc
      have "user T = (user (cl s))\<lparr> rx_msg := None, tx_msg := None \<rparr>" by (rule client_disconnect_effect [OF disc(1)])
      then show ?thesis using inv client_event(1) by (simp add: client_inv_def)
    qed (use inv client_event(1) in simp)
  next
    case deliver_to_client
    then show ?thesis using inv by (simp add: receive_def client_inv_def)
  next
    case (client_completion k u)
    obtain m where m: "rx_msg (user (cl s)) = Some m"
      using client_completion(4) by (auto simp: client_on_completion_def is_recv_def IBV_WC_RECV_def split: option.splits)
    then have sm: "m \<in> set (sent (user (sv s)))" using assms(3) client_completion(2) by (auto simp: wires_ok_def)
    have u: "(if msg_id m = MSG_MR then client_on_mr env m (user (cl s))
              else if msg_id m = MSG_READY then client_post_receive (verbs_env.truncate env) (user (cl s))
              else if msg_id m = MSG_DONE then client_on_done (user (cl s)) else Inr (user (cl s))) = Inr u"
      using client_completion(4) m by (simp add: client_on_completion_def is_recv_def IBV_WC_RECV_def)
    have "client_inv (user (sv s)) env ifile u"
    proof (cases "msg_id m = MSG_MR")
      case True
      then obtain re where "announces (user (sv s)) m re" using assms(2) sm by (auto simp: server_inv_def)
      then show ?thesis
        using client_on_mr_effect [of env m "user (cl s)" u] u True inv by (auto simp: client_inv_def announces_def)
    next
      case False
      then have "msg_id m = MSG_DONE" "sent (user (cl s)) \<noteq> []" using assms(3) sm by (auto simp: wires_ok_def)
      then show ?thesis using u inv by (auto simp: client_on_done_def client_inv_def msg_ids split: if_splits)
    qed
    then show ?thesis using client_completion(1) by simp
  next
    case (client_connected u)
    obtain n a b k where "u = (user (cl s))\<lparr> cs_waiting := False, cs_comm_threads := n, cs_cacheMap := a, cs_cacheManager := b,
        cs_app_thread := Some k \<rparr>" by (rule start_kernel_effect [OF client_connected(4)])
    then show ?thesis using inv client_connected(1,2) by (auto simp: client_inv_def)
  next
    case (kernel_finished u)
    then show ?thesis using inv finish_effect [OF kernel_finished(3)] by (auto simp: client_inv_def)
  qed (use inv in simp_all)
qed

text \<open>The messages that the client has posted and its buffer, after the handlers.\<close>

lemma client_completion_effect:
  assumes "client_on_completion env op c = Inr c'"
  shows "posted c' \<le> Suc (posted c)" "sent c' = sent c" "rx_msg c' = rx_msg c"
  using assms by (auto simp: client_on_completion_def client_on_done_def post_receive_def
    split: option.splits if_splits dest!: client_on_mr_effect)

lemma wires_step:
  assumes "session_step os env lib vm s t" "wires_ok s" "buffers_ok s"
  shows "wires_ok t"
  using assms(1)
proof cases
  case (server_event ev stop T)
  from server_event(3,2) show ?thesis
  proof (cases rule: server_event_cases)
    case pre
    then have "sv_cq s = 0" using assms(3) by (simp add: buffers_ok_def)
    then show ?thesis using server_pre_conn_effect [OF pre(3)] assms(2) server_event(1) by (simp add: wires_ok_def)
  next
    case conn
    then show ?thesis using server_connection_effect [OF conn(1)] assms(2) server_event(1) by (auto simp: wires_ok_def)
  next
    case disc
    then show ?thesis using server_disconnect_effect [OF disc(1)] assms(2) server_event(1) by (auto simp: wires_ok_def)
  qed (use assms(2) server_event(1) in \<open>simp add: wires_ok_def\<close>)
next
  case (client_event ev stop T)
  from client_event(4,3) show ?thesis
  proof (cases rule: client_event_cases)
    case pre
    then have "cl_cq s = 0" using assms(3) by (simp add: buffers_ok_def)
    moreover have "sent (user T) = sent (user (cl s))"
      using client_pre_conn_effect [OF pre(3)] by (metis endpoint.select_convs(4) endpoint.surjective endpoint.update_convs(1-3))
    ultimately show ?thesis using assms(2) client_event(1) by (simp add: wires_ok_def)
  next
    case disc
    have "user T = (user (cl s))\<lparr> rx_msg := None, tx_msg := None \<rparr>" by (rule client_disconnect_effect [OF disc(1)])
    then show ?thesis using assms(2) client_event(1) by (simp add: wires_ok_def)
  qed (use assms(2) client_event(1) in \<open>simp add: wires_ok_def\<close>)
next
  case deliver_to_client
  then show ?thesis using assms(2) by (simp add: wires_ok_def receive_def)
next
  case deliver_to_server
  then show ?thesis using assms(2) by (simp add: wires_ok_def receive_def)
next
  case (server_completion k u)
  have e: "rx_msg u = rx_msg (user (sv s))" "\<exists>m. rx_msg (user (sv s)) = Some m"
      "sent u = sent (user (sv s)) \<or> (\<exists>m. sent u = sent (user (sv s)) @ [m] \<and> msg_id m = MSG_DONE)"
    using server_completion_effect [OF server_completion(3)] by (auto simp: is_recv_def IBV_WC_RECV_def)
  then have "sent (user (cl s)) \<noteq> []" using assms(2) server_completion(2) by (auto simp: wires_ok_def)
  then show ?thesis using assms(2) e server_completion(1,2) by (auto simp: wires_ok_def)
next
  case (client_completion k u)
  then show ?thesis
    using assms(2) client_completion_effect(2,3) [OF client_completion(4)] by (simp add: wires_ok_def)
next
  case (client_connected u)
  obtain n a b k where "u = (user (cl s))\<lparr> cs_waiting := False, cs_comm_threads := n, cs_cacheMap := a, cs_cacheManager := b,
      cs_app_thread := Some k \<rparr>" by (rule start_kernel_effect [OF client_connected(4)])
  then show ?thesis using assms(2) client_connected(1) by (simp add: wires_ok_def)
next
  case (kernel_finished u)
  then show ?thesis using assms(2) finish_effect [OF kernel_finished(3)] by (auto simp: wires_ok_def)
qed

lemma buffers_step:
  assumes "session_step os env lib vm s t" "buffers_ok s"
  shows "buffers_ok t"
  using assms(1)
proof cases
  case (server_event ev stop T)
  from server_event(3,2) show ?thesis
    by (cases rule: server_event_cases)
      (use assms(2) server_event(1) in \<open>auto simp: buffers_ok_def dest!: server_pre_conn_effect server_connection_effect server_disconnect_effect\<close>)
next
  case (client_event ev stop T)
  from client_event(4,3) show ?thesis
  proof (cases rule: client_event_cases)
    case pre
    then show ?thesis using client_pre_conn_effect [OF pre(3)] assms(2) client_event(1) by (simp add: buffers_ok_def)
  next
    case disc
    have "user T = (user (cl s))\<lparr> rx_msg := None, tx_msg := None \<rparr>" by (rule client_disconnect_effect [OF disc(1)])
    then show ?thesis using assms(2) client_event(1) disc(2) by (auto simp: buffers_ok_def)
  qed (use assms(2) client_event(1) in \<open>auto simp: buffers_ok_def\<close>)
next
  case deliver_to_client
  then show ?thesis using assms(2) by (auto simp: buffers_ok_def receive_def can_receive_def)
next
  case deliver_to_server
  then show ?thesis using assms(2) by (auto simp: buffers_ok_def receive_def can_receive_def)
next
  case (server_completion k u)
  have "posted u \<le> Suc (posted (user (sv s)))" using server_completion_effect [OF server_completion(3)] by blast
  then show ?thesis using assms(2) server_completion(1,2) by (auto simp: buffers_ok_def)
next
  case (client_completion k u)
  then show ?thesis using assms(2) client_completion_effect(1) [OF client_completion(4)] by (auto simp: buffers_ok_def)
next
  case (client_connected u)
  obtain n a b k where "u = (user (cl s))\<lparr> cs_waiting := False, cs_comm_threads := n, cs_cacheMap := a, cs_cacheManager := b,
      cs_app_thread := Some k \<rparr>" by (rule start_kernel_effect [OF client_connected(4)])
  then show ?thesis using assms(2) client_connected(1) by (simp add: buffers_ok_def)
next
  case (kernel_finished u)
  then show ?thesis using assms(2) finish_effect [OF kernel_finished(3)] by (auto simp: buffers_ok_def)
qed

text \<open>The cache pointers of a client are those that its options select, from the start of a kernel on.\<close>

definition caches_of :: "client_options \<Rightarrow> cache_pointer \<times> cache_pointer" where
  "caches_of vm =
     (if co_cache_ratio vm = 0 then (Nullptr, Nullptr)
      else case co_cache_file_path vm of
        None \<Rightarrow> (Uninitialised, Uninitialised)
      | Some p \<Rightarrow> if endsWith p ''.bin_cache'' then (Loaded p, Nullptr)
                  else if endsWith p ''.cache'' then (Nullptr, Loaded p) else (Uninitialised, Uninitialised))"

definition caches_inv :: "client_options \<Rightarrow> client_session \<Rightarrow> bool" where
  "caches_inv vm c \<longleftrightarrow> cs_cache_ratio c = co_cache_ratio vm \<and>
     (cs_app_thread c = None \<and> (cs_cacheMap c, cs_cacheManager c) = (Uninitialised, Uninitialised) \<or>
      (cs_cacheMap c, cs_cacheManager c) = caches_of vm)"

lemma caches_inv_frame:
  "caches_inv vm c \<Longrightarrow> cs_cache_ratio c' = cs_cache_ratio c \<Longrightarrow> cs_app_thread c' = cs_app_thread c \<Longrightarrow>
     cs_cacheMap c' = cs_cacheMap c \<Longrightarrow> cs_cacheManager c' = cs_cacheManager c \<Longrightarrow> caches_inv vm c'"
  by (simp add: caches_inv_def)

lemma start_kernel_caches: "client_start_kernel vm c = Inr c' \<Longrightarrow> caches_inv vm c \<Longrightarrow> caches_inv vm c'"
  by (auto simp: client_start_kernel_def select_cache_def dispatch_kernel_def bind_rc_Inr caches_inv_def caches_of_def
    split: option.splits if_splits)

lemma completion_keeps_caches:
  assumes "client_on_completion env op c = Inr c'"
  shows "cs_cache_ratio c' = cs_cache_ratio c" "cs_app_thread c' = cs_app_thread c" "cs_cacheMap c' = cs_cacheMap c"
    "cs_cacheManager c' = cs_cacheManager c"
  using assms by (auto simp: client_on_completion_def client_on_done_def post_receive_def
    split: option.splits if_splits dest!: client_on_mr_effect)

lemma caches_step:
  assumes "session_step os env lib vm s t" "caches_inv vm (user (cl s))"
  shows "caches_inv vm (user (cl t))"
  using assms(1)
proof cases
  case (client_event ev stop T)
  from client_event(4,3) have "caches_inv vm (user T)"
  proof (cases rule: client_event_cases)
    case pre
    then show ?thesis using client_pre_conn_effect [OF pre(3)] caches_inv_frame [OF assms(2)]
      by (metis client_session.select_convs(10,11,12,15) client_session.surjective endpoint.update_convs(1-3))
  next
    case disc
    from client_disconnect_effect [OF this(1)] show ?thesis by (intro caches_inv_frame [OF assms(2)]) simp_all
  qed (use assms(2) in simp)
  then show ?thesis using client_event(1) by simp
next
  case deliver_to_client
  then show ?thesis by (intro caches_inv_frame [OF assms(2)]) (simp_all add: receive_def)
next
  case (client_completion k u)
  then show ?thesis using completion_keeps_caches [OF client_completion(4)] by (intro caches_inv_frame [OF assms(2)]) simp_all
next
  case (client_connected u)
  then show ?thesis using start_kernel_caches assms(2) by simp
next
  case (kernel_finished u)
  then show ?thesis using finish_effect [OF kernel_finished(3)] by (intro caches_inv_frame [OF assms(2)]) auto
qed (use assms(2) in simp_all)

lemma reach_caches:
  assumes "session_reach os env lib vm (init_session adj_file vm ifile n) s"
  shows "caches_inv vm (user (cl s))"
  using assms
proof induction
  case reach_init
  show ?case by (simp add: init_session_def rc_start_def caches_inv_def new_client_session_def)
next
  case (reach_step s t)
  then show ?case by (blast intro: caches_step)
qed

lemma reach_inv:
  assumes "session_reach os env lib vm (init_session adj_file vm ifile n) s" "maps_file os adj_file bytes"
  shows "server_inv adj_file bytes (user (sv s)) \<and> client_inv (user (sv s)) env ifile (user (cl s)) \<and> wires_ok s \<and> buffers_ok s"
  using assms(1)
proof induction
  case reach_init
  show ?case
    using new_server_inv [of adj_file bytes 0]
    by (simp add: init_session_def rc_start_def client_inv_def wires_ok_def buffers_ok_def new_client_session_def new_server_context_def)
next
  case (reach_step s t)
  then show ?case
    using server_inv_step [OF reach_step.hyps(2) assms(2)] client_inv_step [OF reach_step.hyps(2)]
      wires_step [OF reach_step.hyps(2)] buffers_step [OF reach_step.hyps(2)] by blast
qed

subsection \<open>Runs\<close>

datatype action = Server_event cm_event | Client_event cm_event | To_client | To_server
  | Server_completion | Client_completion | Client_connected | Kernel_finished

text \<open>The steps as a function of the chosen action.\<close>

fun exec_step :: "server_os \<Rightarrow> client_env \<Rightarrow> (cm_call \<Rightarrow> bool) \<Rightarrow> client_options \<Rightarrow> action \<Rightarrow> session \<Rightarrow> session option" where
  "exec_step os env lib vm (Server_event ev) s =
     (if ev_type ev = RDMA_CM_EVENT_ADDR_RESOLVED then None
      else case AbstractServer_step lib (FAMServer os) False ev (sv s) of Inl _ \<Rightarrow> None | Inr (stop, t) \<Rightarrow> Some (s\<lparr> sv := t \<rparr>))"
| "exec_step os env lib vm (Client_event ev) s =
     (if cl_left s \<or> ev_type ev = RDMA_CM_EVENT_CONNECT_REQUEST then None
      else case cm_step lib (client_callbacks env) True ev (cl s) of Inl _ \<Rightarrow> None
           | Inr (stop, t) \<Rightarrow> Some (s\<lparr> cl := t, cl_left := stop \<rparr>))"
| "exec_step os env lib vm To_client s =
     (if cl_got s < length (sent (user (sv s))) \<and> can_receive (user (cl s))
      then Some (s\<lparr> cl := (cl s)\<lparr> user := receive (sent (user (sv s)) ! cl_got s) (user (cl s)) \<rparr>,
                    cl_got := Suc (cl_got s), cl_cq := Suc (cl_cq s) \<rparr>) else None)"
| "exec_step os env lib vm To_server s =
     (if sv_got s < length (sent (user (cl s))) \<and> can_receive (user (sv s))
      then Some (s\<lparr> sv := (sv s)\<lparr> user := receive (sent (user (cl s)) ! sv_got s) (user (sv s)) \<rparr>,
                    sv_got := Suc (sv_got s), sv_cq := Suc (sv_cq s) \<rparr>) else None)"
| "exec_step os env lib vm Server_completion s =
     (case (sv_cq s, FAMServer_on_completion os IBV_WC_RECV (user (sv s))) of
        (Suc k, Inr u) \<Rightarrow> Some (s\<lparr> sv := (sv s)\<lparr> user := u \<rparr>, sv_cq := k \<rparr>) | _ \<Rightarrow> None)"
| "exec_step os env lib vm Client_completion s =
     (if cs_waiting (user (cl s)) then None
      else case (cl_cq s, client_on_completion env IBV_WC_RECV (user (cl s))) of
        (Suc k, Inr u) \<Rightarrow> Some (s\<lparr> cl := (cl s)\<lparr> user := u \<rparr>, cl_cq := k \<rparr>) | _ \<Rightarrow> None)"
| "exec_step os env lib vm Client_connected s =
     (if cs_waiting (user (cl s)) \<and> cs_connections (user (cl s)) + 1 \<le> counted (s_ctx (cl s))
      then case client_start_kernel vm (user (cl s)) of Inl _ \<Rightarrow> None | Inr u \<Rightarrow> Some (s\<lparr> cl := (cl s)\<lparr> user := u \<rparr> \<rparr>)
      else None)"
| "exec_step os env lib vm Kernel_finished s =
     (if cs_app_thread (user (cl s)) = None then None
      else case finish_application env (user (cl s)) of Inl _ \<Rightarrow> None | Inr u \<Rightarrow> Some (s\<lparr> cl := (cl s)\<lparr> user := u \<rparr> \<rparr>))"

lemma exec_step_sound: "exec_step os env lib vm a s = Some t \<Longrightarrow> session_step os env lib vm s t"
  by (cases a) (auto intro: session_step.intros split: if_splits sum.splits nat.splits)

fun exec_run :: "server_os \<Rightarrow> client_env \<Rightarrow> (cm_call \<Rightarrow> bool) \<Rightarrow> client_options \<Rightarrow> action list \<Rightarrow> session \<Rightarrow> session option" where
  "exec_run os env lib vm [] s = Some s"
| "exec_run os env lib vm (a # as) s =
     (case exec_step os env lib vm a s of None \<Rightarrow> None | Some t \<Rightarrow> exec_run os env lib vm as t)"

lemma exec_run_reach:
  "session_reach os env lib vm s0 s \<Longrightarrow> exec_run os env lib vm as s = Some t \<Longrightarrow> session_reach os env lib vm s0 t"
proof (induction as arbitrary: s)
  case (Cons a as)
  then obtain u where "exec_step os env lib vm a s = Some u" "exec_run os env lib vm as u = Some t"
    by (auto split: option.splits)
  then show ?case using Cons.IH [of u] Cons.prems(1) exec_step_sound reach_step by blast
qed simp

subsection \<open>A complete session\<close>

definition demo_env_with :: "file_system \<Rightarrow> client_env" where
  "demo_env_with fs = \<lparr> memalign = Some \<lparr> msg_id = 9, mr_addr = 9, mr_rkey = 9, mr_total_edges = 9 \<rparr>, reg_msg_mr = True,
     post_recv_ok = True, post_send_ok = True, ce_fs = fs, ce_resolve_addr = (\<lambda>_. True) \<rparr>"

definition demo_client_env :: client_env where
  "demo_client_env = demo_env_with (\<lambda>_. Some \<lparr> regular = True, opens = True, contents = replicate 8 0 @ 1 # replicate 7 0 \<rparr>)"

definition demo_vm_with :: "string \<Rightarrow> string option \<Rightarrow> client_options" where
  "demo_vm_with kern cache = \<lparr> co_server_addr = Some ''a'', co_port = Some ''1'', co_indexfile = Some ''g.idx'', co_kernel = kern,
     co_threads = 1, co_cache_ratio = (if cache = None then 0 else 1), co_cache_file_path = cache, co_double_buffer = False,
     co_numa_bind = False \<rparr>"

definition demo_vm :: client_options where
  "demo_vm = demo_vm_with ''bfs'' None"

definition demo_actions :: "action list" where
  "demo_actions = [Server_event (demo_event RDMA_CM_EVENT_CONNECT_REQUEST 0), Server_event (demo_event RDMA_CM_EVENT_ESTABLISHED 0),
     Client_event (demo_event RDMA_CM_EVENT_ADDR_RESOLVED 0), Client_event (demo_event RDMA_CM_EVENT_ESTABLISHED 0),
     To_client, Client_completion, Client_event (demo_event RDMA_CM_EVENT_ESTABLISHED 1), Client_connected,
     Kernel_finished, To_server, Server_completion, To_client, Client_completion]"

lemma demo_client_verbs: "verbs_env.truncate (demo_env_with fs) =
    \<lparr> memalign = Some \<lparr> msg_id = 9, mr_addr = 9, mr_rkey = 9, mr_total_edges = 9 \<rparr>,
     reg_msg_mr = True, post_recv_ok = True, post_send_ok = True \<rparr>"
  by (simp add: verbs_env.truncate_def demo_env_with_def)

lemma demo_edge_list:
  assumes "length bytes < 2 ^ 64"
  shows "get_edge_list (demo_os bytes) afile False =
    Inr (\<lparr> r_addr = 4096, r_rkey = 5, r_mem = take (4 * (length bytes div 4)) bytes \<rparr>, of_nat (length bytes) div 4)"
  unfolding get_edge_list_eq [OF demo_maps_file [OF assms]] by (simp add: RDMA_mmap_unique_def demo_os_def)

lemma demo_num_verts: "get_num_verts (ce_fs demo_client_env) ''g.idx'' = Inr 2"
  by (simp add: demo_client_env_def demo_env_with_def get_num_verts_def)

lemma demo_run:
  assumes "get_num_verts fs ifile = Inr n" "length bytes < 2 ^ 64"
    and k: "\<forall>x. cs_kernel x = kern \<longrightarrow> dispatch_kernel x = Inr (x\<lparr> cs_app_thread := Some k \<rparr>)"
  shows "\<exists>t. exec_run (demo_os bytes) (demo_env_with fs) (\<lambda>_. True) (demo_vm_with kern cache) demo_actions
       (init_session afile (demo_vm_with kern cache) ifile 1) = Some t \<and>
     cs_app_thread (user (cl t)) = Some k \<and> cs_disconnecting (user (cl t))"
proof -
  have f: "ce_fs (demo_env_with fs) = fs" "ce_resolve_addr (demo_env_with fs) = (\<lambda>_. True)" by (simp_all add: demo_env_with_def)
  obtain a b where sel: "\<And>x. cs_cache_ratio x = (if cache = None then 0 else 1) \<Longrightarrow>
      select_cache (demo_vm_with kern cache) x = Inr (x\<lparr> cs_cacheMap := a x, cs_cacheManager := b x \<rparr>)"
    by (rule that [where a = "\<lambda>x. case cache of None \<Rightarrow> Nullptr | Some p \<Rightarrow> if endsWith p ''.bin_cache'' then Loaded p else
          if endsWith p ''.cache'' then Nullptr else cs_cacheMap x"
        and b = "\<lambda>x. case cache of None \<Rightarrow> Nullptr | Some p \<Rightarrow> if endsWith p ''.bin_cache'' then Nullptr else
          if endsWith p ''.cache'' then Loaded p else cs_cacheManager x"])
      (auto simp: select_cache_def demo_vm_with_def split: option.splits)
  show ?thesis
    using assms(1) sel
    by (simp add: demo_actions_def init_session_def AbstractServer_step_eq loop_eval as_callbacks_def FAMServer_def
      FAMServer_on_pre_conn_def new_server_context_def FAMServer_on_connection_def demo_edge_list [OF assms(2)] alloc_buffers_def
      post_receive_def send_message_def demo_verbs demo_client_verbs msg_ids client_callbacks_def client_on_pre_conn_def
      new_client_session_def can_receive_def receive_def client_on_completion_def is_recv_def IBV_WC_RECV_def client_on_mr_def f
      counted_def client_start_kernel_def k [rule_format] finish_application_def FAMServer_on_completion_def
      reply_done_def client_on_done_def demo_vm_with_def)
qed

lemma demo_reach_with:
  assumes "get_num_verts fs ifile = Inr n" "length bytes < 2 ^ 64"
    and "\<forall>x. cs_kernel x = kern \<longrightarrow> dispatch_kernel x = Inr (x\<lparr> cs_app_thread := Some k \<rparr>)"
  obtains t where "session_reach (demo_os bytes) (demo_env_with fs) (\<lambda>_. True) (demo_vm_with kern cache)
      (init_session afile (demo_vm_with kern cache) ifile 1) t"
    "cs_app_thread (user (cl t)) = Some k" "cs_disconnecting (user (cl t))"
  using demo_run [OF assms, where afile = afile and cache = cache] exec_run_reach [OF reach_init] by metis

lemma demo_reach:
  obtains t where "session_reach (demo_os [1, 0, 0, 0]) demo_client_env (\<lambda>_. True) demo_vm (init_session ''g.adj'' demo_vm ''g.idx'' 1) t"
    "cs_app_thread (user (cl t)) = Some Bfs" "cs_disconnecting (user (cl t))"
  using demo_reach_with [OF demo_num_verts, where bytes = "[1, 0, 0, 0]" and kern = "''bfs''" and k = Bfs and cache = None and afile = "''g.adj''"]
  by (auto simp: demo_client_env_def demo_vm_def demo_env_with_def dispatch_kernel_def)

lemma le_words_take: "le_words k n (take (k * n) xs) = (le_words k n xs :: 'a::len word list)"
  by (induction n arbitrary: xs) (simp_all add: drop_take min_def)

text \<open>The region a started kernel works on.\<close>

lemma kernel_region:
  assumes "session_reach os env lib vm (init_session adj_file vm ifile n) s" "maps_file os adj_file bytes"
    and "cs_app_thread (user (cl s)) = Some k"
  shows "\<exists>a re. cs_app (user (cl s)) = Some a \<and> re \<in> set (held (user (sv s))) \<and>
           cs_peer_addr (user (cl s)) = r_addr (fst re) \<and> cs_peer_rkey (user (cl s)) = r_rkey (fst re) \<and>
           app_num_edges a = of_nat (length bytes) div 4 \<and>
           le_words 4 (length bytes div 4) (r_mem (fst re)) = (le_words 4 (length bytes div 4) bytes :: u32 list) \<and>
           get_num_verts (ce_fs env) ifile = Inr (app_num_vertices a)"
proof -
  note inv = reach_inv [OF assms(1,2)]
  obtain a where a: "cs_app (user (cl s)) = Some a" using inv assms(3) by (auto simp: client_inv_def)
  then obtain re where "get_num_verts (ce_fs env) ifile = Inr (app_num_vertices a)" "app_num_edges a = cs_num_edges (user (cl s))"
      "re \<in> set (held (user (sv s)))" "cs_peer_addr (user (cl s)) = r_addr (fst re)"
      "cs_peer_rkey (user (cl s)) = r_rkey (fst re)" "cs_num_edges (user (cl s)) = snd re"
    using inv by (auto simp: client_inv_def)
  moreover from this have "holds_file bytes re" using inv by (auto simp: server_inv_def)
  ultimately show ?thesis using a by (intro exI [of _ a] exI [of _ re]) (simp add: holds_file_def le_words_take)
qed

subsection \<open>Properties\<close>

text \<open>
  C16. What a kernel works on. In every interleaving of events, deliveries and handlers, once the
  client has started a kernel its context describes a memory region that the server holds: address
  and key are those of the region, the number of edges is that of the edge file, the region's
  memory is the edges of the file, and the number of vertices is that of the index file. The server was started
  without \<open>--hp\<close> (\<open>init_session\<close>).
\<close>

theorem kernel_sees_edge_file:
  assumes "session_reach os env lib vm (init_session adj_file vm ifile n) s" "maps_file os adj_file bytes"
    and "cs_app_thread (user (cl s)) = Some k"
  shows "\<exists>a re. cs_app (user (cl s)) = Some a \<and> re \<in> set (held (user (sv s))) \<and>
           cs_peer_addr (user (cl s)) = r_addr (fst re) \<and> cs_peer_rkey (user (cl s)) = r_rkey (fst re) \<and>
           app_num_edges a = of_nat (length bytes) div 4 \<and>
           le_words 4 (length bytes div 4) (r_mem (fst re)) = (le_words 4 (length bytes div 4) bytes :: u32 list) \<and>
           get_num_verts (ce_fs env) ifile = Inr (app_num_vertices a)"
  using assms by (rule kernel_region)

theorem kernel_sees_edge_file_witness:
  "\<exists>s a re. session_reach (demo_os [1, 0, 0, 0]) demo_client_env (\<lambda>_. True) demo_vm (init_session ''g.adj'' demo_vm ''g.idx'' 1) s \<and>
     cs_app (user (cl s)) = Some a \<and> re \<in> set (held (user (sv s))) \<and> app_num_edges a = 1 \<and>
     le_words 4 1 (r_mem (fst re)) = [1 :: u32]"
proof -
  obtain t where t: "session_reach (demo_os [1, 0, 0, 0]) demo_client_env (\<lambda>_. True) demo_vm (init_session ''g.adj'' demo_vm ''g.idx'' 1) t"
    "cs_app_thread (user (cl t)) = Some Bfs" by (rule demo_reach)
  have m: "maps_file (demo_os [1, 0, 0, 0]) ''g.adj'' [1, 0, 0, 0]" by (rule demo_maps_file) simp
  have w: "le_words 4 1 [1, 0, 0, 0] = [1 :: u32]" by (simp only: One_nat_def le_words.simps) simp
  show ?thesis using kernel_sees_edge_file [OF t(1) m t(2)] t(1) w by auto
qed

text \<open>
  C22. The receive buffers are never overwritten before they are read: on either side at most one
  receive is posted or waits for its completion handler, in every reachable state of a session whose server was
  started without \<open>--hp\<close>.
\<close>

theorem receive_buffers_exclusive:
  assumes "session_reach os env lib vm (init_session adj_file vm ifile n) s"
  shows "posted (user (sv s)) + sv_cq s \<le> 1 \<and> posted (user (cl s)) + cl_cq s \<le> 1"
proof -
  have "buffers_ok s"
    using assms
  proof induction
    case reach_init
    show ?case
      by (simp add: init_session_def rc_start_def buffers_ok_def new_client_session_def new_server_context_def)
  qed (rule buffers_step)
  then show ?thesis by (simp add: buffers_ok_def)
qed

theorem receive_buffers_exclusive_witness:
  "\<exists>s. session_reach (demo_os [1, 0, 0, 0]) demo_client_env (\<lambda>_. True) demo_vm (init_session ''g.adj'' demo_vm ''g.idx'' 1) s \<and>
     posted (user (sv s)) + sv_cq s \<le> 1 \<and> posted (user (cl s)) + cl_cq s \<le> 1"
proof -
  obtain t where t: "session_reach (demo_os [1, 0, 0, 0]) demo_client_env (\<lambda>_. True) demo_vm (init_session ''g.adj'' demo_vm ''g.idx'' 1) t"
    by (rule demo_reach)
  show ?thesis using receive_buffers_exclusive [OF t] t by blast
qed

text \<open>
  C38. Order of the shutdown: the client disconnects only after its kernel has run to its end and
  has posted its last message, so the application thread that the handler joins exists. The server was started
  without \<open>--hp\<close>.
\<close>

theorem disconnect_after_kernel:
  assumes "session_reach os env lib vm (init_session adj_file vm ifile n) s" "maps_file os adj_file bytes"
    and "cs_disconnecting (user (cl s))"
  shows "cs_app_thread (user (cl s)) \<noteq> None \<and> (\<exists>m. m \<in> set (sent (user (cl s))) \<and> msg_id m = MSG_READY)"
proof -
  have c: "client_inv (user (sv s)) env ifile (user (cl s))" using reach_inv [OF assms(1,2)] by blast
  then have "sent (user (cl s)) \<noteq> []" using assms(3) by (simp add: client_inv_def)
  then have "hd (sent (user (cl s))) \<in> set (sent (user (cl s)))" by (rule hd_in_set)
  then show ?thesis using c by (auto simp: client_inv_def)
qed

theorem disconnect_after_kernel_witness:
  "\<exists>s. session_reach (demo_os [1, 0, 0, 0]) demo_client_env (\<lambda>_. True) demo_vm (init_session ''g.adj'' demo_vm ''g.idx'' 1) s \<and>
     cs_app_thread (user (cl s)) \<noteq> None \<and> (\<exists>m. m \<in> set (sent (user (cl s))) \<and> msg_id m = MSG_READY)"
proof -
  obtain t where t: "session_reach (demo_os [1, 0, 0, 0]) demo_client_env (\<lambda>_. True) demo_vm (init_session ''g.adj'' demo_vm ''g.idx'' 1) t"
    "cs_disconnecting (user (cl t))" by (rule demo_reach)
  have m: "maps_file (demo_os [1, 0, 0, 0]) ''g.adj'' [1, 0, 0, 0]" by (rule demo_maps_file) simp
  show ?thesis using disconnect_after_kernel [OF t(1) m t(2)] t(1) by blast
qed

end
