(* ===== verification/Pipeline.thy ===== *)
theory Pipeline
  imports BFS CSR_Utils Session
begin

text \<open>
  The whole system: an edge list converted by \<open>edge_list_to_csr\<close>, the two files served and read by a
  server and a client, and a kernel started on what they exchanged. The theory connects the state of a
  session and the context the client constructs with the run environment the kernels are verified in.
\<close>

subsection \<open>The environment of a kernel in a session\<close>

text \<open>
  The classes of the vertex caches are not in the repository: what is loaded from a cache file, for a cache
  ratio and a number of vertices, is a parameter.
\<close>

record cache_lib =
  read_bin_cache :: "string \<Rightarrow> rat \<Rightarrow> u32 \<Rightarrow> cache_map"
  load_cache_manager :: "string \<Rightarrow> rat \<Rightarrow> u32 \<Rightarrow> cache_manager"

text \<open>What a cache pointer of the session points to; reading one that was never assigned is undefined (\<open>None\<close>).\<close>

fun pointee :: "(string \<Rightarrow> 'a) \<Rightarrow> cache_pointer \<Rightarrow> 'a option option" where
  "pointee load Uninitialised = None"
| "pointee load Nullptr = Some None"
| "pointee load (Loaded path) = Some (Some (load path))"

definition env_with ::
    "build_options \<Rightarrow> (pack_args \<Rightarrow> u32 list \<Rightarrow> nat \<Rightarrow> nic) \<Rightarrow> (nat \<Rightarrow> u32 \<Rightarrow> u32 \<Rightarrow> chunks) \<Rightarrow> u32 \<Rightarrow> u64
       \<Rightarrow> cache_map option \<Rightarrow> cache_manager option \<Rightarrow> client_session \<Rightarrow> region \<Rightarrow> 'v Generic_ctx \<Rightarrow> run_env" where
  "env_with bo nics sched lkey buf cm mgr x r c =
     (let A = iterator_args bo (cs_peer_addr x) (cs_peer_rkey x) lkey buf c;
          remote = le_words 4 (unat (g_num_edges c)) (r_mem r)
      in \<lparr> env_args = A, cacheMap = cm, cacheManager = mgr, env_nic = nics A remote, env_sched = sched,
           env_workers = unat (num_workers c), env_remote = remote \<rparr>)"

text \<open>
  The environment of a kernel started in the client session \<open>x\<close>, with the caches of the session; \<open>r\<close> is the
  server's region. There is none if a cache pointer the kernel reads is uninitialised.
\<close>

definition kernel_env ::
    "build_options \<Rightarrow> (pack_args \<Rightarrow> u32 list \<Rightarrow> nat \<Rightarrow> nic) \<Rightarrow> (nat \<Rightarrow> u32 \<Rightarrow> u32 \<Rightarrow> chunks) \<Rightarrow> u32 \<Rightarrow> u64
       \<Rightarrow> cache_lib \<Rightarrow> client_session \<Rightarrow> region \<Rightarrow> 'v Generic_ctx \<Rightarrow> run_env option" where
  "kernel_env bo nics sched lkey buf clib x r c =
     (case cs_app x of
        None \<Rightarrow> None
      | Some app \<Rightarrow>
          (case (pointee (\<lambda>path. read_bin_cache clib path (cs_cache_ratio x) (app_num_vertices app)) (cs_cacheMap x),
                 pointee (\<lambda>path. load_cache_manager clib path (cs_cache_ratio x) (app_num_vertices app)) (cs_cacheManager x)) of
             (Some cm, Some mgr) \<Rightarrow> Some (env_with bo nics sched lkey buf cm mgr x r c)
           | _ \<Rightarrow> None))"

text \<open>
  What is assumed of the caches. Their options select initialised pointers, and a \<open>CacheManager\<close> that was loaded holds for its
  vertices the adjacency lists in the order of the edge file. Nothing is assumed of a loaded \<open>CacheMap\<close>: without
  a \<open>CacheManager\<close> its lookups have no effect (see \<open>cache_lookup\<close>).
\<close>

definition holds_adjacency :: "cache_manager \<Rightarrow> vertex list \<Rightarrow> u32 \<Rightarrow> u32 list \<Rightarrow> bool" where
  "holds_adjacency mgr table n remote \<longleftrightarrow>
     (\<forall>v. is_vertex_exist mgr v \<longrightarrow> v < n \<and> get_neighbors mgr v = adj remote table (of_nat (length remote)) (unat v) \<and>
        get_out_degree mgr v = of_nat (length (get_neighbors mgr v)))"

definition caches_agree :: "cache_lib \<Rightarrow> client_options \<Rightarrow> file_system \<Rightarrow> string \<Rightarrow> u8 list \<Rightarrow> bool" where
  "caches_agree clib vm fs ifile adj_bytes \<longleftrightarrow>
     (case caches_of vm of
        (Nullptr, Nullptr) \<Rightarrow> True
      | (Loaded path, Nullptr) \<Rightarrow> True
      | (Nullptr, Loaded path) \<Rightarrow>
          (case get_num_verts fs ifile of
             Inl _ \<Rightarrow> False
           | Inr n \<Rightarrow>
               (case get_vertex_table fs () ifile (ucast n) of
                  Inl _ \<Rightarrow> False
                | Inr (table, _) \<Rightarrow>
                    holds_adjacency (load_cache_manager clib path (co_cache_ratio vm) n) table n
                      (le_words 4 (length adj_bytes div 4) adj_bytes)))
      | _ \<Rightarrow> False)"

lemma caches_agree_none: "co_cache_ratio vm = 0 \<Longrightarrow> caches_agree clib vm fs ifile adj_bytes"
  by (simp add: caches_agree_def caches_of_def)

definition kernel_state :: "build_options \<Rightarrow> FG_stats \<Rightarrow> 'v Generic_ctx \<Rightarrow> 'v kstate pack_state" where
  "kernel_state bo fg c =
     (let w = unat (opt_wr_window bo)
      in \<lparr> wr_window = replicate w \<lparr> wr_next = None, opcode = IBV_WR_SEND, signaled = False, remote_addr = 0, rkey = 0,
                                     sg_list = 0, num_sge = 0 \<rparr>,
           sge_window = replicate w \<lparr> sge_addr = 0, sge_length = 0, sge_lkey = 0 \<rparr>,
           vertex_batch = replicate w \<lparr> v_s = 0, v_e = 0 \<rparr>, area = RDMA_window c, total_edges = 0, batch_size = 0,
           wrs = 0, cur_v = 0, stats = fg,
           cb = \<lparr> frontier = frontierA c, next_frontier = frontierB c, verts = g_vtable c \<rparr> \<rparr>)"

text \<open>
  \<open>run_kernel\<close>, the body of the application thread: the kernel is constructed, the number of threads is
  limited to its workers, it runs, prints its result, and the server is told.
\<close>

definition run_kernel ::
    "(client_session \<Rightarrow> rc_error + 'k) \<Rightarrow> ('k \<Rightarrow> u64) \<Rightarrow> (u64 \<Rightarrow> 'k \<Rightarrow> rc_error + 'k) \<Rightarrow> ('k \<Rightarrow> 'o) \<Rightarrow> client_env \<Rightarrow>
       client_session \<Rightarrow> rc_error + ('k \<times> 'o \<times> client_session)" where
  "run_kernel KERNEL workers run_op print_result env x =
     bind_rc (KERNEL x) (\<lambda>k.
     bind_rc (run_op (workers k) k) (\<lambda>k.
     let out = print_result k in
     bind_rc (finish_application env x) (\<lambda>x. Inr (k, out, x))))"

text \<open>The server is told exactly once, and only if the kernel was constructed and has returned.\<close>

lemma run_kernel_announces:
  assumes "run_kernel KERNEL workers run_op print_result env x = Inr (k, out, x')"
  shows "\<exists>k0 m. KERNEL x = Inr k0 \<and> run_op (workers k0) k0 = Inr k \<and> out = print_result k \<and>
    sent x' = sent x @ [m] \<and> msg_id m = MSG_READY \<and> (\<exists>a. cs_app x' = Some a \<and> should_stop a)"
proof -
  obtain k0 where "KERNEL x = Inr k0" "run_op (workers k0) k0 = Inr k" "out = print_result k" "finish_application env x = Inr x'"
    using assms by (auto simp: run_kernel_def bind_rc_Inr Let_def)
  with finish_effect [OF this(4)] show ?thesis by auto
qed

subsection \<open>The context of a converted graph\<close>

lemma readable_in_fs:
  assumes "readable_graph decode w dest es idx adj_bytes n"
    and "fs ifile = Some \<lparr> regular = True, opens = True, contents = idx \<rparr>"
  obtains table where "get_num_verts fs ifile = Inr n"
    "get_vertex_table fs vinit ifile (ucast n) = Inr (table, replicate (unat n) vinit)"
    "stores_graph es table n (of_nat (length adj_bytes div w)) (decode (length adj_bytes div w) adj_bytes)"
proof -
  obtain table where t: "get_vertex_table (file_of idx) () ''.idx'' (ucast n) = Inr (table, replicate (unat n) ())"
    "stores_graph es table n (of_nat (length adj_bytes div w)) (decode (length adj_bytes div w) adj_bytes)"
    and n: "get_num_verts (file_of idx) ''.idx'' = Inr n"
    using assms(1) by (auto simp: readable_graph_def)
  have "unat (ucast n :: u64) = unat n" by (simp add: unsigned_ucast_eq take_bit_nat_eq_self unat_u32_lt less_trans [OF unat_u32_lt])
  then have "get_vertex_table fs vinit ifile (ucast n) = Inr (table, replicate (unat n) vinit)"
    using t(1) assms(2) by (auto simp: get_vertex_table_def split: sum.splits)
  moreover have "get_num_verts fs ifile = Inr n" using n assms(2) by (simp add: get_num_verts_def)
  ultimately show thesis using that t(2) by blast
qed

text \<open>The largest out-degree is that of some vertex.\<close>

lemma max_degree_edges:
  assumes "stores_graph es table n m remote" "es \<noteq> []"
  shows "0 < get_max_out_degree table n m"
    and "\<exists>v. unat (get_max_out_degree table n m) = length (filter (\<lambda>e. fst e = v) es)"
    and "v < n \<Longrightarrow> unat (get_num_edges v table n m) \<le> unat (get_max_out_degree table n m)"
proof -
  let ?d = "\<lambda>v. get_num_edges v table n m"
  have c: "csr_ok table n m" "length remote = unat m"
    and ms: "\<And>v. v < n \<Longrightarrow> mset (adj remote table m (unat v)) = mset (map snd (filter (\<lambda>e. fst e = v) es))"
    using assms(1) by (auto simp: stores_graph_def)
  have d: "unat (?d v) = length (filter (\<lambda>e. fst e = v) es)" if "v < n" for v
  proof -
    have "unat (?d v) = length (adj remote table m (unat v))"
      using get_num_edges_deg [OF c(1) that] length_adj [OF c(1) _ c(2)] that by (simp add: word_less_nat_alt)
    then show ?thesis using mset_eq_length [OF ms [OF that]] by simp
  qed
  have le: "?d v \<le> get_max_out_degree table n m" if "v < n" for v
    using that fold_max_props(2) [of v "u32_range 0 n" ?d 0] by (simp add: get_max_out_degree_def)
  then show "v < n \<Longrightarrow> unat (?d v) \<le> unat (get_max_out_degree table n m)" by (simp add: word_le_nat_alt)
  obtain e where e: "e \<in> set es" using assms(2) by (cases es) auto
  then have en: "fst e < n" using assms(1) by (auto simp: stores_graph_def)
  have "filter (\<lambda>e'. fst e' = fst e) es \<noteq> []" using e by (auto simp: filter_empty_conv)
  then have "0 < unat (?d (fst e))" using d [OF en] by simp
  then show pos: "0 < get_max_out_degree table n m" using le [OF en] by (simp add: word_less_nat_alt word_le_nat_alt)
  have "get_max_out_degree table n m \<in> insert 0 (?d ` set (u32_range 0 n))"
    using fold_max_props(3) [of ?d "u32_range 0 n" 0] by (auto simp: get_max_out_degree_def)
  then obtain v where "v < n" "get_max_out_degree table n m = ?d v" using pos by auto
  then show "\<exists>v. unat (get_max_out_degree table n m) = length (filter (\<lambda>e. fst e = v) es)" using d by auto
qed

lemma mk_Generic_ctx_reads:
  assumes "get_num_verts fs ifile = Inr n" "get_vertex_table fs vinit ifile (ucast n) = Inr (table, vs)"
  shows "mk_Generic_ctx al fs po ifile m vinit b =
    (let d = get_max_out_degree table n m; ebs = opt_edgewindow po * d
     in Inr \<lparr> g_num_vertices = n, g_num_edges = m, g_index = table, g_vtable = vs, num_workers = opt_threads po,
              max_out_degree = d, g_edge_buf_size = ebs,
              RDMA_window = replicate (unat (ucast ebs * opt_threads po * ucast (buffers b))) 0,
              frontierA = mk_Bitmap al n (opt_hp po), frontierB = mk_Bitmap al n (opt_hp po) \<rparr>)"
  using assms by (simp add: mk_Generic_ctx_def Let_def)

text \<open>The RDMA area has room for the buffers of all workers.\<close>

lemma window_size:
  assumes "4 * unat ebs < 2 ^ 32" "unat th < 2 ^ 30"
  shows "unat th * unat (ebs :: u32) \<le> unat (ucast ebs * (th :: u64) * ucast (buffers b))"
    and "4 * (unat th * unat ebs) < 2 ^ 64"
proof -
  have "unat ebs * unat th \<le> 2 ^ 30 * 2 ^ 30" using assms by (intro mult_le_mono) auto
  then have p: "unat ebs * unat th \<le> 2 ^ 60" "unat th * unat ebs \<le> 2 ^ 60" by (simp_all add: mult.commute)
  then show "4 * (unat th * unat ebs) < 2 ^ 64" by simp
  have b: "unat (ucast (buffers b) :: u64) \<in> {1, 2}" by (cases b) simp_all
  have e: "unat (ucast ebs :: u64) = unat ebs"
    using unat_u32_lt [of ebs] by (simp add: unsigned_ucast_eq take_bit_nat_eq_self)
  have m: "unat (ucast ebs * th) = unat ebs * unat th"
    using p e by (subst unat_mult_lem [THEN iffD1]) (simp_all)
  have "unat (ucast ebs * th * ucast (buffers b)) = unat ebs * unat th * unat (ucast (buffers b) :: u64)"
    using p b m by (subst unat_mult_lem [THEN iffD1]) auto
  then show "unat th * unat ebs \<le> unat (ucast ebs * th * ucast (buffers b))" using b by auto
qed

subsection \<open>The environment of a kernel\<close>

lemma env_with_simps [simp]:
  "total_verts (env_with bo nics sched lkey buf cm mgr x r c) = g_num_vertices c"
  "cacheMap (env_with bo nics sched lkey buf cm mgr x r c) = cm"
  "cacheManager (env_with bo nics sched lkey buf cm mgr x r c) = mgr"
  "env_sched (env_with bo nics sched lkey buf cm mgr x r c) = sched"
  "env_workers (env_with bo nics sched lkey buf cm mgr x r c) = unat (num_workers c)"
  "env_remote (env_with bo nics sched lkey buf cm mgr x r c) = le_words 4 (unat (g_num_edges c)) (r_mem r)"
  "env_args (env_with bo nics sched lkey buf cm mgr x r c) = iterator_args bo (cs_peer_addr x) (cs_peer_rkey x) lkey buf c"
  "env_nic (env_with bo nics sched lkey buf cm mgr x r c) =
     nics (iterator_args bo (cs_peer_addr x) (cs_peer_rkey x) lkey buf c) (le_words 4 (unat (g_num_edges c)) (r_mem r))"
  by (simp_all add: env_with_def Let_def total_verts_def iterator_args_def)

lemma worker_args_iterator [simp]: "worker_args (iterator_args bo p k lkey buf c) 0 = iterator_args bo p k lkey buf c"
  by (simp add: worker_args_def iterator_args_def)

text \<open>A context that was read from the files of a graph and whose buffer sizes do not overflow.\<close>

definition ctx_ok :: "(u32 \<times> u32) list \<Rightarrow> u32 list \<Rightarrow> 'v \<Rightarrow> 'v Generic_ctx \<Rightarrow> bool" where
  "ctx_ok es remote vinit c \<longleftrightarrow>
     stores_graph es (g_index c) (g_num_vertices c) (g_num_edges c) remote \<and> (\<forall>w \<in> set remote. w < g_num_vertices c) \<and>
     g_vtable c = replicate (unat (g_num_vertices c)) vinit \<and>
     4 * unat (g_edge_buf_size c) < 2 ^ 32 \<and> 4 * unat (g_num_edges c) < 2 ^ 64 \<and> 0 < g_edge_buf_size c \<and>
     (\<forall>v. v < g_num_vertices c \<longrightarrow> unat (get_num_edges v (g_index c) (g_num_vertices c) (g_num_edges c)) \<le> unat (g_edge_buf_size c)) \<and>
     0 < unat (num_workers c) \<and> unat (num_workers c) * unat (g_edge_buf_size c) \<le> length (RDMA_window c) \<and>
     4 * (unat (num_workers c) * unat (g_edge_buf_size c)) < 2 ^ 64 \<and>
     (\<exists>al hp. frontierA c = mk_Bitmap al (g_num_vertices c) hp \<and> frontierB c = mk_Bitmap al (g_num_vertices c) hp)"

text \<open>What a kernel sees of the edges: the neighbours of a vertex, up to their order.\<close>

lemma env_with_nb:
  assumes "stores_graph es (g_index c) (g_num_vertices c) (g_num_edges c) (le_words 4 (unat (g_num_edges c)) (r_mem r))"
    and "v < g_num_vertices c"
  shows "mset (nb (env_with bo nics sched lkey buf cm mgr x r c) v) = mset (map snd (filter (\<lambda>e. fst e = v) es))"
proof -
  have "nb (env_with bo nics sched lkey buf cm mgr x r c) v = adj (le_words 4 (unat (g_num_edges c)) (r_mem r)) (g_index c) (g_num_edges c) (unat v)"
    by (simp add: nb_def adjs_def) (simp add: iterator_args_def)
  then show ?thesis using assms by (simp add: stores_graph_def)
qed

lemma env_with_ok:
  fixes x :: client_session and buf :: u64 and lkey :: u32
  assumes "ctx_ok es (le_words 4 (unat (g_num_edges c)) (r_mem r)) vinit c" "0 < opt_wr_window bo"
    and "\<forall>A remote k. nic_ok (nics A remote k) A remote" "\<forall>k lo hi. splits (unat (num_workers c)) lo hi (sched k lo hi)"
    and "coherent (iterator_args bo (cs_peer_addr x) (cs_peer_rkey x) lkey buf c) (le_words 4 (unat (g_num_edges c)) (r_mem r)) (cache_lookup cm mgr)"
  defines "E \<equiv> env_with bo nics sched lkey buf cm mgr x r c"
  shows "env_ok E" "st_ok E (kernel_state bo fg c)" "fresh E vinit (cb (kernel_state bo fg c))" "edge_rel E = set es"
proof -
  let ?rem = "le_words 4 (unat (g_num_edges c)) (r_mem r)" and ?A = "iterator_args bo (cs_peer_addr x) (cs_peer_rkey x) lkey buf c"
  have sg: "stores_graph es (g_index c) (g_num_vertices c) (g_num_edges c) ?rem" and rem: "\<forall>w \<in> set ?rem. w < g_num_vertices c"
    using assms(1) by (simp_all add: ctx_ok_def)
  have "NULL_VERT \<notin> set ?rem"
  proof
    assume "NULL_VERT \<in> set ?rem"
    then have "NULL_VERT < g_num_vertices c" using rem by blast
    then show False using unat_u32_lt [of "g_num_vertices c"] by (simp add: NULL_VERT_def word_less_nat_alt)
  qed
  then have "run_ok (nics ?A ?rem k) ?A ?rem" for k
    using assms(1-3) by (simp add: run_ok_def args_ok_def ctx_ok_def stores_graph_def dg_def out_degree_def iterator_args_def)
  then have su: "setup_ok (nics ?A ?rem k) ?A (unat (num_workers c)) ?rem" for k
    using assms(1) by (simp add: setup_ok_def ctx_ok_def) (simp add: iterator_args_def)
  then show "env_ok E"
    using rem assms(4,5) by (simp add: E_def env_ok_def)
  show "st_ok E (kernel_state bo fg c)"
  proof -
    have "1 * unat (g_edge_buf_size c) \<le> unat (num_workers c) * unat (g_edge_buf_size c)"
      using assms(1) by (intro mult_le_mono1) (simp add: ctx_ok_def)
    then have "unat (g_edge_buf_size c) \<le> length (RDMA_window c)" using assms(1) unfolding ctx_ok_def by linarith
    then show ?thesis
      using assms(1) by (simp add: E_def st_ok_def area_ok_def windows_ok_def kernel_state_def ctx_ok_def Let_def)
        (simp add: iterator_args_def)
  qed
  show "fresh E vinit (cb (kernel_state bo fg c))"
    using assms(1) by (auto simp: E_def fresh_def kshape_def kernel_state_def ctx_ok_def Let_def mk_Bitmap_inv bits_of_mk_Bitmap)
      (simp_all add: mk_Bitmap_def)
  have "set (nb E v) = {w. (v, w) \<in> set es}" if "v < g_num_vertices c" for v
  proof -
    have "mset (nb E v) = mset (map snd (filter (\<lambda>e. fst e = v) es))" unfolding E_def by (rule env_with_nb [OF sg that])
    then have "set (nb E v) = set (map snd (filter (\<lambda>e. fst e = v) es))" by (rule mset_eq_setD)
    then show ?thesis by force
  qed
  then show "edge_rel E = set es"
  proof (intro set_eqI)
    fix p
    have "p \<in> edge_rel E \<longleftrightarrow> fst p < g_num_vertices c \<and> snd p \<in> set (nb E (fst p))"
      by (cases p) (simp add: edge_rel_def E_def)
    also have "\<dots> \<longleftrightarrow> fst p < g_num_vertices c \<and> p \<in> set es"
      using \<open>\<And>v. v < g_num_vertices c \<Longrightarrow> _\<close> [of "fst p"] by (cases p) auto
    finally show "p \<in> edge_rel E \<longleftrightarrow> p \<in> set es" using sg by (auto simp: stores_graph_def)
  qed
qed

text \<open>The context that the constructor of a kernel builds in a session over a converted edge list.\<close>

lemma session_ctx:
  assumes enc: "encode_unweighted u presorted input = Some (idx, adj_bytes)"
    and "edges_ok id (stored_edges u input)" "presorted \<longrightarrow> sorted (map fst (fst (read_edges u input)))" "input \<noteq> []"
    and "maps_file os adj_file adj_bytes" "ce_fs env ifile = Some \<lparr> regular = True, opens = True, contents = idx \<rparr>"
    and "session_reach os env lib vm (init_session adj_file vm ifile k) s" "cs_app_thread (user (cl s)) = Some kern"
    and win: "\<forall>v. 4 * (unat (opt_edgewindow po) * length (filter (\<lambda>e. fst e = v) (stored_edges u input))) < 2 ^ 32"
    and "0 < opt_edgewindow po" and th: "0 < opt_threads po" "unat (opt_threads po) < 2 ^ 30"
  obtains a re c where "cs_app (user (cl s)) = Some a" "re \<in> set (held (user (sv s)))"
    "cs_peer_addr (user (cl s)) = r_addr (fst re)" "cs_peer_rkey (user (cl s)) = r_rkey (fst re)"
    "mk_Generic_ctx al (ce_fs env) po ifile (app_num_edges a) vinit b = Inr c"
    "ctx_ok (stored_edges u input) (le_words 4 (unat (g_num_edges c)) (r_mem (fst re))) vinit c" "num_workers c = opt_threads po"
    "get_num_verts (ce_fs env) ifile = Inr (g_num_vertices c)" "app_num_vertices a = g_num_vertices c"
    "get_vertex_table (ce_fs env) vinit ifile (ucast (g_num_vertices c)) = Inr (g_index c, g_vtable c)"
    "g_num_edges c = of_nat (length adj_bytes div 4)" "unat (g_num_edges c) = length adj_bytes div 4"
    "le_words 4 (length adj_bytes div 4) (r_mem (fst re)) = (le_words 4 (length adj_bytes div 4) adj_bytes :: u32 list)"
proof -
  let ?es = "stored_edges u input" and ?m = "length adj_bytes div 4"
  obtain n where g: "readable_graph (le_words 4) 4 id ?es idx adj_bytes n" using encode_unweighted_ok [OF assms(2,3)] enc by auto
  obtain a re where s: "cs_app (user (cl s)) = Some a" "re \<in> set (held (user (sv s)))"
    "cs_peer_addr (user (cl s)) = r_addr (fst re)" "cs_peer_rkey (user (cl s)) = r_rkey (fst re)"
    "app_num_edges a = of_nat (length adj_bytes) div 4"
    "le_words 4 ?m (r_mem (fst re)) = (le_words 4 ?m adj_bytes :: u32 list)" "get_num_verts (ce_fs env) ifile = Inr (app_num_vertices a)"
    using kernel_region [OF assms(7,5,8)] by blast
  have lt: "length adj_bytes < 2 ^ 64" using assms(5) by (simp add: maps_file_def)
  have m: "app_num_edges a = of_nat ?m" "unat (of_nat ?m :: u64) = ?m"
    using s(5) edges_of_file(1) [OF lt] lt by (simp_all add: word_unat_eq_iff unat_of_nat_u64 ucast_id)
  obtain table where t: "get_num_verts (ce_fs env) ifile = Inr n"
    "get_vertex_table (ce_fs env) vinit ifile (ucast n) = Inr (table, replicate (unat n) vinit)"
    "stores_graph ?es table n (of_nat ?m) (le_words 4 ?m adj_bytes)"
    using readable_in_fs [OF g, of "ce_fs env" ifile vinit] assms(6) by blast
  have ne: "?es \<noteq> []" using assms(4) by (simp add: stored_edges_def)
  let ?d = "get_max_out_degree table n (of_nat ?m)"
  note d = max_degree_edges [OF t(3) ne]
  obtain v where "unat ?d = length (filter (\<lambda>e. fst e = v) ?es)" using d(2) by blast
  then have fits: "4 * (unat (opt_edgewindow po) * unat ?d) < 2 ^ 32" using win by simp
  then have ebs: "unat (opt_edgewindow po * ?d) = unat (opt_edgewindow po) * unat ?d"
    by (subst unat_mult_lem [THEN iffD1]) simp_all
  have pos: "0 < unat (opt_edgewindow po)" "0 < unat ?d" "0 < unat (opt_threads po)"
    using assms(10) d(1) th(1) by (simp_all add: word_less_nat_alt)
  obtain c where c: "mk_Generic_ctx al (ce_fs env) po ifile (app_num_edges a) vinit b = Inr c"
    "c = \<lparr> g_num_vertices = n, g_num_edges = of_nat ?m, g_index = table, g_vtable = replicate (unat n) vinit,
      num_workers = opt_threads po, max_out_degree = ?d, g_edge_buf_size = opt_edgewindow po * ?d,
      RDMA_window = replicate (unat (ucast (opt_edgewindow po * ?d) * opt_threads po * ucast (buffers b))) 0,
      frontierA = mk_Bitmap al n (opt_hp po), frontierB = mk_Bitmap al n (opt_hp po) \<rparr>"
    using mk_Generic_ctx_reads [OF t(1,2)] m(1) by (simp add: Let_def)
  have deg: "unat (get_num_edges v table n (of_nat ?m)) \<le> unat (opt_edgewindow po) * unat ?d" if "v < n" for v
    using d(3) [OF that] pos(1) mult_le_mono1 [of 1 "unat (opt_edgewindow po)" "unat ?d"] by linarith
  have "0 < opt_edgewindow po * ?d" using ebs pos by (simp add: word_less_nat_alt)
  moreover have "\<forall>w \<in> set (le_words 4 ?m adj_bytes). w < n" using g by (simp add: readable_graph_def list_all_iff)
  ultimately have "ctx_ok ?es (le_words 4 (unat (g_num_edges c)) (r_mem (fst re))) vinit c"
    using t(3) s(6) m(2) lt fits ebs deg pos(3) th(2)
      window_size(1) [of "opt_edgewindow po * ?d" "opt_threads po" b] window_size(2) [of "opt_edgewindow po * ?d" "opt_threads po"]
    by (auto simp: ctx_ok_def c(2))
  moreover have "app_num_vertices a = n" using s(7) t(1) by simp
  ultimately show thesis using that [OF s(1-4) c(1)] c(2) t(1,2) s(6) m(2) by simp
qed

text \<open>The caches of the session exist and agree with the context.\<close>

lemma get_vertex_table_any: "get_vertex_table fs x file k = Inr (table, vs) \<Longrightarrow> \<exists>us. get_vertex_table fs y file k = Inr (table, us)"
  by (auto simp: get_vertex_table_def split: option.splits if_splits sum.splits)

lemma coherent_without_manager: "coherent A remote (cache_lookup cm None)"
proof -
  have "cache_lookup cm None = (\<lambda>_. None)" by (simp add: fun_eq_iff cache_lookup_def Let_def)
  then show ?thesis by simp
qed

lemma manager_coherent:
  assumes "csr_ok (vtable A) (num_vertices (ctx A)) (num_edges (ctx A))" "length remote = unat (num_edges (ctx A))"
    and "holds_adjacency mgr (vtable A) (num_vertices (ctx A)) remote"
  shows "coherent A remote (cache_lookup None (Some mgr))"
proof -
  let ?t = "vtable A" and ?m = "num_edges (ctx A)"
  have m: "of_nat (length remote) = ?m" using assms(2) by simp
  have "get_neighbors mgr v = adjs A remote v \<and> get_out_degree mgr v = out_degree A v" if v: "is_vertex_exist mgr v" for v
  proof -
    have h: "v < num_vertices (ctx A)" "get_neighbors mgr v = adj remote ?t ?m (unat v)"
      "get_out_degree mgr v = of_nat (length (adj remote ?t ?m (unat v)))"
      using assms(3) v unfolding holds_adjacency_def m by simp_all
    have "length (adj remote ?t ?m (unat v)) = unat (out_degree A v)"
      using length_adj [OF assms(1) _ assms(2), of "unat v"] get_num_edges_deg [OF assms(1) h(1)] h(1)
      by (simp add: out_degree_def word_less_nat_alt)
    then show ?thesis using h by (simp add: adjs_def)
  qed
  then show ?thesis by (auto simp: coherent_def cache_lookup_def Let_def split: if_splits)
qed

text \<open>The environment of the kernel: the theorems on kernels apply in it, and it shows the edges of the list.\<close>

definition shows_edges :: "(u32 \<times> u32) list \<Rightarrow> run_env \<Rightarrow> bool" where
  "shows_edges es E \<longleftrightarrow> (\<forall>e \<in> set es. fst e < total_verts E) \<and>
     (\<forall>v < total_verts E. mset (nb E v) = mset (map snd (filter (\<lambda>e. fst e = v) es)))"

lemma session_kernel:
  assumes enc: "encode_unweighted u presorted input = Some (idx, adj_bytes)"
    and "edges_ok id (stored_edges u input)" "presorted \<longrightarrow> sorted (map fst (fst (read_edges u input)))" "input \<noteq> []"
    and "maps_file os adj_file adj_bytes" "ce_fs env ifile = Some \<lparr> regular = True, opens = True, contents = idx \<rparr>"
    and reach: "session_reach os env lib vm (init_session adj_file vm ifile k) s" and run: "cs_app_thread (user (cl s)) = Some kern"
    and "\<forall>v. 4 * (unat (opt_edgewindow po) * length (filter (\<lambda>e. fst e = v) (stored_edges u input))) < 2 ^ 32"
    and "0 < opt_edgewindow po" "0 < opt_threads po" "unat (opt_threads po) < 2 ^ 30"
    and ca: "caches_agree clib vm (ce_fs env) ifile adj_bytes" and "0 < opt_wr_window bo"
    and "\<forall>A remote k. nic_ok (nics A remote k) A remote" "\<forall>k lo hi. splits (unat (opt_threads po)) lo hi (sched k lo hi)"
  obtains a re c E where "cs_app (user (cl s)) = Some a" "re \<in> set (held (user (sv s)))"
    "cs_peer_addr (user (cl s)) = r_addr (fst re)" "cs_peer_rkey (user (cl s)) = r_rkey (fst re)"
    "mk_Generic_ctx al (ce_fs env) po ifile (app_num_edges a) vinit b = Inr c"
    "kernel_env bo nics sched lkey buf clib (user (cl s)) (fst re) c = Some E"
    "env_ok E" "st_ok E (kernel_state bo fg c)" "fresh E vinit (cb (kernel_state bo fg c))" "edge_rel E = set (stored_edges u input)"
    "shows_edges (stored_edges u input) E" "total_verts E = g_num_vertices c"
    "env_nic E = nics (env_args E) (env_remote E)"
proof -
  let ?es = "stored_edges u input" and ?x = "user (cl s)" and ?m = "length adj_bytes div 4"
  obtain a re c where s: "cs_app ?x = Some a" "re \<in> set (held (user (sv s)))"
    "cs_peer_addr ?x = r_addr (fst re)" "cs_peer_rkey ?x = r_rkey (fst re)"
    "mk_Generic_ctx al (ce_fs env) po ifile (app_num_edges a) vinit b = Inr c"
    "ctx_ok ?es (le_words 4 (unat (g_num_edges c)) (r_mem (fst re))) vinit c" "num_workers c = opt_threads po"
    "get_num_verts (ce_fs env) ifile = Inr (g_num_vertices c)" "app_num_vertices a = g_num_vertices c"
    "get_vertex_table (ce_fs env) vinit ifile (ucast (g_num_vertices c)) = Inr (g_index c, g_vtable c)"
    "g_num_edges c = of_nat ?m" "unat (g_num_edges c) = ?m"
    "le_words 4 ?m (r_mem (fst re)) = (le_words 4 ?m adj_bytes :: u32 list)"
    using session_ctx [OF assms(1-12)] by metis
  let ?A = "iterator_args bo (cs_peer_addr ?x) (cs_peer_rkey ?x) lkey buf c" and ?rem = "le_words 4 (unat (g_num_edges c)) (r_mem (fst re)) :: u32 list"
  have sg: "stores_graph ?es (g_index c) (g_num_vertices c) (g_num_edges c) ?rem" using s(6) by (simp add: ctx_ok_def)
  have A: "vtable ?A = g_index c" "num_vertices (ctx ?A) = g_num_vertices c" "num_edges (ctx ?A) = g_num_edges c"
    by (simp_all add: iterator_args_def)
  have ci: "cs_cache_ratio ?x = co_cache_ratio vm" "(cs_cacheMap ?x, cs_cacheManager ?x) = caches_of vm"
    using reach_caches [OF reach] run by (auto simp: caches_inv_def)
  have "\<exists>cm mgr. kernel_env bo nics sched lkey buf clib ?x (fst re) c = Some (env_with bo nics sched lkey buf cm mgr ?x (fst re) c) \<and>
      coherent ?A ?rem (cache_lookup cm mgr)"
  proof -
    obtain p q where pq: "caches_of vm = (p, q)" by fastforce
    obtain us where us: "get_vertex_table (ce_fs env) () ifile (ucast (g_num_vertices c)) = Inr (g_index c, us)"
      using get_vertex_table_any [OF s(10), of "()"] by (elim exE) (rule that)
    have none: "coherent ?A ?rem (cache_lookup cm None)" for cm by (rule coherent_without_manager)
    have ca: "case (p, q) of (Nullptr, Nullptr) \<Rightarrow> True | (Loaded path, Nullptr) \<Rightarrow> True
        | (Nullptr, Loaded path) \<Rightarrow> holds_adjacency (load_cache_manager clib path (co_cache_ratio vm) (g_num_vertices c)) (g_index c) (g_num_vertices c) ?rem
        | _ \<Rightarrow> False"
      using ca unfolding caches_agree_def pq s(8,12,13) sum.case us prod.case .
    consider "p = Nullptr" "q = Nullptr" | path where "p = Loaded path" "q = Nullptr"
      | path where "p = Nullptr" "q = Loaded path"
          "holds_adjacency (load_cache_manager clib path (co_cache_ratio vm) (g_num_vertices c)) (g_index c) (g_num_vertices c) ?rem"
      using ca by (cases p; cases q) simp_all
    then show ?thesis
    proof cases
      case 3
      have "coherent ?A ?rem (cache_lookup None (Some (load_cache_manager clib path (co_cache_ratio vm) (g_num_vertices c))))"
        by (rule manager_coherent) (use sg 3(3) in \<open>simp_all add: A stores_graph_def\<close>)
      then show ?thesis using 3(1,2) s(1,9) ci pq
        by (intro exI [of _ None] exI [of _ "Some (load_cache_manager clib path (co_cache_ratio vm) (g_num_vertices c))"])
          (simp add: kernel_env_def)
    next
      case 1
      then show ?thesis using none s(1) ci pq by (intro exI [of _ None]) (simp add: kernel_env_def)
    next
      case 2
      then show ?thesis using none s(1) ci pq
        by (intro exI [of _ "Some (read_bin_cache clib path (cs_cache_ratio ?x) (app_num_vertices a))"] exI [of _ None])
          (simp add: kernel_env_def)
    qed
  qed
  then obtain cm mgr where E: "kernel_env bo nics sched lkey buf clib ?x (fst re) c = Some (env_with bo nics sched lkey buf cm mgr ?x (fst re) c)"
      "coherent ?A ?rem (cache_lookup cm mgr)" by blast
  have sp: "\<forall>k lo hi. splits (unat (num_workers c)) lo hi (sched k lo hi)" using assms(16) s(7) by simp
  note ok = env_with_ok [OF s(6) assms(14,15) sp E(2)]
  have "\<forall>e \<in> set ?es. fst e < g_num_vertices c" using sg by (simp add: stores_graph_def)
  then have "shows_edges ?es (env_with bo nics sched lkey buf cm mgr ?x (fst re) c)"
    using env_with_nb [OF sg] by (simp add: shows_edges_def)
  then show thesis using that [OF s(1-5) E(1) ok] by simp
qed

subsection \<open>A run for the witness\<close>

lemma demo_encoded:
  "encode_unweighted False False [(0, 1)] = Some (replicate 8 0 @ 1 # replicate 7 0, [1, 0, 0, 0])"
  by code_simp

definition demo_options :: program_options where
  "demo_options = \<lparr> opt_threads = 2, opt_edgewindow = 1, opt_hp = False, opt_HP = False, opt_start_vertex = 0, opt_kcore_k = 2, opt_delta = 1 \<rparr>"

definition demo_build :: build_options where
  "demo_build = \<lparr> opt_wr_window = 2, vertex_coalescing = True \<rparr>"

end
