(* ===== verification/Deployment.thy ===== *)
theory Deployment
  imports Pipeline Converter KCore
begin

text \<open>
  From the text of an edge list to the environment of a kernel: the conversion tool writes the two
  files, the server maps one of them, the client reads the other, and the kernel they start sees the
  edges of the list. With \<open>--make-undirected\<close> it sees every edge as often in one direction as in the other.
\<close>

subsection \<open>A deployment\<close>

text \<open>
  What a run of the system depends on: the conversion tool and its files, the machine of the server, that of the
  client with the options of the program, and the memory, card and scheduler of the run.
\<close>

record deployment =
  d_tool :: tool_env
  d_undirected :: bool
  d_infile :: string
  d_outdir :: string
  d_fs :: file_system
  d_server :: server_os
  d_client :: client_env
  d_lib :: "cm_call \<Rightarrow> bool"
  d_vm :: client_options
  d_connections :: u64
  d_options :: program_options
  d_build :: build_options
  d_align :: "u64 \<Rightarrow> u64 \<Rightarrow> u64"
  d_buffering :: Buffering
  d_nics :: "pack_args \<Rightarrow> u32 list \<Rightarrow> nat \<Rightarrow> nic"
  d_sched :: "nat \<Rightarrow> u32 \<Rightarrow> u32 \<Rightarrow> chunks"
  d_lkey :: u32
  d_buf :: u64
  d_caches :: cache_lib
  d_stats :: FG_stats

text \<open>An unsorted, unweighted run of the conversion tool, and the names of the two files it writes.\<close>

definition convert :: "deployment \<Rightarrow> tool_exit \<times> file_system" where
  "convert D = csr_main (d_tool D) \<lparr> t_infile = Some (d_infile D), t_outdir = Some (d_outdir D), t_sorted = False, t_weighted = False,
     t_make_undirected = d_undirected D \<rparr> (d_fs D)"

definition idx_name :: "deployment \<Rightarrow> string" where
  "idx_name D = replace_extension (d_outdir D @ ''csr'') ''.idx''"

definition adj_name :: "deployment \<Rightarrow> string" where
  "adj_name D = replace_extension (d_outdir D @ ''csr'') ''.adj''"

text \<open>
  The states the session reaches from its start, the client on the files the tool has left behind; then the
  constructor of a kernel, its environment and its initial state in such a state.
\<close>

definition session_states :: "deployment \<Rightarrow> session \<Rightarrow> bool" where
  "session_states D s \<longleftrightarrow> session_reach (d_server D) ((d_client D)\<lparr> ce_fs := snd (convert D) \<rparr>) (d_lib D) (d_vm D)
     (init_session (adj_name D) (d_vm D) (idx_name D) (d_connections D)) s"

definition construct :: "deployment \<Rightarrow> session \<Rightarrow> 'v \<Rightarrow> (fam_error + 'v Generic_ctx) option" where
  "construct D s vinit = map_option
     (\<lambda>a. mk_Generic_ctx (d_align D) (snd (convert D)) (d_options D) (idx_name D) (app_num_edges a) vinit (d_buffering D)) (cs_app (user (cl s)))"

definition env_in :: "deployment \<Rightarrow> session \<Rightarrow> region \<Rightarrow> 'v Generic_ctx \<Rightarrow> run_env option" where
  "env_in D s r c = kernel_env (d_build D) (d_nics D) (d_sched D) (d_lkey D) (d_buf D) (d_caches D) (user (cl s)) r c"

definition state_in :: "deployment \<Rightarrow> 'v Generic_ctx \<Rightarrow> 'v kstate" where
  "state_in D c = cb (kernel_state (d_build D) (d_stats D) c)"

text \<open>
  The hypotheses: the input is the text of \<open>es\<close>, whose vertices are below \<open>2\<^sup>3\<^sup>2 - 1\<close>; the tool can create its
  files and the server sees the edge file; the caches the client is started with agree with the files;
  buffers and threads are not zero and do not overflow; the card and the scheduler keep their contracts.
\<close>

definition deployed :: "deployment \<Rightarrow> (u32 \<times> u32) list \<Rightarrow> bool" where
  "deployed D es \<longleftrightarrow> (let stored = stored_edges (d_undirected D) es; po = d_options D in
     edges_ok id stored \<and> es \<noteq> [] \<and>
     d_fs D (d_infile D) = Some \<lparr> regular = True, opens = True, contents = edge_text es \<rparr> \<and>
     te_creates (d_tool D) (idx_name D) \<and> te_creates (d_tool D) (adj_name D) \<and>
     (\<forall>f. snd (convert D) (adj_name D) = Some f \<longrightarrow> maps_file (d_server D) (adj_name D) (contents f) \<and>
        caches_agree (d_caches D) (d_vm D) (snd (convert D)) (idx_name D) (contents f)) \<and>
     (\<forall>v. 4 * (unat (opt_edgewindow po) * length (filter (\<lambda>e. fst e = v) stored)) < 2 ^ 32) \<and>
     0 < opt_edgewindow po \<and> 0 < opt_threads po \<and> unat (opt_threads po) < 2 ^ 30 \<and> 0 < opt_wr_window (d_build D) \<and>
     (\<forall>A remote j. nic_ok (d_nics D A remote j) A remote) \<and>
     (\<forall>j lo hi. splits (unat (opt_threads po)) lo hi (d_sched D j lo hi)))"

text \<open>The edges of a list from a vertex into a set of vertices, counted with their multiplicity.\<close>

definition edges_from_into :: "(u32 \<times> u32) list \<Rightarrow> u32 \<Rightarrow> u32 set \<Rightarrow> nat" where
  "edges_from_into es w S = length (filter (\<lambda>e. fst e = w \<and> snd e \<in> S) es)"

subsection \<open>Edges of a list and neighbours of a vertex\<close>

lemma shows_edges_rel:
  assumes "shows_edges es E" "v < total_verts E"
  shows "w \<in> set (nb E v) \<longleftrightarrow> (v, w) \<in> set es"
proof -
  have "set (nb E v) = set (map snd (filter (\<lambda>e. fst e = v) es))" using assms by (intro mset_eq_setD) (simp add: shows_edges_def)
  then show ?thesis by force
qed

lemma shows_edges_into:
  assumes "shows_edges es E" "w < total_verts E"
  shows "edges_into E S w = edges_from_into es w S"
proof -
  have "mset (filter (\<lambda>v. v \<in> S) (nb E w)) = mset (filter (\<lambda>v. v \<in> S) (map snd (filter (\<lambda>e. fst e = w) es)))"
    using assms unfolding mset_filter shows_edges_def by simp
  from mset_eq_length [OF this] show ?thesis
    by (simp add: edges_into_def edges_from_into_def filter_map comp_def conj_commute)
qed

lemma count_edges_of: "count_list (map snd (filter (\<lambda>e. fst e = v) es)) w = count_list es (v, w)"
  by (induction es) auto

lemma shows_edges_symmetric:
  assumes "shows_edges (stored_edges True es) E"
  shows "symmetric E"
proof -
  have "count_list (nb E v) w = count_list (stored_edges True es) (v, w)" if "v < total_verts E" for v w
    using assms that unfolding count_edges_of [symmetric] shows_edges_def
    by (metis count_mset)
  moreover have "count_list (map prod.swap es) (v, w) = count_list es (w, v)" for v w by (induction es) auto
  ultimately show ?thesis by (simp add: symmetric_def stored_edges_def)
qed

subsection \<open>The environment of a kernel\<close>

text \<open>
  The tool exits with status 0, the constructor of the kernel succeeds, the caches it reads are initialised, and in
  its environment the theorems about kernels apply.
\<close>

lemma deployed_environment:
  assumes "deployed D es" "session_states D s" "cs_app_thread (user (cl s)) = Some kern"
  obtains r c E where "fst (convert D) = Exit_status 0" "r \<in> fst ` set (held (user (sv s)))"
    "construct D s vinit = Some (Inr c)" "env_in D s r c = Some E" "env_ok E" "fresh E vinit (state_in D c)"
    "shows_edges (stored_edges (d_undirected D) es) E" "edge_rel E = set (stored_edges (d_undirected D) es)"
    "total_verts E = g_num_vertices c" "env_nic E = d_nics D (env_args E) (env_remote E)"
proof -
  let ?u = "d_undirected D" and ?po = "d_options D" and ?env = "(d_client D)\<lparr> ce_fs := snd (convert D) \<rparr>"
  let ?es = "stored_edges ?u es"
  have d: "edges_ok id ?es" "es \<noteq> []" "d_fs D (d_infile D) = Some \<lparr> regular = True, opens = True, contents = edge_text es \<rparr>"
    "te_creates (d_tool D) (idx_name D)" "te_creates (d_tool D) (adj_name D)"
    "\<forall>v. 4 * (unat (opt_edgewindow ?po) * length (filter (\<lambda>e. fst e = v) ?es)) < 2 ^ 32"
    "0 < opt_edgewindow ?po" "0 < opt_threads ?po" "unat (opt_threads ?po) < 2 ^ 30" "0 < opt_wr_window (d_build D)"
    "\<forall>A remote j. nic_ok (d_nics D A remote j) A remote" "\<forall>j lo hi. splits (unat (opt_threads ?po)) lo hi (d_sched D j lo hi)"
    and mf: "\<And>f. snd (convert D) (adj_name D) = Some f \<Longrightarrow> maps_file (d_server D) (adj_name D) (contents f) \<and>
      caches_agree (d_caches D) (d_vm D) (snd (convert D)) (idx_name D) (contents f)"
    using assms(1) unfolding deployed_def Let_def by blast+
  obtain idx adj_bytes where e: "encode_unweighted ?u False es = Some (idx, adj_bytes)"
    "convert D = (Exit_status 0, (d_fs D)(idx_name D \<mapsto> \<lparr> regular = True, opens = True, contents = idx \<rparr>,
       adj_name D \<mapsto> \<lparr> regular = True, opens = True, contents = adj_bytes \<rparr>))"
    using csr_tool_files [OF d(1), of "d_fs D" "d_infile D" "d_tool D" "d_outdir D"] d(3-5)
    unfolding convert_def idx_name_def adj_name_def by metis
  have ne: "idx_name D \<noteq> adj_name D" by (simp add: idx_name_def adj_name_def replace_extension_inj)
  have fs: "ce_fs ?env = snd (convert D)" by simp
  have i: "ce_fs ?env (idx_name D) = Some \<lparr> regular = True, opens = True, contents = idx \<rparr>" using ne by (simp add: e(2))
  have m: "maps_file (d_server D) (adj_name D) adj_bytes" "caches_agree (d_caches D) (d_vm D) (ce_fs ?env) (idx_name D) adj_bytes"
    using mf [of "\<lparr> regular = True, opens = True, contents = adj_bytes \<rparr>"] by (simp_all add: e(2))
  obtain a re c E where s: "cs_app (user (cl s)) = Some a" "re \<in> set (held (user (sv s)))"
    "mk_Generic_ctx (d_align D) (ce_fs ?env) ?po (idx_name D) (app_num_edges a) vinit (d_buffering D) = Inr c"
    "env_in D s (fst re) c = Some E" "env_ok E" "fresh E vinit (state_in D c)" "edge_rel E = set ?es" "shows_edges ?es E"
    "total_verts E = g_num_vertices c" "env_nic E = d_nics D (env_args E) (env_remote E)"
    using session_kernel [OF e(1) d(1) _ d(2) m(1) i assms(2) [unfolded session_states_def] assms(3) d(6-9) m(2) d(10-12),
        where al = "d_align D" and vinit = vinit and b = "d_buffering D" and fg = "d_stats D" and lkey = "d_lkey D" and buf = "d_buf D"]
    unfolding env_in_def [symmetric] state_in_def [symmetric] by metis
  have "construct D s vinit = Some (Inr c)" using s(1,3) by (simp add: construct_def)
  moreover have "fst (convert D) = Exit_status 0" by (simp add: e(2))
  ultimately show thesis using that [of "fst re" c E] s by blast
qed

subsection \<open>A deployment for the witnesses\<close>

text \<open>The list of the edge between the vertices 0 and 1, converted as a directed or as an undirected graph.\<close>

definition demo_bytes :: "bool \<Rightarrow> u8 list" where
  "demo_bytes u = (if u then [1, 0, 0, 0, 0, 0, 0, 0] else [1, 0, 0, 0])"

definition demo_caches :: cache_lib where
  "demo_caches = \<lparr> read_bin_cache = (\<lambda>_ _ _ _. None),
     load_cache_manager = (\<lambda>_ _ _. \<lparr> is_vertex_exist = (\<lambda>v. v = 0), get_neighbors = (\<lambda>_. [1]), get_out_degree = (\<lambda>_. 1) \<rparr>) \<rparr>"

text \<open>
  The client is started with a cache that holds the first vertex; the card refuses every read \<open>refusals\<close> times.
\<close>

definition demo_deployment :: "bool \<Rightarrow> string \<Rightarrow> nat \<Rightarrow> deployment" where
  "demo_deployment u kern refusals = \<lparr> d_tool = \<lparr> te_creates = (\<lambda>_. True), te_float = (\<lambda>_. None), te_sort = (\<lambda>es. es) \<rparr>, d_undirected = u,
     d_infile = ''g.txt'', d_outdir = ''d/'', d_fs = [''g.txt'' \<mapsto> \<lparr> regular = True, opens = True, contents = edge_text [(0, 1)] \<rparr>],
     d_server = demo_os (demo_bytes u), d_client = demo_env_with Map.empty, d_lib = (\<lambda>_. True), d_vm = demo_vm_with kern (Some ''g.cache''),
     d_connections = 1, d_options = demo_options, d_build = demo_build, d_align = (\<lambda>n _. n), d_buffering = SINGLE,
     d_nics = (\<lambda>A m j. slow_nic A m refusals), d_sched = (\<lambda>j lo hi. [(0, lo, hi)]), d_lkey = 7, d_buf = 0, d_caches = demo_caches,
     d_stats = FG_stats.make [] [] [] [] [] [] [] [] [] [] 0 0 0 0 0 0 0 0 0 0 0 0 \<rparr>"

lemma demo_encoded_as: "encode_unweighted u False [(0, 1)] = Some (replicate 8 0 @ 1 # replicate 7 0, demo_bytes u)"
proof (cases u)
  case True
  have "encode_unweighted True False [(0, 1)] = Some (replicate 8 0 @ 1 # replicate 7 0, demo_bytes True)" by code_simp
  then show ?thesis using True by simp
next
  case False
  then show ?thesis using demo_encoded by (simp add: demo_bytes_def)
qed

lemma demo_edges_ok: "edges_ok id (stored_edges u [(0, 1)])"
  by (simp add: edges_ok_def stored_edges_def)

lemma demo_convert:
  "convert (demo_deployment u kern refusals) = (Exit_status 0, (d_fs (demo_deployment u kern refusals))
     (idx_name (demo_deployment u kern refusals) \<mapsto> \<lparr> regular = True, opens = True, contents = replicate 8 0 @ 1 # replicate 7 0 \<rparr>,
      adj_name (demo_deployment u kern refusals) \<mapsto> \<lparr> regular = True, opens = True, contents = demo_bytes u \<rparr>))"
  using csr_tool_files [OF demo_edges_ok, of "d_fs (demo_deployment u kern refusals)" "''g.txt''" "d_tool (demo_deployment u kern refusals)" "''d/''" u] demo_encoded_as [of u]
  by (auto simp: convert_def idx_name_def adj_name_def demo_deployment_def)

lemma demo_num_vertices: "get_num_verts (snd (convert (demo_deployment u kern refusals))) (idx_name (demo_deployment u kern refusals)) = Inr 2"
proof -
  have "idx_name (demo_deployment u kern refusals) \<noteq> adj_name (demo_deployment u kern refusals)" by (simp add: idx_name_def adj_name_def replace_extension_inj)
  then show ?thesis by (simp add: demo_convert get_num_verts_def)
qed

lemma ctx_vertices: "mk_Generic_ctx al fs po f m x b = Inr c \<Longrightarrow> get_num_verts fs f = Inr (g_num_vertices c)"
  by (auto simp: mk_Generic_ctx_def Let_def split: sum.splits)

lemma demo_vertices: "construct (demo_deployment u kern refusals) s x = Some (Inr c) \<Longrightarrow> g_num_vertices c = 2"
  using ctx_vertices demo_num_vertices by (fastforce simp: construct_def)

lemma demo_caches_agree:
  "caches_agree demo_caches (demo_vm_with kern (Some ''g.cache'')) (snd (convert (demo_deployment u kern refusals)))
     (idx_name (demo_deployment u kern refusals)) (demo_bytes u)"
proof -
  let ?D = "demo_deployment u kern refusals" and ?t = "[\<lparr> edge_offset = 0 \<rparr>, \<lparr> edge_offset = 1 \<rparr>]"
  have ne: "idx_name ?D \<noteq> adj_name ?D" by (simp add: idx_name_def adj_name_def replace_extension_inj)
  have r: "read_index 2 (replicate 8 0 @ 1 # replicate 7 0) = Inr ?t" by code_simp
  have t: "get_vertex_table (snd (convert ?D)) () (idx_name ?D) (ucast (2 :: u32)) = Inr (?t, [(), ()])"
  proof -
    have two: "unat (ucast (2 :: u32) :: u64) = 2" "replicate 2 () = [(), ()]" by (simp, simp add: numeral_2_eq_2)
    have "snd (convert ?D) (idx_name ?D) = Some \<lparr> regular = True, opens = True, contents = replicate 8 0 @ 1 # replicate 7 0 \<rparr>"
      using ne by (simp add: demo_convert)
    then show ?thesis unfolding get_vertex_table_def two by (simp only: option.case file_entry.simps r sum.case if_True two)
  qed
  have "adj (le_words 4 (length (demo_bytes u) div 4) (demo_bytes u)) ?t (of_nat (length (le_words 4 (length (demo_bytes u) div 4) (demo_bytes u) :: u32 list))) 0 = [1 :: u32]"
    by (cases u) (simp_all add: demo_bytes_def, code_simp+)
  then have "holds_adjacency (load_cache_manager demo_caches ''g.cache'' 1 2) ?t 2 (le_words 4 (length (demo_bytes u) div 4) (demo_bytes u))"
    by (simp add: holds_adjacency_def demo_caches_def)
  moreover have "caches_of (demo_vm_with kern (Some ''g.cache'')) = (Nullptr, Loaded ''g.cache'')"
    by (simp add: caches_of_def demo_vm_with_def endsWith_def)
  moreover have "co_cache_ratio (demo_vm_with kern (Some ''g.cache'')) = 1" by (simp add: demo_vm_with_def)
  ultimately show ?thesis using t by (simp add: caches_agree_def demo_num_vertices)
qed

lemma demo_deployed: "deployed (demo_deployment u kern refusals) [(0, 1)]"
proof -
  have "maps_file (demo_os (demo_bytes u)) f (demo_bytes u)" for f by (rule demo_maps_file) (simp add: demo_bytes_def)
  then have "\<forall>f. snd (convert (demo_deployment u kern refusals)) (adj_name (demo_deployment u kern refusals)) = Some f \<longrightarrow>
      maps_file (d_server (demo_deployment u kern refusals)) (adj_name (demo_deployment u kern refusals)) (contents f) \<and>
      caches_agree (d_caches (demo_deployment u kern refusals)) (d_vm (demo_deployment u kern refusals))
        (snd (convert (demo_deployment u kern refusals))) (idx_name (demo_deployment u kern refusals)) (contents f)"
    using demo_caches_agree [of kern u refusals] demo_convert [of u kern refusals] by (auto simp: demo_deployment_def)
  moreover have "\<forall>v. 4 * (1 * length (filter (\<lambda>e. fst e = v) (stored_edges u [(0, 1)]))) < 2 ^ 32"
    by (simp add: stored_edges_def)
  ultimately show ?thesis
    using demo_edges_ok by (simp add: deployed_def Let_def) (simp add: demo_deployment_def demo_options_def demo_build_def splits_def nic_ok_slow)
qed

lemma demo_session:
  assumes "\<forall>x. cs_kernel x = kern \<longrightarrow> dispatch_kernel x = Inr (x\<lparr> cs_app_thread := Some k \<rparr>)"
  obtains s where "session_states (demo_deployment u kern refusals) s" "cs_app_thread (user (cl s)) = Some k"
proof -
  let ?D = "demo_deployment u kern refusals"
  have l: "length (demo_bytes u) < 2 ^ 64" by (simp add: demo_bytes_def)
  have c: "(d_client ?D)\<lparr> ce_fs := snd (convert ?D) \<rparr> = demo_env_with (snd (convert ?D))" by (simp add: demo_deployment_def demo_env_with_def)
  have p: "d_server ?D = demo_os (demo_bytes u)" "d_lib ?D = (\<lambda>_. True)" "d_vm ?D = demo_vm_with kern (Some ''g.cache'')" "d_connections ?D = 1"
    by (simp_all add: demo_deployment_def)
  obtain s where "session_reach (demo_os (demo_bytes u)) (demo_env_with (snd (convert ?D))) (\<lambda>_. True) (demo_vm_with kern (Some ''g.cache''))
      (init_session (adj_name ?D) (demo_vm_with kern (Some ''g.cache'')) (idx_name ?D) 1) s" "cs_app_thread (user (cl s)) = Some k"
    using demo_reach_with [OF demo_num_vertices l assms] by metis
  then show thesis by (intro that) (simp_all add: session_states_def c p)
qed

end
