(* ===== verification/Completion.thy ===== *)
theory Completion
  imports Client
begin

text \<open>
  The threads that take work completions from the completion queues: \<open>poll_cq\<close> of
  \<open>src/src/connection_utils.cpp\<close> and of \<open>src/src/AbstractServer.cpp\<close>, which sleep until the device
  raises an event, and \<open>comm_runtime_worker2\<close> of \<open>src/src/communication_runtime.cpp\<close>, which polls
  until the application stops. The device is a parameter: the answers of its polls, and for the
  sleeping threads also a step relation in which completions arrive at any moment.
\<close>

subsection \<open>Completions and polls\<close>

definition IBV_WC_SUCCESS :: u32 where "IBV_WC_SUCCESS = 0"

record work_completion =
  wc_wr_id :: cm_id
  wc_status :: u32
  wc_opcode :: u32

type_synonym 's completion_cb = "work_completion \<Rightarrow> 's \<Rightarrow> rc_error + 's"

text \<open>
  What a call of \<open>ibv_poll_cq\<close> with room for one completion returns other than zero: one, with the
  completion written to the caller's variable, or a negative number, with the variable as it was.
\<close>

datatype poll_answer = Polled work_completion | Poll_failed

definition poll_slot :: "poll_answer \<Rightarrow> work_completion \<Rightarrow> work_completion" where
  "poll_slot a wc = (case a of Polled w \<Rightarrow> w | Poll_failed \<Rightarrow> wc)"

definition handle_completion :: "'s completion_cb \<Rightarrow> work_completion \<Rightarrow> 's \<Rightarrow> rc_error + 's" where
  "handle_completion cb wc s = (if wc_status wc = IBV_WC_SUCCESS then cb wc s else Inl Exit_failure)"

text \<open>The inner loop, on the answers before the one that is zero.\<close>

fun drain_cq :: "'s completion_cb \<Rightarrow> poll_answer list \<Rightarrow> work_completion \<Rightarrow> 's \<Rightarrow> rc_error + (work_completion \<times> 's)" where
  "drain_cq cb [] wc s = Inr (wc, s)"
| "drain_cq cb (a # as) wc s =
     (let wc = poll_slot a wc in bind_rc (handle_completion cb wc s) (drain_cq cb as wc))"

text \<open>One wake-up: whether \<open>ibv_get_cq_event\<close> and \<open>ibv_req_notify_cq\<close> succeed, and the polls.\<close>

record wakeup =
  get_cq_event :: bool
  req_notify_cq :: bool
  polls :: "poll_answer list"

text \<open>
  The thread of the client, on the wake-ups so far. Its variable \<open>wc\<close> is uninitialised at first;
  after the last wake-up it sleeps, so the result is the state then.
\<close>

fun poll_cq :: "'s completion_cb \<Rightarrow> wakeup list \<Rightarrow> work_completion \<Rightarrow> 's \<Rightarrow> rc_error + (work_completion \<times> 's)" where
  "poll_cq cb [] wc s = Inr (wc, s)"
| "poll_cq cb (w # ws) wc s =
     (if \<not> get_cq_event w then Inl Exit_failure
      else if \<not> req_notify_cq w then Inl Exit_failure
      else bind_rc (drain_cq cb (polls w) wc s) (\<lambda>(wc, s). poll_cq cb ws wc s))"

text \<open>The copy of the server, which calls the virtual method \<open>on_completion\<close>.\<close>

fun AbstractServer_drain_cq ::
    "'s completion_cb \<Rightarrow> poll_answer list \<Rightarrow> work_completion \<Rightarrow> 's \<Rightarrow> rc_error + (work_completion \<times> 's)" where
  "AbstractServer_drain_cq on_completion [] wc s = Inr (wc, s)"
| "AbstractServer_drain_cq on_completion (a # as) wc s =
     (case a of
        Polled w \<Rightarrow>
          if wc_status w = IBV_WC_SUCCESS
          then bind_rc (on_completion w s) (AbstractServer_drain_cq on_completion as w)
          else Inl Exit_failure
      | Poll_failed \<Rightarrow>
          if wc_status wc = IBV_WC_SUCCESS
          then bind_rc (on_completion wc s) (AbstractServer_drain_cq on_completion as wc)
          else Inl Exit_failure)"

fun AbstractServer_poll_cq ::
    "'s completion_cb \<Rightarrow> wakeup list \<Rightarrow> work_completion \<Rightarrow> 's \<Rightarrow> rc_error + (work_completion \<times> 's)" where
  "AbstractServer_poll_cq on_completion [] wc s = Inr (wc, s)"
| "AbstractServer_poll_cq on_completion (w # ws) wc s =
     (if \<not> get_cq_event w then Inl Exit_failure
      else if \<not> req_notify_cq w then Inl Exit_failure
      else bind_rc (AbstractServer_drain_cq on_completion (polls w) wc s)
             (\<lambda>(wc, s). AbstractServer_poll_cq on_completion ws wc s))"

text \<open>The callbacks that the two programs hand to their threads.\<close>

definition client_completion_cb :: "client_env \<Rightarrow> client_session completion_cb" where
  "client_completion_cb env wc = client_on_completion env (wc_opcode wc)"

definition server_completion_cb :: "server_os \<Rightarrow> server_context completion_cb" where
  "server_completion_cb os wc = FAMServer_on_completion os (wc_opcode wc)"

lemma AbstractServer_drain_eq: "AbstractServer_drain_cq cb as wc s = drain_cq cb as wc s"
proof (induction as arbitrary: wc s)
  case (Cons a as)
  then have "AbstractServer_drain_cq cb as = drain_cq cb as" by (intro ext)
  then show ?case by (cases a) (simp_all add: poll_slot_def handle_completion_def split: sum.splits)
qed simp

lemma AbstractServer_poll_eq: "AbstractServer_poll_cq cb ws wc s = poll_cq cb ws wc s"
  by (induction ws arbitrary: wc s) (auto simp: AbstractServer_drain_eq split: sum.splits)

subsection \<open>What the threads deliver\<close>

text \<open>
  The specification: the callback is run on each completion in turn, until one is not successful
  or the callback fails.
\<close>

fun deliver :: "'s completion_cb \<Rightarrow> work_completion list \<Rightarrow> 's \<Rightarrow> rc_error + 's" where
  "deliver cb [] s = Inr s"
| "deliver cb (w # ws) s = bind_rc (handle_completion cb w s) (deliver cb ws)"

lemma deliver_append: "deliver cb (xs @ ys) s = bind_rc (deliver cb xs s) (deliver cb ys)"
  by (induction xs arbitrary: s) (auto split: sum.splits)

lemma deliver_snoc: "deliver cb (xs @ [w]) s = bind_rc (deliver cb xs s) (handle_completion cb w)"
proof -
  have "deliver cb [w] = handle_completion cb w" by (intro ext) (simp split: sum.splits)
  then show ?thesis by (simp only: deliver_append)
qed

text \<open>The completions that the thread sees in its variable: a failed poll shows the last one again.\<close>

fun seen :: "work_completion \<Rightarrow> poll_answer list \<Rightarrow> work_completion list" where
  "seen wc [] = []"
| "seen wc (a # as) = poll_slot a wc # seen (poll_slot a wc) as"

definition last_slot :: "work_completion \<Rightarrow> work_completion list \<Rightarrow> work_completion" where
  "last_slot wc ws = (if ws = [] then wc else last ws)"

lemma last_slot_Cons: "last_slot wc (w # ws) = last_slot w ws"
  by (simp add: last_slot_def)

lemma seen_append: "seen wc (as @ bs) = seen wc as @ seen (last_slot wc (seen wc as)) bs"
  by (induction as arbitrary: wc) (simp_all add: last_slot_def)

lemma drain_deliver:
  "drain_cq cb as wc s = bind_rc (deliver cb (seen wc as) s) (\<lambda>s. Inr (last_slot wc (seen wc as), s))"
  by (induction as arbitrary: wc s) (auto simp: Let_def last_slot_Cons last_slot_def [of wc "[]" for wc] split: sum.splits)

definition wakes :: "wakeup list \<Rightarrow> bool" where
  "wakes ws \<longleftrightarrow> list_all (\<lambda>w. get_cq_event w \<and> req_notify_cq w) ws"

lemma poll_deliver:
  "wakes ws \<Longrightarrow> poll_cq cb ws wc s =
     bind_rc (deliver cb (seen wc (concat (map polls ws))) s) (\<lambda>s. Inr (last_slot wc (seen wc (concat (map polls ws))), s))"
proof (induction ws arbitrary: wc s)
  case (Cons w ws)
  let ?a = "seen wc (polls w)"
  have "poll_cq cb (w # ws) wc s = bind_rc (deliver cb ?a s) (\<lambda>s. poll_cq cb ws (last_slot wc ?a) s)"
    using Cons.prems by (auto simp: wakes_def drain_deliver split: sum.splits)
  moreover have "last_slot (last_slot wc ?a) bs = last_slot wc (?a @ bs)" for bs
    by (simp add: last_slot_def)
  ultimately show ?case
    using Cons.IH Cons.prems by (auto simp: wakes_def seen_append deliver_append split: sum.splits)
qed (simp add: last_slot_def)

lemma seen_polled: "seen wc (map Polled xs) = xs"
  by (induction xs arbitrary: wc) (simp_all add: poll_slot_def)


subsection \<open>Arrivals, notifications and the sleeping thread\<close>

text \<open>
  The queue, the flag set by \<open>ibv_req_notify_cq\<close>, the events raised and not yet taken, and where
  the thread is: asleep in \<open>ibv_get_cq_event\<close>, after it, after the acknowledgement, or polling. The
  device raises an event for the first completion that arrives after a request, and drops the
  request. \<open>arrived\<close> and \<open>handled\<close> record the completions.
\<close>

datatype poller_pc = Sleeping | Woken | Acknowledged | Polling

record 's cq_state =
  cq_entries :: "work_completion list"
  cq_armed :: bool
  cq_events :: nat
  cq_pc :: poller_pc
  cq_user :: 's
  cq_arrived :: "work_completion list"
  cq_handled :: "work_completion list"

definition cq_start :: "'s \<Rightarrow> 's cq_state" where
  "cq_start u = \<lparr> cq_entries = [], cq_armed = True, cq_events = 0, cq_pc = Sleeping, cq_user = u,
     cq_arrived = [], cq_handled = [] \<rparr>"

definition arrive :: "work_completion \<Rightarrow> 's cq_state \<Rightarrow> 's cq_state" where
  "arrive w s = s\<lparr> cq_entries := cq_entries s @ [w], cq_arrived := cq_arrived s @ [w],
     cq_events := (if cq_armed s then Suc (cq_events s) else cq_events s), cq_armed := False \<rparr>"

text \<open>
  One step of the thread; it is deterministic. \<open>None\<close>: it sleeps on; an error ends the process. The calls
  that wait for an event, arm the queue and poll succeed here (their failures
  are in \<open>poll_cq\<close> above), and the queue, created with 10 entries, does not overflow.
\<close>

definition poller_step :: "'s completion_cb \<Rightarrow> 's cq_state \<Rightarrow> (rc_error + 's cq_state) option" where
  "poller_step cb s =
     (case cq_pc s of
        Sleeping \<Rightarrow>
          if cq_events s = 0 then None else Some (Inr (s\<lparr> cq_events := cq_events s - 1, cq_pc := Woken \<rparr>))
      | Woken \<Rightarrow> Some (Inr (s\<lparr> cq_pc := Acknowledged \<rparr>))
      | Acknowledged \<Rightarrow> Some (Inr (s\<lparr> cq_armed := True, cq_pc := Polling \<rparr>))
      | Polling \<Rightarrow>
          (case cq_entries s of
             [] \<Rightarrow> Some (Inr (s\<lparr> cq_pc := Sleeping \<rparr>))
           | w # q \<Rightarrow>
               Some (bind_rc (handle_completion cb w (cq_user s)) (\<lambda>u.
                 Inr (s\<lparr> cq_entries := q, cq_user := u, cq_handled := cq_handled s @ [w] \<rparr>)))))"

inductive cq_step :: "'s completion_cb \<Rightarrow> 's cq_state \<Rightarrow> 's cq_state \<Rightarrow> bool" for cb :: "'s completion_cb" where
  arrival: "cq_step cb s (arrive w s)"
| poller: "poller_step cb s = Some (Inr t) \<Longrightarrow> cq_step cb s t"

inductive_cases cq_stepE: "cq_step cb s t"

text \<open>
  Between the event and the new request there is no request and no event; asleep or polling the
  thread has one of them, and asleep with the request pending it has emptied the queue.
\<close>

definition cq_inv :: "'s completion_cb \<Rightarrow> 's \<Rightarrow> 's cq_state \<Rightarrow> bool" where
  "cq_inv cb u0 s \<longleftrightarrow>
     cq_arrived s = cq_handled s @ cq_entries s \<and> deliver cb (cq_handled s) u0 = Inr (cq_user s) \<and>
     (case cq_pc s of
        Sleeping \<Rightarrow> cq_events s = 1 \<and> \<not> cq_armed s \<or> cq_events s = 0 \<and> cq_armed s \<and> cq_entries s = []
      | Polling \<Rightarrow> cq_events s = (if cq_armed s then 0 else 1)
      | _ \<Rightarrow> cq_events s = 0 \<and> \<not> cq_armed s)"

lemma cq_inv_start: "cq_inv cb u (cq_start u)"
  by (simp add: cq_inv_def cq_start_def)

lemma cq_inv_arrive: "cq_inv cb u0 s \<Longrightarrow> cq_inv cb u0 (arrive w s)"
  by (cases "cq_pc s") (auto simp: cq_inv_def arrive_def)

lemma cq_inv_poller:
  assumes "cq_inv cb u0 s" "poller_step cb s = Some (Inr t)"
  shows "cq_inv cb u0 t"
proof (cases "cq_pc s")
  case Polling
  show ?thesis
  proof (cases "cq_entries s")
    case Nil
    then show ?thesis using assms Polling by (auto simp: cq_inv_def poller_step_def split: if_splits)
  next
    case (Cons w q)
    then obtain u where u: "handle_completion cb w (cq_user s) = Inr u"
        "t = s\<lparr> cq_entries := q, cq_user := u, cq_handled := cq_handled s @ [w] \<rparr>"
      using assms(2) Polling by (auto simp: poller_step_def bind_rc_Inr)
    then show ?thesis using assms(1) Polling Cons by (auto simp: cq_inv_def deliver_snoc)
  qed
qed (use assms in \<open>auto simp: cq_inv_def poller_step_def split: if_splits\<close>)

lemma cq_inv_step: "cq_step cb s t \<Longrightarrow> cq_inv cb u0 s \<Longrightarrow> cq_inv cb u0 t"
  by (elim cq_stepE) (auto intro: cq_inv_arrive cq_inv_poller)

inductive cq_reach :: "'s completion_cb \<Rightarrow> 's cq_state \<Rightarrow> 's cq_state \<Rightarrow> bool" for cb :: "'s completion_cb" and s0 :: "'s cq_state" where
  cq_init: "cq_reach cb s0 s0"
| cq_next: "cq_reach cb s0 s \<Longrightarrow> cq_step cb s t \<Longrightarrow> cq_reach cb s0 t"

lemma cq_reach_inv: "cq_reach cb (cq_start u) s \<Longrightarrow> cq_inv cb u s"
  by (induction rule: cq_reach.induct) (auto intro: cq_inv_start cq_inv_step)

text \<open>
  The thread alone, for a number of steps; \<open>None\<close> when it cannot step. It empties the queue in at
  most the number of entries and four steps.
\<close>

fun poller_run :: "'s completion_cb \<Rightarrow> nat \<Rightarrow> 's cq_state \<Rightarrow> (rc_error + 's cq_state) option" where
  "poller_run cb 0 s = Some (Inr s)"
| "poller_run cb (Suc k) s =
     (case poller_step cb s of None \<Rightarrow> None | Some (Inl e) \<Rightarrow> Some (Inl e) | Some (Inr t) \<Rightarrow> poller_run cb k t)"

lemma poller_run_add:
  "poller_run cb k s = Some (Inr t) \<Longrightarrow> poller_run cb (k + l) s = poller_run cb l t"
  by (induction k arbitrary: s) (auto split: option.splits sum.splits)

lemma poller_empties:
  assumes "cq_pc s = Polling" "deliver cb (cq_entries s) (cq_user s) = Inr u"
  shows "poller_run cb (Suc (length (cq_entries s))) s =
    Some (Inr (s\<lparr> cq_entries := [], cq_pc := Sleeping, cq_user := u, cq_handled := cq_handled s @ cq_entries s \<rparr>))"
  using assms
proof (induction "cq_entries s" arbitrary: s)
  case Nil
  then show ?case by (simp add: poller_step_def)
next
  case (Cons w q)
  obtain v where v: "handle_completion cb w (cq_user s) = Inr v" "deliver cb q v = Inr u"
    using Cons.prems(2) unfolding Cons.hyps(2) [symmetric] by (auto simp: bind_rc_Inr)
  let ?s = "s\<lparr> cq_entries := q, cq_user := v, cq_handled := cq_handled s @ [w] \<rparr>"
  have "poller_step cb s = Some (Inr ?s)"
    using Cons.prems(1) Cons.hyps(2) [symmetric] v(1) by (simp add: poller_step_def)
  moreover have "poller_run cb (Suc (length (cq_entries ?s))) ?s =
    Some (Inr (?s\<lparr> cq_entries := [], cq_pc := Sleeping, cq_user := u, cq_handled := cq_handled ?s @ cq_entries ?s \<rparr>))"
    by (rule Cons.hyps(1)) (use v Cons.prems(1) in simp_all)
  ultimately show ?case using Cons.hyps(2) [symmetric] by simp
qed


lemma poller_starts_polling:
  assumes "cq_inv cb u0 s" "\<not> (cq_pc s = Sleeping \<and> cq_events s = 0)"
  obtains k b n where "k \<le> 3" "poller_run cb k s = Some (Inr (s\<lparr> cq_armed := b, cq_events := n, cq_pc := Polling \<rparr>))"
proof (cases "cq_pc s")
  case Sleeping
  then have "poller_run cb 3 s = Some (Inr (s\<lparr> cq_armed := True, cq_events := cq_events s - 1, cq_pc := Polling \<rparr>))"
    using assms(2) by (simp add: numeral_eq_Suc poller_step_def)
  then show ?thesis using that by blast
next
  case Woken
  then have "poller_run cb 2 s = Some (Inr (s\<lparr> cq_armed := True, cq_events := cq_events s, cq_pc := Polling \<rparr>))"
    by (simp add: numeral_eq_Suc poller_step_def)
  from that [OF _ this] show ?thesis by simp
next
  case Acknowledged
  then have "poller_run cb 1 s = Some (Inr (s\<lparr> cq_armed := True, cq_events := cq_events s, cq_pc := Polling \<rparr>))"
    by (simp add: poller_step_def)
  from that [OF _ this] show ?thesis by simp
next
  case Polling
  then have "poller_run cb 0 s = Some (Inr (s\<lparr> cq_armed := cq_armed s, cq_events := cq_events s, cq_pc := Polling \<rparr>))"
    by simp
  from that [OF _ this] show ?thesis by simp
qed

lemma poller_catches_up:
  assumes inv: "cq_inv cb u0 s" and v: "deliver cb (cq_arrived s) u0 = Inr v"
  shows "\<exists>k t. k \<le> length (cq_entries s) + 4 \<and> poller_run cb k s = Some (Inr t) \<and>
    cq_entries t = [] \<and> cq_handled t = cq_arrived s \<and> cq_user t = v"
proof (cases "cq_pc s = Sleeping \<and> cq_events s = 0")
  case True
  then show ?thesis using inv v by (intro exI [of _ 0] exI [of _ s]) (auto simp: cq_inv_def)
next
  case False
  then obtain k b n where k: "k \<le> 3" "poller_run cb k s = Some (Inr (s\<lparr> cq_armed := b, cq_events := n, cq_pc := Polling \<rparr>))"
    by (rule poller_starts_polling [OF inv])
  let ?s = "s\<lparr> cq_armed := b, cq_events := n, cq_pc := Polling \<rparr>"
  have a: "cq_arrived s = cq_handled s @ cq_entries s" "deliver cb (cq_handled s) u0 = Inr (cq_user s)"
    using inv by (simp_all add: cq_inv_def)
  then have "deliver cb (cq_entries ?s) (cq_user ?s) = Inr v" using v by (simp add: deliver_append)
  from poller_empties [OF _ this] have "poller_run cb (Suc (length (cq_entries s))) ?s =
      Some (Inr (?s\<lparr> cq_entries := [], cq_pc := Sleeping, cq_user := v, cq_handled := cq_handled s @ cq_entries s \<rparr>))"
    by simp
  then show ?thesis
    unfolding poller_run_add [OF k(2), symmetric]
    using k(1) a(1) by (intro exI [of _ "k + Suc (length (cq_entries s))"] exI conjI) auto
qed

subsection \<open>The communication thread\<close>

text \<open>
  \<open>comm_runtime_worker2\<close>: a poll returns up to \<open>WC_POLL_WINDOW\<close> completions or fails; the answer of
  the device to the \<open>k\<close>-th poll of the thread is \<open>poll k\<close>. The state of the loops is the number of
  polls made and \<open>n_comp\<close>; the thread leaves them when a completion was not successful.
\<close>

definition WC_POLL_WINDOW :: nat where "WC_POLL_WINDOW = 100"

definition worker_batch :: nat where "worker_batch = 2 ^ 12"

record worker_state =
  polled :: nat
  n_comp :: u64

fun check_completions :: "u64 \<Rightarrow> work_completion list \<Rightarrow> u64 \<Rightarrow> u64 option" where
  "check_completions n [] c = Some c"
| "check_completions n (w # ws) c =
     (let c = c + n in if wc_status w \<noteq> IBV_WC_SUCCESS then None else check_completions n ws c)"

definition worker_poll :: "(nat \<Rightarrow> work_completion list option) \<Rightarrow> worker_state \<Rightarrow> worker_state option" where
  "worker_poll poll s =
     (case poll (polled s) of
        None \<Rightarrow> Some (s\<lparr> polled := Suc (polled s) \<rparr>)
      | Some ws \<Rightarrow>
          map_option (\<lambda>c. s\<lparr> polled := Suc (polled s), n_comp := c \<rparr>) (check_completions (of_nat (length ws)) ws (n_comp s)))"

fun repeat_option :: "nat \<Rightarrow> ('a \<Rightarrow> 'a option) \<Rightarrow> 'a \<Rightarrow> 'a option" where
  "repeat_option 0 f s = Some s"
| "repeat_option (Suc k) f s = Option.bind (f s) (repeat_option k f)"

definition worker_iteration :: "cm_id list \<Rightarrow> (nat \<Rightarrow> work_completion list option) \<Rightarrow> worker_state \<Rightarrow> worker_state option" where
  "worker_iteration cm_ids poll = repeat_option (length cm_ids) (worker_poll poll)"

datatype worker_result = Exited u64 | Failed | Running worker_state

text \<open>The values of \<open>should_stop\<close> at the successive tests of the outer loop.\<close>

fun comm_runtime_worker2 ::
    "cm_id list \<Rightarrow> (nat \<Rightarrow> work_completion list option) \<Rightarrow> bool list \<Rightarrow> worker_state \<Rightarrow> worker_result" where
  "comm_runtime_worker2 cm_ids poll [] s = Running s"
| "comm_runtime_worker2 cm_ids poll (stop # stops) s =
     (if stop then Exited (n_comp s)
      else case repeat_option worker_batch (worker_iteration cm_ids poll) s of
             None \<Rightarrow> Failed
           | Some s \<Rightarrow> comm_runtime_worker2 cm_ids poll stops s)"

text \<open>What the loops amount to: the polls in sequence, each adding the square of its completions.\<close>

definition all_success :: "work_completion list option \<Rightarrow> bool" where
  "all_success a \<longleftrightarrow> (case a of None \<Rightarrow> True | Some ws \<Rightarrow> list_all (\<lambda>w. wc_status w = IBV_WC_SUCCESS) ws)"

definition completions :: "work_completion list option \<Rightarrow> nat" where
  "completions a = (case a of None \<Rightarrow> 0 | Some ws \<Rightarrow> length ws)"

lemma check_completions_eq:
  "check_completions n ws c = (if list_all (\<lambda>w. wc_status w = IBV_WC_SUCCESS) ws then Some (c + of_nat (length ws) * n) else None)"
  by (induction ws arbitrary: c) (simp_all add: Let_def algebra_simps)

lemma worker_poll_eq:
  "worker_poll poll s = (if all_success (poll (polled s))
     then Some \<lparr> polled = Suc (polled s), n_comp = n_comp s + of_nat ((completions (poll (polled s)))\<^sup>2) \<rparr> else None)"
  by (cases "poll (polled s)")
    (simp_all add: worker_poll_def all_success_def completions_def check_completions_eq power2_eq_square)

definition polls_ok :: "(nat \<Rightarrow> work_completion list option) \<Rightarrow> nat \<Rightarrow> nat \<Rightarrow> bool" where
  "polls_ok poll a b \<longleftrightarrow> (\<forall>k \<in> {a..<b}. all_success (poll k))"

definition squares :: "(nat \<Rightarrow> work_completion list option) \<Rightarrow> nat \<Rightarrow> nat \<Rightarrow> nat" where
  "squares poll a b = (\<Sum>k \<in> {a..<b}. (completions (poll k))\<^sup>2)"

definition makes_polls :: "nat \<Rightarrow> (nat \<Rightarrow> work_completion list option) \<Rightarrow> (worker_state \<Rightarrow> worker_state option) \<Rightarrow> bool" where
  "makes_polls m poll f \<longleftrightarrow> (\<forall>s. f s = (let b = polled s + m in
     if polls_ok poll (polled s) b then Some \<lparr> polled = b, n_comp = n_comp s + of_nat (squares poll (polled s) b) \<rparr> else None))"

lemma worker_poll_makes: "makes_polls 1 poll (worker_poll poll)"
  by (simp add: makes_polls_def worker_poll_eq Let_def polls_ok_def squares_def)

lemma makes_polls_id: "makes_polls 0 poll Some"
  by (simp add: makes_polls_def polls_ok_def squares_def)

lemma polls_ok_split: "a \<le> b \<Longrightarrow> b \<le> c \<Longrightarrow> polls_ok poll a c \<longleftrightarrow> polls_ok poll a b \<and> polls_ok poll b c"
  unfolding polls_ok_def by (simp add: ivl_disj_un_two(3) [symmetric, of a b c] ball_Un)

lemma squares_split: "a \<le> b \<Longrightarrow> b \<le> c \<Longrightarrow> squares poll a c = squares poll a b + squares poll b c"
  unfolding squares_def by (simp add: sum.atLeastLessThan_concat)

lemma makes_polls_bind:
  assumes "makes_polls m poll f" "makes_polls n poll g"
  shows "makes_polls (m + n) poll (\<lambda>s. Option.bind (f s) g)"
  unfolding makes_polls_def Let_def
proof
  fix s :: worker_state
  let ?a = "polled s" and ?b = "polled s + m" and ?c = "polled s + (m + n)"
  have sp: "polls_ok poll ?a ?c \<longleftrightarrow> polls_ok poll ?a ?b \<and> polls_ok poll ?b ?c"
    "squares poll ?a ?c = squares poll ?a ?b + squares poll ?b ?c"
    by (rule polls_ok_split squares_split; simp)+
  have f: "f s = (if polls_ok poll ?a ?b then Some \<lparr> polled = ?b, n_comp = n_comp s + of_nat (squares poll ?a ?b) \<rparr> else None)"
    using assms(1) by (simp add: makes_polls_def Let_def)
  have g: "g t = (if polls_ok poll (polled t) (polled t + n)
      then Some \<lparr> polled = polled t + n, n_comp = n_comp t + of_nat (squares poll (polled t) (polled t + n)) \<rparr> else None)" for t
    using assms(2) by (simp add: makes_polls_def Let_def)
  show "Option.bind (f s) g = (if polls_ok poll ?a ?c then Some \<lparr> polled = ?c, n_comp = n_comp s + of_nat (squares poll ?a ?c) \<rparr> else None)"
    unfolding f sp by (simp add: g add.assoc)
qed

lemma makes_polls_repeat: "makes_polls m poll f \<Longrightarrow> makes_polls (k * m) poll (repeat_option k f)"
proof (induction k)
  case 0
  have "repeat_option 0 f = Some" by (intro ext) simp
  then show ?case using makes_polls_id by simp
next
  case (Suc k)
  have "repeat_option (Suc k) f = (\<lambda>s. Option.bind (f s) (repeat_option k f))" by (intro ext) simp
  then show ?case using makes_polls_bind [OF Suc.prems Suc.IH [OF Suc.prems]] by simp
qed

definition round_polls :: "cm_id list \<Rightarrow> nat" where
  "round_polls cm_ids = worker_batch * length cm_ids"

lemma worker_round_makes:
  "makes_polls (round_polls cm_ids) poll (repeat_option worker_batch (worker_iteration cm_ids poll))"
  using makes_polls_repeat [OF makes_polls_repeat [OF worker_poll_makes]]
  by (simp add: worker_iteration_def round_polls_def)

lemma worker_rounds:
  assumes "polls_ok poll (polled s) (polled s + r * round_polls cm_ids)"
  shows "comm_runtime_worker2 cm_ids poll (replicate r False @ [True]) s =
    Exited (n_comp s + of_nat (squares poll (polled s) (polled s + r * round_polls cm_ids)))"
  using assms
proof (induction r arbitrary: s)
  case 0
  then show ?case by (simp add: squares_def)
next
  case (Suc r)
  let ?a = "polled s" and ?b = "polled s + round_polls cm_ids" and ?c = "polled s + Suc r * round_polls cm_ids"
  let ?t = "\<lparr> polled = ?b, n_comp = n_comp s + of_nat (squares poll ?a ?b) \<rparr>"
  have c: "?c = polled ?t + r * round_polls cm_ids" by simp
  have sp: "polls_ok poll ?a ?b" "polls_ok poll ?b ?c" "squares poll ?a ?c = squares poll ?a ?b + squares poll ?b ?c"
    using Suc.prems polls_ok_split [of ?a ?b ?c poll] squares_split [of ?a ?b ?c poll] by simp_all
  have "repeat_option worker_batch (worker_iteration cm_ids poll) s = Some ?t"
    using worker_round_makes [of cm_ids poll] sp(1) by (simp add: makes_polls_def Let_def)
  then show ?case using Suc.IH [of ?t] sp(2,3) c by (simp add: add.assoc)
qed


subsection \<open>The read tests of the client\<close>

text \<open>
  \<open>test_all_qp\<close> and \<open>temporary_test\<close>, whose calls are commented out in \<open>on_completion\<close>: one remote
  read of four bytes per connection, and a loop of polls until one does not return zero. The
  answers to the polls are listed with \<open>None\<close> for zero; a list that ends leaves the loop running.
  A variable that was set to zero reads as a successful completion.
\<close>

definition zero_wc :: work_completion where
  "zero_wc = \<lparr> wc_wr_id = 0, wc_status = 0, wc_opcode = 0 \<rparr>"

record qp_test =
  qt_reg_mr :: bool
  qt_post_send :: bool
  qt_polls :: "poll_answer option list"

datatype test_report = Reg_failed | Send_failed nat | Test_success nat

fun await_completion :: "poll_answer option list \<Rightarrow> work_completion \<Rightarrow> rc_error + work_completion" where
  "await_completion [] wc = Inl Diverges"
| "await_completion (None # as) wc = await_completion as wc"
| "await_completion (Some a # as) wc =
     (let wc = poll_slot a wc in if wc_status wc = IBV_WC_SUCCESS then Inr wc else Inl Exit_failure)"

text \<open>A failed registration is reported, and then the key of a null region is read.\<close>

definition test_read :: "nat \<Rightarrow> qp_test \<Rightarrow> work_completion \<Rightarrow> test_report list \<Rightarrow> rc_error + (work_completion \<times> test_report list)" where
  "test_read i q wc out =
     (if \<not> qt_reg_mr q then Inl Null_dereference
      else
        let out = (if qt_post_send q then out else out @ [Send_failed i])
        in bind_rc (await_completion (qt_polls q) wc) (\<lambda>wc. Inr (wc, out @ [Test_success i])))"

fun test_all_qp :: "nat \<Rightarrow> qp_test list \<Rightarrow> test_report list \<Rightarrow> rc_error + test_report list" where
  "test_all_qp i [] out = Inr out"
| "test_all_qp i (q # qs) out = bind_rc (test_read i q zero_wc out) (\<lambda>(wc, out). test_all_qp (Suc i) qs out)"

definition temporary_test :: "qp_test \<Rightarrow> work_completion \<Rightarrow> rc_error + (work_completion \<times> test_report list)" where
  "temporary_test q wc = test_read 0 q wc []"

text \<open>A failed poll ends the test with success.\<close>

lemma failed_poll_succeeds:
  "test_all_qp 0 [\<lparr> qt_reg_mr = True, qt_post_send = True, qt_polls = [None, Some Poll_failed] \<rparr>] [] = Inr [Test_success 0]"
  by (simp add: test_read_def poll_slot_def zero_wc_def IBV_WC_SUCCESS_def)

lemma test_all_qp_exact:
  assumes "list_all (\<lambda>q. qt_reg_mr q \<and> qt_post_send q \<and> (\<exists>n w. qt_polls q = replicate n None @ [Some (Polled w)] \<and> wc_status w = IBV_WC_SUCCESS)) qs"
  shows "test_all_qp i qs out = Inr (out @ map Test_success [i..<i + length qs])"
  using assms
proof (induction qs arbitrary: i out)
  case (Cons q qs)
  then obtain n w where q: "qt_polls q = replicate n None @ [Some (Polled w)]" "wc_status w = IBV_WC_SUCCESS" "qt_reg_mr q" "qt_post_send q"
    by auto
  have "await_completion (replicate n None @ [Some (Polled w)]) wc = Inr w" for wc
    by (induction n) (simp_all add: poll_slot_def q(2))
  then have "test_all_qp i (q # qs) out = test_all_qp (Suc i) qs (out @ [Test_success i])"
    using q by (simp add: test_read_def)
  also have "\<dots> = Inr ((out @ [Test_success i]) @ map Test_success [Suc i..<Suc i + length qs])"
    by (rule Cons.IH) (use Cons.prems in simp)
  also have "\<dots> = Inr (out @ map Test_success (i # [Suc i..<Suc i + length qs]))" by simp
  also have "i # [Suc i..<Suc i + length qs] = [i..<i + length (q # qs)]"
    by (simp only: list.size add_Suc add_Suc_right add_0_right upt_conv_Cons [of i "Suc (i + length qs)"] less_Suc_eq_le le_add1)
  finally show ?case .
qed simp

subsection \<open>Properties\<close>

text \<open>
  C27. Both threads deliver what the device completes. If the calls around the polls succeed and no
  poll fails, either thread runs its callback on every completion exactly once and in the order of
  the queue, however the completions are spread over wake-ups, and ends the process at the first
  completion that is not successful.
\<close>

theorem completions_delivered:
  assumes "wakes ws" "concat (map polls ws) = map Polled xs"
  shows "poll_cq cb ws wc s = bind_rc (deliver cb xs s) (\<lambda>s. Inr (last_slot wc xs, s)) \<and>
    AbstractServer_poll_cq cb ws wc s = bind_rc (deliver cb xs s) (\<lambda>s. Inr (last_slot wc xs, s))"
  using poll_deliver [OF assms(1), of cb wc s] unfolding assms(2) seen_polled AbstractServer_poll_eq by blast

definition demo_wc :: "nat \<Rightarrow> work_completion" where
  "demo_wc i = \<lparr> wc_wr_id = i, wc_status = 0, wc_opcode = IBV_WC_RECV \<rparr>"

definition demo_log_cb :: "nat list completion_cb" where
  "demo_log_cb wc l = Inr (l @ [wc_wr_id wc])"

definition demo_wakeups :: "wakeup list" where
  "demo_wakeups = [\<lparr> get_cq_event = True, req_notify_cq = True, polls = [Polled (demo_wc 1), Polled (demo_wc 2)] \<rparr>,
    \<lparr> get_cq_event = True, req_notify_cq = True, polls = [] \<rparr>,
    \<lparr> get_cq_event = True, req_notify_cq = True, polls = [Polled (demo_wc 3)] \<rparr>]"

theorem completions_delivered_witness:
  "poll_cq demo_log_cb demo_wakeups zero_wc [] = Inr (demo_wc 3, [1, 2, 3]) \<and>
   AbstractServer_poll_cq demo_log_cb demo_wakeups zero_wc [] = Inr (demo_wc 3, [1, 2, 3])"
proof -
  have w: "wakes demo_wakeups" "concat (map polls demo_wakeups) = map Polled [demo_wc 1, demo_wc 2, demo_wc 3]"
    by (simp_all add: wakes_def demo_wakeups_def)
  have "deliver demo_log_cb [demo_wc 1, demo_wc 2, demo_wc 3] [] = Inr [1, 2, 3]"
    by (simp add: handle_completion_def demo_log_cb_def demo_wc_def IBV_WC_SUCCESS_def)
  then show ?thesis
    using completions_delivered [OF w, of demo_log_cb zero_wc "[]"] by (simp add: last_slot_def)
qed

text \<open>
  C17. No completion is lost between two wake-ups. Completions may arrive at any moment, also between
  the thread's last poll and its sleep. In every state that the device and the thread can reach:
  if the thread sleeps, everything that arrived has been handled; otherwise, or once an event is
  pending, the thread alone handles everything that has arrived, in order, within four steps and
  one per queued completion, unless a completion or its callback fails. The calls to wait for an event, to arm
  the queue and to poll it succeed, and the queue does not overflow.
\<close>

theorem no_lost_completion:
  assumes "cq_reach cb (cq_start u) s"
  shows "(poller_step cb s = None \<longrightarrow> cq_handled s = cq_arrived s \<and> deliver cb (cq_arrived s) u = Inr (cq_user s)) \<and>
    (\<forall>v. deliver cb (cq_arrived s) u = Inr v \<longrightarrow>
      (\<exists>k t. k \<le> length (cq_entries s) + 4 \<and> poller_run cb k s = Some (Inr t) \<and>
        cq_entries t = [] \<and> cq_handled t = cq_arrived s \<and> cq_user t = v))"
proof -
  have inv: "cq_inv cb u s" by (rule cq_reach_inv [OF assms])
  have "cq_handled s = cq_arrived s \<and> deliver cb (cq_arrived s) u = Inr (cq_user s)" if "poller_step cb s = None"
    using that inv by (cases "cq_pc s") (auto simp: poller_step_def cq_inv_def split: if_splits list.splits)
  then show ?thesis using poller_catches_up [OF inv] by blast
qed

text \<open>The thread is about to sleep with an empty queue when a second completion arrives.\<close>

definition demo_cq :: "nat list cq_state" where
  "demo_cq = \<lparr> cq_entries = [demo_wc 2], cq_armed = False, cq_events = 1, cq_pc = Sleeping, cq_user = [1],
     cq_arrived = [demo_wc 1, demo_wc 2], cq_handled = [demo_wc 1] \<rparr>"

lemma demo_handles: "handle_completion demo_log_cb (demo_wc i) l = Inr (l @ [i])"
  by (simp add: handle_completion_def demo_log_cb_def demo_wc_def IBV_WC_SUCCESS_def)

lemma demo_cq_reached: "cq_reach demo_log_cb (cq_start []) demo_cq"
proof -
  have "poller_run demo_log_cb 5 (arrive (demo_wc 1) (cq_start [])) = Some (Inr
      \<lparr> cq_entries = [], cq_armed = True, cq_events = 0, cq_pc = Sleeping, cq_user = [1], cq_arrived = [demo_wc 1], cq_handled = [demo_wc 1] \<rparr>)"
    (is "_ = Some (Inr ?t)")
    by (simp add: numeral_eq_Suc poller_step_def arrive_def cq_start_def demo_handles [simplified])
  moreover have "cq_reach cb s0 s \<Longrightarrow> poller_run cb k s = Some (Inr t) \<Longrightarrow> cq_reach cb s0 t" for cb :: "'a completion_cb" and s0 s t k
    by (induction k arbitrary: s) (auto split: option.splits sum.splits intro: cq_next cq_step.poller)
  moreover have "cq_reach demo_log_cb (cq_start []) (arrive (demo_wc 1) (cq_start []))"
    by (rule cq_next [OF cq_init cq_step.arrival])
  ultimately have "cq_reach demo_log_cb (cq_start []) ?t" by blast
  then have "cq_reach demo_log_cb (cq_start []) (arrive (demo_wc 2) ?t)" by (rule cq_next) (rule cq_step.arrival)
  then show ?thesis by (simp add: arrive_def demo_cq_def)
qed

theorem no_lost_completion_witness:
  "\<exists>k t. k \<le> 5 \<and> poller_run demo_log_cb k demo_cq = Some (Inr t) \<and> cq_entries t = [] \<and> cq_user t = [1, 2]"
proof -
  have "deliver demo_log_cb (cq_arrived demo_cq) [] = Inr [1, 2]"
    by (simp add: demo_cq_def demo_handles)
  then obtain k t where "k \<le> length (cq_entries demo_cq) + 4" "poller_run demo_log_cb k demo_cq = Some (Inr t)"
      "cq_entries t = []" "cq_user t = [1, 2]"
    using no_lost_completion [OF demo_cq_reached] by blast
  then show ?thesis by (intro exI [of _ k] exI [of _ t]) (simp add: demo_cq_def)
qed

text \<open>
  The communication thread makes \<open>2\<^sup>1\<^sup>2\<close> polls per connection between two tests of the stop flag.
  If all completions are successful it leaves when the flag is set, and the number that it logs is
  the sum of the squares of the numbers of completions per poll, not their sum.
\<close>

lemma comm_worker_count:
  assumes "polls_ok poll 0 (r * (4096 * length cm_ids))"
  shows "comm_runtime_worker2 cm_ids poll (replicate r False @ [True]) \<lparr> polled = 0, n_comp = 0 \<rparr> =
    Exited (of_nat (\<Sum>k < r * (4096 * length cm_ids). (completions (poll k))\<^sup>2))"
  using worker_rounds [of poll "\<lparr> polled = 0, n_comp = 0 \<rparr>" r cm_ids] assms
  by (simp add: round_polls_def worker_batch_def squares_def atLeast0LessThan)


lemma comm_worker_count_witness:
  "comm_runtime_worker2 [1] (\<lambda>k. if k < 2 then Some (replicate 3 zero_wc) else Some []) [False, True] \<lparr> polled = 0, n_comp = 0 \<rparr> = Exited 18"
proof -
  let ?p = "\<lambda>k::nat. if k < 2 then Some (replicate 3 zero_wc) else Some []"
  have p: "polls_ok ?p 0 (1 * (4096 * length [1 :: cm_id]))"
    by (auto simp: polls_ok_def all_success_def zero_wc_def IBV_WC_SUCCESS_def list_all_iff)
  have "(\<Sum>k < 4096. (completions (?p k))\<^sup>2) = (\<Sum>k \<in> {..<2}. (completions (?p k))\<^sup>2)"
    by (rule sum.mono_neutral_right) (auto simp: completions_def)
  also have "\<dots> = 18" by (simp add: completions_def numeral_eq_Suc)
  finally show ?thesis using comm_worker_count [OF p] by simp
qed

end
