(* ===== verification/Memory.thy ===== *)
theory Memory
  imports Graph_Kernel Server Graph_Tools
begin

text \<open>
  The memory of a kernel: the mapping helpers of \<open>src/src/mmap_util.hpp\<close> with their deleters, the
  huge page advice of \<open>src/include/fam_common.hpp\<close>, the mapping of a \<open>Bitmap\<close>, the five mappings
  that the constructor of \<open>Generic_ctx\<close> makes and its destructor gives back, and the tool
  \<open>src/util/memusage.cpp\<close> that predicts their size. The state is the list of mappings of the process,
  with the advice each one got, and the list of registered regions. The operating system is the
  parameter \<open>mem_os\<close>.
\<close>

subsection \<open>The address space\<close>

datatype advice = MADV_HUGEPAGE | MADV_NOHUGEPAGE

record mapping =
  map_addr :: u64
  map_len :: u64
  map_hugetlb :: bool
  map_advice :: "advice option"

record memory =
  mappings :: "mapping list"
  regions :: "(u64 \<times> u64) list"

record mem_os =
  mm_align_up :: "u64 \<Rightarrow> u64 \<Rightarrow> u64"
  mm_mmap :: "memory \<Rightarrow> u64 \<Rightarrow> bool \<Rightarrow> u64"
  mm_madvise :: "u64 \<Rightarrow> u64 \<Rightarrow> advice \<Rightarrow> bool"
  mm_reg_mr :: "u64 \<Rightarrow> u64 \<Rightarrow> bool \<Rightarrow> bool"
  mm_dereg_mr :: "u64 \<Rightarrow> u64 \<Rightarrow> bool"

definition MAP_FAILED :: u64 where "MAP_FAILED = - 1"

definition mmap :: "mem_os \<Rightarrow> u64 \<Rightarrow> bool \<Rightarrow> memory \<Rightarrow> u64 \<times> memory" where
  "mmap os len hp mem =
     (let p = mm_mmap os mem len hp
      in (p, if p = MAP_FAILED then mem
             else mem\<lparr> mappings := \<lparr> map_addr = p, map_len = len, map_hugetlb = hp, map_advice = None \<rparr> # mappings mem \<rparr>))"

text \<open>A mapping is given back by a call with its address and its length; other calls have no effect here.\<close>

definition munmap :: "u64 \<Rightarrow> u64 \<Rightarrow> memory \<Rightarrow> memory" where
  "munmap p len mem = mem\<lparr> mappings := filter (\<lambda>m. \<not> (map_addr m = p \<and> map_len m = len)) (mappings mem) \<rparr>"

text \<open>\<open>madvise\<close>: whether it succeeds, and the advice recorded for the mapping.\<close>

definition madvise :: "mem_os \<Rightarrow> u64 \<Rightarrow> u64 \<Rightarrow> advice \<Rightarrow> memory \<Rightarrow> bool \<times> memory" where
  "madvise os p len a mem =
     (if mm_madvise os p len a
      then (True, mem\<lparr> mappings := map (\<lambda>m. if map_addr m = p then m\<lparr> map_advice := Some a \<rparr> else m) (mappings mem) \<rparr>)
      else (False, mem))"

subsection \<open>Huge page advice\<close>

datatype FAM_THP_FLAG = THP_VERTEX_ARRAY | THP_EDGE_ARRAY | THP_PROPERTY_ARRAY | THP_CACHE_REGION | THP_ALL

fun thp_bits :: "FAM_THP_FLAG \<Rightarrow> u32" where
  "thp_bits THP_VERTEX_ARRAY = push_bit 1 1"
| "thp_bits THP_EDGE_ARRAY = push_bit 2 1"
| "thp_bits THP_PROPERTY_ARRAY = push_bit 3 1"
| "thp_bits THP_CACHE_REGION = push_bit 4 1"
| "thp_bits THP_ALL = push_bit 1 1 OR push_bit 2 1 OR push_bit 3 1 OR push_bit 4 1"

definition huge_page_select :: "mem_os \<Rightarrow> u64 \<Rightarrow> u64 \<Rightarrow> u32 \<Rightarrow> FAM_THP_FLAG \<Rightarrow> memory \<Rightarrow> bool \<times> memory" where
  "huge_page_select os addr len user_select current_select mem =
     (if user_select AND thp_bits current_select \<noteq> 0 then madvise os addr len MADV_HUGEPAGE mem
      else madvise os addr len MADV_NOHUGEPAGE mem)"

text \<open>The three functions in use; a failure is only logged.\<close>

definition advice_edge_thp :: "mem_os \<Rightarrow> u64 \<Rightarrow> u64 \<Rightarrow> u32 \<Rightarrow> memory \<Rightarrow> memory" where
  "advice_edge_thp os addr len thp_flag mem =
     snd (if thp_flag AND thp_bits THP_EDGE_ARRAY \<noteq> 0 then madvise os addr len MADV_HUGEPAGE mem
          else madvise os addr len MADV_NOHUGEPAGE mem)"

definition advice_vertex_thp :: "mem_os \<Rightarrow> u64 \<Rightarrow> u64 \<Rightarrow> u32 \<Rightarrow> memory \<Rightarrow> memory" where
  "advice_vertex_thp os addr len thp_flag mem =
     snd (if thp_flag AND thp_bits THP_VERTEX_ARRAY \<noteq> 0 then madvise os addr len MADV_HUGEPAGE mem
          else madvise os addr len MADV_NOHUGEPAGE mem)"

definition advice_prop_thp :: "mem_os \<Rightarrow> u64 \<Rightarrow> u64 \<Rightarrow> u32 \<Rightarrow> memory \<Rightarrow> memory" where
  "advice_prop_thp os addr len thp_flag mem =
     snd (if thp_flag AND thp_bits THP_PROPERTY_ARRAY \<noteq> 0 then madvise os addr len MADV_HUGEPAGE mem
          else madvise os addr len MADV_NOHUGEPAGE mem)"

subsection \<open>The mapping helpers\<close>

text \<open>
  What a \<open>unique_ptr\<close> holds: the address, and the length that its deleter unmaps. The test for
  null does not see a failed mapping; the elements are then constructed at an invalid address.
\<close>

record owned =
  own_ptr :: u64
  own_size :: u64

definition mmap_unique :: "mem_os \<Rightarrow> u64 \<Rightarrow> u64 \<Rightarrow> bool \<Rightarrow> u32 \<Rightarrow> memory \<Rightarrow> rc_error + (owned \<times> memory)" where
  "mmap_unique os elem_size array_size use_HP thp_flag mem =
     (let req_size = elem_size * array_size;
          aligned_size = (if use_HP then mm_align_up os req_size HP_align else req_size);
          (ptr, mem) = mmap os aligned_size use_HP mem
      in if ptr \<noteq> 0 then
           (let mem = advice_vertex_thp os ptr aligned_size thp_flag mem
            in if ptr = MAP_FAILED \<and> 0 < array_size then Inl Memory_fault
               else Inr (\<lparr> own_ptr = ptr, own_size = aligned_size \<rparr>, mem))
         else Inl (Throw ''std::bad_alloc''))"

definition mmap_deleter :: "owned \<Rightarrow> memory \<Rightarrow> memory" where
  "mmap_deleter p mem = munmap (own_ptr p) (own_size p) mem"

definition RDMA_mmap_owned :: "mem_os \<Rightarrow> u64 \<Rightarrow> bool \<Rightarrow> u32 \<Rightarrow> memory \<Rightarrow> rc_error + (owned \<times> memory)" where
  "RDMA_mmap_owned os array_size use_HP thp_flag mem =
     (let req_size = 4 * array_size;
          aligned_size = (if use_HP then mm_align_up os req_size HP_align else req_size);
          (ptr, mem) = mmap os aligned_size use_HP mem
      in if ptr \<noteq> 0 then
           (let mem = advice_edge_thp os ptr aligned_size thp_flag mem
            in if mm_reg_mr os ptr aligned_size use_HP
               then Inr (\<lparr> own_ptr = ptr, own_size = aligned_size \<rparr>, mem\<lparr> regions := (ptr, aligned_size) # regions mem \<rparr>)
               else Inl (Throw ''ibv_reg_mr failed''))
         else Inl (Throw ''std::bad_alloc''))"

text \<open>A failure of \<open>ibv_dereg_mr\<close> is only logged: the region stays registered, and its memory is unmapped.\<close>

definition RDMA_mmap_deleter :: "mem_os \<Rightarrow> owned \<Rightarrow> memory \<Rightarrow> memory" where
  "RDMA_mmap_deleter os p mem =
     munmap (own_ptr p) (own_size p)
       (if mm_dereg_mr os (own_ptr p) (own_size p)
        then mem\<lparr> regions := filter (\<lambda>r. fst r \<noteq> own_ptr p) (regions mem) \<rparr> else mem)"

text \<open>The constructor of \<open>Bitmap\<close> maps one byte per vertex; it tests nothing.\<close>

definition Bitmap_map :: "mem_os \<Rightarrow> u32 \<Rightarrow> bool \<Rightarrow> u32 \<Rightarrow> memory \<Rightarrow> owned \<times> memory" where
  "Bitmap_map os t_size use_HP thp_flag mem =
     (let aligned_size = (if use_HP then mm_align_up os (ucast t_size) HP_align else ucast t_size);
          (ptr, mem) = mmap os aligned_size use_HP mem
      in (\<lparr> own_ptr = ptr, own_size = aligned_size \<rparr>, advice_prop_thp os ptr aligned_size thp_flag mem))"

definition Bitmap_unmap :: "owned \<Rightarrow> memory \<Rightarrow> memory" where
  "Bitmap_unmap p mem = munmap (own_ptr p) (own_size p) mem"

subsection \<open>The mappings of a context\<close>

record ctx_memory =
  cm_index :: owned
  cm_props :: owned
  cm_window :: owned
  cm_frontierA :: owned
  cm_frontierB :: owned

text \<open>
  The member initialisers of \<open>Generic_ctx\<close> for a graph with \<open>n\<close> vertices whose largest out-degree
  is \<open>d\<close>; \<open>vsize\<close> is \<open>sizeof(V)\<close> and \<open>thp\<close> the option \<open>madvise_thp\<close>.
\<close>

definition Generic_ctx_map ::
    "mem_os \<Rightarrow> program_options \<Rightarrow> u32 \<Rightarrow> u64 \<Rightarrow> u32 \<Rightarrow> u32 \<Rightarrow> Buffering \<Rightarrow> memory \<Rightarrow> rc_error + (ctx_memory \<times> memory)" where
  "Generic_ctx_map os vm thp vsize n d b mem =
     bind_rc (mmap_unique os 8 (ucast n) (opt_hp vm) thp mem) (\<lambda>(pt, mem).
     bind_rc (mmap_unique os vsize (ucast n) (opt_hp vm) thp mem) (\<lambda>(pt2, mem).
     bind_rc (RDMA_mmap_owned os (ucast (opt_edgewindow vm * d) * opt_threads vm * ucast (buffers b)) (opt_HP vm) thp mem) (\<lambda>(win, mem).
     let (fA, mem) = Bitmap_map os n (opt_hp vm) thp mem;
         (fB, mem) = Bitmap_map os n (opt_hp vm) thp mem
     in Inr (\<lparr> cm_index = pt, cm_props = pt2, cm_window = win, cm_frontierA = fA, cm_frontierB = fB \<rparr>, mem))))"

text \<open>The members are destroyed in reverse order.\<close>

definition Generic_ctx_unmap :: "mem_os \<Rightarrow> ctx_memory \<Rightarrow> memory \<Rightarrow> memory" where
  "Generic_ctx_unmap os c mem =
     mmap_deleter (cm_index c) (mmap_deleter (cm_props c) (RDMA_mmap_deleter os (cm_window c)
       (Bitmap_unmap (cm_frontierA c) (Bitmap_unmap (cm_frontierB c) mem))))"

subsection \<open>What the operating system promises\<close>

text \<open>
  A mapping is never at address null and, if it succeeds, at an address that no other mapping has; a
  request for no bytes fails; nothing can be registered at the address that reports a failure.
\<close>

definition fresh_in :: "u64 \<Rightarrow> memory \<Rightarrow> bool" where
  "fresh_in p mem \<longleftrightarrow> p \<notin> map_addr ` set (mappings mem) \<and> p \<notin> fst ` set (regions mem)"

definition mem_os_ok :: "mem_os \<Rightarrow> bool" where
  "mem_os_ok os \<longleftrightarrow>
     (\<forall>mem len hp. mm_mmap os mem len hp \<noteq> 0) \<and>
     (\<forall>mem len hp. mm_mmap os mem len hp \<noteq> MAP_FAILED \<longrightarrow> fresh_in (mm_mmap os mem len hp) mem) \<and>
     (\<forall>mem hp. mm_mmap os mem 0 hp = MAP_FAILED) \<and>
     (\<forall>len hp. \<not> mm_reg_mr os MAP_FAILED len hp)"

text \<open>Where mappings are not made of huge pages, advice for a valid address is accepted.\<close>

definition accepts_advice :: "mem_os \<Rightarrow> bool" where
  "accepts_advice os \<longleftrightarrow> (\<forall>p len a. p \<noteq> MAP_FAILED \<longrightarrow> mm_madvise os p len a)"

text \<open>\<open>align_up\<close> does not round down.\<close>

definition rounds_up :: "mem_os \<Rightarrow> bool" where
  "rounds_up os \<longleftrightarrow> (\<forall>n. unat n + unat HP_align \<le> 2 ^ 64 \<longrightarrow> n \<le> mm_align_up os n HP_align)"

subsection \<open>Owning a mapping\<close>

text \<open>\<open>p\<close> owns the mapping that was added to \<open>mem\<close>, or none if the mapping failed.\<close>

definition owns :: "owned \<Rightarrow> memory \<Rightarrow> memory \<Rightarrow> bool" where
  "owns p mem mem' \<longleftrightarrow>
     own_ptr p = MAP_FAILED \<and> mappings mem' = mappings mem \<or>
     own_ptr p \<noteq> MAP_FAILED \<and> fresh_in (own_ptr p) mem \<and>
       (\<exists>h a. mappings mem' = \<lparr> map_addr = own_ptr p, map_len = own_size p, map_hugetlb = h, map_advice = a \<rparr> # mappings mem)"

definition valid_addrs :: "memory \<Rightarrow> bool" where
  "valid_addrs mem \<longleftrightarrow> MAP_FAILED \<notin> map_addr ` set (mappings mem)"

lemma owns_valid: "owns p mem mem' \<Longrightarrow> valid_addrs mem \<Longrightarrow> valid_addrs mem'"
  by (auto simp: owns_def valid_addrs_def)

lemma owns_munmap:
  assumes "owns p mem mem'" "valid_addrs mem"
  shows "mappings (munmap (own_ptr p) (own_size p) mem') = mappings mem"
proof -
  have "filter (\<lambda>m. \<not> (map_addr m = own_ptr p \<and> map_len m = own_size p)) (mappings mem) = mappings mem"
  proof (rule filter_True)
    have "own_ptr p \<notin> map_addr ` set (mappings mem)" using assms by (auto simp: owns_def valid_addrs_def fresh_in_def)
    then show "\<forall>m \<in> set (mappings mem). \<not> (map_addr m = own_ptr p \<and> map_len m = own_size p)" by (metis imageI)
  qed
  then show ?thesis using assms(1) by (auto simp: owns_def munmap_def)
qed

lemma munmap_regions [simp]: "regions (munmap p len mem) = regions mem"
  by (simp add: munmap_def)

lemma munmap_with_regions: "munmap p len (mem\<lparr> regions := r \<rparr>) = (munmap p len mem)\<lparr> regions := r \<rparr>"
  by (simp add: munmap_def)

lemma munmap_cong: "mappings mem = mappings mem' \<Longrightarrow> mappings (munmap p len mem) = mappings (munmap p len mem')"
  by (simp add: munmap_def)

lemma madvise_head:
  assumes "p \<notin> map_addr ` set ms" "mappings mem = m # ms" "map_addr m = p"
  shows "mappings (snd (madvise os p len a mem)) = (if mm_madvise os p len a then m\<lparr> map_advice := Some a \<rparr> else m) # ms"
proof -
  have "map (\<lambda>m. if map_addr m = p then m\<lparr> map_advice := Some a \<rparr> else m) ms = ms"
    using assms(1) by (intro map_idI) auto
  then show ?thesis using assms(2,3) by (simp add: madvise_def)
qed

lemma madvise_none:
  assumes "p \<notin> map_addr ` set (mappings mem)"
  shows "mappings (snd (madvise os p len a mem)) = mappings mem"
proof -
  have "map (\<lambda>m. if map_addr m = p then m\<lparr> map_advice := Some a \<rparr> else m) (mappings mem) = mappings mem"
    using assms by (intro map_idI) auto
  then show ?thesis by (simp add: madvise_def)
qed

lemma madvise_regions [simp]: "regions (snd (madvise os p len a mem)) = regions mem"
  by (simp add: madvise_def)

text \<open>A mapping and the advice for it, whatever function gives the advice.\<close>

definition thp_advice :: "u32 \<Rightarrow> FAM_THP_FLAG \<Rightarrow> advice" where
  "thp_advice u f = (if u AND thp_bits f \<noteq> 0 then MADV_HUGEPAGE else MADV_NOHUGEPAGE)"

lemma advice_functions:
  "advice_edge_thp os p len u mem = snd (madvise os p len (thp_advice u THP_EDGE_ARRAY) mem)"
  "advice_vertex_thp os p len u mem = snd (madvise os p len (thp_advice u THP_VERTEX_ARRAY) mem)"
  "advice_prop_thp os p len u mem = snd (madvise os p len (thp_advice u THP_PROPERTY_ARRAY) mem)"
  "huge_page_select os p len u f mem = madvise os p len (thp_advice u f) mem"
  by (simp_all add: advice_edge_thp_def advice_vertex_thp_def advice_prop_thp_def huge_page_select_def thp_advice_def)

definition map_advised :: "mem_os \<Rightarrow> u64 \<Rightarrow> bool \<Rightarrow> advice \<Rightarrow> memory \<Rightarrow> owned \<times> memory" where
  "map_advised os len hp a mem =
     (let (p, mem) = mmap os len hp mem in (\<lparr> own_ptr = p, own_size = len \<rparr>, snd (madvise os p len a mem)))"

lemma map_advised_effect:
  assumes "mem_os_ok os" "valid_addrs mem" "map_advised os len hp a mem = (p, mem')"
  shows "owns p mem mem'" "regions mem' = regions mem" "own_size p = len" "own_ptr p \<noteq> 0" "len = 0 \<Longrightarrow> own_ptr p = MAP_FAILED"
    and "own_ptr p \<noteq> MAP_FAILED \<Longrightarrow> mappings mem' = \<lparr> map_addr = own_ptr p, map_len = len, map_hugetlb = hp,
           map_advice = (if mm_madvise os (own_ptr p) len a then Some a else None) \<rparr> # mappings mem"
proof -
  let ?p = "mm_mmap os mem len hp"
  have p: "own_ptr p = ?p" "own_size p = len" and m: "mem' = snd (madvise os ?p len a (snd (mmap os len hp mem)))"
    using assms(3) by (auto simp: map_advised_def mmap_def Let_def)
  show "own_size p = len" "own_ptr p \<noteq> 0" "len = 0 \<Longrightarrow> own_ptr p = MAP_FAILED"
    using assms(1) p by (auto simp: mem_os_ok_def)
  show "regions mem' = regions mem" using m by (simp add: mmap_def Let_def)
  show eq: "mappings mem' = \<lparr> map_addr = own_ptr p, map_len = len, map_hugetlb = hp,
      map_advice = (if mm_madvise os (own_ptr p) len a then Some a else None) \<rparr> # mappings mem" if nf: "own_ptr p \<noteq> MAP_FAILED"
  proof -
    have "fresh_in ?p mem" using assms(1) nf p by (auto simp: mem_os_ok_def)
    then show ?thesis
      using m p nf madvise_head [of ?p "mappings mem" "snd (mmap os len hp mem)" _ os len a]
      by (simp add: fresh_in_def mmap_def Let_def)
  qed
  have "fresh_in ?p mem" if "own_ptr p \<noteq> MAP_FAILED" using assms(1) that p by (auto simp: mem_os_ok_def)
  moreover have "mappings mem' = mappings mem" if "own_ptr p = MAP_FAILED"
    using m p that assms(2) madvise_none [of MAP_FAILED mem os len a] by (simp add: mmap_def Let_def valid_addrs_def)
  ultimately show "owns p mem mem'" using eq p by (auto simp: owns_def)
qed

text \<open>The helpers in terms of it.\<close>

definition aligned :: "mem_os \<Rightarrow> bool \<Rightarrow> u64 \<Rightarrow> u64" where
  "aligned os hp n = (if hp then mm_align_up os n HP_align else n)"

lemma mmap_unique_eq:
  "mmap_unique os sz n hp u mem =
     (let (p, mem) = map_advised os (aligned os hp (sz * n)) hp (thp_advice u THP_VERTEX_ARRAY) mem
      in if own_ptr p = 0 then Inl (Throw ''std::bad_alloc'')
         else if own_ptr p = MAP_FAILED \<and> 0 < n then Inl Memory_fault else Inr (p, mem))"
  unfolding mmap_unique_def aligned_def [symmetric] Let_def advice_functions map_advised_def
  by (cases "mmap os (aligned os hp (sz * n)) hp mem") simp

lemma RDMA_mmap_owned_eq:
  "RDMA_mmap_owned os n hp u mem =
     (let (p, mem) = map_advised os (aligned os hp (4 * n)) hp (thp_advice u THP_EDGE_ARRAY) mem
      in if own_ptr p = 0 then Inl (Throw ''std::bad_alloc'')
         else if \<not> mm_reg_mr os (own_ptr p) (own_size p) hp then Inl (Throw ''ibv_reg_mr failed'')
         else Inr (p, mem\<lparr> regions := (own_ptr p, own_size p) # regions mem \<rparr>))"
  unfolding RDMA_mmap_owned_def aligned_def [symmetric] Let_def advice_functions map_advised_def
  by (cases "mmap os (aligned os hp (4 * n)) hp mem") simp

lemma Bitmap_map_eq:
  "Bitmap_map os n hp u mem = map_advised os (aligned os hp (ucast n)) hp (thp_advice u THP_PROPERTY_ARRAY) mem"
  unfolding Bitmap_map_def aligned_def [symmetric] Let_def advice_functions map_advised_def
  by (cases "mmap os (aligned os hp (ucast n)) hp mem") simp


lemma mmap_unique_Inr:
  assumes "mmap_unique os sz n hp u mem = Inr (p, mem')"
  shows "map_advised os (aligned os hp (sz * n)) hp (thp_advice u THP_VERTEX_ARRAY) mem = (p, mem')" "0 < n \<Longrightarrow> own_ptr p \<noteq> MAP_FAILED"
  using assms unfolding mmap_unique_eq by (auto simp: Let_def split: prod.splits if_splits)

lemma RDMA_mmap_owned_Inr:
  assumes "RDMA_mmap_owned os n hp u mem = Inr (p, mem')" "mem_os_ok os"
  obtains mem1 where "map_advised os (aligned os hp (4 * n)) hp (thp_advice u THP_EDGE_ARRAY) mem = (p, mem1)"
    "mem' = mem1\<lparr> regions := (own_ptr p, own_size p) # regions mem1 \<rparr>" "own_ptr p \<noteq> MAP_FAILED"
proof -
  obtain q mem1 where q: "map_advised os (aligned os hp (4 * n)) hp (thp_advice u THP_EDGE_ARRAY) mem = (q, mem1)"
    by fastforce
  then have "q = p" "mem' = mem1\<lparr> regions := (own_ptr p, own_size p) # regions mem1 \<rparr>" "mm_reg_mr os (own_ptr p) (own_size p) hp"
    using assms(1) unfolding RDMA_mmap_owned_eq by (auto simp: Let_def split: if_splits)
  moreover from this(3) have "own_ptr p \<noteq> MAP_FAILED" using assms(2) by (auto simp: mem_os_ok_def)
  ultimately show thesis using that q by blast
qed

text \<open>The five steps of the constructor, with the memory between them.\<close>

definition ctx_steps ::
    "mem_os \<Rightarrow> program_options \<Rightarrow> u32 \<Rightarrow> u64 \<Rightarrow> u32 \<Rightarrow> u32 \<Rightarrow> Buffering \<Rightarrow> ctx_memory \<Rightarrow>
       memory \<Rightarrow> memory \<Rightarrow> memory \<Rightarrow> memory \<Rightarrow> memory \<Rightarrow> memory \<Rightarrow> bool" where
  "ctx_steps os vm thp vsize n d b c mem m1 m2 m3 m4 mem' \<longleftrightarrow>
     map_advised os (aligned os (opt_hp vm) (8 * ucast n)) (opt_hp vm) (thp_advice thp THP_VERTEX_ARRAY) mem = (cm_index c, m1) \<and>
     map_advised os (aligned os (opt_hp vm) (vsize * ucast n)) (opt_hp vm) (thp_advice thp THP_VERTEX_ARRAY) m1 = (cm_props c, m2) \<and>
     map_advised os (aligned os (opt_HP vm) (4 * (ucast (opt_edgewindow vm * d) * opt_threads vm * ucast (buffers b)))) (opt_HP vm)
       (thp_advice thp THP_EDGE_ARRAY) m2 = (cm_window c, m3) \<and>
     map_advised os (aligned os (opt_hp vm) (ucast n)) (opt_hp vm) (thp_advice thp THP_PROPERTY_ARRAY)
       (m3\<lparr> regions := (own_ptr (cm_window c), own_size (cm_window c)) # regions m3 \<rparr>) = (cm_frontierA c, m4) \<and>
     map_advised os (aligned os (opt_hp vm) (ucast n)) (opt_hp vm) (thp_advice thp THP_PROPERTY_ARRAY) m4 = (cm_frontierB c, mem')"

lemma ctx_stepsD:
  assumes "ctx_steps os vm thp vsize n d b c mem m1 m2 m3 m4 mem'"
  shows "map_advised os (aligned os (opt_hp vm) (8 * ucast n)) (opt_hp vm) (thp_advice thp THP_VERTEX_ARRAY) mem = (cm_index c, m1)"
    and "map_advised os (aligned os (opt_hp vm) (vsize * ucast n)) (opt_hp vm) (thp_advice thp THP_VERTEX_ARRAY) m1 = (cm_props c, m2)"
    and "map_advised os (aligned os (opt_HP vm) (4 * (ucast (opt_edgewindow vm * d) * opt_threads vm * ucast (buffers b)))) (opt_HP vm)
       (thp_advice thp THP_EDGE_ARRAY) m2 = (cm_window c, m3)"
    and "map_advised os (aligned os (opt_hp vm) (ucast n)) (opt_hp vm) (thp_advice thp THP_PROPERTY_ARRAY)
       (m3\<lparr> regions := (own_ptr (cm_window c), own_size (cm_window c)) # regions m3 \<rparr>) = (cm_frontierA c, m4)"
    and "map_advised os (aligned os (opt_hp vm) (ucast n)) (opt_hp vm) (thp_advice thp THP_PROPERTY_ARRAY) m4 = (cm_frontierB c, mem')"
  using assms unfolding ctx_steps_def by blast+

lemma Generic_ctx_map_steps:
  assumes "Generic_ctx_map os vm thp vsize n d b mem = Inr (c, mem')" "mem_os_ok os" "valid_addrs mem"
  obtains m1 m2 m3 m4 where "ctx_steps os vm thp vsize n d b c mem m1 m2 m3 m4 mem'"
    "valid_addrs m1" "valid_addrs m2" "valid_addrs m3" "valid_addrs m4" "own_ptr (cm_window c) \<noteq> MAP_FAILED"
    "0 < n \<Longrightarrow> own_ptr (cm_index c) \<noteq> MAP_FAILED" "0 < n \<Longrightarrow> own_ptr (cm_props c) \<noteq> MAP_FAILED"
proof -
  let ?w = "ucast (opt_edgewindow vm * d) * opt_threads vm * ucast (buffers b) :: u64"
  obtain p1 m1 p2 m2 p3 m3' where
    q: "mmap_unique os 8 (ucast n) (opt_hp vm) thp mem = Inr (p1, m1)"
      "mmap_unique os vsize (ucast n) (opt_hp vm) thp m1 = Inr (p2, m2)"
      "RDMA_mmap_owned os ?w (opt_HP vm) thp m2 = Inr (p3, m3')"
      "(let (fA, mem) = Bitmap_map os n (opt_hp vm) thp m3'; (fB, mem) = Bitmap_map os n (opt_hp vm) thp mem
        in Inr (\<lparr> cm_index = p1, cm_props = p2, cm_window = p3, cm_frontierA = fA, cm_frontierB = fB \<rparr>, mem)) =
       (Inr (c, mem') :: rc_error + (ctx_memory \<times> memory))"
    using assms(1) unfolding Generic_ctx_map_def by (auto simp only: bind_rc_Inr split_paired_Ex prod.case)
  obtain fA m4 fB m5 where f: "Bitmap_map os n (opt_hp vm) thp m3' = (fA, m4)" "Bitmap_map os n (opt_hp vm) thp m4 = (fB, m5)"
    by (metis surj_pair)
  have "c = \<lparr> cm_index = p1, cm_props = p2, cm_window = p3, cm_frontierA = fA, cm_frontierB = fB \<rparr>" "m5 = mem'"
    using q(4) f by auto
  with q(1-3) f have
    s: "mmap_unique os 8 (ucast n) (opt_hp vm) thp mem = Inr (cm_index c, m1)"
      "mmap_unique os vsize (ucast n) (opt_hp vm) thp m1 = Inr (cm_props c, m2)"
      "RDMA_mmap_owned os ?w (opt_HP vm) thp m2 = Inr (cm_window c, m3')"
      "Bitmap_map os n (opt_hp vm) thp m3' = (cm_frontierA c, m4)"
      "Bitmap_map os n (opt_hp vm) thp m4 = (cm_frontierB c, mem')"
    by simp_all
  obtain m3 where w: "map_advised os (aligned os (opt_HP vm) (4 * ?w)) (opt_HP vm) (thp_advice thp THP_EDGE_ARRAY) m2 = (cm_window c, m3)"
      "m3' = m3\<lparr> regions := (own_ptr (cm_window c), own_size (cm_window c)) # regions m3 \<rparr>" "own_ptr (cm_window c) \<noteq> MAP_FAILED"
    by (rule RDMA_mmap_owned_Inr [OF s(3) assms(2)])
  note a = mmap_unique_Inr(1) [OF s(1)] mmap_unique_Inr(1) [OF s(2)] w(1) s(4) [unfolded Bitmap_map_eq w(2)] s(5) [unfolded Bitmap_map_eq]
  have v1: "valid_addrs m1" by (rule owns_valid [OF map_advised_effect(1) [OF assms(2,3) a(1)] assms(3)])
  have v2: "valid_addrs m2" by (rule owns_valid [OF map_advised_effect(1) [OF assms(2) v1 a(2)] v1])
  have v3: "valid_addrs m3" by (rule owns_valid [OF map_advised_effect(1) [OF assms(2) v2 a(3)] v2])
  have v3': "valid_addrs (m3\<lparr> regions := r \<rparr>)" for r using v3 by (simp add: valid_addrs_def)
  have v4: "valid_addrs m4" by (rule owns_valid [OF map_advised_effect(1) [OF assms(2) v3' a(4)] v3'])
  have "0 < (ucast n :: u64)" if "0 < n"
    using that by (simp add: word_less_nat_alt unsigned_ucast_eq take_bit_nat_eq_self unat_u32_lt less_trans [OF unat_u32_lt])
  then show thesis
    using that [unfolded ctx_steps_def, OF _ v1 v2 v3 v4 w(3)] a mmap_unique_Inr(2) [OF s(1)] mmap_unique_Inr(2) [OF s(2)] by blast
qed

text \<open>Giving back what is owned undoes one step.\<close>

lemma unmap_step:
  assumes "mem_os_ok os" "valid_addrs mem" "map_advised os len hp a mem = (p, mem')"
  shows "munmap (own_ptr p) (own_size p) mem' = mem"
  using owns_munmap [OF map_advised_effect(1) [OF assms] assms(2)] map_advised_effect(2) [OF assms]
  by (intro memory.equality) simp_all

lemma Generic_ctx_sizes:
  assumes "Generic_ctx_map os vm thp vsize n d b mem = Inr (c, mem')" "mem_os_ok os" "valid_addrs mem"
  shows "own_size (cm_index c) = aligned os (opt_hp vm) (8 * ucast n)" "own_size (cm_props c) = aligned os (opt_hp vm) (vsize * ucast n)"
    "own_size (cm_window c) = aligned os (opt_HP vm) (4 * (ucast (opt_edgewindow vm * d) * opt_threads vm * ucast (buffers b)))"
    "own_size (cm_frontierA c) = aligned os (opt_hp vm) (ucast n)" "own_size (cm_frontierB c) = aligned os (opt_hp vm) (ucast n)"
proof -
  obtain m1 m2 m3 m4 where st: "ctx_steps os vm thp vsize n d b c mem m1 m2 m3 m4 mem'"
    and v: "valid_addrs m1" "valid_addrs m2" "valid_addrs m3" "valid_addrs m4"
    by (rule Generic_ctx_map_steps [OF assms])
  have v3: "valid_addrs (m3\<lparr> regions := r \<rparr>)" for r using v(3) by (simp add: valid_addrs_def)
  note a = ctx_stepsD [OF st]
  show "own_size (cm_index c) = aligned os (opt_hp vm) (8 * ucast n)" by (rule map_advised_effect(3) [OF assms(2,3) a(1)])
  show "own_size (cm_props c) = aligned os (opt_hp vm) (vsize * ucast n)" by (rule map_advised_effect(3) [OF assms(2) v(1) a(2)])
  show "own_size (cm_window c) = aligned os (opt_HP vm) (4 * (ucast (opt_edgewindow vm * d) * opt_threads vm * ucast (buffers b)))"
    by (rule map_advised_effect(3) [OF assms(2) v(2) a(3)])
  show "own_size (cm_frontierA c) = aligned os (opt_hp vm) (ucast n)" by (rule map_advised_effect(3) [OF assms(2) v3 a(4)])
  show "own_size (cm_frontierB c) = aligned os (opt_hp vm) (ucast n)" by (rule map_advised_effect(3) [OF assms(2) v(4) a(5)])
qed

text \<open>A mapping of \<open>len\<close> bytes at the address that \<open>p\<close> owns; it stays when others are added.\<close>

definition mapped_for :: "memory \<Rightarrow> owned \<Rightarrow> u64 \<Rightarrow> bool" where
  "mapped_for mem p len \<longleftrightarrow> (\<exists>m \<in> set (mappings mem). map_addr m = own_ptr p \<and> map_len m = len)"

lemma map_advised_keeps:
  assumes "mem_os_ok os" "valid_addrs mem" "map_advised os len hp a mem = (p, mem')"
  shows "own_ptr p \<noteq> MAP_FAILED \<Longrightarrow> mapped_for mem' p len" "mapped_for mem q k \<Longrightarrow> mapped_for mem' q k"
proof -
  show "mapped_for mem' p len" if "own_ptr p \<noteq> MAP_FAILED"
    using map_advised_effect(6) [OF assms that] by (simp add: mapped_for_def)
  show "mapped_for mem' q k" if "mapped_for mem q k"
    using that map_advised_effect(1) [OF assms] by (auto simp: mapped_for_def owns_def)
qed

lemma Generic_ctx_mapped:
  assumes "Generic_ctx_map os vm thp vsize n d b mem = Inr (c, mem')" "mem_os_ok os" "valid_addrs mem" "0 < n"
  shows "mapped_for mem' (cm_index c) (aligned os (opt_hp vm) (8 * ucast n))"
    "mapped_for mem' (cm_props c) (aligned os (opt_hp vm) (vsize * ucast n))"
    "mapped_for mem' (cm_window c) (aligned os (opt_HP vm) (4 * (ucast (opt_edgewindow vm * d) * opt_threads vm * ucast (buffers b))))"
    "own_ptr (cm_frontierA c) \<noteq> MAP_FAILED \<Longrightarrow> mapped_for mem' (cm_frontierA c) (aligned os (opt_hp vm) (ucast n))"
    "own_ptr (cm_frontierB c) \<noteq> MAP_FAILED \<Longrightarrow> mapped_for mem' (cm_frontierB c) (aligned os (opt_hp vm) (ucast n))"
proof -
  obtain m1 m2 m3 m4 where st: "ctx_steps os vm thp vsize n d b c mem m1 m2 m3 m4 mem'"
    and v: "valid_addrs m1" "valid_addrs m2" "valid_addrs m3" "valid_addrs m4"
    and nf: "own_ptr (cm_window c) \<noteq> MAP_FAILED" "own_ptr (cm_index c) \<noteq> MAP_FAILED" "own_ptr (cm_props c) \<noteq> MAP_FAILED"
    using Generic_ctx_map_steps [OF assms(1-3)] assms(4) by metis
  note a = ctx_stepsD [OF st]
  have v3: "valid_addrs (m3\<lparr> regions := r \<rparr>)" "mapped_for (m3\<lparr> regions := r \<rparr>) q k \<longleftrightarrow> mapped_for m3 q k" for r q k
    using v(3) by (simp_all add: valid_addrs_def mapped_for_def)
  note k1 = map_advised_keeps [OF assms(2,3) a(1)] and k2 = map_advised_keeps [OF assms(2) v(1) a(2)]
    and k3 = map_advised_keeps [OF assms(2) v(2) a(3)] and k4 = map_advised_keeps [OF assms(2) v3(1) a(4), unfolded v3(2)]
    and k5 = map_advised_keeps [OF assms(2) v(4) a(5)]
  show "mapped_for mem' (cm_index c) (aligned os (opt_hp vm) (8 * ucast n))"
    by (intro k5(2) k4(2) k3(2) k2(2) k1(1) nf)
  show "mapped_for mem' (cm_props c) (aligned os (opt_hp vm) (vsize * ucast n))"
    by (intro k5(2) k4(2) k3(2) k2(1) nf)
  show "mapped_for mem' (cm_window c) (aligned os (opt_HP vm) (4 * (ucast (opt_edgewindow vm * d) * opt_threads vm * ucast (buffers b))))"
    by (intro k5(2) k4(2) k3(1) nf)
  show "mapped_for mem' (cm_frontierA c) (aligned os (opt_hp vm) (ucast n))" if "own_ptr (cm_frontierA c) \<noteq> MAP_FAILED"
    by (intro k5(2) k4(1) that)
  show "mapped_for mem' (cm_frontierB c) (aligned os (opt_hp vm) (ucast n))" if "own_ptr (cm_frontierB c) \<noteq> MAP_FAILED"
    by (intro k5(1) that)
qed

subsection \<open>The estimate of memusage.cpp\<close>

fun memusage_degree_loop :: "nat \<Rightarrow> u64 \<Rightarrow> u64 \<Rightarrow> u8 list \<Rightarrow> tool_error + u64" where
  "memusage_degree_loop 0 prev_off mx s = Inr mx"
| "memusage_degree_loop (Suc k) prev_off mx s =
     (case read_one 8 s of
        Inl e \<Rightarrow> Inl e
      | Inr (bs, s') \<Rightarrow> let off = le_word bs; edges = off - prev_off in memusage_degree_loop k off (max edges mx) s')"

definition memusage_max_degree :: "file_entry \<Rightarrow> tool_error + u64" where
  "memusage_max_degree p =
     (let file_size = of_nat (length (contents p)); num_vertices = (file_size :: u64) div 8
      in if \<not> opens p then Inl (Caught ''Couldn't open .idx file'')
         else memusage_degree_loop (unat num_vertices) 0 0 (contents p))"

record memusage_options =
  mu_threads :: u64
  mu_vertsize :: u64
  mu_edgewindow :: u64

text \<open>\<open>main\<close>: the numbers of vertices and edges that it logs, and the total in bytes.\<close>

definition memusage_main :: "file_system \<Rightarrow> memusage_options \<Rightarrow> string \<Rightarrow> tool_error + (u64 \<times> u64 \<times> u64)" where
  "memusage_main fs vm file =
     (case fs file of
        None \<Rightarrow> Inl (Caught ''Input file not found'')
      | Some f \<Rightarrow>
          if \<not> regular f then Inl (Caught ''Input file not found'')
          else
            let verts = num_elements 8 f in
            (case memusage_max_degree f of
               Inl e \<Rightarrow> Inl e
             | Inr mx \<Rightarrow>
                 Inr (verts, mx, (8 + mu_vertsize vm) * verts + 4 * mx * mu_threads vm * mu_edgewindow vm)))"


lemma memusage_loop_written:
  "memusage_degree_loop (length ixs) prev mx (concat (map (le_bytes 8) ixs) @ s) =
     Inr (fold (\<lambda>d m. max m d) (map2 (-) ixs (prev # butlast ixs)) mx)"
proof (induction ixs arbitrary: prev mx)
  case (Cons x ixs)
  have "map2 (-) (x # ixs) (prev # butlast (x # ixs)) = (x - prev) # map2 (-) ixs (x # butlast ixs)"
    by (cases ixs) simp_all
  then show ?case using Cons.IH [of x "max (x - prev) mx"] by (simp add: max.commute)
qed simp

lemma memusage_of_index:
  assumes "csr_ok (map vertex.make ixs) n m" "hd ixs = 0" "0 < unat n"
    and "fs file = Some \<lparr> regular = True, opens = True, contents = concat (map (le_bytes 8) ixs) \<rparr>"
  obtains d where "memusage_main fs vm file =
      Inr (ucast n, d, (8 + mu_vertsize vm) * ucast n + 4 * d * mu_threads vm * mu_edgewindow vm)"
    "unat (get_max_out_degree (map vertex.make ixs) n m) = max (unat d) (deg (map vertex.make ixs) m (unat n - 1))"
proof -
  let ?D = "deg (map vertex.make ixs) m"
  have n: "length ixs = unat n" using csr_ok_length [OF assms(1)] by simp
  have "unat (of_nat (8 * length ixs) :: u64) = 8 * length ixs"
    using n unat_u32_lt [of n] by (intro unat_of_nat_u64) simp
  then have nv: "unat ((of_nat (8 * length ixs) :: u64) div 8) = length ixs" by (simp add: unat_div_distrib)
  have un: "(of_nat (8 * length ixs) :: u64) div 8 = ucast n"
    using nv n by (intro word_unat_eq_iff [THEN iffD2]) (simp add: unsigned_ucast_eq take_bit_nat_eq_self less_trans [OF unat_u32_lt])
  let ?d = "Max (insert 0 (set (map2 (-) ixs (0 # butlast ixs))))"
  have md: "memusage_max_degree \<lparr> regular = True, opens = True, contents = concat (map (le_bytes 8) ixs) \<rparr> = Inr ?d"
    unfolding memusage_max_degree_def Let_def file_entry.select_convs length_concat_le_bytes nv
      memusage_loop_written [of ixs 0 0 "[]", unfolded append_Nil2] fold_max_Max [of "\<lambda>x. x"] image_ident
    by (rule if_not_P) simp
  have "ixs \<noteq> []" using n assms(3) by auto
  then have i: "unat ` set (map2 (-) ixs (0 # butlast ixs)) = insert 0 (?D ` {..<unat n - 1})"
    by (rule offset_differences [OF assms(1,2)])
  have "unat ?d = Max (unat ` insert 0 (set (map2 (-) ixs (0 # butlast ixs))))" by (intro unat_Max) auto
  then have d: "unat ?d = Max (insert 0 (?D ` {..<unat n - 1}))" unfolding image_insert i by (simp only: unat_0 insert_absorb2)
  have "{..<unat n} = insert (unat n - 1) {..<unat n - 1}" using assms(3) by auto
  then have "insert 0 (?D ` {..<unat n}) = insert (?D (unat n - 1)) (insert 0 (?D ` {..<unat n - 1}))"
    by (simp only: image_insert insert_commute)
  then have "unat (get_max_out_degree (map vertex.make ixs) n m) = max (unat ?d) (?D (unat n - 1))"
    using max_out_degree_deg [OF assms(1)] d by (simp add: max.commute)
  moreover have "memusage_main fs vm file = Inr (ucast n, ?d, (8 + mu_vertsize vm) * ucast n + 4 * ?d * mu_threads vm * mu_edgewindow vm)"
    using md un by (simp only: memusage_main_def assms(4) option.case Let_def num_elements_def file_entry.select_convs
      length_concat_le_bytes sum.case not_True_eq_False if_False of_nat_numeral)
  ultimately show thesis using that by blast
qed


subsection \<open>Agreement with the other views of the same functions\<close>

text \<open>
  \<open>Server\<close> models the contents of the region that \<open>RDMA_mmap_unique\<close> returns, \<open>Bitmap\<close> the length
  that the constructor keeps for its destructor; both agree with what is owned here.
\<close>

lemma RDMA_mmap_views:
  assumes "os_align_up sos = mm_align_up os" "\<And>len. os_mmap sos len = mm_mmap os mem len hp"
    and "\<And>p len. os_reg_mr sos p len \<noteq> None \<longleftrightarrow> mm_reg_mr os p len hp"
    and "RDMA_mmap_unique sos n hp = Inr r"
  shows "\<exists>p mem'. RDMA_mmap_owned os n hp u mem = Inr (p, mem') \<and> own_ptr p = r_addr r \<and> unat (own_size p) = length (r_mem r)"
proof -
  let ?len = "aligned os hp (4 * n)" and ?p = "mm_mmap os mem (aligned os hp (4 * n)) hp"
  obtain k where "?p \<noteq> 0" "os_reg_mr sos ?p ?len = Some k" "r = \<lparr> r_addr = ?p, r_rkey = k, r_mem = replicate (unat ?len) 0 \<rparr>"
    using assms(4) unfolding RDMA_mmap_unique_def assms(1,2) aligned_def [symmetric] Let_def
    by (auto split: if_splits option.splits)
  then show ?thesis using assms(3) [of ?p ?len] by (simp add: RDMA_mmap_owned_eq map_advised_def mmap_def Let_def)
qed

lemma Bitmap_map_length: "own_size (fst (Bitmap_map os n hp u mem)) = mmap_length (mk_Bitmap (mm_align_up os) n hp)"
  by (simp add: Bitmap_map_eq map_advised_def aligned_def mk_Bitmap_def mmap_def Let_def)

subsection \<open>Sizes\<close>

lemma unat_ucast_u32: "unat (ucast (n :: u32) :: u64) = unat n"
  by (simp add: unsigned_ucast_eq take_bit_nat_eq_self less_trans [OF unat_u32_lt])

lemma unat_mult_u32_ucast: "unat x * unat y < 2 ^ 32 \<Longrightarrow> unat (ucast (x * y :: u32) :: u64) = unat x * unat y"
  using unat_mult_lem [of x y] by (simp add: unat_ucast_u32)

lemma index_bytes: "unat (8 * ucast (n :: u32) :: u64) = 8 * unat n"
  using unat_mult_u64 [of 8 "ucast n"] unat_u32_lt [of n] by (simp add: unat_ucast_u32)

lemma window_bytes:
  assumes "unat ew * unat d < 2 ^ 32" "4 * (unat ew * unat d * unat th * unat bf) < 2 ^ 64" "0 < unat bf"
  shows "unat (4 * (ucast (ew * d :: u32) * th * ucast (bf :: u32)) :: u64) = 4 * (unat ew * unat d * unat th * unat bf)"
proof -
  let ?a = "unat ew * unat d * unat th"
  have "?a \<le> ?a * unat bf" using assms(3) by (cases "unat bf") auto
  then have l: "?a * unat bf < 2 ^ 64" "?a < 2 ^ 64" using assms(2) by linarith+
  have "unat (ucast (ew * d) * th) = ?a"
    using unat_mult_u64 [of "ucast (ew * d)" th] unat_mult_u32_ucast [OF assms(1)] l(2) by simp
  then have "unat (ucast (ew * d) * th * ucast bf) = ?a * unat bf"
    using unat_mult_u64 [of "ucast (ew * d) * th" "ucast bf"] l(1) by (simp add: unat_ucast_u32)
  then show ?thesis using unat_mult_u64 [of 4 "ucast (ew * d) * th * ucast bf"] assms(2) by simp
qed

definition pages :: "nat \<Rightarrow> nat" where
  "pages n = (n + 4095) div 4096 * 4096"

lemma page_holds_words: "4096 \<le> P \<Longrightarrow> x \<le> P \<Longrightarrow> 64 * q \<le> x \<Longrightarrow> 8 * (q + 1) \<le> P" for q x P :: nat
  by simp

lemma bitmap_words_fit:
  assumes "0 < unat n" "unat n \<le> k"
  shows "8 * length (data (mk_Bitmap al n hp)) \<le> pages k"
proof -
  have w: "unat (WORD_OFFSET n) = unat n div 64" by (simp add: WORD_OFFSET_def drop_bit_eq_div unat_div_distrib)
  then have "unat (WORD_OFFSET n + 1) = unat n div 64 + 1"
    using unat_u32_lt [of n] by (simp add: unat_word_ariths)
  then have "8 * length (data (mk_Bitmap al n hp)) = 8 * (unat n div 64 + 1)" by (simp add: mk_Bitmap_def)
  moreover have "4096 div 4096 \<le> (unat n + 4095) div 4096" by (rule div_le_mono) (use assms(1) in simp)
  then have "4096 \<le> pages (unat n)" by (simp add: pages_def)
  moreover have "unat n \<le> pages (unat n)" unfolding pages_def by linarith
  moreover have "64 * (unat n div 64) \<le> unat n" by simp
  moreover have "pages (unat n) \<le> pages k" using assms(2) by (simp add: pages_def div_le_mono)
  ultimately show ?thesis
    using page_holds_words [of "pages (unat n)" "unat n" "unat n div 64"] by simp
qed

lemma aligned_ge:
  "rounds_up os \<Longrightarrow> unat len + 2 ^ 21 \<le> 2 ^ 64 \<Longrightarrow> unat len \<le> unat (aligned os hp len)"
  by (auto simp: rounds_up_def aligned_def HP_align_def word_le_nat_alt push_bit_eq_mult)

subsection \<open>Properties\<close>

text \<open>A system with free addresses, and a run on a graph of three vertices with two workers.\<close>

definition demo_mem_os :: mem_os where
  "demo_mem_os = \<lparr> mm_align_up = (\<lambda>n a. if n mod a = 0 then n else n - n mod a + a),
     mm_mmap = (\<lambda>mem len hp. let p = of_nat (4096 * (1 + length (mappings mem)))
                             in if len = 0 \<or> p = 0 \<or> \<not> fresh_in p mem then MAP_FAILED else p),
     mm_madvise = (\<lambda>_ _ _. True), mm_reg_mr = (\<lambda>p len hp. p \<noteq> MAP_FAILED), mm_dereg_mr = (\<lambda>p len. True) \<rparr>"

definition demo_mem_options :: program_options where
  "demo_mem_options = \<lparr> opt_threads = 2, opt_edgewindow = 1, opt_hp = False, opt_HP = False,
     opt_start_vertex = 0, opt_kcore_k = 2, opt_delta = 1 \<rparr>"

definition no_memory :: memory where
  "no_memory = \<lparr> mappings = [], regions = [] \<rparr>"

lemma demo_mem_os_ok: "mem_os_ok demo_mem_os" "valid_addrs no_memory"
  by (auto simp: mem_os_ok_def demo_mem_os_def Let_def MAP_FAILED_def valid_addrs_def no_memory_def)

lemma demo_context:
  "\<exists>c mem'. Generic_ctx_map demo_mem_os demo_mem_options 4 4 3 2 SINGLE no_memory = Inr (c, mem') \<and>
     own_ptr (cm_frontierA c) \<noteq> MAP_FAILED \<and> own_ptr (cm_frontierB c) \<noteq> MAP_FAILED \<and>
     map map_len (mappings mem') = [3, 3, 16, 12, 24] \<and>
     map map_advice (mappings mem') =
       map Some [MADV_NOHUGEPAGE, MADV_NOHUGEPAGE, MADV_HUGEPAGE, MADV_NOHUGEPAGE, MADV_NOHUGEPAGE]"
  by (simp add: Generic_ctx_map_def mmap_unique_def RDMA_mmap_owned_def Bitmap_map_def mmap_def demo_mem_os_def
    demo_mem_options_def no_memory_def fresh_in_def MAP_FAILED_def advice_functions madvise_def thp_advice_def Let_def)

text \<open>
  C21. What a context gives back. Whatever the options and whichever of its mappings of frontiers
  failed, destroying a constructed context leaves the mappings of the process as they were before the
  construction: every length that a deleter unmaps is the length that was mapped. The registered
  regions are as before too, unless \<open>ibv_dereg_mr\<close> fails: then exactly the edge buffers stay registered,
  although their memory is unmapped.
\<close>

theorem context_memory_released:
  assumes "mem_os_ok os" "valid_addrs mem" "Generic_ctx_map os vm thp vsize n d b mem = Inr (c, mem')"
  shows "Generic_ctx_unmap os c mem' =
    (let w = (own_ptr (cm_window c), own_size (cm_window c))
     in if mm_dereg_mr os (fst w) (snd w) then mem else mem\<lparr> regions := w # regions mem \<rparr>)"
proof -
  obtain m1 m2 m3 m4 where st: "ctx_steps os vm thp vsize n d b c mem m1 m2 m3 m4 mem'"
    and v: "valid_addrs m1" "valid_addrs m2" "valid_addrs m3" "valid_addrs m4" and w: "own_ptr (cm_window c) \<noteq> MAP_FAILED"
    by (rule Generic_ctx_map_steps [OF assms(3,1,2)])
  note a = ctx_stepsD [OF st]
  let ?w = "(own_ptr (cm_window c), own_size (cm_window c))"
  have v3: "valid_addrs (m3\<lparr> regions := r \<rparr>)" for r using v(3) by (simp add: valid_addrs_def)
  have "fresh_in (own_ptr (cm_window c)) m2" using map_advised_effect(1) [OF assms(1) v(2) a(3)] w by (simp add: owns_def)
  then have "own_ptr (cm_window c) \<notin> fst ` set (regions m3)"
    using map_advised_effect(2) [OF assms(1) v(2) a(3)] by (simp add: fresh_in_def)
  then have "filter (\<lambda>r. fst r \<noteq> own_ptr (cm_window c)) (regions m3) = regions m3"
    by (intro filter_True) (metis imageI)
  moreover have r: "regions m3 = regions m2" "regions m2 = regions m1" "regions m1 = regions mem"
    using map_advised_effect(2) [OF assms(1) v(2) a(3)] map_advised_effect(2) [OF assms(1) v(1) a(2)] map_advised_effect(2) [OF assms(1,2) a(1)] by simp_all
  ultimately have "RDMA_mmap_deleter os (cm_window c) (m3\<lparr> regions := ?w # regions m3 \<rparr>) =
      (if mm_dereg_mr os (fst ?w) (snd ?w) then m2 else m2\<lparr> regions := ?w # regions m2 \<rparr>)"
    using unmap_step [OF assms(1) v(2) a(3)]
    by (simp add: RDMA_mmap_deleter_def munmap_with_regions)
  then show ?thesis
    using r by (simp add: Generic_ctx_unmap_def Bitmap_unmap_def mmap_deleter_def unmap_step [OF assms(1) v(4) a(5)] munmap_with_regions
      unmap_step [OF assms(1) v3 a(4)] unmap_step [OF assms(1) v(1) a(2)] unmap_step [OF assms(1,2) a(1)])
qed

theorem context_memory_released_witness:
  "\<exists>c mem'. Generic_ctx_map demo_mem_os demo_mem_options 4 4 3 2 SINGLE no_memory = Inr (c, mem') \<and>
     length (mappings mem') = 5 \<and> Generic_ctx_unmap demo_mem_os c mem' = no_memory"
proof -
  obtain c mem' where c: "Generic_ctx_map demo_mem_os demo_mem_options 4 4 3 2 SINGLE no_memory = Inr (c, mem')"
      "map map_len (mappings mem') = [3, 3, 16, 12, 24]"
    using demo_context by metis
  from c(2) have "length (mappings mem') = 5" by (drule_tac arg_cong [where f = length]) simp
  moreover have "mm_dereg_mr demo_mem_os p len" for p len by (simp add: demo_mem_os_def)
  ultimately show ?thesis using c(1) context_memory_released [OF demo_mem_os_ok c(1)] by (auto simp: Let_def)
qed

text \<open>
  C25. Every array of a constructed context fits into memory that the process has mapped at its
  address: the index and the vertex properties, the edge buffers of all workers, and, where the mapping of the frontier
  succeeded (the constructor does not test it), the words of both frontiers, whose mappings have one byte per
  vertex, rounded up to whole pages.
\<close>

theorem context_arrays_fit:
  assumes "mem_os_ok os" "valid_addrs mem" "rounds_up os" "Generic_ctx_map os vm thp vsize n d b mem = Inr (c, mem')"
    and "0 < n" "unat vsize < 2 ^ 31" "unat (opt_edgewindow vm) * unat d < 2 ^ 32"
    and "4 * (unat (opt_edgewindow vm) * unat d * unat (opt_threads vm) * unat (buffers b)) < 2 ^ 63"
    and "own_ptr (cm_frontierA c) \<noteq> MAP_FAILED" "own_ptr (cm_frontierB c) \<noteq> MAP_FAILED"
  shows "(\<exists>m \<in> set (mappings mem'). map_addr m = own_ptr (cm_index c) \<and> 8 * unat n \<le> unat (map_len m)) \<and>
    (\<exists>m \<in> set (mappings mem'). map_addr m = own_ptr (cm_props c) \<and> unat vsize * unat n \<le> unat (map_len m)) \<and>
    (\<exists>m \<in> set (mappings mem'). map_addr m = own_ptr (cm_window c) \<and>
       4 * (unat (opt_edgewindow vm) * unat d * unat (opt_threads vm) * unat (buffers b)) \<le> unat (map_len m)) \<and>
    (\<exists>m \<in> set (mappings mem'). map_addr m = own_ptr (cm_frontierA c) \<and>
       8 * length (data (mk_Bitmap (mm_align_up os) n (opt_hp vm))) \<le> pages (unat (map_len m))) \<and>
    (\<exists>m \<in> set (mappings mem'). map_addr m = own_ptr (cm_frontierB c) \<and>
       8 * length (data (mk_Bitmap (mm_align_up os) n (opt_hp vm))) \<le> pages (unat (map_len m)))"
proof -
  let ?w = "ucast (opt_edgewindow vm * d) * opt_threads vm * ucast (buffers b) :: u64"
  note s = Generic_ctx_mapped [OF assms(4,1,2,5)]
  have "unat vsize * unat n \<le> 2 ^ 31 * 2 ^ 32" using assms(6) unat_u32_lt [of n] by (intro mult_le_mono) simp_all
  then have p: "unat (vsize * ucast n) = unat vsize * unat n" "unat vsize * unat n \<le> 2 ^ 63"
    using unat_mult_u64 [of vsize "ucast n"] by (simp_all add: unat_ucast_u32)
  have "0 < unat (buffers b)" by (cases b) simp_all
  then have w: "unat (4 * ?w) = 4 * (unat (opt_edgewindow vm) * unat d * unat (opt_threads vm) * unat (buffers b))"
    by (intro window_bytes [OF assms(7) less_trans [OF assms(8)]]) simp_all
  have f: "unat n \<le> unat (aligned os (opt_hp vm) (ucast n))"
    using aligned_ge [OF assms(3), of "ucast n"] unat_u32_lt [of n] by (simp add: unat_ucast_u32)
  have "0 < unat n" using assms(5) by (simp add: word_less_nat_alt)
  then have "8 * length (data (mk_Bitmap (mm_align_up os) n (opt_hp vm))) \<le> pages (unat (aligned os (opt_hp vm) (ucast n)))"
    by (rule bitmap_words_fit [OF _ f])
  moreover have "8 * unat n \<le> unat (aligned os (opt_hp vm) (8 * ucast n))"
    using aligned_ge [OF assms(3), of "8 * ucast n"] unat_u32_lt [of n] by (simp add: index_bytes)
  moreover have "unat vsize * unat n \<le> unat (aligned os (opt_hp vm) (vsize * ucast n))"
    using aligned_ge [OF assms(3), of "vsize * ucast n"] p by simp
  moreover have "4 * (unat (opt_edgewindow vm) * unat d * unat (opt_threads vm) * unat (buffers b)) \<le> unat (aligned os (opt_HP vm) (4 * ?w))"
    using aligned_ge [OF assms(3), of "4 * ?w"] w assms(8) by simp
  ultimately show ?thesis using s(1-3) s(4) [OF assms(9)] s(5) [OF assms(10)] unfolding mapped_for_def by metis
qed


lemma demo_rounds_up: "rounds_up demo_mem_os"
proof -
  have "n \<le> n - n mod HP_align + HP_align" if n: "unat n + unat HP_align \<le> 2 ^ 64" "n mod HP_align \<noteq> 0" for n :: u64
  proof -
    have m: "n mod HP_align \<le> n" by (simp add: word_le_nat_alt unat_mod_distrib)
    have h: "unat HP_align = 2 ^ 21" by (simp add: HP_align_def push_bit_eq_mult)
    have r: "unat (n mod HP_align) < unat HP_align" using h by (simp add: unat_mod_distrib)
    have "0 < unat (n mod HP_align)" using n(2) by (simp only: unat_gt_0 not_False_eq_True)
    have "unat (n - n mod HP_align) + unat HP_align < 2 ^ 64" "unat n \<le> unat (n - n mod HP_align) + unat HP_align"
      using n(1) r \<open>0 < unat (n mod HP_align)\<close> m unfolding unat_sub_word [OF m] word_le_nat_alt by linarith+
    then show ?thesis using unat_add_u64 [of "n - n mod HP_align" HP_align] by (simp add: word_le_nat_alt)
  qed
  then show ?thesis by (simp add: rounds_up_def demo_mem_os_def)
qed

theorem context_arrays_fit_witness:
  "\<exists>c mem'. Generic_ctx_map demo_mem_os demo_mem_options 4 4 3 2 SINGLE no_memory = Inr (c, mem') \<and>
     (\<exists>m \<in> set (mappings mem'). map_addr m = own_ptr (cm_index c) \<and> 24 \<le> unat (map_len m)) \<and>
     (\<exists>m \<in> set (mappings mem'). map_addr m = own_ptr (cm_window c) \<and> 16 \<le> unat (map_len m)) \<and>
     (\<exists>m \<in> set (mappings mem'). map_addr m = own_ptr (cm_frontierA c) \<and>
        8 * length (data (mk_Bitmap (mm_align_up demo_mem_os) 3 False)) \<le> pages (unat (map_len m)))"
proof -
  obtain c mem' where c: "Generic_ctx_map demo_mem_os demo_mem_options 4 4 3 2 SINGLE no_memory = Inr (c, mem')"
      "own_ptr (cm_frontierA c) \<noteq> MAP_FAILED" "own_ptr (cm_frontierB c) \<noteq> MAP_FAILED"
    using demo_context by blast
  show ?thesis
    using context_arrays_fit [OF demo_mem_os_ok demo_rounds_up c(1) _ _ _ _ c(2,3)] c(1) by (simp add: demo_mem_options_def)
qed

definition mapped_bytes :: "memory \<Rightarrow> nat" where
  "mapped_bytes mem = sum_list (map (\<lambda>m. unat (map_len m)) (mappings mem))"

lemma map_advised_bytes:
  assumes "mem_os_ok os" "valid_addrs mem" "map_advised os len hp a mem = (p, mem')" "own_ptr p \<noteq> MAP_FAILED"
  shows "mapped_bytes mem' = mapped_bytes mem + unat len"
  using map_advised_effect(6) [OF assms] by (simp add: mapped_bytes_def)

lemma Generic_ctx_bytes:
  assumes "Generic_ctx_map os vm thp vsize n d b mem = Inr (c, mem')" "mem_os_ok os" "valid_addrs mem"
    and "0 < n" "own_ptr (cm_frontierA c) \<noteq> MAP_FAILED" "own_ptr (cm_frontierB c) \<noteq> MAP_FAILED"
  shows "mapped_bytes mem' = mapped_bytes mem + unat (own_size (cm_index c)) + unat (own_size (cm_props c)) +
    unat (own_size (cm_window c)) + unat (own_size (cm_frontierA c)) + unat (own_size (cm_frontierB c))"
proof -
  obtain m1 m2 m3 m4 where st: "ctx_steps os vm thp vsize n d b c mem m1 m2 m3 m4 mem'"
    and v: "valid_addrs m1" "valid_addrs m2" "valid_addrs m3" "valid_addrs m4"
    and nf: "own_ptr (cm_window c) \<noteq> MAP_FAILED" "own_ptr (cm_index c) \<noteq> MAP_FAILED" "own_ptr (cm_props c) \<noteq> MAP_FAILED"
    using Generic_ctx_map_steps [OF assms(1-3)] assms(4) by metis
  have v3: "valid_addrs (m3\<lparr> regions := r \<rparr>)" "mapped_bytes (m3\<lparr> regions := r \<rparr>) = mapped_bytes m3" for r
    using v(3) by (simp_all add: valid_addrs_def mapped_bytes_def)
  note a = ctx_stepsD [OF st]
  show ?thesis
    unfolding Generic_ctx_sizes [OF assms(1-3)]
    using map_advised_bytes [OF assms(2,3) a(1) nf(2)] map_advised_bytes [OF assms(2) v(1) a(2) nf(3)]
      map_advised_bytes [OF assms(2) v(2) a(3) nf(1)] map_advised_bytes [OF assms(2) v3(1) a(4) assms(5)]
      map_advised_bytes [OF assms(2) v(4) a(5) assms(6)] v3(2) by simp
qed

text \<open>
  C28. How far the estimate of \<open>memusage\<close> is from the memory of a client. For the index of a graph, the
  size of the vertex type and the options of the run (no huge pages, a single buffer per worker), and
  where nothing wraps, the context maps the predicted bytes and two bytes per vertex for the
  frontiers, which the tool leaves out, and the share of the edge buffers that the tool misses if the
  last vertex, whose degree it does not see, has the largest out-degree.
\<close>

theorem memusage_estimate:
  assumes "mem_os_ok os" "valid_addrs mem" "csr_ok (map vertex.make ixs) n m" "hd ixs = 0" "0 < n"
    and "fs file = Some \<lparr> regular = True, opens = True, contents = concat (map (le_bytes 8) ixs) \<rparr>"
    and "d = get_max_out_degree (map vertex.make ixs) n m"
    and "Generic_ctx_map os vm thp vsize n d SINGLE mem = Inr (c, mem')" "\<not> opt_hp vm" "\<not> opt_HP vm"
    and "own_ptr (cm_frontierA c) \<noteq> MAP_FAILED" "own_ptr (cm_frontierB c) \<noteq> MAP_FAILED"
    and "mo = \<lparr> mu_threads = opt_threads vm, mu_vertsize = vsize, mu_edgewindow = ucast (opt_edgewindow vm) \<rparr>"
    and "unat (opt_edgewindow vm) * unat d < 2 ^ 32"
    and "(8 + unat vsize) * unat n + 4 * (unat (opt_edgewindow vm) * unat d * unat (opt_threads vm)) < 2 ^ 64"
  shows "\<exists>mx total. memusage_main fs mo file = Inr (ucast n, mx, total) \<and>
    unat d = max (unat mx) (deg (map vertex.make ixs) m (unat n - 1)) \<and>
    mapped_bytes mem' = mapped_bytes mem + unat total + 2 * unat n +
      4 * (unat d - unat mx) * unat (opt_threads vm) * unat (opt_edgewindow vm)"
proof -
  let ?ew = "unat (opt_edgewindow vm)" and ?th = "unat (opt_threads vm)"
  have n: "0 < unat n" using assms(5) by (simp add: word_less_nat_alt)
  obtain mx where mx: "memusage_main fs mo file = Inr (ucast n, mx, (8 + mu_vertsize mo) * ucast n + 4 * mx * mu_threads mo * mu_edgewindow mo)"
      "unat d = max (unat mx) (deg (map vertex.make ixs) m (unat n - 1))"
    unfolding assms(7) by (rule memusage_of_index [OF assms(3,4) n, of fs "file" mo, OF assms(6)])
  have le: "unat mx \<le> unat d" using mx(2) by simp
  have "4 * (?ew * unat mx * ?th) \<le> 4 * (?ew * unat d * ?th)" using le by (intro mult_le_mono) auto
  then have mb: "(8 + unat vsize) * unat n + 4 * (?ew * unat mx * ?th) < 2 ^ 64" using assms(15) by linarith
  have v: "unat (8 + vsize) = 8 + unat vsize" "unat ((8 + vsize) * ucast n) = (8 + unat vsize) * unat n"
  proof -
    have "(8 + unat vsize) * 1 \<le> (8 + unat vsize) * unat n" using n by (intro mult_le_mono) auto
    from le_less_trans [OF this add_lessD1 [OF mb]] have "8 + unat vsize < 2 ^ 64" by simp
    then show e: "unat (8 + vsize) = 8 + unat vsize" using unat_add_u64 [of 8 vsize] by simp
    show "unat ((8 + vsize) * ucast n) = (8 + unat vsize) * unat n"
      using unat_mult_u64 [of "8 + vsize" "ucast n"] e mb by (simp add: unat_ucast_u32)
  qed
  have e: "unat (4 * mx * opt_threads vm * ucast (opt_edgewindow vm)) = 4 * (?ew * unat mx * ?th)"
  proof -
    have "unat (4 * mx * opt_threads vm * ucast (opt_edgewindow vm)) = 4 * unat mx * ?th * ?ew mod 2 ^ 64"
      by (simp add: unat_word_ariths unat_ucast_u32 mod_simps)
    also have "4 * unat mx * ?th * ?ew = 4 * (?ew * unat mx * ?th)" by simp
    also have "\<dots> mod 2 ^ 64 = \<dots>" by (rule mod_less) (use add_lessD1 [OF mb [unfolded add.commute [of "(8 + unat vsize) * unat n"]]] in simp)
    finally show ?thesis .
  qed
  have "unat ((8 + vsize) * ucast n + 4 * mx * opt_threads vm * ucast (opt_edgewindow vm)) =
      (8 + unat vsize) * unat n + 4 * (?ew * unat mx * ?th)"
    using unat_add_u64 [of "(8 + vsize) * ucast n"] v(2) e mb by simp
  moreover have "unat (vsize * ucast n) = unat vsize * unat n"
    using unat_mult_u64 [of vsize "ucast n"] mb by (simp add: unat_ucast_u32 algebra_simps)
  moreover have "unat (4 * (ucast (opt_edgewindow vm * d) * opt_threads vm * ucast (buffers SINGLE)) :: u64) = 4 * (?ew * unat d * ?th * unat (buffers SINGLE))"
    using add_lessD1 [OF assms(15) [unfolded add.commute [of "(8 + unat vsize) * unat n"]]]
    by (intro window_bytes assms(14)) simp_all
  ultimately have "mapped_bytes mem' = mapped_bytes mem + unat ((8 + vsize) * ucast n + 4 * mx * opt_threads vm * ucast (opt_edgewindow vm)) +
      2 * unat n + 4 * (?ew * (unat d - unat mx) * ?th)"
    using Generic_ctx_bytes [OF assms(8,1,2,5,11,12)] le unfolding Generic_ctx_sizes [OF assms(8,1,2)]
    by (simp add: aligned_def assms(9,10) unat_ucast_u32 index_bytes index_bytes [unfolded mult.commute [of 8]] algebra_simps diff_mult_distrib2)
  then show ?thesis using mx assms(13) by (auto simp: ac_simps)
qed


theorem memusage_estimate_witness:
  "\<exists>c mem' mx total. Generic_ctx_map demo_mem_os demo_mem_options 4 4 3 2 SINGLE no_memory = Inr (c, mem') \<and>
     memusage_main (\<lambda>_. Some \<lparr> regular = True, opens = True, contents = concat (map (le_bytes 8) [0, 1, 1 :: u64]) \<rparr>)
       \<lparr> mu_threads = 2, mu_vertsize = 4, mu_edgewindow = 1 \<rparr> ''g.idx'' = Inr (3, mx, total) \<and>
     2 = max (unat mx) 2 \<and> mapped_bytes mem' = unat total + 6 + 4 * (2 - unat mx) * 2"
proof -
  let ?fs = "\<lambda>_. Some \<lparr> regular = True, opens = True, contents = concat (map (le_bytes 8) [0, 1, 1 :: u64]) \<rparr>"
  let ?mo = "\<lparr> mu_threads = 2, mu_vertsize = 4, mu_edgewindow = 1 \<rparr>"
  have d: "2 = get_max_out_degree (map vertex.make [0, 1, 1]) 3 3"
    by code_simp
  have ok: "csr_ok (map vertex.make [0, 1, 1]) 3 3"
    by (auto simp: csr_ok_def off_def deg_def vertex.make_def less_Suc_eq)
  obtain c mem' where c: "Generic_ctx_map demo_mem_os demo_mem_options 4 4 3 2 SINGLE no_memory = Inr (c, mem')"
      "own_ptr (cm_frontierA c) \<noteq> MAP_FAILED" "own_ptr (cm_frontierB c) \<noteq> MAP_FAILED"
    using demo_context by blast
  have "\<exists>mx total. memusage_main ?fs ?mo ''g.idx'' = Inr (ucast (3 :: u32), mx, total) \<and>
      unat (2 :: u32) = max (unat mx) (deg (map vertex.make [0, 1, 1]) 3 (unat (3 :: u32) - 1)) \<and>
      mapped_bytes mem' = mapped_bytes no_memory + unat total + 2 * unat (3 :: u32) +
        4 * (unat (2 :: u32) - unat mx) * unat (opt_threads demo_mem_options) * unat (opt_edgewindow demo_mem_options)"
    by (rule memusage_estimate [OF demo_mem_os_ok ok _ _ refl d c(1) _ _ c(2,3)]) (simp_all add: demo_mem_options_def)
  moreover have "deg (map vertex.make [0, 1, 1]) 3 2 = 2" by (simp add: deg_def off_def vertex.make_def)
  ultimately show ?thesis using c(1) by (auto simp: demo_mem_options_def mapped_bytes_def no_memory_def)
qed

end
