(* ===== verification/Spec2Isabelle.thy ===== *)
theory Spec2Isabelle
  imports KCore_Parallel BFS_Parallel CC_Parallel MIS_Parallel PageRank_Parallel Edgemap Graph_Tools Deployment Completion Memory
begin

text \<open>
  FAM is a graph processing system for disaggregated memory. A server process loads the edge array of
  a graph into memory it registers for RDMA; a client process keeps only the index of the vertices and
  runs graph kernels that read adjacency lists from the server with batched one-sided reads. A set of
  tools converts edge lists to the two files of a graph and inspects such files.

  \<^bold>\<open>Parts and theories\<close> (paths under \<open>src/\<close>)

  \<^item> \<open>FAM_Prelude\<close>: 32- and 64-bit words, little-endian bytes, ranges of vertices, lists updated by index.
  \<^item> \<open>Bitmap\<close>: \<open>famgraph::Bitmap\<close> of \<open>src/bitmap.hpp\<close>. The locale \<open>frontier_set\<close> is the contract of
    a frontier, interpreted as \<open>bm\<close>; lemmas show that the per-thread counters add up to the number of bits.
  \<^item> \<open>Vertex_Table\<close>: \<open>src/vertex_table.hpp\<close> and \<open>.cpp\<close>, the reader of the index file with its errors, degrees.
  \<^item> \<open>Stats\<close>: \<open>src/stats.hpp\<close>, the accumulators, their resets and the two reports as the sequence of what they log.
  \<^item> \<open>Pack_Window\<close>: \<open>prep_wr\<close> and the three packing passes of \<open>src/bitmap.hpp\<close>; the invariant \<open>packed\<close>.
  \<^item> \<open>Edge_Iterator\<close>: the three edge iterators of \<open>src/bitmap.hpp\<close> with the card (\<open>nic\<close>), the schedule and the
    caches as parameters: completeness, safety of the reads, a hang on an empty buffer.
  \<^item> \<open>Edgemap\<close>: \<open>src/edgemap.hpp\<close>, an iterator that splits adjacency lists over batches (no kernel calls it): the
    batches are the consecutive pieces of the sequence of edge slots, coalescing keeps what is read.
  \<^item> \<open>Graph_Kernel\<close>: \<open>Generic_ctx\<close> of \<open>src/graph_kernel.hpp\<close>; the locale \<open>edge_iterator\<close>, the contract between
    iterators and kernels, interpreted as \<open>ccy\<close> and \<open>rng\<close>; the rule \<open>round_rule\<close> for one round of a kernel.
  \<^item> \<open>BFS\<close>, \<open>KCore\<close>, \<open>CC\<close>, \<open>MIS\<close>, \<open>PageRank\<close>: the kernels \<open>src/bfs.hpp\<close>, \<open>kcore.hpp\<close>,
    \<open>connected_components.hpp\<close>, \<open>mis.hpp\<close>, \<open>pagerank_delta.hpp\<close>, each with its termination and functional
    correctness: distances, the largest k-core, the smallest reaching vertex, a maximal independent set, and the
    rounds of the residual recurrence over the rationals.
  \<^item> \<open>Interleaving\<close>: callbacks as programs of single accesses to the shared state, executed by the workers in any
    order. The locale \<open>interleaved\<close> gives termination of one parallel loop from an invariant and a measure, the locale
    \<open>passes\<close> that of a kernel as a sequence of such loops, and \<open>parallel_kernel\<close>, a \<open>sublocale\<close> of it, that of a kernel
    with one loop per round; \<open>exit_step\<close> adds to a step relation the exit of the whole process. \<open>BFS_Parallel\<close>, \<open>KCore_Parallel\<close>, \<open>CC_Parallel\<close> interpret the last, \<open>MIS_Parallel\<close> and
    \<open>PageRank_Parallel\<close>, with two loops per round, \<open>passes\<close>: whatever the interleaving, every execution ends and the
    result is the one of the sequential theorem (for PageRank in exact arithmetic; the independent-set kernel ends the
    process when its last loop finds the send queue full).
  \<^item> \<open>CSR_Utils\<close>: \<open>util/edge_list_to_csr.cpp\<close> and \<open>edge_list_to_decsr.cpp\<close>; round trips through the files.
  \<^item> \<open>Converter\<close>: the same tools and the older \<open>util/main.cpp\<close> as programs, from the text of the input to the files
    written and the exit status.
  \<^item> \<open>Graph_Tools\<close>: \<open>util/maxd.cpp\<close>, \<open>fg2gr.cpp\<close> (with its output file, which is truncated before the inputs are
    read), \<open>compare_gr.cpp\<close>.
  \<^item> \<open>Connection\<close>: the two connection event loops (\<open>src/connection_utils.cpp\<close>, \<open>AbstractServer.cpp\<close>); the locale
    \<open>cm_handlers\<close> is what handlers keep, for any sequence of events.
  \<^item> \<open>Server\<close>: \<open>src/FAMServer.cpp\<close> and \<open>RDMA_mmap_unique\<close>; interprets \<open>cm_handlers\<close> as \<open>fam_server\<close>.
  \<^item> \<open>Client\<close>: the handlers of \<open>src/client_runtime.cpp\<close>, the choice of cache and kernel, NUMA placement, \<open>main\<close>.
  \<^item> \<open>Completion\<close>: the threads that take completions from a queue: both copies of \<open>poll_cq\<close>,
    \<open>comm_runtime_worker2\<close> of \<open>src/communication_runtime.cpp\<close>, and the test reads of \<open>src/client_runtime.cpp\<close>.
    Lemmas show which completions the handlers see, and that none is missed although the thread sleeps in between.
  \<^item> \<open>Memory\<close>: \<open>src/mmap_util.hpp\<close>, the huge page advice of \<open>include/fam_common.hpp\<close>, the mappings of a bitmap and of
    a \<open>Generic_ctx\<close>, and \<open>util/memusage.cpp\<close>: what is mapped holds the arrays of the context, and is given
    back. Each mapping, registration and deregistration may fail.
  \<^item> \<open>Session\<close>: one client and one server as the step relation \<open>session_step\<close> over both event loops, both
    completion threads, the wire and the application thread; invariants by rule induction on \<open>session_reach\<close>.
  \<^item> \<open>Pipeline\<close>: from the state of a session and the constructed context to the environment of a kernel, with the caches
    the session has selected; there is none when a cache pointer was never assigned.
  \<^item> \<open>Deployment\<close>: all parameters of a run of the system in one record, from the conversion tool to the card and
    the scheduler; \<open>deployed\<close> states what is assumed of them. The properties below compose all of it.

  \<^bold>\<open>State and operations.\<close> A C++ class or struct is a record; pointers into arrays are indices; machine integers
  are words of their width; exceptions and \<open>rc_die\<close> are values of sum types. A loop that need not end is a
  \<open>partial_function\<close> over option, so that \<open>None\<close> is a loop that never returns, and every correctness theorem shows
  \<open>Some\<close>. The chunk loop of the server has fuel, one more than the bytes of the file, which is more than its chunks. A signed overflow
  and the use of an uninitialised pointer are \<open>None\<close> as well. Parallel
  loops run their calls in an order that the parameter \<open>env_sched\<close> leaves open: a schedule splits a range
  into subranges of workers, and the theorems hold for every split. In the theories of the kernels one callback runs at
  a time; in their parallel versions the callbacks of the workers interleave access by access, and a weak
  compare-and-exchange may fail spuriously up to a given number of times.

  \<^bold>\<open>Hypotheses.\<close> \<open>nic_ok\<close>: the card accepts a valid chain of reads after finitely many \<open>ENOMEM\<close> answers and writes
  the words of each read in ascending order, as the source relies on when it spins on the first and the
  last word; \<open>nic_ready\<close>: it never answers \<open>ENOMEM\<close>, which only the loops that post without retrying need. \<open>coherent\<close>: a
  cached vertex has the neighbours of the remote one; \<open>caches_agree\<close> gives this for the caches of a session. \<open>splits\<close>: the scheduler covers a range
  once. \<open>maps_file\<close>: a mapping of a file shows its bytes. \<open>env_ok\<close> collects them with the absence of
  overflow in the sizes of the buffers. Every theorem with hypotheses has a witness on a small graph.

  \<^bold>\<open>Not modelled.\<close> Log output other than the statistics, and option parsing; \<open>src/server_runtime.cpp\<close> and
  \<open>src/RDMA_array.hpp\<close>, which are not built and for the most part commented out; \<open>include/tcmalloc_extensions.hpp\<close>;
  the classes of the vertex caches, which are not in the repository: what a cache file holds is the parameter \<open>cache_lib\<close>, and
  the lookups of the iterators read it. The memory order of the atomics is not modelled (every access takes effect at once for
  all workers), nor that the flag of the independent-set kernel is a plain variable and its concurrent accesses formally a data race.
  The \<open>long\<close> accumulators of \<open>FG_stats\<close> are unbounded integers. The sessions are those of a server without
  \<open>--hp\<close>; the completion queue has no bound on its entries.
\<close>

text \<open>
  C1. From an edge list to distances. The edge list is converted by \<open>edge_list_to_csr\<close>, the server maps the edge
  file, the client reads the index file, and in some reachable state of the session (any interleaving) the client
  has started the search. Then the context that the kernel constructs exists, its peer address and key name
  a region the server holds, the cache pointers of the session are initialised, and for every start vertex the kernel
  returns on that context, reading those caches, with, for every vertex, the length of
  a shortest path in the given edge list, or \<open>NULLVERT\<close> if there is none. The window must not
  overflow its 32-bit size, and the list must not be empty (the buffer would be). The caches are those the options \<open>vm\<close>
  select: with a cache ratio, the name of the cache file has one of the two extensions the client knows, and a loaded
  \<open>CacheManager\<close> agrees with the edge file (\<open>caches_agree\<close>). The server runs without \<open>--hp\<close>.
\<close>

theorem bfs_end_to_end:
  assumes "encode_unweighted u presorted input = Some (idx, adj_bytes)"
    and "edges_ok id (stored_edges u input)" "presorted \<longrightarrow> sorted (map fst (fst (read_edges u input)))" "input \<noteq> []"
    and "maps_file os adj_file adj_bytes" "ce_fs env ifile = Some \<lparr> regular = True, opens = True, contents = idx \<rparr>"
    and "session_reach os env lib vm (init_session adj_file vm ifile k) s" "cs_app_thread (user (cl s)) = Some Bfs"
    and "\<forall>v. 4 * (unat (opt_edgewindow po) * length (filter (\<lambda>e. fst e = v) (stored_edges u input))) < 2 ^ 32"
    and "0 < opt_edgewindow po" "0 < opt_threads po" "unat (opt_threads po) < 2 ^ 30"
    and "caches_agree clib vm (ce_fs env) ifile adj_bytes" "0 < opt_wr_window bo"
    and "\<forall>A remote j. nic_ok (nics A remote j) A remote" "\<forall>j lo hi. splits (unat (opt_threads po)) lo hi (sched j lo hi)"
  shows "\<exists>a r c E. cs_app (user (cl s)) = Some a \<and> r \<in> fst ` set (held (user (sv s))) \<and>
    cs_peer_addr (user (cl s)) = r_addr r \<and> cs_peer_rkey (user (cl s)) = r_rkey r \<and>
    mk_Generic_ctx al (ce_fs env) po ifile (app_num_edges a) bfs_default b = Inr c \<and>
    kernel_env bo nics sched lkey buf clib (user (cl s)) r c = Some E \<and>
    (\<forall>start < g_num_vertices c. \<exists>rounds st'.
       bfs_kernel E t start (kernel_state bo fg c) = Some (Inr (rounds, st')) \<and>
       (\<forall>v < g_num_vertices c.
          if (start, v) \<in> (set (stored_edges u input))\<^sup>*
          then unat (parent (verts (cb st') ! unat v)) = (LEAST k. (start, v) \<in> set (stored_edges u input) ^^ k)
          else parent (verts (cb st') ! unat v) = NULLVERT))"
proof -
  obtain a re c E where s: "cs_app (user (cl s)) = Some a" "re \<in> set (held (user (sv s)))"
    "cs_peer_addr (user (cl s)) = r_addr (fst re)" "cs_peer_rkey (user (cl s)) = r_rkey (fst re)"
    "mk_Generic_ctx al (ce_fs env) po ifile (app_num_edges a) bfs_default b = Inr c"
    "kernel_env bo nics sched lkey buf clib (user (cl s)) (fst re) c = Some E"
    and E: "env_ok E" "st_ok E (kernel_state bo fg c)" "fresh E bfs_default (cb (kernel_state bo fg c))"
      "edge_rel E = set (stored_edges u input)" "total_verts E = g_num_vertices c"
    by (rule session_kernel [OF assms, where al = al and vinit = bfs_default and b = b and fg = fg and lkey = lkey and buf = buf],
        rule that, assumption+)
  have "\<exists>rounds st'. bfs_kernel E t start (kernel_state bo fg c) = Some (Inr (rounds, st')) \<and>
       (\<forall>v < g_num_vertices c.
          if (start, v) \<in> (set (stored_edges u input))\<^sup>*
          then unat (parent (verts (cb st') ! unat v)) = (LEAST k. (start, v) \<in> set (stored_edges u input) ^^ k)
          else parent (verts (cb st') ! unat v) = NULLVERT)" if "start < g_num_vertices c" for start
    using bfs_kernel_correct [OF E(1-3), of start t] that unfolding E(4,5) Let_def by metis
  then show ?thesis using s by blast
qed

theorem bfs_end_to_end_witness:
  "\<exists>s a r c E rounds st'.
    session_reach (demo_os [1, 0, 0, 0]) demo_client_env (\<lambda>_. True) demo_vm (init_session ''g.adj'' demo_vm ''g.idx'' 1) s \<and>
    cs_app (user (cl s)) = Some a \<and> r \<in> fst ` set (held (user (sv s))) \<and>
    mk_Generic_ctx (\<lambda>n _. n) (ce_fs demo_client_env) demo_options ''g.idx'' (app_num_edges a) bfs_default SINGLE = Inr c \<and>
    kernel_env demo_build (\<lambda>A m j. slow_nic A m 1) (\<lambda>j lo hi. [(0, lo, hi)]) 7 0 demo_caches (user (cl s)) r c = Some E \<and>
    bfs_kernel E 0 0
      (kernel_state demo_build (FG_stats.make [] [] [] [] [] [] [] [] [] [] 0 0 0 0 0 0 0 0 0 0 0 0) c) = Some (Inr (rounds, st'))"
proof -
  obtain s where s: "session_reach (demo_os [1, 0, 0, 0]) demo_client_env (\<lambda>_. True) demo_vm (init_session ''g.adj'' demo_vm ''g.idx'' 1) s"
    "cs_app_thread (user (cl s)) = Some Bfs" by (rule demo_reach)
  have e: "edges_ok id (stored_edges False [(0, 1)])" by (simp add: edges_ok_def stored_edges_def)
  have m: "maps_file (demo_os [1, 0, 0, 0]) ''g.adj'' [1, 0, 0, 0]" by (rule demo_maps_file) simp
  have f: "ce_fs demo_client_env ''g.idx'' = Some \<lparr> regular = True, opens = True, contents = replicate 8 0 @ 1 # replicate 7 0 \<rparr>"
    by (simp add: demo_client_env_def demo_env_with_def)
  have w: "\<forall>v. 4 * (unat (opt_edgewindow demo_options) * length (filter (\<lambda>e. fst e = v) (stored_edges False [(0, 1)]))) < 2 ^ 32"
    by (simp add: demo_options_def stored_edges_def)
  have o: "0 < opt_edgewindow demo_options" "0 < opt_threads demo_options" "unat (opt_threads demo_options) < 2 ^ 30" by (simp_all add: demo_options_def)
  have a: "caches_agree demo_caches demo_vm (ce_fs demo_client_env) ''g.idx'' [1, 0, 0, 0]" "0 < opt_wr_window demo_build"
    by (rule caches_agree_none, simp_all add: demo_vm_def demo_vm_with_def demo_build_def)
  have n: "\<forall>A remote j. nic_ok ((\<lambda>A m j. slow_nic A m 1) A remote j) A remote" by (simp add: nic_ok_slow)
  have sp: "\<forall>j lo hi. splits (unat (opt_threads demo_options)) lo hi ((\<lambda>j lo hi. [(0, lo, hi)]) j lo hi)"
    by (simp add: splits_def demo_options_def)
  have i: "False \<longrightarrow> sorted (map fst (fst (read_edges False [(0, 1)])))" "[(0 :: u32, 1 :: u32)] \<noteq> []" by simp_all
  show ?thesis
    using bfs_end_to_end [OF demo_encoded e i m f s w o a n sp, where al = "\<lambda>n _. n" and b = SINGLE and lkey = 7 and buf = 0 and t = 0
        and fg = "FG_stats.make [] [] [] [] [] [] [] [] [] [] 0 0 0 0 0 0 0 0 0 0 0 0"]
  proof (elim exE conjE, goal_cases)
    case (1 a r c E)
    have "0 < g_num_vertices c" using 1(5) demo_num_verts by (auto simp: mk_Generic_ctx_def Let_def split: sum.splits)
    from 1(7) [rule_format, OF this] obtain rounds st' where
      "bfs_kernel E 0 0 (kernel_state demo_build (FG_stats.make [] [] [] [] [] [] [] [] [] [] 0 0 0 0 0 0 0 0 0 0 0 0) c) = Some (Inr (rounds, st'))"
      by (elim exE conjE) (rule that)
    then show ?case using 1(1,2,5,6) s(1) by blast
  qed
qed

text \<open>
  C2. From a text file to components, with interleaved callbacks. The tool \<open>edge_list_to_csr\<close> runs on the text of an
  edge list; a server maps the edge file it wrote, a client reads the index file, and
  in some reachable state of their session the client has started label propagation. Then the tool has exited with
  status 0, the context of the kernel
  can be constructed, every execution of the kernel on it ends, however the accesses of the workers interleave and
  however often, up to a bound, a weak exchange fails spuriously, and at the end the label of every vertex is
  the smallest vertex that reaches it in the edge list. A cache the client is started with agrees with the edge file.
\<close>

theorem cc_text_to_components:
  assumes "deployed D es" "session_states D s" "cs_app_thread (user (cl s)) = Some Connected_components"
  shows "fst (convert D) = Exit_status 0 \<and> (\<exists>r c E. r \<in> fst ` set (held (user (sv s))) \<and> construct D s \<lparr> cc_id = 0 \<rparr> = Some (Inr c) \<and>
    env_in D s r c = Some E \<and>
    (let start = (Between, 0, cc_init E t (state_in D c))
     in ends (cc_kernel_step E spurious) start \<and>
        (\<forall>last. (cc_kernel_step E spurious)\<^sup>*\<^sup>* start last \<longrightarrow> (\<nexists>d. cc_kernel_step E spurious last d) \<longrightarrow>
          (\<exists>n s'. last = (Between, n, s') \<and>
             (\<forall>v < g_num_vertices c. cc_id (verts s' ! unat v) =
                Min {w. w < g_num_vertices c \<and> (w, v) \<in> (set (stored_edges (d_undirected D) es))\<^sup>*})))))"
proof -
  obtain r c E where E: "fst (convert D) = Exit_status 0" "r \<in> fst ` set (held (user (sv s)))"
    "construct D s \<lparr> cc_id = 0 \<rparr> = Some (Inr c)" "env_in D s r c = Some E" "env_ok E" "fresh E \<lparr> cc_id = 0 \<rparr> (state_in D c)"
    "edge_rel E = set (stored_edges (d_undirected D) es)" "total_verts E = g_num_vertices c"
    using deployed_environment [OF assms] by metis
  show ?thesis using cc_kernel_parallel [OF E(5,6), of spurious t] E(1-4) unfolding E(7,8) Let_def by blast
qed

theorem cc_text_to_components_witness:
  "\<exists>s r c E. session_states (demo_deployment False ''CC'' 1) s \<and> construct (demo_deployment False ''CC'' 1) s \<lparr> cc_id = 0 \<rparr> = Some (Inr c) \<and>
     env_in (demo_deployment False ''CC'' 1) s r c = Some E \<and>
     ends (cc_kernel_step E 1) (Between, 0, cc_init E 0 (state_in (demo_deployment False ''CC'' 1) c))"
proof -
  obtain s where s: "session_states (demo_deployment False ''CC'' 1) s" "cs_app_thread (user (cl s)) = Some Connected_components"
    by (rule demo_session [of "''CC''" Connected_components False]) (simp add: dispatch_kernel_def)
  from cc_text_to_components [OF demo_deployed s, of 0 1] s(1) show ?thesis unfolding Let_def by blast
qed

text \<open>
  C3. From a text file to a maximal independent set, with interleaved callbacks. As before, with the tool run with
  \<open>--make-undirected\<close> and the client running the independent-set kernel. If \<open>total_verts / divisor\<close> is not zero and
  does not overflow, and no post of a work request finds the send queue full (\<open>nic_ready\<close>: the last loop of a round posts
  without retrying and ends the process on \<open>ENOMEM\<close>), every execution ends, and at the end the process has not
  been aborted and the vertices flagged \<open>IN\<close> form a set without edges of the list between different members, to which no vertex can be added.
\<close>

theorem mis_text_to_set:
  assumes "deployed D es" "d_undirected D" "session_states D s" "cs_app_thread (user (cl s)) = Some Mis"
    and "\<forall>A remote j. nic_ready (d_nics D A remote j)"
  shows "fst (convert D) = Exit_status 0 \<and> (\<exists>r c E. r \<in> fst ` set (held (user (sv s))) \<and> construct D s \<lparr> flag = UNDECIDED \<rparr> = Some (Inr c) \<and>
    env_in D s r c = Some E \<and>
    (let delta = g_num_vertices c div opt_delta (d_options D);
         start = process.Running (mis_begin E who (kstate.extend (state_in D c) \<lparr> n_decided = [], next_frontier_size = [] \<rparr>))
     in 0 < delta \<longrightarrow> unat (g_num_vertices c) + unat delta < 2 ^ 32 \<longrightarrow>
        ends (mis_kernel_step E delta) start \<and>
        (\<forall>last. (mis_kernel_step E delta)\<^sup>*\<^sup>* start last \<longrightarrow> (\<nexists>d. mis_kernel_step E delta last d) \<longrightarrow>
          (\<exists>l s' I. last = process.Running (Between, l, s') \<and> I = {v. v < g_num_vertices c \<and> flag (verts s' ! unat v) = IN} \<and>
             (\<forall>u \<in> I. \<forall>v \<in> I. u \<noteq> v \<longrightarrow> (u, v) \<notin> set es) \<and>
             (\<forall>v. v < g_num_vertices c \<longrightarrow> v \<notin> I \<longrightarrow> (\<exists>w \<in> I. (v, w) \<in> set es \<or> (w, v) \<in> set es))))))"
proof -
  obtain r c E where E: "fst (convert D) = Exit_status 0" "r \<in> fst ` set (held (user (sv s)))"
    "construct D s \<lparr> flag = UNDECIDED \<rparr> = Some (Inr c)" "env_in D s r c = Some E" "env_ok E" "fresh E \<lparr> flag = UNDECIDED \<rparr> (state_in D c)"
    "shows_edges (stored_edges (d_undirected D) es) E" "edge_rel E = set (stored_edges (d_undirected D) es)"
    "total_verts E = g_num_vertices c" "env_nic E = d_nics D (env_args E) (env_remote E)"
    using deployed_environment [OF assms(1,3,4)] by metis
  let ?delta = "g_num_vertices c div opt_delta (d_options D)" and ?n = "g_num_vertices c"
  have ready: "env_ready E" using E(5,10) assms(5) by (simp add: env_ready_def)
  have nb: "w \<in> set (nb E v) \<longleftrightarrow> (v, w) \<in> set es \<or> (w, v) \<in> set es" if "v < ?n" for v w
    using shows_edges_rel [OF E(7), of v w] that assms(2) by (force simp: stored_edges_def E(9))
  have sy: "sym (edge_rel E)" using assms(2) unfolding E(8) by (auto simp: stored_edges_def sym_def)
  note k = mis_kernel_parallel [OF E(5) fresh_extend [OF E(6)], of ?delta who "\<lparr> n_decided = [], next_frontier_size = [] \<rparr>", unfolded E(9)]
  let ?start = "process.Running (mis_begin E who (kstate.extend (state_in D c) \<lparr> n_decided = [], next_frontier_size = [] \<rparr>))"
  have left: "\<exists>l s' I. last = process.Running (Between, l, s') \<and> I = {v. v < ?n \<and> flag (verts s' ! unat v) = IN} \<and>
        (\<forall>u \<in> I. \<forall>v \<in> I. u \<noteq> v \<longrightarrow> (u, v) \<notin> set es) \<and>
        (\<forall>v. v < ?n \<longrightarrow> v \<notin> I \<longrightarrow> (\<exists>w \<in> I. (v, w) \<in> set es \<or> (w, v) \<in> set es))"
    if d: "0 < ?delta" "unat ?n + unat ?delta < 2 ^ 32"
      and run: "(mis_kernel_step E ?delta)\<^sup>*\<^sup>* ?start last" "\<nexists>d. mis_kernel_step E ?delta last d" for last
  proof -
    obtain l s' I where I: "last = process.Running (Between, l, s')" "I = {v. v < ?n \<and> flag (verts s' ! unat v) = IN}"
      "\<forall>v. v < ?n \<longrightarrow> v \<notin> I \<longrightarrow> (\<exists>w \<in> I. w \<in> set (nb E v))" "\<forall>u \<in> I. \<forall>v \<in> I. u \<noteq> v \<longrightarrow> v \<notin> set (nb E u)"
      using k [OF d, THEN conjunct2, rule_format, OF run] ready sy unfolding Let_def by blast
    then show ?thesis using nb by (intro exI [of _ l] exI [of _ s'] exI [of _ I]) auto
  qed
  show ?thesis
    unfolding Let_def using E(1-4) k [THEN conjunct1] left by (intro conjI exI [of _ r] exI [of _ c] exI [of _ E] impI allI)
qed

theorem mis_text_to_set_witness:
  "\<exists>s r c E. session_states (demo_deployment True ''MIS'' 0) s \<and> construct (demo_deployment True ''MIS'' 0) s \<lparr> flag = UNDECIDED \<rparr> = Some (Inr c) \<and>
     env_in (demo_deployment True ''MIS'' 0) s r c = Some E \<and>
     ends (mis_kernel_step E (g_num_vertices c)) (process.Running
       (mis_begin E (\<lambda>v. 0) (kstate.extend (state_in (demo_deployment True ''MIS'' 0) c) \<lparr> n_decided = [], next_frontier_size = [] \<rparr>)))"
proof -
  let ?D = "demo_deployment True ''MIS'' 0"
  obtain s where s: "session_states ?D s" "cs_app_thread (user (cl s)) = Some Mis"
    by (rule demo_session [of "''MIS''" Mis True]) (simp add: dispatch_kernel_def)
  have u: "d_undirected ?D" "opt_delta (d_options ?D) = 1" by (simp_all add: demo_deployment_def demo_options_def)
  have r: "\<forall>A remote j. nic_ready (d_nics ?D A remote j)" by (simp add: demo_deployment_def nic_ready_def slow_nic_def ENOMEM_def)
  from mis_text_to_set [OF demo_deployed u(1) s r, of "\<lambda>v. 0"] obtain r c E
    where c: "construct ?D s \<lparr> flag = UNDECIDED \<rparr> = Some (Inr c)" "env_in ?D s r c = Some E"
    and e: "0 < g_num_vertices c \<Longrightarrow> unat (g_num_vertices c) + unat (g_num_vertices c) < 2 ^ 32 \<Longrightarrow>
      ends (mis_kernel_step E (g_num_vertices c)) (process.Running
        (mis_begin E (\<lambda>v. 0) (kstate.extend (state_in ?D c) \<lparr> n_decided = [], next_frontier_size = [] \<rparr>)))"
    unfolding Let_def u(2) by auto
  have "g_num_vertices c = 2" by (rule demo_vertices [OF c(1)])
  then show ?thesis using s(1) c e by (intro exI [of _ s] exI [of _ r] exI [of _ c] exI [of _ E]) simp
qed

text \<open>
  C4. From a text file to the k-core, with interleaved callbacks. As before, with the client running the k-core kernel. Every
  execution ends, and at the end the vertices whose counter is at least \<open>k\<close> are the largest set in
  which every vertex has, in the edge list and its reverse together, at least \<open>k\<close> edges to vertices of the set.
\<close>

theorem kcore_text_to_core:
  assumes "deployed D es" "d_undirected D" "session_states D s" "cs_app_thread (user (cl s)) = Some Kcore"
  shows "fst (convert D) = Exit_status 0 \<and> (\<exists>r c E. r \<in> fst ` set (held (user (sv s))) \<and> construct D s \<lparr> degree = 0 \<rparr> = Some (Inr c) \<and>
    env_in D s r c = Some E \<and>
    (let k = opt_kcore_k (d_options D); start = (Between, 0, kcore_init E k who (state_in D c));
         core = (\<lambda>S. S \<subseteq> {v. v < g_num_vertices c} \<and> (\<forall>w \<in> S. unat k \<le> edges_from_into (stored_edges True es) w S))
     in ends (kcore_kernel_step E k) start \<and>
        (\<forall>last. (kcore_kernel_step E k)\<^sup>*\<^sup>* start last \<longrightarrow> (\<nexists>d. kcore_kernel_step E k last d) \<longrightarrow>
          (\<exists>n s' K. last = (Between, n, s') \<and> K = {v. v < g_num_vertices c \<and> k \<le> degree (verts s' ! unat v)} \<and>
             core K \<and> (\<forall>S. core S \<longrightarrow> S \<subseteq> K)))))"
proof -
  obtain r c E where E: "fst (convert D) = Exit_status 0" "r \<in> fst ` set (held (user (sv s)))"
    "construct D s \<lparr> degree = 0 \<rparr> = Some (Inr c)" "env_in D s r c = Some E" "env_ok E" "fresh E \<lparr> degree = 0 \<rparr> (state_in D c)"
    "shows_edges (stored_edges True es) E" "total_verts E = g_num_vertices c"
    using deployed_environment [OF assms(1,3,4)] assms(2) by metis
  have core: "is_core E n S \<longleftrightarrow>
      S \<subseteq> {v. v < g_num_vertices c} \<and> (\<forall>w \<in> S. n \<le> edges_from_into (stored_edges True es) w S)" for n S
    using shows_edges_into [OF E(7)] by (auto simp: is_core_def subset_iff E(8))
  note k = kcore_kernel_parallel [OF E(5) shows_edges_symmetric [OF E(7)] E(6), of "opt_kcore_k (d_options D)" who, unfolded core E(8)]
  show ?thesis
    unfolding Let_def
  proof (intro conjI exI [of _ r] exI [of _ c] exI [of _ E] allI impI, rule E(1), rule E(2), rule E(3), rule E(4), rule k [THEN conjunct1], goal_cases)
    case (1 last)
    from k [THEN conjunct2, rule_format, OF this] show ?case by (elim exE conjE) (intro exI conjI, assumption+)
  qed
qed

theorem kcore_text_to_core_witness:
  "\<exists>s r c E. session_states (demo_deployment True ''kcore'' 1) s \<and> construct (demo_deployment True ''kcore'' 1) s \<lparr> degree = 0 \<rparr> = Some (Inr c) \<and>
     env_in (demo_deployment True ''kcore'' 1) s r c = Some E \<and>
     ends (kcore_kernel_step E 2) (Between, 0, kcore_init E 2 (\<lambda>v. 0) (state_in (demo_deployment True ''kcore'' 1) c))"
proof -
  let ?D = "demo_deployment True ''kcore'' 1"
  obtain s where s: "session_states ?D s" "cs_app_thread (user (cl s)) = Some Kcore"
    by (rule demo_session [of "''kcore''" Kcore True]) (simp add: dispatch_kernel_def)
  have u: "d_undirected ?D" "opt_kcore_k (d_options ?D) = 2" by (simp_all add: demo_deployment_def demo_options_def)
  from kcore_text_to_core [OF demo_deployed u(1) s, of "\<lambda>v. 0"] s(1) show ?thesis unfolding Let_def u(2) by blast
qed

end
